(* ===== verification/Prelude.thy ===== *)
theory Prelude
  imports Main "HOL-Library.Word" "HOL-Library.Multiset" "HOL-Library.Sublist"
begin

unbundle bit_operations_syntax

text \<open>
  What every component shares: the machine types of the C code, the error
  numbers the code returns, and generic facts on words and lists.
\<close>

section \<open>Machine types\<close>

type_synonym u32 = "32 word"
type_synonym u16 = "16 word"
type_synonym u64 = "64 word"

text \<open>An object that the code handles through a pointer is named by its address.\<close>

type_synonym addr = nat

section \<open>Collections\<close>

named_theorems ring_simps \<open>branches of the ring operations\<close>
named_theorems word_nat \<open>moving word arithmetic to natural numbers\<close>

section \<open>Error numbers\<close>

text \<open>The values of the Linux \<^verbatim>\<open>errno.h\<close>, which the DPDK library is compiled with.\<close>

abbreviation ENOENT :: int where "ENOENT \<equiv> 2"
abbreviation EINVAL :: int where "EINVAL \<equiv> 22"
abbreviation ENOBUFS :: int where "ENOBUFS \<equiv> 105"
abbreviation EDQUOT :: int where "EDQUOT \<equiv> 122"

section \<open>Words\<close>

lemma unat_and_mask [word_nat]:
  fixes w :: "'a::len word"
  assumes "m = 2 ^ k - 1" "k < LENGTH('a)"
  shows "unat (w AND m) = unat w mod 2 ^ k"
proof -
  have "w AND m = take_bit k w"
    using assms by (simp add: take_bit_eq_mask mask_eq_exp_minus_1)
  then have "unat (w AND m) = take_bit k (unat w)"
    by (simp add: unsigned_take_bit_eq)
  then show ?thesis
    by (simp add: take_bit_eq_mod)
qed

lemma unat_add_mod_pow2 [word_nat]:
  fixes a b :: "'a::len word"
  assumes "k \<le> LENGTH('a)"
  shows "unat (a + b) mod 2 ^ k = (unat a + unat b) mod 2 ^ k"
proof -
  have "(2::nat) ^ k dvd 2 ^ LENGTH('a)"
    using assms by (rule le_imp_power_dvd)
  then show ?thesis
    by (simp add: unat_word_ariths mod_mod_cancel)
qed

lemma unat_and_not3:
  fixes n :: u32
  shows "unat (n AND NOT 3) = unat n - unat n mod 4"
proof -
  have three: "unat (n AND 3) = unat n mod 4"
    using unat_and_mask [of "3::u32" 2 n] by simp
  have "n AND NOT 3 = n - (n AND 3)"
    by (subst disjunctive_diff) (auto simp: bit_simps intro: bit_word_eqI)
  moreover have "n AND 3 \<le> n"
    using three by (simp add: word_le_nat_alt)
  ultimately show ?thesis
    using three by (simp add: unat_sub)
qed

lemma sint_word32: "sint (w :: u32) = uint w - (if bit w 31 then 2 ^ 32 else 0)"
proof -
  have "take_bit 32 (uint w) = uint w"
    by (rule take_bit_int_eq_self) (use unsigned_less [of w] in auto)
  then show ?thesis
    by (simp add: sint_uint signed_take_bit_eq_take_bit_minus bit_uint_iff)
qed

lemma not_bit31_if_small:
  fixes w :: u32
  assumes "unat w < 2 ^ 31"
  shows "\<not> bit w 31"
proof -
  have "unat w div 2 ^ 31 = 0" using assms by simp
  then have "\<not> bit (unat w) 31" by (simp add: bit_iff_odd)
  then show ?thesis by (simp add: bit_unsigned_iff)
qed

lemma sint_small32: "unat (w :: u32) < 2 ^ 31 \<Longrightarrow> sint w = int (unat w)"
  using not_bit31_if_small [of w] by (simp add: sint_word32)

lemma sint_or_top32:
  fixes w :: u32
  assumes "unat w < 2 ^ 31"
  shows "sint (w OR 0x80000000) = int (unat w) - 2 ^ 31"
proof -
  have nb: "\<not> bit w 31" by (rule not_bit31_if_small [OF assms])
  have top: "bit (0x80000000 :: u32) n \<longleftrightarrow> n = 31" for n
  proof -
    have "bit ((2::u32) ^ 31) n \<longleftrightarrow> n = 31" unfolding bit_exp_iff by auto
    then show ?thesis by simp
  qed
  have "w OR 0x80000000 = w + 0x80000000"
    by (rule disjunctive_add [symmetric], unfold top) (use nb in blast)
  moreover have "unat (w + 0x80000000) = unat w + 2 ^ 31"
    using assms by (simp add: unat_word_ariths)
  ultimately have "uint (w OR 0x80000000) = int (unat w) + 2 ^ 31"
    unfolding uint_nat by simp
  moreover have "bit (w OR 0x80000000) 31"
    unfolding bit_or_iff top by simp
  ultimately show ?thesis
    by (simp add: sint_word32)
qed

text \<open>Flag words: a test of one flag is a test of one bit.\<close>

lemma bit_exp_word32: "k < 32 \<Longrightarrow> bit ((2::u32) ^ k) n \<longleftrightarrow> n = k"
  by (auto simp: bit_exp_iff)

lemma and_exp_bit: "(w :: 'a::len word) AND 2 ^ n \<noteq> 0 \<longleftrightarrow> bit w n"
  by (metis and_exp_eq_0_iff_not_bit)

lemma bit_and_not_word:
  fixes v w :: "'a::len word"
  shows "bit (v AND NOT w) n \<longleftrightarrow> bit v n \<and> \<not> bit w n"
  by (auto simp: bit_and_iff bit_not_iff dest: bit_imp_le_length)

lemma and_not_absorb:
  fixes v w :: "'a::len word"
  assumes "v AND w = 0"
  shows "v AND NOT w = v"
proof (rule bit_word_eqI)
  fix n
  have "\<not> (bit v n \<and> bit w n)" using assms bit_and_iff [of v w n] by simp
  then show "bit (v AND NOT w) n \<longleftrightarrow> bit v n" by (simp only: bit_and_not_word) blast
qed

section \<open>Linked lists\<close>

text \<open>The objects reached from \<^term>\<open>p\<close> through the links \<^term>\<open>nxt\<close>, up to the null pointer.\<close>

fun linked :: "('a \<Rightarrow> 'a option) \<Rightarrow> 'a option \<Rightarrow> 'a list \<Rightarrow> bool" where
  "linked nxt p [] \<longleftrightarrow> p = None"
| "linked nxt p (x # xs) \<longleftrightarrow> p = Some x \<and> linked nxt (nxt x) xs"

lemma linked_None [simp]: "linked nxt None xs \<longleftrightarrow> xs = []"
  by (cases xs) auto

lemma linked_Some: "linked nxt (Some x) xs \<longleftrightarrow> (\<exists>ys. xs = x # ys \<and> linked nxt (nxt x) ys)"
  by (cases xs) auto

lemma linked_unique: "linked nxt p xs \<Longrightarrow> linked nxt p ys \<Longrightarrow> xs = ys"
  by (induction xs arbitrary: p ys) (auto simp: linked_Some)

lemma linked_cong: "linked nxt p xs \<Longrightarrow> (\<And>x. x \<in> set xs \<Longrightarrow> nxt' x = nxt x) \<Longrightarrow> linked nxt' p xs"
  by (induction xs arbitrary: p) auto

lemma linked_upd: "x \<notin> set xs \<Longrightarrow> linked (nxt(x := q)) p xs \<longleftrightarrow> linked nxt p xs"
  by (induction xs arbitrary: p) auto

lemma linked_suffix: "linked nxt p (xs @ ys) \<Longrightarrow> \<exists>q. linked nxt q ys \<and> (ys \<noteq> [] \<longrightarrow> q = Some (hd ys))"
  by (induction xs arbitrary: p) (auto, cases ys, auto)

lemma linked_distinct: "linked nxt p xs \<Longrightarrow> distinct xs"
proof (induction xs arbitrary: p)
  case (Cons x xs)
  have "x \<notin> set xs"
  proof
    assume "x \<in> set xs"
    then obtain us vs where xs: "xs = us @ x # vs" by (meson split_list)
    then have "linked nxt (Some x) (x # us @ x # vs)" using Cons.prems by simp
    moreover have "linked nxt (Some x) (x # vs)"
      using linked_suffix [of nxt p "x # us" "x # vs"] Cons.prems xs by auto
    ultimately have "x # us @ x # vs = x # vs" by (rule linked_unique)
    then have "length (us @ x # vs) = length vs" by simp
    then show False by simp
  qed
  then show ?case using Cons by auto
qed simp

text \<open>Two lists joined at the end of the first.\<close>

lemma linked_append:
  "xs \<noteq> [] \<Longrightarrow> distinct xs \<Longrightarrow>
   linked nxt p (xs @ ys) \<longleftrightarrow> linked (nxt(last xs := None)) p xs \<and> linked nxt (nxt (last xs)) ys"
proof (induction xs arbitrary: p)
  case (Cons x xs)
  show ?case
  proof (cases "xs = []")
    case False
    then have "x \<noteq> last xs" using Cons.prems by auto
    then show ?thesis using Cons False by auto
  qed auto
qed simp

end
