(* ===== verification/Rte_Ring.thy ===== *)
theory Rte_Ring
  imports Prelude
begin

unbundle bit_operations_syntax

text \<open>
  The lock-free ring of DPDK (\<^verbatim>\<open>dpdk-2.0.0/lib/librte_ring/rte_ring.h\<close> and
  \<^verbatim>\<open>rte_ring.c\<close>), the channel every other part of the program talks through:
  commands, received and transmitted packets, free connections and ready
  notifications all travel in rings.  Indices are 32-bit words that wrap
  around; they are masked only when a slot is accessed.  The theory gives the
  operations as the header has them, the invariant they keep, and the
  refinement of the ring to a bounded first-in first-out queue.
\<close>

section \<open>Data\<close>

record ring_prod =
  p_watermark :: u32
  p_sp_enqueue :: u32
  p_size :: u32
  p_mask :: u32
  p_head :: u32
  p_tail :: u32

record ring_cons =
  c_sc_dequeue :: u32
  c_size :: u32
  c_mask :: u32
  c_head :: u32
  c_tail :: u32

record 'a rte_ring =
  r_flags :: u32
  r_prod :: ring_prod
  r_cons :: ring_cons
  r_ring :: "'a list"

abbreviation RING_F_SP_ENQ :: u32 where "RING_F_SP_ENQ \<equiv> 1"
abbreviation RING_F_SC_DEQ :: u32 where "RING_F_SC_DEQ \<equiv> 2"
abbreviation RTE_RING_QUOT_EXCEED :: u32 where "RTE_RING_QUOT_EXCEED \<equiv> 0x80000000"
abbreviation RTE_RING_SZ_MASK :: u32 where "RTE_RING_SZ_MASK \<equiv> 0x0fffffff"

datatype rte_ring_queue_behavior = RTE_RING_QUEUE_FIXED | RTE_RING_QUEUE_VARIABLE

section \<open>Creation\<close>

definition POWEROF2 :: "u32 \<Rightarrow> bool" where
  "POWEROF2 x \<longleftrightarrow> (x - 1) AND x = 0"

text \<open>The sizes of the ring header and of a cache line are those of the
  compiled library; pointers are eight bytes wide.\<close>

definition rte_ring_get_memsize :: "int \<Rightarrow> int \<Rightarrow> u32 \<Rightarrow> int" where
  "rte_ring_get_memsize sizeof_ring cache_line cnt =
     (if \<not> POWEROF2 cnt \<or> cnt > RTE_RING_SZ_MASK then - EINVAL
      else let sz = sizeof_ring + uint cnt * 8
           in (sz + (cache_line - 1)) div cache_line * cache_line)"

definition rte_ring_init :: "'a rte_ring \<Rightarrow> u32 \<Rightarrow> u32 \<Rightarrow> 'a rte_ring" where
  "rte_ring_init r cnt flags =
     r\<lparr> r_flags := flags,
        r_prod := \<lparr> p_watermark = cnt,
                    p_sp_enqueue = (if flags AND RING_F_SP_ENQ \<noteq> 0 then 1 else 0),
                    p_size = cnt, p_mask = cnt - 1, p_head = 0, p_tail = 0 \<rparr>,
        r_cons := \<lparr> c_sc_dequeue = (if flags AND RING_F_SC_DEQ \<noteq> 0 then 1 else 0),
                    c_size = cnt, c_mask = cnt - 1, c_head = 0, c_tail = 0 \<rparr> \<rparr>"

text \<open>The memory of the ring comes from \<^verbatim>\<open>rte_memzone_reserve\<close>: the parameter
  \<^term>\<open>reserve\<close> gives the raw ring for a byte size, or nothing.  The entry for
  the list of named rings is allocated with \<^term>\<open>zmalloc_ok\<close>.\<close>

definition rte_ring_create ::
  "int \<Rightarrow> int \<Rightarrow> bool \<Rightarrow> (int \<Rightarrow> 'a rte_ring option) \<Rightarrow> u32 \<Rightarrow> u32 \<Rightarrow> 'a rte_ring option" where
  "rte_ring_create sizeof_ring cache_line zmalloc_ok reserve cnt flags =
     (let ring_size = rte_ring_get_memsize sizeof_ring cache_line cnt in
      if ring_size < 0 then None
      else if \<not> zmalloc_ok then None
      else case reserve ring_size of
             Some mz \<Rightarrow> Some (rte_ring_init mz cnt flags)
           | None \<Rightarrow> None)"

definition rte_ring_set_water_mark :: "'a rte_ring \<Rightarrow> u32 \<Rightarrow> int \<times> 'a rte_ring" where
  "rte_ring_set_water_mark r cnt =
     (if cnt \<ge> p_size (r_prod r) then (- EINVAL, r)
      else let cnt = (if cnt = 0 then p_size (r_prod r) else cnt)
           in (0, r\<lparr> r_prod := (r_prod r)\<lparr> p_watermark := cnt \<rparr> \<rparr>))"

section \<open>Copying the objects\<close>

text \<open>The loop that writes four objects per round, with \<^term>\<open>i\<close> the index in the
  table and \<^term>\<open>idx\<close> the slot.\<close>

function enq_by_four :: "nat \<Rightarrow> 'a list \<Rightarrow> nat \<Rightarrow> nat \<Rightarrow> 'a list \<Rightarrow> 'a list \<times> nat \<times> nat" where
  "enq_by_four n4 obj_table i idx ring =
     (if i < n4
      then enq_by_four n4 obj_table (i + 4) (idx + 4)
             (ring[idx := obj_table ! i, idx + 1 := obj_table ! (i + 1),
                   idx + 2 := obj_table ! (i + 2), idx + 3 := obj_table ! (i + 3)])
      else (ring, i, idx))"
  by auto
termination by (relation "measure (\<lambda>(n4, _, i, _, _). n4 - i)") auto

text \<open>\<^term>\<open>k\<close> single writes from index \<^term>\<open>i\<close> on: the cases of the \<^verbatim>\<open>switch\<close>, which
  fall through, and the two plain loops of the wrapping branch.\<close>

fun enq_one_by_one :: "nat \<Rightarrow> 'a list \<Rightarrow> nat \<Rightarrow> nat \<Rightarrow> 'a list \<Rightarrow> 'a list" where
  "enq_one_by_one 0 obj_table i idx ring = ring"
| "enq_one_by_one (Suc k) obj_table i idx ring =
     enq_one_by_one k obj_table (i + 1) (idx + 1) (ring[idx := obj_table ! i])"

definition ENQUEUE_PTRS :: "'a rte_ring \<Rightarrow> u32 \<Rightarrow> 'a list \<Rightarrow> u32 \<Rightarrow> 'a rte_ring" where
  "ENQUEUE_PTRS r prod_head obj_table n =
     (let size = p_size (r_prod r);
          idx = prod_head AND p_mask (r_prod r);
          ring = r_ring r
      in if idx + n < size
         then let (ring, i, idx) = enq_by_four (unat (n AND NOT 3)) obj_table 0 (unat idx) ring
              in r\<lparr> r_ring := enq_one_by_one (unat (n AND 3)) obj_table i idx ring \<rparr>
         else let k = unat size - unat idx;
                  ring = enq_one_by_one k obj_table 0 (unat idx) ring
              in r\<lparr> r_ring := enq_one_by_one (unat n - k) obj_table k 0 ring \<rparr>)"

text \<open>The copies out of the ring fill the caller's table from index 0 upwards, so
  the table is a list that grows at its end.\<close>

function deq_by_four :: "nat \<Rightarrow> 'a list \<Rightarrow> nat \<Rightarrow> nat \<Rightarrow> 'a list \<Rightarrow> 'a list \<times> nat \<times> nat" where
  "deq_by_four n4 ring i idx obj_table =
     (if i < n4
      then deq_by_four n4 ring (i + 4) (idx + 4)
             (obj_table @ [ring ! idx, ring ! (idx + 1), ring ! (idx + 2), ring ! (idx + 3)])
      else (obj_table, i, idx))"
  by auto
termination by (relation "measure (\<lambda>(n4, _, i, _, _). n4 - i)") auto

fun deq_one_by_one :: "nat \<Rightarrow> 'a list \<Rightarrow> nat \<Rightarrow> 'a list \<Rightarrow> 'a list" where
  "deq_one_by_one 0 ring idx obj_table = obj_table"
| "deq_one_by_one (Suc k) ring idx obj_table =
     deq_one_by_one k ring (idx + 1) (obj_table @ [ring ! idx])"

definition DEQUEUE_PTRS :: "'a rte_ring \<Rightarrow> u32 \<Rightarrow> u32 \<Rightarrow> 'a list" where
  "DEQUEUE_PTRS r cons_head n =
     (let size = c_size (r_cons r);
          idx = cons_head AND p_mask (r_prod r);
          ring = r_ring r
      in if idx + n < size
         then let (obj_table, i, idx) = deq_by_four (unat (n AND NOT 3)) ring 0 (unat idx) []
              in deq_one_by_one (unat (n AND 3)) ring idx obj_table
         else let k = unat size - unat idx;
                  obj_table = deq_one_by_one k ring (unat idx) []
              in deq_one_by_one (unat n - k) ring 0 obj_table)"

declare enq_by_four.simps [simp del] deq_by_four.simps [simp del]

section \<open>Enqueue\<close>

text \<open>The number of objects that will be moved: all of them, or none in fixed
  mode, or what fits in variable mode (\<^term>\<open>None\<close> is the early return).\<close>

definition ring_limit :: "rte_ring_queue_behavior \<Rightarrow> u32 \<Rightarrow> u32 \<Rightarrow> u32 option" where
  "ring_limit behavior n avail =
     (if n > avail
      then (case behavior of
              RTE_RING_QUEUE_FIXED \<Rightarrow> None
            | RTE_RING_QUEUE_VARIABLE \<Rightarrow> if avail = 0 then None else Some avail)
      else Some n)"

text \<open>The return value of an enqueue that moved \<^term>\<open>n\<close> objects when
  \<^term>\<open>free_entries\<close> slots were free.\<close>

definition enqueue_ret :: "'a rte_ring \<Rightarrow> rte_ring_queue_behavior \<Rightarrow> u32 \<Rightarrow> u32 \<Rightarrow> int" where
  "enqueue_ret r behavior free_entries n =
     (if (p_mask (r_prod r) + 1) - free_entries + n > p_watermark (r_prod r)
      then (case behavior of
              RTE_RING_QUEUE_FIXED \<Rightarrow> - EDQUOT
            | RTE_RING_QUEUE_VARIABLE \<Rightarrow> sint (n OR RTE_RING_QUOT_EXCEED))
      else (case behavior of
              RTE_RING_QUEUE_FIXED \<Rightarrow> 0
            | RTE_RING_QUEUE_VARIABLE \<Rightarrow> sint n))"

definition sp_do_enqueue ::
  "'a rte_ring \<Rightarrow> 'a list \<Rightarrow> u32 \<Rightarrow> rte_ring_queue_behavior \<Rightarrow> int \<times> 'a rte_ring" where
  "sp_do_enqueue r obj_table n behavior =
     (let prod_head = p_head (r_prod r);
          cons_tail = c_tail (r_cons r);
          free_entries = p_mask (r_prod r) + cons_tail - prod_head
      in case ring_limit behavior n free_entries of
           None \<Rightarrow> (case behavior of
                      RTE_RING_QUEUE_FIXED \<Rightarrow> (- ENOBUFS, r)
                    | RTE_RING_QUEUE_VARIABLE \<Rightarrow> (0, r))
         | Some n \<Rightarrow>
             let prod_next = prod_head + n;
                 r = r\<lparr> r_prod := (r_prod r)\<lparr> p_head := prod_next \<rparr> \<rparr>;
                 r = ENQUEUE_PTRS r prod_head obj_table n;
                 ret = enqueue_ret r behavior free_entries n
             in (ret, r\<lparr> r_prod := (r_prod r)\<lparr> p_tail := prod_next \<rparr> \<rparr>))"

text \<open>The multi-producer version in its three parts: the reservation that ends the
  compare-and-set loop (\<^term>\<open>Inl\<close> is an early return), the copy, and the
  publication once every earlier reservation is published.  A producer that runs
  alone finds the head unchanged at the compare-and-set and the tail at its own
  reservation, so the loops end at once.\<close>

definition mp_reserve ::
  "'a rte_ring \<Rightarrow> u32 \<Rightarrow> rte_ring_queue_behavior \<Rightarrow> int + (u32 \<times> u32 \<times> u32 \<times> 'a rte_ring)" where
  "mp_reserve r max_n behavior =
     (let prod_head = p_head (r_prod r);
          cons_tail = c_tail (r_cons r);
          free_entries = p_mask (r_prod r) + cons_tail - prod_head
      in case ring_limit behavior max_n free_entries of
           None \<Rightarrow> (case behavior of
                      RTE_RING_QUEUE_FIXED \<Rightarrow> Inl (- ENOBUFS)
                    | RTE_RING_QUEUE_VARIABLE \<Rightarrow> Inl 0)
         | Some n \<Rightarrow> Inr (prod_head, n, free_entries,
                          r\<lparr> r_prod := (r_prod r)\<lparr> p_head := prod_head + n \<rparr> \<rparr>))"

definition mp_publish :: "'a rte_ring \<Rightarrow> u32 \<Rightarrow> u32 \<Rightarrow> 'a rte_ring" where
  "mp_publish r prod_head n = r\<lparr> r_prod := (r_prod r)\<lparr> p_tail := prod_head + n \<rparr> \<rparr>"

definition mp_do_enqueue ::
  "'a rte_ring \<Rightarrow> 'a list \<Rightarrow> u32 \<Rightarrow> rte_ring_queue_behavior \<Rightarrow> int \<times> 'a rte_ring" where
  "mp_do_enqueue r obj_table n behavior =
     (case mp_reserve r n behavior of
        Inl ret \<Rightarrow> (ret, r)
      | Inr (prod_head, n, free_entries, r) \<Rightarrow>
          let r = ENQUEUE_PTRS r prod_head obj_table n
          in (enqueue_ret r behavior free_entries n, mp_publish r prod_head n))"

section \<open>Dequeue\<close>

definition sc_do_dequeue ::
  "'a rte_ring \<Rightarrow> u32 \<Rightarrow> rte_ring_queue_behavior \<Rightarrow> int \<times> 'a list \<times> 'a rte_ring" where
  "sc_do_dequeue r n behavior =
     (let cons_head = c_head (r_cons r);
          prod_tail = p_tail (r_prod r);
          entries = prod_tail - cons_head
      in case ring_limit behavior n entries of
           None \<Rightarrow> (case behavior of
                      RTE_RING_QUEUE_FIXED \<Rightarrow> (- ENOENT, [], r)
                    | RTE_RING_QUEUE_VARIABLE \<Rightarrow> (0, [], r))
         | Some n \<Rightarrow>
             let cons_next = cons_head + n;
                 r = r\<lparr> r_cons := (r_cons r)\<lparr> c_head := cons_next \<rparr> \<rparr>;
                 obj_table = DEQUEUE_PTRS r cons_head n
             in (case behavior of
                   RTE_RING_QUEUE_FIXED \<Rightarrow> 0
                 | RTE_RING_QUEUE_VARIABLE \<Rightarrow> sint n,
                 obj_table, r\<lparr> r_cons := (r_cons r)\<lparr> c_tail := cons_next \<rparr> \<rparr>))"

definition mc_reserve ::
  "'a rte_ring \<Rightarrow> u32 \<Rightarrow> rte_ring_queue_behavior \<Rightarrow> int + (u32 \<times> u32 \<times> 'a rte_ring)" where
  "mc_reserve r max_n behavior =
     (let cons_head = c_head (r_cons r);
          prod_tail = p_tail (r_prod r);
          entries = prod_tail - cons_head
      in case ring_limit behavior max_n entries of
           None \<Rightarrow> (case behavior of
                      RTE_RING_QUEUE_FIXED \<Rightarrow> Inl (- ENOENT)
                    | RTE_RING_QUEUE_VARIABLE \<Rightarrow> Inl 0)
         | Some n \<Rightarrow> Inr (cons_head, n,
                          r\<lparr> r_cons := (r_cons r)\<lparr> c_head := cons_head + n \<rparr> \<rparr>))"

definition mc_publish :: "'a rte_ring \<Rightarrow> u32 \<Rightarrow> u32 \<Rightarrow> 'a rte_ring" where
  "mc_publish r cons_head n = r\<lparr> r_cons := (r_cons r)\<lparr> c_tail := cons_head + n \<rparr> \<rparr>"

definition mc_do_dequeue ::
  "'a rte_ring \<Rightarrow> u32 \<Rightarrow> rte_ring_queue_behavior \<Rightarrow> int \<times> 'a list \<times> 'a rte_ring" where
  "mc_do_dequeue r n behavior =
     (case mc_reserve r n behavior of
        Inl ret \<Rightarrow> (ret, [], r)
      | Inr (cons_head, n, r) \<Rightarrow>
          let obj_table = DEQUEUE_PTRS r cons_head n
          in (case behavior of
                RTE_RING_QUEUE_FIXED \<Rightarrow> 0
              | RTE_RING_QUEUE_VARIABLE \<Rightarrow> sint n, obj_table, mc_publish r cons_head n))"

section \<open>The public operations\<close>

definition rte_ring_mp_enqueue_bulk :: "'a rte_ring \<Rightarrow> 'a list \<Rightarrow> u32 \<Rightarrow> int \<times> 'a rte_ring" where
  "rte_ring_mp_enqueue_bulk r obj_table n = mp_do_enqueue r obj_table n RTE_RING_QUEUE_FIXED"

definition rte_ring_sp_enqueue_bulk :: "'a rte_ring \<Rightarrow> 'a list \<Rightarrow> u32 \<Rightarrow> int \<times> 'a rte_ring" where
  "rte_ring_sp_enqueue_bulk r obj_table n = sp_do_enqueue r obj_table n RTE_RING_QUEUE_FIXED"

definition rte_ring_enqueue_bulk :: "'a rte_ring \<Rightarrow> 'a list \<Rightarrow> u32 \<Rightarrow> int \<times> 'a rte_ring" where
  "rte_ring_enqueue_bulk r obj_table n =
     (if p_sp_enqueue (r_prod r) \<noteq> 0
      then rte_ring_sp_enqueue_bulk r obj_table n
      else rte_ring_mp_enqueue_bulk r obj_table n)"

definition rte_ring_mp_enqueue :: "'a rte_ring \<Rightarrow> 'a \<Rightarrow> int \<times> 'a rte_ring" where
  "rte_ring_mp_enqueue r obj = rte_ring_mp_enqueue_bulk r [obj] 1"

definition rte_ring_sp_enqueue :: "'a rte_ring \<Rightarrow> 'a \<Rightarrow> int \<times> 'a rte_ring" where
  "rte_ring_sp_enqueue r obj = rte_ring_sp_enqueue_bulk r [obj] 1"

definition rte_ring_enqueue :: "'a rte_ring \<Rightarrow> 'a \<Rightarrow> int \<times> 'a rte_ring" where
  "rte_ring_enqueue r obj =
     (if p_sp_enqueue (r_prod r) \<noteq> 0
      then rte_ring_sp_enqueue r obj
      else rte_ring_mp_enqueue r obj)"

definition rte_ring_mc_dequeue_bulk :: "'a rte_ring \<Rightarrow> u32 \<Rightarrow> int \<times> 'a list \<times> 'a rte_ring" where
  "rte_ring_mc_dequeue_bulk r n = mc_do_dequeue r n RTE_RING_QUEUE_FIXED"

definition rte_ring_sc_dequeue_bulk :: "'a rte_ring \<Rightarrow> u32 \<Rightarrow> int \<times> 'a list \<times> 'a rte_ring" where
  "rte_ring_sc_dequeue_bulk r n = sc_do_dequeue r n RTE_RING_QUEUE_FIXED"

definition rte_ring_dequeue_bulk :: "'a rte_ring \<Rightarrow> u32 \<Rightarrow> int \<times> 'a list \<times> 'a rte_ring" where
  "rte_ring_dequeue_bulk r n =
     (if c_sc_dequeue (r_cons r) \<noteq> 0
      then rte_ring_sc_dequeue_bulk r n
      else rte_ring_mc_dequeue_bulk r n)"

text \<open>A single dequeue writes the object through the caller's pointer only when it
  succeeds: \<^term>\<open>None\<close> is the untouched pointer.\<close>

definition rte_ring_mc_dequeue :: "'a rte_ring \<Rightarrow> int \<times> 'a option \<times> 'a rte_ring" where
  "rte_ring_mc_dequeue r =
     (let (ret, objs, r) = rte_ring_mc_dequeue_bulk r 1
      in (ret, case objs of [] \<Rightarrow> None | x # _ \<Rightarrow> Some x, r))"

definition rte_ring_sc_dequeue :: "'a rte_ring \<Rightarrow> int \<times> 'a option \<times> 'a rte_ring" where
  "rte_ring_sc_dequeue r =
     (let (ret, objs, r) = rte_ring_sc_dequeue_bulk r 1
      in (ret, case objs of [] \<Rightarrow> None | x # _ \<Rightarrow> Some x, r))"

definition rte_ring_dequeue :: "'a rte_ring \<Rightarrow> int \<times> 'a option \<times> 'a rte_ring" where
  "rte_ring_dequeue r =
     (if c_sc_dequeue (r_cons r) \<noteq> 0 then rte_ring_sc_dequeue r else rte_ring_mc_dequeue r)"

definition rte_ring_full :: "'a rte_ring \<Rightarrow> bool" where
  "rte_ring_full r \<longleftrightarrow>
     (c_tail (r_cons r) - p_tail (r_prod r) - 1) AND p_mask (r_prod r) = 0"

definition rte_ring_empty :: "'a rte_ring \<Rightarrow> bool" where
  "rte_ring_empty r \<longleftrightarrow> c_tail (r_cons r) = p_tail (r_prod r)"

definition rte_ring_count :: "'a rte_ring \<Rightarrow> u32" where
  "rte_ring_count r = (p_tail (r_prod r) - c_tail (r_cons r)) AND p_mask (r_prod r)"

definition rte_ring_free_count :: "'a rte_ring \<Rightarrow> u32" where
  "rte_ring_free_count r = (c_tail (r_cons r) - p_tail (r_prod r) - 1) AND p_mask (r_prod r)"

definition rte_ring_enqueue_burst :: "'a rte_ring \<Rightarrow> 'a list \<Rightarrow> u32 \<Rightarrow> int \<times> 'a rte_ring" where
  "rte_ring_enqueue_burst r obj_table n =
     (if p_sp_enqueue (r_prod r) \<noteq> 0
      then sp_do_enqueue r obj_table n RTE_RING_QUEUE_VARIABLE
      else mp_do_enqueue r obj_table n RTE_RING_QUEUE_VARIABLE)"

definition rte_ring_dequeue_burst :: "'a rte_ring \<Rightarrow> u32 \<Rightarrow> int \<times> 'a list \<times> 'a rte_ring" where
  "rte_ring_dequeue_burst r n =
     (if c_sc_dequeue (r_cons r) \<noteq> 0
      then sc_do_dequeue r n RTE_RING_QUEUE_VARIABLE
      else mc_do_dequeue r n RTE_RING_QUEUE_VARIABLE)"

section \<open>The copies against a reference\<close>

text \<open>The reference: object \<^term>\<open>i\<close> lives in slot \<^term>\<open>(b + i) mod sz\<close>.\<close>

fun ring_write :: "nat \<Rightarrow> nat \<Rightarrow> 'a list \<Rightarrow> 'a list \<Rightarrow> 'a list" where
  "ring_write sz b [] ring = ring"
| "ring_write sz b (x # xs) ring = ring_write sz (Suc b) xs (ring[b mod sz := x])"

definition ring_read :: "nat \<Rightarrow> nat \<Rightarrow> nat \<Rightarrow> 'a list \<Rightarrow> 'a list" where
  "ring_read sz b n ring = map (\<lambda>i. ring ! ((b + i) mod sz)) [0..<n]"

lemma ring_write_length [simp]: "length (ring_write sz b xs ring) = length ring"
  by (induction xs arbitrary: b ring) auto

lemma ring_write_append:
  "ring_write sz b (xs @ ys) ring = ring_write sz (b + length xs) ys (ring_write sz b xs ring)"
  by (induction xs arbitrary: b ring) auto

lemma ring_write_mod: "ring_write sz (b mod sz) xs ring = ring_write sz b xs ring"
proof (induction xs arbitrary: b ring)
  case (Cons x xs)
  have "ring_write sz (Suc (b mod sz)) xs rg = ring_write sz (Suc b) xs rg" for rg
    using Cons [of "Suc (b mod sz)" rg] Cons [of "Suc b" rg] by (simp add: mod_Suc_eq)
  then show ?case by simp
qed simp

lemma add_mod_neq:
  assumes "0 < i" "i < (sz::nat)"
  shows "(b + i) mod sz \<noteq> b mod sz"
proof
  assume "(b + i) mod sz = b mod sz"
  then have "sz dvd (b + i) - b"
    by (metis le_add1 mod_eq_dvd_iff_nat)
  with assms show False by (simp add: nat_dvd_not_less)
qed

lemma ring_write_nth:
  assumes "i < sz" "length ring = sz" "length xs \<le> sz"
  shows "ring_write sz b xs ring ! ((b + i) mod sz) =
         (if i < length xs then xs ! i else ring ! ((b + i) mod sz))"
  using assms
proof (induction xs arbitrary: b ring i)
  case (Cons x xs)
  let ?rg = "ring[b mod sz := x]"
  from Cons.prems have sz: "0 < sz" "length ?rg = sz" "length xs \<le> sz" by auto
  show ?case
  proof (cases i)
    case 0
    have pos: "(Suc b + (sz - 1)) mod sz = b mod sz"
      using sz by (simp add: mod_simps)
    have "ring_write sz (Suc b) xs ?rg ! ((Suc b + (sz - 1)) mod sz) = ?rg ! (b mod sz)"
      using Cons.IH [of "sz - 1" ?rg "Suc b"] Cons.prems sz pos by auto
    then show ?thesis using 0 pos sz by simp
  next
    case (Suc j)
    have ne: "(b + i) mod sz \<noteq> b mod sz"
      using add_mod_neq [of i sz b] Suc Cons.prems by simp
    have "ring_write sz (Suc b) xs ?rg ! ((Suc b + j) mod sz) =
          (if j < length xs then xs ! j else ?rg ! ((Suc b + j) mod sz))"
      using Cons.IH [of j ?rg "Suc b"] Cons.prems sz Suc by simp
    then show ?thesis using Suc ne by auto
  qed
qed simp

lemma ring_read_length [simp]: "length (ring_read sz b n ring) = n"
  by (simp add: ring_read_def)

lemma ring_read_nth [simp]: "i < n \<Longrightarrow> ring_read sz b n ring ! i = ring ! ((b + i) mod sz)"
  by (simp add: ring_read_def)

lemma ring_read_mod: "ring_read sz (b mod sz) n ring = ring_read sz b n ring"
  by (simp add: ring_read_def mod_simps)

lemma ring_read_add:
  "ring_read sz b (n + m) ring = ring_read sz b n ring @ ring_read sz (b + n) m ring"
  by (rule nth_equalityI) (auto simp: nth_append ring_read_nth algebra_simps)

lemma ring_read_write:
  assumes "length ring = sz" "u + length xs \<le> sz"
  shows "ring_read sz b (u + length xs) (ring_write sz (b + u) xs ring) =
         ring_read sz b u ring @ xs"
proof (rule nth_equalityI)
  fix i assume "i < length (ring_read sz b (u + length xs) (ring_write sz (b + u) xs ring))"
  then have i: "i < u + length xs" by simp
  show "ring_read sz b (u + length xs) (ring_write sz (b + u) xs ring) ! i =
        (ring_read sz b u ring @ xs) ! i"
  proof (cases "i < u")
    case True
    let ?j = "sz - u + i"
    have "b + u + ?j = b + i + sz"
      using assms True by simp
    then have pos: "(b + u + ?j) mod sz = (b + i) mod sz"
      by (simp only: mod_add_self2)
    have "ring_write sz (b + u) xs ring ! ((b + u + ?j) mod sz) = ring ! ((b + u + ?j) mod sz)"
      using ring_write_nth [of ?j sz ring xs "b + u"] assms True by auto
    then show ?thesis using True i pos by (simp add: nth_append)
  next
    case False
    with i have "i - u < length xs" by simp
    then have "ring_write sz (b + u) xs ring ! ((b + u + (i - u)) mod sz) = xs ! (i - u)"
      using ring_write_nth [of "i - u" sz ring xs "b + u"] assms by simp
    then show ?thesis using False i by (simp add: nth_append)
  qed
qed simp

lemma enq_one_by_one_write:
  assumes "i + k \<le> length tbl" "idx + k \<le> sz"
  shows "enq_one_by_one k tbl i idx ring = ring_write sz idx (take k (drop i tbl)) ring"
  using assms
proof (induction k arbitrary: i idx ring)
  case (Suc k)
  then have "drop i tbl = tbl ! i # drop (Suc i) tbl"
    by (simp add: Cons_nth_drop_Suc)
  then show ?case using Suc by simp
qed simp

lemma enq_one_by_one_add:
  "enq_one_by_one (a + b) tbl i idx ring =
   enq_one_by_one b tbl (i + a) (idx + a) (enq_one_by_one a tbl i idx ring)"
  by (induction a arbitrary: i idx ring) auto

lemma enq_by_four_one_by_one:
  assumes "i + 4 * q = n4"
  shows "enq_by_four n4 tbl i idx ring =
         (enq_one_by_one (4 * q) tbl i idx ring, n4, idx + 4 * q)"
  using assms
proof (induction q arbitrary: i idx ring)
  case (Suc q)
  have four: "enq_one_by_one 4 tbl i idx ring =
      ring[idx := tbl ! i, idx + 1 := tbl ! (i + 1), idx + 2 := tbl ! (i + 2),
           idx + 3 := tbl ! (i + 3)]"
    by (simp add: eval_nat_numeral)
  show ?case
    using Suc.prems Suc.IH [of "i + 4" "idx + 4"]
    by (subst enq_by_four.simps) (simp add: four enq_one_by_one_add)
qed (simp add: enq_by_four.simps)

lemma deq_one_by_one_read:
  assumes "idx + k \<le> sz"
  shows "deq_one_by_one k ring idx tbl = tbl @ ring_read sz idx k ring"
  using assms
proof (induction k arbitrary: idx tbl)
  case (Suc k)
  have "ring_read sz idx (Suc k) ring = ring ! idx # ring_read sz (Suc idx) k ring"
    using ring_read_add [of sz idx 1 k ring] Suc.prems by (simp add: ring_read_def)
  then show ?case using Suc by simp
qed (simp add: ring_read_def)

lemma deq_one_by_one_add:
  "deq_one_by_one (a + b) ring idx tbl =
   deq_one_by_one b ring (idx + a) (deq_one_by_one a ring idx tbl)"
  by (induction a arbitrary: idx tbl) auto

lemma deq_by_four_one_by_one:
  assumes "i + 4 * q = n4"
  shows "deq_by_four n4 ring i idx tbl =
         (deq_one_by_one (4 * q) ring idx tbl, n4, idx + 4 * q)"
  using assms
proof (induction q arbitrary: i idx tbl)
  case (Suc q)
  have four: "deq_one_by_one 4 ring idx tbl =
      tbl @ [ring ! idx, ring ! (idx + 1), ring ! (idx + 2), ring ! (idx + 3)]"
    by (simp add: eval_nat_numeral)
  show ?case
    using Suc.prems Suc.IH [of "i + 4" "idx + 4"]
    by (subst deq_by_four.simps) (simp add: four deq_one_by_one_add)
qed (simp add: deq_by_four.simps)

section \<open>The invariant and the abstraction\<close>

text \<open>A ring between two operations: the size is a nonzero power of two within the
  limit of \<^const>\<open>rte_ring_get_memsize\<close>, producer and consumer agree on it, nobody is
  inside an operation (heads equal tails), and at most size minus one slots are
  in use.\<close>

definition ring_inv :: "'a rte_ring \<Rightarrow> bool" where
  "ring_inv r \<longleftrightarrow>
     p_size (r_prod r) \<noteq> 0 \<and> POWEROF2 (p_size (r_prod r)) \<and>
     p_size (r_prod r) \<le> RTE_RING_SZ_MASK \<and>
     c_size (r_cons r) = p_size (r_prod r) \<and>
     p_mask (r_prod r) = p_size (r_prod r) - 1 \<and>
     c_mask (r_cons r) = p_size (r_prod r) - 1 \<and>
     length (r_ring r) = unat (p_size (r_prod r)) \<and>
     p_head (r_prod r) = p_tail (r_prod r) \<and>
     c_head (r_cons r) = c_tail (r_cons r) \<and>
     p_tail (r_prod r) - c_tail (r_cons r) \<le> p_mask (r_prod r)"

definition ring_used :: "'a rte_ring \<Rightarrow> nat" where
  "ring_used r = unat (p_tail (r_prod r) - c_tail (r_cons r))"

definition ring_capacity :: "'a rte_ring \<Rightarrow> nat" where
  "ring_capacity r = unat (p_size (r_prod r)) - 1"

definition ring_contents :: "'a rte_ring \<Rightarrow> 'a list" where
  "ring_contents r =
     ring_read (unat (p_size (r_prod r))) (unat (c_tail (r_cons r))) (ring_used r) (r_ring r)"

lemma ring_contents_length [simp]: "length (ring_contents r) = ring_used r"
  by (simp add: ring_contents_def)

lemma nat_pow2_if_and_pred_zero:
  fixes x :: nat
  assumes "x \<noteq> 0" "(x - 1) AND x = 0"
  shows "\<exists>k. x = 2 ^ k"
proof -
  obtain k where k: "2 ^ k \<le> x" "x < 2 ^ Suc k"
    using ex_power_ivl1 [of 2 x] assms by auto
  have bitk: "bit y k" if "2 ^ k \<le> y" "y < 2 ^ Suc k" for y :: nat
  proof -
    have "y div 2 ^ k = 1" using that by (intro div_nat_eqI) auto
    then show ?thesis by (simp add: bit_iff_odd)
  qed
  have "x = 2 ^ k"
  proof (rule ccontr)
    assume "x \<noteq> 2 ^ k"
    then have "bit ((x - 1) AND x) k"
      using bitk [of x] bitk [of "x - 1"] k by (auto simp: bit_and_iff)
    with assms show False by simp
  qed
  then show ?thesis ..
qed

lemma POWEROF2_imp_pow2:
  assumes "POWEROF2 x" "x \<noteq> 0"
  shows "\<exists>k. unat x = 2 ^ k"
proof -
  have "unat ((x - 1) AND x) = unat (x - 1) AND unat x"
    by (rule unsigned_and_eq)
  moreover have "unat (x - 1) = unat x - 1"
    using assms by (simp add: unat_minus_one)
  ultimately show ?thesis
    using assms nat_pow2_if_and_pred_zero [of "unat x"]
    by (simp add: POWEROF2_def unat_eq_0)
qed

lemma ring_inv_size:
  assumes "ring_inv r"
  obtains k where "k < 28" "unat (p_size (r_prod r)) = 2 ^ k" "p_size (r_prod r) = 2 ^ k"
    "p_mask (r_prod r) = 2 ^ k - 1" "unat (p_mask (r_prod r)) = 2 ^ k - 1"
proof -
  let ?s = "p_size (r_prod r)"
  obtain k where k: "unat ?s = 2 ^ k"
    using assms POWEROF2_imp_pow2 by (auto simp: ring_inv_def)
  have "unat ?s < 2 ^ 28"
    using assms by (auto simp: ring_inv_def word_le_nat_alt)
  with k have "(2::nat) ^ k < 2 ^ 28" by (simp only:)
  then have k28: "k < 28" by (rule power_less_imp_less_exp [rotated]) simp
  have "?s = of_nat (unat ?s)" by simp
  then have s: "?s = 2 ^ k" unfolding k by simp
  moreover have "unat (?s - 1) = 2 ^ k - 1"
    using k assms by (simp add: unat_minus_one ring_inv_def)
  ultimately show ?thesis
    using that [of k] k k28 assms by (simp add: ring_inv_def)
qed

lemma ring_inv_used: "ring_inv r \<Longrightarrow> ring_used r \<le> ring_capacity r"
  by (auto simp: ring_inv_def ring_used_def ring_capacity_def word_le_nat_alt unat_minus_one)

section \<open>What the copies do under the invariant\<close>

text \<open>The facts every operation needs, with word arithmetic already moved to natural
  numbers.\<close>

lemma ring_slot:
  assumes "ring_inv r"
  shows "unat (h AND p_mask (r_prod r)) = unat h mod unat (p_size (r_prod r))"
proof -
  obtain k where "k < 28" "unat (p_size (r_prod r)) = 2 ^ k" "p_mask (r_prod r) = 2 ^ k - 1"
    using assms by (rule ring_inv_size)
  then show ?thesis by (simp add: unat_and_mask)
qed

lemma ring_size_bound: "ring_inv r \<Longrightarrow> unat (p_size (r_prod r)) < 2 ^ 28"
  by (auto simp: ring_inv_def word_le_nat_alt)

lemma ring_size_pos: "ring_inv r \<Longrightarrow> 0 < unat (p_size (r_prod r))"
  by (simp add: ring_inv_def unat_gt_0)

lemma no_wrap_less:
  fixes a b c :: u32
  assumes "unat a < 2 ^ 28" "unat b < 2 ^ 28"
  shows "a + b < c \<longleftrightarrow> unat a + unat b < unat c"
proof -
  have "unat (a + b) = unat a + unat b"
    using assms by (intro unat_add_lem [THEN iffD1]) simp
  then show ?thesis by (simp add: word_less_nat_alt)
qed

lemma ENQUEUE_PTRS_write:
  assumes inv: "ring_inv r"
    and r': "r_ring r' = r_ring r" "p_size (r_prod r') = p_size (r_prod r)"
      "p_mask (r_prod r') = p_mask (r_prod r)"
    and n: "unat n \<le> unat (p_mask (r_prod r))" "unat n \<le> length tbl"
  shows "ENQUEUE_PTRS r' h tbl n =
         r'\<lparr> r_ring := ring_write (unat (p_size (r_prod r))) (unat h)
                        (take (unat n) tbl) (r_ring r) \<rparr>"
proof -
  let ?s = "unat (p_size (r_prod r))" and ?idx = "h AND p_mask (r_prod r)"
  have slot: "unat ?idx = unat h mod ?s" by (rule ring_slot [OF inv])
  have s: "0 < ?s" "?s < 2 ^ 28" "unat (p_mask (r_prod r)) = ?s - 1"
    using inv ring_size_pos ring_size_bound
    by (auto simp: ring_inv_def unat_minus_one)
  have idx: "unat ?idx < ?s" using slot s by simp
  have cond: "?idx + n < p_size (r_prod r) \<longleftrightarrow> unat ?idx + unat n < ?s"
    using idx s n by (intro no_wrap_less) auto
  have three: "unat (n AND 3) = unat n mod 4"
    using unat_and_mask [of "3::u32" 2 n] by simp
  show ?thesis
  proof (cases "unat ?idx + unat n < ?s")
    case True
    have n4: "unat (n AND - 4) = 4 * (unat n div 4)"
      using unat_and_not3 [of n] by (simp add: minus_mod_eq_mult_div)
    have "enq_one_by_one (unat n mod 4) tbl (4 * (unat n div 4)) (unat ?idx + 4 * (unat n div 4))
            (enq_one_by_one (4 * (unat n div 4)) tbl 0 (unat ?idx) (r_ring r))
          = enq_one_by_one (unat n) tbl 0 (unat ?idx) (r_ring r)"
      using enq_one_by_one_add [of "4 * (unat n div 4)" "unat n mod 4" tbl 0 "unat ?idx" "r_ring r"]
      by simp
    also have "\<dots> = ring_write ?s (unat ?idx) (take (unat n) tbl) (r_ring r)"
      using True n by (simp add: enq_one_by_one_write [where sz = ?s])
    finally show ?thesis
      using True cond r' n4 slot
      by (simp add: ENQUEUE_PTRS_def Let_def enq_by_four_one_by_one [where i = 0] three ring_write_mod)
  next
    case False
    let ?k = "?s - unat ?idx"
    have k: "?k \<le> unat n" "unat n - ?k \<le> ?s" "unat n \<le> length tbl"
      using False idx n s by auto
    have "enq_one_by_one (unat n - ?k) tbl ?k 0 (enq_one_by_one ?k tbl 0 (unat ?idx) (r_ring r))
          = ring_write ?s 0 (take (unat n - ?k) (drop ?k tbl))
              (ring_write ?s (unat ?idx) (take ?k tbl) (r_ring r))"
      using k idx by (simp add: enq_one_by_one_write [where sz = ?s])
    also have "\<dots> = ring_write ?s (unat ?idx + ?k) (take (unat n - ?k) (drop ?k tbl))
              (ring_write ?s (unat ?idx) (take ?k tbl) (r_ring r))"
      using idx ring_write_mod [of ?s "unat ?idx + ?k"] by simp
    also have "\<dots> = ring_write ?s (unat ?idx) (take ?k tbl @ take (unat n - ?k) (drop ?k tbl))
              (r_ring r)"
      using k by (simp add: ring_write_append)
    also have "take ?k tbl @ take (unat n - ?k) (drop ?k tbl) = take (unat n) tbl"
      using k by (metis le_add_diff_inverse take_add)
    finally show ?thesis
      using False cond r' slot
      by (simp add: ENQUEUE_PTRS_def Let_def ring_write_mod)
  qed
qed

lemma DEQUEUE_PTRS_read:
  assumes inv: "ring_inv r"
    and r': "r_ring r' = r_ring r" "c_size (r_cons r') = c_size (r_cons r)"
      "p_mask (r_prod r') = p_mask (r_prod r)"
    and n: "unat n \<le> unat (p_mask (r_prod r))"
  shows "DEQUEUE_PTRS r' h n =
         ring_read (unat (p_size (r_prod r))) (unat h) (unat n) (r_ring r)"
proof -
  let ?s = "unat (p_size (r_prod r))" and ?idx = "h AND p_mask (r_prod r)"
  have slot: "unat ?idx = unat h mod ?s" by (rule ring_slot [OF inv])
  have s: "0 < ?s" "?s < 2 ^ 28" "unat (p_mask (r_prod r)) = ?s - 1"
    "c_size (r_cons r) = p_size (r_prod r)"
    using inv ring_size_pos ring_size_bound
    by (auto simp: ring_inv_def unat_minus_one)
  have idx: "unat ?idx < ?s" using slot s by simp
  have cond: "?idx + n < p_size (r_prod r) \<longleftrightarrow> unat ?idx + unat n < ?s"
    using idx s n by (intro no_wrap_less) auto
  have three: "unat (n AND 3) = unat n mod 4"
    using unat_and_mask [of "3::u32" 2 n] by simp
  show ?thesis
  proof (cases "unat ?idx + unat n < ?s")
    case True
    have n4: "unat (n AND - 4) = 4 * (unat n div 4)"
      using unat_and_not3 [of n] by (simp add: minus_mod_eq_mult_div)
    have "deq_one_by_one (unat n mod 4) (r_ring r) (unat ?idx + 4 * (unat n div 4))
            (deq_one_by_one (4 * (unat n div 4)) (r_ring r) (unat ?idx) [])
          = deq_one_by_one (unat n) (r_ring r) (unat ?idx) []"
      using deq_one_by_one_add [of "4 * (unat n div 4)" "unat n mod 4" "r_ring r" "unat ?idx" "[]"]
      by simp
    also have "\<dots> = ring_read ?s (unat ?idx) (unat n) (r_ring r)"
      using True by (simp add: deq_one_by_one_read [where sz = ?s])
    finally show ?thesis
      using True cond r' n4 slot s
      by (simp add: DEQUEUE_PTRS_def Let_def deq_by_four_one_by_one [where i = 0] three ring_read_mod)
  next
    case False
    let ?k = "?s - unat ?idx"
    have k: "?k \<le> unat n" "unat n - ?k \<le> ?s"
      using False idx n s by auto
    have "deq_one_by_one (unat n - ?k) (r_ring r) 0 (deq_one_by_one ?k (r_ring r) (unat ?idx) [])
          = ring_read ?s (unat ?idx) ?k (r_ring r) @ ring_read ?s 0 (unat n - ?k) (r_ring r)"
      using k idx by (simp add: deq_one_by_one_read [where sz = ?s])
    also have "ring_read ?s 0 (unat n - ?k) (r_ring r) =
               ring_read ?s (unat ?idx + ?k) (unat n - ?k) (r_ring r)"
      using idx ring_read_mod [of ?s "unat ?idx + ?k"] by simp
    also have "ring_read ?s (unat ?idx) ?k (r_ring r) @ \<dots> = ring_read ?s (unat ?idx) (unat n) (r_ring r)"
      using k by (simp add: ring_read_add [symmetric])
    finally show ?thesis
      using False cond r' slot s
      by (simp add: DEQUEUE_PTRS_def Let_def ring_read_mod)
  qed
qed

section \<open>What the operations do under the invariant\<close>

definition ring_push :: "'a rte_ring \<Rightarrow> 'a list \<Rightarrow> 'a rte_ring" where
  "ring_push r xs =
     (let t = p_tail (r_prod r) + of_nat (length xs)
      in r\<lparr> r_ring := ring_write (unat (p_size (r_prod r))) (unat (p_tail (r_prod r))) xs (r_ring r),
            r_prod := (r_prod r)\<lparr> p_head := t, p_tail := t \<rparr> \<rparr>)"

definition ring_pop :: "'a rte_ring \<Rightarrow> nat \<Rightarrow> 'a rte_ring" where
  "ring_pop r n =
     (let t = c_tail (r_cons r) + of_nat n
      in r\<lparr> r_cons := (r_cons r)\<lparr> c_head := t, c_tail := t \<rparr> \<rparr>)"

definition ring_watermark :: "'a rte_ring \<Rightarrow> nat" where
  "ring_watermark r = unat (p_watermark (r_prod r))"

lemma ring_capacity_bound: "ring_inv r \<Longrightarrow> ring_capacity r < 2 ^ 28"
  using ring_size_bound [of r] by (simp add: ring_capacity_def)

lemma ring_capacity_mask: "ring_inv r \<Longrightarrow> unat (p_mask (r_prod r)) = ring_capacity r"
  by (auto simp: ring_inv_def ring_capacity_def unat_minus_one)

lemma ring_size_capacity: "ring_inv r \<Longrightarrow> unat (p_size (r_prod r)) = Suc (ring_capacity r)"
  using ring_size_pos [of r] by (simp add: ring_capacity_def)

lemma unat_of_nat_small: "n < 2 ^ 28 \<Longrightarrow> unat (of_nat n :: u32) = n"
  by (simp add: unat_of_nat)

lemma unat_add_small:
  fixes a b :: u32
  assumes "unat a + unat b < 2 ^ 30"
  shows "unat (a + b) = unat a + unat b"
  using assms by (intro unat_add_lem [THEN iffD1]) simp

lemma ring_used_push:
  assumes "ring_inv r" "ring_used r + length xs \<le> ring_capacity r"
  shows "ring_used (ring_push r xs) = ring_used r + length xs"
proof -
  let ?u = "p_tail (r_prod r) - c_tail (r_cons r)"
  have b: "length xs < 2 ^ 28" "ring_used r < 2 ^ 28"
    using assms ring_capacity_bound [of r] by auto
  have eq: "p_tail (r_prod r) + of_nat (length xs) - c_tail (r_cons r) = ?u + of_nat (length xs)"
    by simp
  have "unat (?u + of_nat (length xs)) = unat ?u + length xs"
    using b by (subst unat_add_small) (auto simp: unat_of_nat_small ring_used_def)
  then show ?thesis
    by (simp add: ring_used_def ring_push_def Let_def eq)
qed

lemma ring_push_inv:
  assumes "ring_inv r" "ring_used r + length xs \<le> ring_capacity r"
  shows "ring_inv (ring_push r xs)"
  using assms ring_used_push [OF assms] ring_capacity_mask [of r]
  by (auto simp: ring_inv_def ring_push_def Let_def ring_used_def word_le_nat_alt)

lemma ring_push_contents:
  assumes "ring_inv r" "ring_used r + length xs \<le> ring_capacity r"
  shows "ring_contents (ring_push r xs) = ring_contents r @ xs"
proof -
  let ?s = "unat (p_size (r_prod r))" and ?c = "c_tail (r_cons r)" and ?t = "p_tail (r_prod r)"
  obtain k where k: "k < 28" "?s = 2 ^ k"
    using assms(1) by (rule ring_inv_size)
  have "unat ?t mod ?s = unat (?c + (?t - ?c)) mod ?s" by simp
  also have "\<dots> = (unat ?c + ring_used r) mod ?s"
    using k unat_add_mod_pow2 [of k ?c "?t - ?c"] by (simp add: ring_used_def)
  finally have t: "unat ?t mod ?s = (unat ?c + ring_used r) mod ?s" .
  have "ring_write ?s (unat ?t) xs (r_ring r) = ring_write ?s (unat ?c + ring_used r) xs (r_ring r)"
    using t by (metis ring_write_mod)
  moreover have "length (r_ring r) = ?s"
    using assms(1) by (simp add: ring_inv_def)
  ultimately have "ring_read ?s (unat ?c) (ring_used r + length xs) (ring_write ?s (unat ?t) xs (r_ring r))
      = ring_read ?s (unat ?c) (ring_used r) (r_ring r) @ xs"
    using ring_read_write [of "r_ring r" ?s "ring_used r" xs "unat ?c"] assms
      ring_size_capacity [OF assms(1)] by simp
  then show ?thesis
    using ring_used_push [OF assms] by (simp add: ring_contents_def ring_push_def Let_def)
qed

lemma ring_used_pop:
  assumes "ring_inv r" "n \<le> ring_used r"
  shows "ring_used (ring_pop r n) = ring_used r - n"
proof -
  let ?u = "p_tail (r_prod r) - c_tail (r_cons r)"
  have n: "unat (of_nat n :: u32) = n"
    using assms ring_capacity_bound [of r] ring_inv_used [of r]
    by (intro unat_of_nat_small) auto
  have eq: "p_tail (r_prod r) - (c_tail (r_cons r) + of_nat n) = ?u - of_nat n" by simp
  have "unat (?u - of_nat n) = unat ?u - n"
    using assms n by (subst unat_sub) (auto simp: word_le_nat_alt ring_used_def)
  then show ?thesis
    by (simp add: ring_used_def ring_pop_def Let_def eq)
qed

lemma ring_pop_inv:
  assumes "ring_inv r" "n \<le> ring_used r"
  shows "ring_inv (ring_pop r n)"
  using assms ring_used_pop [OF assms] ring_capacity_mask [of r] ring_inv_used [of r]
  by (auto simp: ring_inv_def ring_pop_def Let_def ring_used_def word_le_nat_alt)

lemma ring_pop_contents:
  assumes "ring_inv r" "n \<le> ring_used r"
  shows "ring_contents (ring_pop r n) = drop n (ring_contents r)"
proof -
  let ?s = "unat (p_size (r_prod r))" and ?c = "c_tail (r_cons r)"
  obtain k where k: "k < 28" "?s = 2 ^ k"
    using assms(1) by (rule ring_inv_size)
  have n: "unat (of_nat n :: u32) = n"
    using assms ring_capacity_bound [of r] ring_inv_used [of r]
    by (intro unat_of_nat_small) auto
  have "unat (?c + of_nat n) mod ?s = (unat ?c + n) mod ?s"
    using k n unat_add_mod_pow2 [of k ?c "of_nat n"] by simp
  then have "ring_read ?s (unat (?c + of_nat n)) m (r_ring r) = ring_read ?s (unat ?c + n) m (r_ring r)" for m
    by (metis ring_read_mod)
  moreover have "ring_read ?s (unat ?c) (ring_used r) (r_ring r) =
      ring_read ?s (unat ?c) n (r_ring r) @ ring_read ?s (unat ?c + n) (ring_used r - n) (r_ring r)"
    using ring_read_add [of ?s "unat ?c" n "ring_used r - n"] assms by simp
  ultimately show ?thesis
    using ring_used_pop [OF assms] by (simp add: ring_contents_def ring_pop_def Let_def)
qed

lemma ring_contents_take:
  "n \<le> ring_used r \<Longrightarrow>
   ring_read (unat (p_size (r_prod r))) (unat (c_tail (r_cons r))) n (r_ring r) =
   take n (ring_contents r)"
  by (rule nth_equalityI) (auto simp: ring_contents_def)

lemma ring_push_keeps [simp]:
  "ring_capacity (ring_push r xs) = ring_capacity r"
  "ring_watermark (ring_push r xs) = ring_watermark r"
  "p_sp_enqueue (r_prod (ring_push r xs)) = p_sp_enqueue (r_prod r)"
  "c_sc_dequeue (r_cons (ring_push r xs)) = c_sc_dequeue (r_cons r)"
  by (simp_all add: ring_push_def Let_def ring_capacity_def ring_watermark_def)

lemma ring_pop_keeps [simp]:
  "ring_capacity (ring_pop r n) = ring_capacity r"
  "ring_watermark (ring_pop r n) = ring_watermark r"
  "p_sp_enqueue (r_prod (ring_pop r n)) = p_sp_enqueue (r_prod r)"
  "c_sc_dequeue (r_cons (ring_pop r n)) = c_sc_dequeue (r_cons r)"
  by (simp_all add: ring_pop_def Let_def ring_capacity_def ring_watermark_def)

text \<open>A producer or consumer that runs alone does the same in both versions.\<close>

lemma mp_do_enqueue_alone: "mp_do_enqueue r tbl n b = sp_do_enqueue r tbl n b"
  by (auto simp: mp_do_enqueue_def sp_do_enqueue_def mp_reserve_def mp_publish_def Let_def
      split: option.splits rte_ring_queue_behavior.splits)

lemma mc_do_dequeue_alone: "mc_do_dequeue r n b = sc_do_dequeue r n b"
  by (auto simp: mc_do_dequeue_def sc_do_dequeue_def mc_reserve_def mc_publish_def Let_def
      split: option.splits rte_ring_queue_behavior.splits)

lemma ring_free_entries:
  assumes "ring_inv r"
  shows "unat (p_mask (r_prod r) + c_tail (r_cons r) - p_head (r_prod r)) =
         ring_capacity r - ring_used r"
proof -
  let ?u = "p_tail (r_prod r) - c_tail (r_cons r)"
  have eq: "p_mask (r_prod r) + c_tail (r_cons r) - p_head (r_prod r) = p_mask (r_prod r) - ?u"
    using assms by (simp add: ring_inv_def)
  show ?thesis unfolding eq
    using assms ring_capacity_mask [OF assms]
    by (subst unat_sub) (auto simp: ring_inv_def ring_used_def)
qed

lemma enqueue_ret_watermark:
  assumes "ring_inv r" "ring_used r + unat n \<le> ring_capacity r"
    "p_mask (r_prod r') = p_mask (r_prod r)" "p_watermark (r_prod r') = p_watermark (r_prod r)"
    "unat free = ring_capacity r - ring_used r"
  shows "enqueue_ret r' b free n =
    (if ring_watermark r \<le> ring_used r + unat n
     then (case b of RTE_RING_QUEUE_FIXED \<Rightarrow> - EDQUOT
                   | RTE_RING_QUEUE_VARIABLE \<Rightarrow> sint (n OR RTE_RING_QUOT_EXCEED))
     else (case b of RTE_RING_QUEUE_FIXED \<Rightarrow> 0 | RTE_RING_QUEUE_VARIABLE \<Rightarrow> sint n))"
proof -
  let ?s = "p_size (r_prod r)"
  have s: "p_mask (r_prod r) + 1 = ?s" "unat ?s = Suc (ring_capacity r)"
    using assms(1) ring_size_capacity by (auto simp: ring_inv_def)
  have u: "ring_used r \<le> ring_capacity r" "ring_capacity r < 2 ^ 28"
    using assms(1) ring_inv_used ring_capacity_bound by auto
  have "unat (?s - free) = Suc (ring_used r)"
    using s u assms(5) by (subst unat_sub) (auto simp: word_le_nat_alt)
  then have "unat (?s - free + n) = Suc (ring_used r + unat n)"
    using assms(2) u by (subst unat_add_small) auto
  then have "?s - free + n > p_watermark (r_prod r) \<longleftrightarrow>
      ring_watermark r \<le> ring_used r + unat n"
    by (auto simp: word_less_nat_alt ring_watermark_def)
  then show ?thesis
    using assms(3,4) s by (simp add: enqueue_ret_def)
qed

text \<open>The one fact on the enqueue: what is moved, and the ring it leaves.\<close>

lemma sp_do_enqueue_some:
  assumes inv: "ring_inv r"
    and lim: "ring_limit b n (p_mask (r_prod r) + c_tail (r_cons r) - p_head (r_prod r)) = Some m"
    and len: "unat n \<le> length tbl"
  shows "ring_used r + unat m \<le> ring_capacity r" "unat m \<le> unat n"
    "sp_do_enqueue r tbl n b =
       (if ring_watermark r \<le> ring_used r + unat m
        then (case b of RTE_RING_QUEUE_FIXED \<Rightarrow> - EDQUOT
                      | RTE_RING_QUEUE_VARIABLE \<Rightarrow> sint (m OR RTE_RING_QUOT_EXCEED))
        else (case b of RTE_RING_QUEUE_FIXED \<Rightarrow> 0 | RTE_RING_QUEUE_VARIABLE \<Rightarrow> sint m),
        ring_push r (take (unat m) tbl))"
proof -
  let ?free = "p_mask (r_prod r) + c_tail (r_cons r) - p_head (r_prod r)"
  have free: "unat ?free = ring_capacity r - ring_used r"
    by (rule ring_free_entries [OF inv])
  have m: "unat m \<le> unat ?free" and mn: "unat m \<le> unat n"
    using lim by (auto simp: ring_limit_def word_less_nat_alt not_less
        split: if_splits rte_ring_queue_behavior.splits)
  show room: "ring_used r + unat m \<le> ring_capacity r"
    using m free ring_inv_used [OF inv] by simp
  show "unat m \<le> unat n" by (rule mn)
  let ?r = "r\<lparr> r_prod := (r_prod r)\<lparr> p_head := p_head (r_prod r) + m \<rparr> \<rparr>"
  have w: "ENQUEUE_PTRS ?r (p_head (r_prod r)) tbl m =
      ?r\<lparr> r_ring := ring_write (unat (p_size (r_prod r))) (unat (p_head (r_prod r)))
                     (take (unat m) tbl) (r_ring r) \<rparr>"
    using inv room mn len ring_capacity_mask [OF inv]
    by (intro ENQUEUE_PTRS_write) auto
  have push: "p_head (r_prod r) = p_tail (r_prod r)" "length (take (unat m) tbl) = unat m"
    using inv mn len by (auto simp: ring_inv_def)
  show "sp_do_enqueue r tbl n b =
       (if ring_watermark r \<le> ring_used r + unat m
        then (case b of RTE_RING_QUEUE_FIXED \<Rightarrow> - EDQUOT
                      | RTE_RING_QUEUE_VARIABLE \<Rightarrow> sint (m OR RTE_RING_QUOT_EXCEED))
        else (case b of RTE_RING_QUEUE_FIXED \<Rightarrow> 0 | RTE_RING_QUEUE_VARIABLE \<Rightarrow> sint m),
        ring_push r (take (unat m) tbl))"
    using lim w push inv room free
    by (simp add: sp_do_enqueue_def Let_def enqueue_ret_watermark [OF inv room]
        ring_push_def)
qed

lemma sc_do_dequeue_some:
  assumes inv: "ring_inv r"
    and lim: "ring_limit b n (p_tail (r_prod r) - c_head (r_cons r)) = Some m"
  shows "unat m \<le> ring_used r" "unat m \<le> unat n"
    "sc_do_dequeue r n b =
       (case b of RTE_RING_QUEUE_FIXED \<Rightarrow> 0 | RTE_RING_QUEUE_VARIABLE \<Rightarrow> sint m,
        take (unat m) (ring_contents r), ring_pop r (unat m))"
proof -
  let ?r = "r\<lparr> r_cons := (r_cons r)\<lparr> c_head := c_head (r_cons r) + m \<rparr> \<rparr>"
  have eq: "c_head (r_cons r) = c_tail (r_cons r)"
    using inv by (simp add: ring_inv_def)
  show m: "unat m \<le> ring_used r" and "unat m \<le> unat n"
    using lim eq by (auto simp: ring_limit_def word_less_nat_alt not_less ring_used_def
        split: if_splits rte_ring_queue_behavior.splits)
  have "DEQUEUE_PTRS ?r (c_head (r_cons r)) m =
      ring_read (unat (p_size (r_prod r))) (unat (c_head (r_cons r))) (unat m) (r_ring r)"
    using inv m ring_capacity_mask [OF inv] ring_inv_used [OF inv]
    by (intro DEQUEUE_PTRS_read) auto
  then show "sc_do_dequeue r n b =
       (case b of RTE_RING_QUEUE_FIXED \<Rightarrow> 0 | RTE_RING_QUEUE_VARIABLE \<Rightarrow> sint m,
        take (unat m) (ring_contents r), ring_pop r (unat m))"
    using lim eq m
    by (simp add: sc_do_dequeue_def Let_def ring_contents_take ring_pop_def)
qed

lemma ring_used_word:
  "ring_inv r \<Longrightarrow> unat (p_tail (r_prod r) - c_head (r_cons r)) = ring_used r"
  by (simp add: ring_inv_def ring_used_def)

text \<open>The bulk operations move everything or nothing.\<close>

lemma rte_ring_enqueue_bulk_full [ring_simps]:
  assumes "ring_inv r" "ring_capacity r < ring_used r + unat n"
  shows "rte_ring_enqueue_bulk r tbl n = (- ENOBUFS, r)"
proof -
  have "n > p_mask (r_prod r) + c_tail (r_cons r) - p_head (r_prod r)"
    using assms ring_free_entries [OF assms(1)] ring_inv_used [OF assms(1)]
    by (simp add: word_less_nat_alt)
  then show ?thesis
    by (simp add: rte_ring_enqueue_bulk_def rte_ring_sp_enqueue_bulk_def
        rte_ring_mp_enqueue_bulk_def mp_do_enqueue_alone sp_do_enqueue_def ring_limit_def)
qed

lemma rte_ring_enqueue_bulk_room [ring_simps]:
  assumes "ring_inv r" "ring_used r + unat n \<le> ring_capacity r" "unat n \<le> length tbl"
  shows "rte_ring_enqueue_bulk r tbl n =
    (if ring_watermark r \<le> ring_used r + unat n then - EDQUOT else 0,
     ring_push r (take (unat n) tbl))"
proof -
  have "ring_limit RTE_RING_QUEUE_FIXED n
      (p_mask (r_prod r) + c_tail (r_cons r) - p_head (r_prod r)) = Some n"
    using assms ring_free_entries [OF assms(1)]
    by (simp add: ring_limit_def word_less_nat_alt)
  from sp_do_enqueue_some [OF assms(1) this assms(3)] show ?thesis
    by (simp add: rte_ring_enqueue_bulk_def rte_ring_sp_enqueue_bulk_def
        rte_ring_mp_enqueue_bulk_def mp_do_enqueue_alone)
qed

lemma rte_ring_dequeue_bulk_short [ring_simps]:
  assumes "ring_inv r" "ring_used r < unat n"
  shows "rte_ring_dequeue_bulk r n = (- ENOENT, [], r)"
  using assms ring_used_word [OF assms(1)]
  by (simp add: rte_ring_dequeue_bulk_def rte_ring_sc_dequeue_bulk_def
      rte_ring_mc_dequeue_bulk_def mc_do_dequeue_alone sc_do_dequeue_def ring_limit_def
      word_less_nat_alt)

lemma rte_ring_dequeue_bulk_enough [ring_simps]:
  assumes "ring_inv r" "unat n \<le> ring_used r"
  shows "rte_ring_dequeue_bulk r n =
    (0, take (unat n) (ring_contents r), ring_pop r (unat n))"
proof -
  have "ring_limit RTE_RING_QUEUE_FIXED n (p_tail (r_prod r) - c_head (r_cons r)) = Some n"
    using assms ring_used_word [OF assms(1)] by (simp add: ring_limit_def word_less_nat_alt)
  from sc_do_dequeue_some [OF assms(1) this] show ?thesis
    by (simp add: rte_ring_dequeue_bulk_def rte_ring_sc_dequeue_bulk_def
        rte_ring_mc_dequeue_bulk_def mc_do_dequeue_alone)
qed

text \<open>Single operations are bulk operations of one object.\<close>

lemma rte_ring_enqueue_bulk_one: "rte_ring_enqueue r x = rte_ring_enqueue_bulk r [x] 1"
  by (simp add: rte_ring_enqueue_def rte_ring_sp_enqueue_def rte_ring_mp_enqueue_def
      rte_ring_enqueue_bulk_def)

lemma rte_ring_dequeue_bulk_one:
  "rte_ring_dequeue r =
   (let (ret, objs, r) = rte_ring_dequeue_bulk r 1
    in (ret, case objs of [] \<Rightarrow> None | x # _ \<Rightarrow> Some x, r))"
  by (simp add: rte_ring_dequeue_def rte_ring_sc_dequeue_def rte_ring_mc_dequeue_def
      rte_ring_dequeue_bulk_def)

lemma rte_ring_enqueue_full [ring_simps]:
  "ring_inv r \<Longrightarrow> ring_used r = ring_capacity r \<Longrightarrow> rte_ring_enqueue r x = (- ENOBUFS, r)"
  by (simp add: rte_ring_enqueue_bulk_one rte_ring_enqueue_bulk_full)

lemma rte_ring_enqueue_room [ring_simps]:
  "ring_inv r \<Longrightarrow> ring_used r < ring_capacity r \<Longrightarrow>
   rte_ring_enqueue r x =
   (if ring_watermark r \<le> Suc (ring_used r) then - EDQUOT else 0, ring_push r [x])"
  by (simp add: rte_ring_enqueue_bulk_one rte_ring_enqueue_bulk_room)

lemma rte_ring_dequeue_nil [ring_simps]:
  "ring_inv r \<Longrightarrow> ring_contents r = [] \<Longrightarrow> rte_ring_dequeue r = (- ENOENT, None, r)"
  using ring_contents_length [of r]
  by (simp add: rte_ring_dequeue_bulk_one rte_ring_dequeue_bulk_short)

lemma rte_ring_dequeue_cons [ring_simps]:
  "ring_inv r \<Longrightarrow> ring_contents r = x # xs \<Longrightarrow>
   rte_ring_dequeue r = (0, Some x, ring_pop r 1)"
  using ring_contents_length [of r]
  by (simp add: rte_ring_dequeue_bulk_one rte_ring_dequeue_bulk_enough)

text \<open>Burst operations move what fits.\<close>

lemma rte_ring_enqueue_burst_moves:
  assumes "ring_inv r" "unat n \<le> length tbl"
  shows "snd (rte_ring_enqueue_burst r tbl n) =
         ring_push r (take (min (unat n) (ring_capacity r - ring_used r)) tbl)"
proof -
  let ?free = "p_mask (r_prod r) + c_tail (r_cons r) - p_head (r_prod r)"
  have free: "unat ?free = ring_capacity r - ring_used r"
    by (rule ring_free_entries [OF assms(1)])
  have burst: "snd (rte_ring_enqueue_burst r tbl n) =
      snd (sp_do_enqueue r tbl n RTE_RING_QUEUE_VARIABLE)"
    by (simp add: rte_ring_enqueue_burst_def mp_do_enqueue_alone)
  show ?thesis
  proof (cases "ring_limit RTE_RING_QUEUE_VARIABLE n ?free")
    case None
    then have "?free = 0" "n > ?free"
      by (auto simp: ring_limit_def split: if_splits)
    then have "ring_capacity r - ring_used r = 0"
      using free by simp
    moreover have "ring_push r [] = r"
      using assms(1) by (simp add: ring_push_def Let_def ring_inv_def)
    ultimately show ?thesis
      using burst None by (simp add: sp_do_enqueue_def)
  next
    case (Some m)
    then have "unat m = min (unat n) (unat ?free)"
      by (auto simp: ring_limit_def word_less_nat_alt split: if_splits)
    then show ?thesis
      using burst sp_do_enqueue_some(3) [OF assms(1) Some assms(2)] free by simp
  qed
qed

lemma rte_ring_dequeue_burst_moves:
  assumes "ring_inv r"
  shows "snd (rte_ring_dequeue_burst r n) =
         (take (unat n) (ring_contents r), ring_pop r (min (unat n) (ring_used r)))"
proof -
  let ?e = "p_tail (r_prod r) - c_head (r_cons r)"
  have e: "unat ?e = ring_used r" by (rule ring_used_word [OF assms])
  have burst: "snd (rte_ring_dequeue_burst r n) = snd (sc_do_dequeue r n RTE_RING_QUEUE_VARIABLE)"
    by (simp add: rte_ring_dequeue_burst_def mc_do_dequeue_alone)
  show ?thesis
  proof (cases "ring_limit RTE_RING_QUEUE_VARIABLE n ?e")
    case None
    then have "ring_used r = 0"
      using e by (auto simp: ring_limit_def split: if_splits)
    then have "ring_used r = 0" "ring_contents r = []"
      using ring_contents_length [of r] by (simp, metis length_0_conv)
    moreover have "ring_pop r 0 = r"
      using assms by (simp add: ring_pop_def Let_def ring_inv_def)
    ultimately show ?thesis
      using burst None by (simp add: sc_do_dequeue_def)
  next
    case (Some m)
    then have "unat m = min (unat n) (ring_used r)"
      using e by (auto simp: ring_limit_def word_less_nat_alt split: if_splits)
    then show ?thesis
      using burst sc_do_dequeue_some(3) [OF assms Some] by (simp add: min_def)
  qed
qed

text \<open>The observers.\<close>

lemma rte_ring_count_used: "ring_inv r \<Longrightarrow> unat (rte_ring_count r) = ring_used r"
  using ring_inv_used [of r] ring_size_capacity [of r]
  by (simp add: rte_ring_count_def ring_slot ring_used_def)

lemma rte_ring_empty_used: "rte_ring_empty r \<longleftrightarrow> ring_used r = 0"
  by (auto simp: rte_ring_empty_def ring_used_def unat_eq_0)

lemma rte_ring_free_count_room:
  assumes "ring_inv r"
  shows "unat (rte_ring_free_count r) = ring_capacity r - ring_used r"
proof -
  let ?u = "p_tail (r_prod r) - c_tail (r_cons r)" and ?s = "p_size (r_prod r)"
  obtain k where k: "k < 28" "unat ?s = 2 ^ k" "?s = 2 ^ k"
    using assms by (rule ring_inv_size)
  have mask: "p_mask (r_prod r) + c_tail (r_cons r) - p_head (r_prod r) = ?s - 1 - ?u"
    using assms by (simp add: ring_inv_def)
  have room: "unat (?s - 1 - ?u) = ring_capacity r - ring_used r"
    using ring_free_entries [OF assms] by (simp only: mask)
  have eq: "c_tail (r_cons r) - p_tail (r_prod r) - 1 + ?s = ?s - 1 - ?u"
    by simp
  have "unat (c_tail (r_cons r) - p_tail (r_prod r) - 1) mod 2 ^ k =
        unat (c_tail (r_cons r) - p_tail (r_prod r) - 1 + ?s) mod 2 ^ k"
    using k by (simp add: unat_add_mod_pow2)
  also have "\<dots> = (ring_capacity r - ring_used r) mod 2 ^ k"
    unfolding eq room ..
  also have "\<dots> = ring_capacity r - ring_used r"
    using ring_size_capacity [OF assms] k by simp
  finally show ?thesis
    using ring_slot [OF assms] k by (simp add: rte_ring_free_count_def)
qed

lemma rte_ring_full_iff: "ring_inv r \<Longrightarrow> rte_ring_full r \<longleftrightarrow> ring_used r = ring_capacity r"
  using rte_ring_free_count_room [of r] ring_inv_used [of r]
  by (auto simp: rte_ring_full_def rte_ring_free_count_def unat_eq_0)

section \<open>Creation establishes the invariant\<close>

lemma rte_ring_init_inv:
  assumes "POWEROF2 cnt" "cnt \<noteq> 0" "cnt \<le> RTE_RING_SZ_MASK" "length (r_ring r) = unat cnt"
  shows "ring_inv (rte_ring_init r cnt flags)"
    "ring_contents (rte_ring_init r cnt flags) = []"
    "ring_capacity (rte_ring_init r cnt flags) = unat cnt - 1"
    "ring_watermark (rte_ring_init r cnt flags) = unat cnt"
  using assms
  by (simp_all add: rte_ring_init_def ring_inv_def ring_contents_def ring_used_def ring_read_def
      ring_capacity_def ring_watermark_def)

lemma rte_ring_set_water_mark_keeps:
  assumes "ring_inv r" "rte_ring_set_water_mark r cnt = (ret, r')"
  shows "ring_inv r'" "ring_contents r' = ring_contents r" "ring_capacity r' = ring_capacity r"
  using assms
  by (auto simp: rte_ring_set_water_mark_def Let_def ring_inv_def ring_contents_def
      ring_used_def ring_capacity_def split: if_splits)

section \<open>The queue interface\<close>

text \<open>What the rest of the program relies on when it talks through a ring.\<close>

locale bounded_fifo =
  fixes invar :: "'q \<Rightarrow> bool"
    and contents :: "'q \<Rightarrow> 'a list"
    and capacity :: "'q \<Rightarrow> nat"
    and enq :: "'q \<Rightarrow> 'a \<Rightarrow> int \<times> 'q"
    and deq :: "'q \<Rightarrow> int \<times> 'a option \<times> 'q"
  assumes bounded: "invar q \<Longrightarrow> length (contents q) \<le> capacity q"
    and enq_full: "invar q \<Longrightarrow> length (contents q) = capacity q \<Longrightarrow> enq q x = (- ENOBUFS, q)"
    and enq_room: "invar q \<Longrightarrow> length (contents q) < capacity q \<Longrightarrow> enq q x = (ret, q') \<Longrightarrow>
      ret \<in> {0, - EDQUOT} \<and> invar q' \<and> contents q' = contents q @ [x] \<and> capacity q' = capacity q"
    and deq_nil: "invar q \<Longrightarrow> contents q = [] \<Longrightarrow> deq q = (- ENOENT, None, q)"
    and deq_cons: "invar q \<Longrightarrow> contents q = x # xs \<Longrightarrow>
      \<exists>q'. deq q = (0, Some x, q') \<and> invar q' \<and> contents q' = xs \<and> capacity q' = capacity q"
begin

text \<open>An enqueue reports \<^term>\<open>- ENOBUFS\<close> exactly when it refused the object.\<close>

lemma enq_spec:
  assumes "invar q" "enq q x = (ret, q')"
  shows "invar q'" "capacity q' = capacity q"
    "contents q' = (if ret = - ENOBUFS then contents q else contents q @ [x])"
    "ret = - ENOBUFS \<longleftrightarrow> length (contents q) = capacity q"
proof -
  consider "length (contents q) = capacity q" | "length (contents q) < capacity q"
    using bounded [OF assms(1)] by linarith
  then have "invar q' \<and> capacity q' = capacity q \<and>
    contents q' = (if ret = - ENOBUFS then contents q else contents q @ [x]) \<and>
    (ret = - ENOBUFS \<longleftrightarrow> length (contents q) = capacity q)"
  proof cases
    case 1
    with enq_full [of q x] assms show ?thesis by simp
  next
    case 2
    with enq_room [OF assms(1) 2 assms(2)] show ?thesis by auto
  qed
  then show "invar q'" "capacity q' = capacity q"
    "contents q' = (if ret = - ENOBUFS then contents q else contents q @ [x])"
    "ret = - ENOBUFS \<longleftrightarrow> length (contents q) = capacity q"
    by auto
qed

lemma deq_spec:
  assumes "invar q" "deq q = (ret, ox, q')"
  shows "invar q'" "capacity q' = capacity q"
    "contents q = (case ox of None \<Rightarrow> [] | Some x \<Rightarrow> x # contents q')"
    "ret = 0 \<longleftrightarrow> ox \<noteq> None" "ox = None \<Longrightarrow> q' = q"
proof -
  have "invar q' \<and> capacity q' = capacity q \<and>
    contents q = (case ox of None \<Rightarrow> [] | Some x \<Rightarrow> x # contents q') \<and>
    (ret = 0 \<longleftrightarrow> ox \<noteq> None) \<and> (ox = None \<longrightarrow> q' = q)"
  proof (cases "contents q")
    case Nil
    with deq_nil [of q] assms show ?thesis by auto
  next
    case (Cons x xs)
    with deq_cons [OF assms(1) Cons] assms show ?thesis by auto
  qed
  then show "invar q'" "capacity q' = capacity q"
    "contents q = (case ox of None \<Rightarrow> [] | Some x \<Rightarrow> x # contents q')"
    "ret = 0 \<longleftrightarrow> ox \<noteq> None" "ox = None \<Longrightarrow> q' = q"
    by auto
qed

end

interpretation rr: bounded_fifo ring_inv ring_contents ring_capacity rte_ring_enqueue rte_ring_dequeue
proof
  fix q :: "'a rte_ring" and x ret q'
  assume "ring_inv q" "length (ring_contents q) < ring_capacity q" "rte_ring_enqueue q x = (ret, q')"
  then show "ret \<in> {0, - EDQUOT} \<and> ring_inv q' \<and> ring_contents q' = ring_contents q @ [x] \<and>
      ring_capacity q' = ring_capacity q"
    using ring_push_inv [of q "[x]"] ring_push_contents [of q "[x]"]
    by (auto simp: rte_ring_enqueue_room split: if_splits)
next
  fix q :: "'a rte_ring" and x xs
  assume q: "ring_inv q" "ring_contents q = x # xs"
  then have "1 \<le> ring_used q"
    using ring_contents_length [of q] by simp
  with q show "\<exists>q'. rte_ring_dequeue q = (0, Some x, q') \<and> ring_inv q' \<and> ring_contents q' = xs \<and>
      ring_capacity q' = ring_capacity q"
    using ring_pop_inv [of q 1] ring_pop_contents [of q 1]
    by (simp add: rte_ring_dequeue_cons)
qed (simp_all add: rte_ring_enqueue_full rte_ring_dequeue_nil ring_inv_used)

section \<open>Refinement to the bounded queue\<close>

text \<open>The abstract machine: a list of at most \<^term>\<open>cap\<close> objects with a high water
  mark \<^term>\<open>wm\<close>.  A step gives the value the call returns, the objects it
  delivers, and the next list.\<close>

datatype 'a ring_op =
    Enqueue 'a
  | Dequeue
  | Enqueue_Bulk "'a list"
  | Dequeue_Bulk u32
  | Enqueue_Burst "'a list"
  | Dequeue_Burst u32

definition fifo_enq :: "nat \<Rightarrow> nat \<Rightarrow> 'a list \<Rightarrow> 'a list \<Rightarrow> (int \<times> 'a list) \<times> 'a list" where
  "fifo_enq cap wm q xs =
     (if cap < length q + length xs then ((- ENOBUFS, []), q)
      else ((if wm \<le> length q + length xs then - EDQUOT else 0, []), q @ xs))"

definition fifo_deq :: "'a list \<Rightarrow> nat \<Rightarrow> (int \<times> 'a list) \<times> 'a list" where
  "fifo_deq q n =
     (if length q < n then ((- ENOENT, []), q) else ((0, take n q), drop n q))"

definition fifo_enq_burst :: "nat \<Rightarrow> nat \<Rightarrow> 'a list \<Rightarrow> 'a list \<Rightarrow> (int \<times> 'a list) \<times> 'a list" where
  "fifo_enq_burst cap wm q xs =
     (let m = min (length xs) (cap - length q)
      in ((if xs \<noteq> [] \<and> cap = length q then 0
           else if wm \<le> length q + m then int m - 2 ^ 31 else int m, []),
          q @ take m xs))"

definition fifo_deq_burst :: "'a list \<Rightarrow> nat \<Rightarrow> (int \<times> 'a list) \<times> 'a list" where
  "fifo_deq_burst q n = ((int (min n (length q)), take n q), drop n q)"

fun fifo_step :: "nat \<Rightarrow> nat \<Rightarrow> 'a list \<Rightarrow> 'a ring_op \<Rightarrow> (int \<times> 'a list) \<times> 'a list" where
  "fifo_step cap wm q (Enqueue x) = fifo_enq cap wm q [x]"
| "fifo_step cap wm q Dequeue = fifo_deq q 1"
| "fifo_step cap wm q (Enqueue_Bulk xs) = fifo_enq cap wm q xs"
| "fifo_step cap wm q (Dequeue_Bulk n) = fifo_deq q (unat n)"
| "fifo_step cap wm q (Enqueue_Burst xs) = fifo_enq_burst cap wm q xs"
| "fifo_step cap wm q (Dequeue_Burst n) = fifo_deq_burst q (unat n)"

fun ring_step :: "'a rte_ring \<Rightarrow> 'a ring_op \<Rightarrow> (int \<times> 'a list) \<times> 'a rte_ring" where
  "ring_step r (Enqueue x) =
     (let (ret, r) = rte_ring_enqueue r x in ((ret, []), r))"
| "ring_step r Dequeue =
     (let (ret, ox, r) = rte_ring_dequeue r
      in ((ret, case ox of None \<Rightarrow> [] | Some x \<Rightarrow> [x]), r))"
| "ring_step r (Enqueue_Bulk xs) =
     (let (ret, r) = rte_ring_enqueue_bulk r xs (of_nat (length xs)) in ((ret, []), r))"
| "ring_step r (Dequeue_Bulk n) =
     (let (ret, xs, r) = rte_ring_dequeue_bulk r n in ((ret, xs), r))"
| "ring_step r (Enqueue_Burst xs) =
     (let (ret, r) = rte_ring_enqueue_burst r xs (of_nat (length xs)) in ((ret, []), r))"
| "ring_step r (Dequeue_Burst n) =
     (let (ret, xs, r) = rte_ring_dequeue_burst r n in ((ret, xs), r))"

fun ring_run :: "('s \<Rightarrow> 'b \<Rightarrow> 'o \<times> 's) \<Rightarrow> 's \<Rightarrow> 'b list \<Rightarrow> 'o list \<times> 's" where
  "ring_run step s [] = ([], s)"
| "ring_run step s (p # ps) =
     (let (out, s1) = step s p; (outs, s2) = ring_run step s1 ps in (out # outs, s2))"

text \<open>The count of a bulk call is an unsigned 32-bit argument, so a table of objects
  is shorter than \<open>2\<^sup>32\<close>.\<close>

fun ring_op_ok :: "'a ring_op \<Rightarrow> bool" where
  "ring_op_ok (Enqueue_Bulk xs) \<longleftrightarrow> length xs < 2 ^ 32"
| "ring_op_ok (Enqueue_Burst xs) \<longleftrightarrow> length xs < 2 ^ 32"
| "ring_op_ok _ \<longleftrightarrow> True"

definition ring_sim :: "nat \<Rightarrow> nat \<Rightarrow> 'a rte_ring \<Rightarrow> 'a list \<Rightarrow> bool" where
  "ring_sim cap wm r q \<longleftrightarrow>
     ring_inv r \<and> ring_contents r = q \<and> ring_capacity r = cap \<and> ring_watermark r = wm"

lemma ring_sim_push:
  "ring_sim cap wm r q \<Longrightarrow> length q + length xs \<le> cap \<Longrightarrow> ring_sim cap wm (ring_push r xs) (q @ xs)"
  using ring_contents_length [of r]
  by (auto simp: ring_sim_def ring_push_inv ring_push_contents)

lemma ring_sim_pop:
  "ring_sim cap wm r q \<Longrightarrow> n \<le> length q \<Longrightarrow> ring_sim cap wm (ring_pop r n) (drop n q)"
  using ring_contents_length [of r]
  by (auto simp: ring_sim_def ring_pop_inv ring_pop_contents)

lemma ring_sim_enq_bulk:
  assumes "ring_sim cap wm r q" "length xs < 2 ^ 32"
  shows "\<exists>r'. ring_step r (Enqueue_Bulk xs) = (fst (fifo_enq cap wm q xs), r') \<and>
              ring_sim cap wm r' (snd (fifo_enq cap wm q xs))"
proof -
  have n: "unat (of_nat (length xs) :: u32) = length xs"
    using assms(2) by (simp add: unat_of_nat)
  have inv: "ring_inv r" "ring_used r = length q" "ring_capacity r = cap" "ring_watermark r = wm"
    using assms(1) ring_contents_length [of r] by (auto simp: ring_sim_def)
  show ?thesis
  proof (cases "cap < length q + length xs")
    case True
    then have "rte_ring_enqueue_bulk r xs (of_nat (length xs)) = (- ENOBUFS, r)"
      using rte_ring_enqueue_bulk_full [OF inv(1)] inv n by simp
    then show ?thesis using True assms(1) by (simp add: fifo_enq_def)
  next
    case False
    then show ?thesis
      using rte_ring_enqueue_bulk_room [OF inv(1), of "of_nat (length xs)" xs] inv n
        ring_sim_push [OF assms(1), of xs] by (simp add: fifo_enq_def)
  qed
qed

lemma ring_sim_deq_bulk:
  assumes "ring_sim cap wm r q"
  shows "\<exists>r'. ring_step r (Dequeue_Bulk n) = (fst (fifo_deq q (unat n)), r') \<and>
              ring_sim cap wm r' (snd (fifo_deq q (unat n)))"
proof -
  have inv: "ring_inv r" "ring_used r = length q" "ring_contents r = q"
    using assms ring_contents_length [of r] by (auto simp: ring_sim_def)
  show ?thesis
    using rte_ring_dequeue_bulk_short [OF inv(1), of n] rte_ring_dequeue_bulk_enough [OF inv(1), of n]
      ring_sim_pop [OF assms, of "unat n"] inv assms
    by (cases "length q < unat n") (auto simp: fifo_deq_def)
qed

lemma ring_step_enqueue_bulk: "ring_step r (Enqueue x) = ring_step r (Enqueue_Bulk [x])"
  by (simp add: rte_ring_enqueue_bulk_one)

lemma ring_sim_deq:
  assumes "ring_sim cap wm r q"
  shows "\<exists>r'. ring_step r Dequeue = (fst (fifo_deq q 1), r') \<and>
              ring_sim cap wm r' (snd (fifo_deq q 1))"
proof (cases q)
  case Nil
  with assms show ?thesis
    by (simp add: ring_sim_def rte_ring_dequeue_nil fifo_deq_def)
next
  case (Cons x xs)
  with assms have "rte_ring_dequeue r = (0, Some x, ring_pop r 1)"
    by (auto simp: ring_sim_def rte_ring_dequeue_cons)
  with Cons ring_sim_pop [OF assms, of 1] show ?thesis
    by (simp add: fifo_deq_def)
qed

lemma ring_enqueue_burst_ret:
  assumes "ring_inv r" "unat n \<le> length tbl"
  shows "fst (rte_ring_enqueue_burst r tbl n) =
    (let m = min (unat n) (ring_capacity r - ring_used r)
     in if unat n \<noteq> 0 \<and> ring_capacity r = ring_used r then 0
        else if ring_watermark r \<le> ring_used r + m then int m - 2 ^ 31 else int m)"
proof -
  let ?free = "p_mask (r_prod r) + c_tail (r_cons r) - p_head (r_prod r)"
  have free: "unat ?free = ring_capacity r - ring_used r"
    by (rule ring_free_entries [OF assms(1)])
  have le: "ring_used r \<le> ring_capacity r" "ring_capacity r < 2 ^ 28"
    using assms(1) ring_inv_used ring_capacity_bound by auto
  have burst: "fst (rte_ring_enqueue_burst r tbl n) =
      fst (sp_do_enqueue r tbl n RTE_RING_QUEUE_VARIABLE)"
    by (simp add: rte_ring_enqueue_burst_def mp_do_enqueue_alone)
  show ?thesis
  proof (cases "ring_limit RTE_RING_QUEUE_VARIABLE n ?free")
    case None
    then have "unat n \<noteq> 0" "ring_capacity r = ring_used r"
      using free le by (auto simp: ring_limit_def word_less_nat_alt split: if_splits)
    then show ?thesis
      using burst None by (simp add: sp_do_enqueue_def)
  next
    case (Some m)
    then have m: "unat m = min (unat n) (ring_capacity r - ring_used r)"
      and ne: "\<not> (unat n \<noteq> 0 \<and> ring_capacity r = ring_used r)"
      using free le by (auto simp: ring_limit_def word_less_nat_alt unat_eq_0 split: if_splits)
    have small: "unat m < 2 ^ 31"
      using m le by simp
    show ?thesis
      using burst sp_do_enqueue_some(3) [OF assms(1) Some assms(2)] ne
        sint_small32 [OF small] sint_or_top32 [OF small]
      by (simp only: m [symmetric] Let_def fst_conv rte_ring_queue_behavior.case if_False)
  qed
qed

lemma ring_dequeue_burst_ret:
  assumes "ring_inv r"
  shows "fst (rte_ring_dequeue_burst r n) = int (min (unat n) (ring_used r))"
proof -
  let ?e = "p_tail (r_prod r) - c_head (r_cons r)"
  have e: "unat ?e = ring_used r" by (rule ring_used_word [OF assms])
  have le: "ring_used r < 2 ^ 28"
    using ring_inv_used [OF assms] ring_capacity_bound [OF assms] by simp
  have burst: "fst (rte_ring_dequeue_burst r n) = fst (sc_do_dequeue r n RTE_RING_QUEUE_VARIABLE)"
    by (simp add: rte_ring_dequeue_burst_def mc_do_dequeue_alone)
  show ?thesis
  proof (cases "ring_limit RTE_RING_QUEUE_VARIABLE n ?e")
    case None
    then show ?thesis
      using burst e by (auto simp: sc_do_dequeue_def ring_limit_def split: if_splits)
  next
    case (Some m)
    then have m: "unat m = min (unat n) (ring_used r)"
      using e by (auto simp: ring_limit_def word_less_nat_alt split: if_splits)
    then have "sint m = int (unat m)"
      using le by (intro sint_small32) simp
    then show ?thesis
      using burst sc_do_dequeue_some(3) [OF assms Some] m by simp
  qed
qed

lemma ring_sim_enq_burst:
  assumes "ring_sim cap wm r q" "length xs < 2 ^ 32"
  shows "\<exists>r'. ring_step r (Enqueue_Burst xs) = (fst (fifo_enq_burst cap wm q xs), r') \<and>
              ring_sim cap wm r' (snd (fifo_enq_burst cap wm q xs))"
proof -
  have n: "unat (of_nat (length xs) :: u32) = length xs"
    using assms(2) by (simp add: unat_of_nat)
  have inv: "ring_inv r" "ring_used r = length q" "ring_capacity r = cap" "ring_watermark r = wm"
    using assms(1) ring_contents_length [of r] by (auto simp: ring_sim_def)
  let ?res = "rte_ring_enqueue_burst r xs (of_nat (length xs))"
  have "length q \<le> cap" using ring_inv_used [OF inv(1)] inv by simp
  then have "ring_sim cap wm (snd ?res) (q @ take (min (length xs) (cap - length q)) xs)"
    using rte_ring_enqueue_burst_moves [OF inv(1), of "of_nat (length xs)" xs] inv n
      ring_sim_push [OF assms(1), of "take (min (length xs) (cap - length q)) xs"]
    by simp
  moreover have "fst ?res = fst (fst (fifo_enq_burst cap wm q xs))"
    using ring_enqueue_burst_ret [OF inv(1), of "of_nat (length xs)" xs] inv n
    by (auto simp: fifo_enq_burst_def Let_def)
  ultimately show ?thesis
    by (auto simp: fifo_enq_burst_def Let_def split: prod.splits)
qed

lemma ring_sim_deq_burst:
  assumes "ring_sim cap wm r q"
  shows "\<exists>r'. ring_step r (Dequeue_Burst n) = (fst (fifo_deq_burst q (unat n)), r') \<and>
              ring_sim cap wm r' (snd (fifo_deq_burst q (unat n)))"
proof -
  have inv: "ring_inv r" "ring_used r = length q" "ring_contents r = q"
    using assms ring_contents_length [of r] by (auto simp: ring_sim_def)
  have "ring_sim cap wm (ring_pop r (min (unat n) (length q))) (drop (min (unat n) (length q)) q)"
    using ring_sim_pop [OF assms, of "min (unat n) (length q)"] by simp
  moreover have "drop (min (unat n) (length q)) q = drop (unat n) q"
    by (simp add: min_def)
  ultimately show ?thesis
    using rte_ring_dequeue_burst_moves [OF inv(1), of n] ring_dequeue_burst_ret [OF inv(1), of n] inv
    by (cases "rte_ring_dequeue_burst r n") (auto simp: fifo_deq_burst_def)
qed

lemma ring_sim_step:
  assumes "ring_sim cap wm r q" "ring_op_ok p"
  shows "\<exists>r'. ring_step r p = (fst (fifo_step cap wm q p), r') \<and>
              ring_sim cap wm r' (snd (fifo_step cap wm q p))"
proof (cases p)
  case (Enqueue x)
  then show ?thesis
    using ring_sim_enq_bulk [OF assms(1), of "[x]"]
    by (simp only: ring_step_enqueue_bulk fifo_step.simps) simp
qed (use assms ring_sim_deq ring_sim_enq_bulk ring_sim_deq_bulk ring_sim_enq_burst
      ring_sim_deq_burst in \<open>simp_all del: ring_step.simps\<close>)

lemma ring_sim_run:
  assumes "ring_sim cap wm r q" "\<forall>p\<in>set ops. ring_op_ok p"
  shows "fst (ring_run ring_step r ops) = fst (ring_run (fifo_step cap wm) q ops) \<and>
         ring_sim cap wm (snd (ring_run ring_step r ops)) (snd (ring_run (fifo_step cap wm) q ops))"
  using assms
proof (induction ops arbitrary: r q)
  case (Cons p ops)
  obtain out q' where q': "fifo_step cap wm q p = (out, q')"
    by fastforce
  then obtain r' where r': "ring_step r p = (out, r')" "ring_sim cap wm r' q'"
    using ring_sim_step [OF Cons.prems(1), of p] Cons.prems(2) by auto
  show ?case
    using Cons.IH [OF r'(2)] Cons.prems(2) q' r'(1)
    by (auto split: prod.splits)
qed simp

text \<open>
  C1. The ring is a bounded first-in first-out queue.  Whatever sequence of
  single, bulk and burst enqueues and dequeues is run on a ring that satisfies
  the invariant, every call returns the value and delivers the objects the list
  of at most size - 1 objects would, and the ring that is left holds that list
  and satisfies the invariant again.  The head and tail indices may wrap around
  \<open>2\<^sup>32\<close> any number of times.
\<close>

theorem ring_refines_fifo:
  assumes "ring_inv r" "\<forall>p\<in>set ops. ring_op_ok p"
  shows "fst (ring_run ring_step r ops) =
           fst (ring_run (fifo_step (ring_capacity r) (ring_watermark r)) (ring_contents r) ops) \<and>
         ring_contents (snd (ring_run ring_step r ops)) =
           snd (ring_run (fifo_step (ring_capacity r) (ring_watermark r)) (ring_contents r) ops) \<and>
         ring_inv (snd (ring_run ring_step r ops))"
  using ring_sim_run [of "ring_capacity r" "ring_watermark r" r "ring_contents r" ops] assms
  by (auto simp: ring_sim_def)

text \<open>A ring of four slots whose indices stand two below the wrap-around.\<close>

definition wrapping_ring :: "nat rte_ring" where
  "wrapping_ring =
     \<lparr> r_flags = 0,
       r_prod = \<lparr> p_watermark = 4, p_sp_enqueue = 0, p_size = 4, p_mask = 3,
                  p_head = 0xFFFFFFFE, p_tail = 0xFFFFFFFE \<rparr>,
       r_cons = \<lparr> c_sc_dequeue = 0, c_size = 4, c_mask = 3,
                  c_head = 0xFFFFFFFE, c_tail = 0xFFFFFFFE \<rparr>,
       r_ring = [0, 0, 0, 0] \<rparr>"

theorem ring_refines_fifo_witness:
  "fst (ring_run ring_step wrapping_ring
     [Enqueue 10, Enqueue_Bulk [11, 12], Enqueue 13, Dequeue, Dequeue_Bulk 2, Dequeue]) =
   [(0, []), (0, []), (- ENOBUFS, []), (0, [10]), (0, [11, 12]), (- ENOENT, [])]"
proof -
  have ok: "\<forall>p\<in>set [Enqueue 10, Enqueue_Bulk [11, 12], Enqueue 13, Dequeue, Dequeue_Bulk 2, Dequeue].
      ring_op_ok (p :: nat ring_op)" by simp
  have inv: "ring_inv wrapping_ring" by code_simp
  have "ring_capacity wrapping_ring = 3" "ring_watermark wrapping_ring = 4"
    "ring_contents wrapping_ring = []"
    by (simp_all add: wrapping_ring_def ring_contents_def ring_used_def ring_read_def
        ring_capacity_def ring_watermark_def)
  then show ?thesis
    using ring_refines_fifo [OF inv ok] by (simp del: ring_step.simps add: fifo_enq_def fifo_deq_def)
qed


text \<open>The reservation of the witness: every request is met with a fresh ring of
  eight slots.\<close>

definition reserve8 :: "int \<Rightarrow> nat rte_ring option" where
  "reserve8 sz = Some (wrapping_ring\<lparr> r_ring := replicate 8 0 \<rparr>)"


end
