(* ===== verification/Rte_Mempool.thy ===== *)
theory Rte_Mempool
  imports Rte_Ring
begin

unbundle bit_operations_syntax

text \<open>
  The object pool of DPDK (\<^verbatim>\<open>dpdk-2.0.0/lib/librte_mempool/rte_mempool.h\<close>): a ring of
  free objects with a cache per core.  Command buffers, mbufs and packet buffers
  are taken from such pools, through the wrappers of
  \<^verbatim>\<open>netbsd/porting/pool/subr_pool.c\<close>.  The theory shows that getting and putting
  conserve the objects.
\<close>

section \<open>Data\<close>

text \<open>A cache is the list of its first \<^verbatim>\<open>len\<close> objects.\<close>

record 'a rte_mempool =
  mp_ring :: "'a rte_ring"
  mp_flags :: u32
  mp_size :: u32
  mp_cache_size :: u32
  mp_cache_flushthresh :: u32
  mp_local_cache :: "'a list list"

abbreviation RTE_MEMPOOL_CACHE_MAX_SIZE :: nat where "RTE_MEMPOOL_CACHE_MAX_SIZE \<equiv> 512"
abbreviation RTE_MAX_LCORE :: nat where "RTE_MAX_LCORE \<equiv> 128"
definition MEMPOOL_F_SP_PUT :: u32 where "MEMPOOL_F_SP_PUT = 0x0004"
definition MEMPOOL_F_SC_GET :: u32 where "MEMPOOL_F_SC_GET = 0x0008"

section \<open>Operations\<close>

text \<open>The label \<^verbatim>\<open>ring_enqueue\<close>.\<close>

definition mempool_ring_put :: "'a rte_mempool \<Rightarrow> 'a list \<Rightarrow> u32 \<Rightarrow> bool \<Rightarrow> 'a rte_mempool" where
  "mempool_ring_put mp obj_table n is_mp =
     mp\<lparr> mp_ring := snd (if is_mp then rte_ring_mp_enqueue_bulk (mp_ring mp) obj_table n
                         else rte_ring_sp_enqueue_bulk (mp_ring mp) obj_table n) \<rparr>"

definition mempool_put_bulk :: "nat \<Rightarrow> 'a rte_mempool \<Rightarrow> 'a list \<Rightarrow> u32 \<Rightarrow> bool \<Rightarrow> 'a rte_mempool" where
  "mempool_put_bulk lcore_id mp obj_table n is_mp =
     (if mp_cache_size mp = 0 \<or> \<not> is_mp \<or> lcore_id \<ge> RTE_MAX_LCORE
      then mempool_ring_put mp obj_table n is_mp
      else if unat n > RTE_MEMPOOL_CACHE_MAX_SIZE
      then mempool_ring_put mp obj_table n is_mp
      else let cache_size = unat (mp_cache_size mp);
               objs = mp_local_cache mp ! lcore_id @ take (unat n) obj_table
           in if length objs \<ge> unat (mp_cache_flushthresh mp)
              then mp\<lparr> mp_ring := snd (rte_ring_mp_enqueue_bulk (mp_ring mp) (drop cache_size objs)
                                         (of_nat (length objs - cache_size))),
                       mp_local_cache := (mp_local_cache mp)[lcore_id := take cache_size objs] \<rparr>
              else mp\<lparr> mp_local_cache := (mp_local_cache mp)[lcore_id := objs] \<rparr>)"

text \<open>The label \<^verbatim>\<open>ring_dequeue\<close>.\<close>

definition mempool_ring_get :: "'a rte_mempool \<Rightarrow> u32 \<Rightarrow> bool \<Rightarrow> int \<times> 'a list \<times> 'a rte_mempool" where
  "mempool_ring_get mp n is_mc =
     (let (ret, objs, r) = (if is_mc then rte_ring_mc_dequeue_bulk (mp_ring mp) n
                            else rte_ring_sc_dequeue_bulk (mp_ring mp) n)
      in (ret, objs, mp\<lparr> mp_ring := r \<rparr>))"

definition mempool_get_bulk :: "nat \<Rightarrow> 'a rte_mempool \<Rightarrow> u32 \<Rightarrow> bool \<Rightarrow> int \<times> 'a list \<times> 'a rte_mempool" where
  "mempool_get_bulk lcore_id mp n is_mc =
     (if mp_cache_size mp = 0 \<or> \<not> is_mc \<or> n \<ge> mp_cache_size mp \<or> lcore_id \<ge> RTE_MAX_LCORE
      then mempool_ring_get mp n is_mc
      else let cache = mp_local_cache mp ! lcore_id;
               from_cache = (\<lambda>cache mp.
                 (0, rev (drop (length cache - unat n) cache),
                  mp\<lparr> mp_local_cache := (mp_local_cache mp)[lcore_id := take (length cache - unat n) cache] \<rparr>))
           in if length cache < unat n
              then let req = n + (mp_cache_size mp - of_nat (length cache));
                       (ret, objs, r) = rte_ring_mc_dequeue_bulk (mp_ring mp) req
                   in if ret < 0 then mempool_ring_get mp n is_mc
                      else from_cache (cache @ objs) (mp\<lparr> mp_ring := r \<rparr>)
              else from_cache cache mp)"

definition rte_mempool_put_bulk :: "nat \<Rightarrow> 'a rte_mempool \<Rightarrow> 'a list \<Rightarrow> u32 \<Rightarrow> 'a rte_mempool" where
  "rte_mempool_put_bulk lcore_id mp obj_table n =
     mempool_put_bulk lcore_id mp obj_table n (mp_flags mp AND MEMPOOL_F_SP_PUT = 0)"

definition rte_mempool_put :: "nat \<Rightarrow> 'a rte_mempool \<Rightarrow> 'a \<Rightarrow> 'a rte_mempool" where
  "rte_mempool_put lcore_id mp obj = rte_mempool_put_bulk lcore_id mp [obj] 1"

definition rte_mempool_get_bulk :: "nat \<Rightarrow> 'a rte_mempool \<Rightarrow> u32 \<Rightarrow> int \<times> 'a list \<times> 'a rte_mempool" where
  "rte_mempool_get_bulk lcore_id mp n =
     mempool_get_bulk lcore_id mp n (mp_flags mp AND MEMPOOL_F_SC_GET = 0)"

definition rte_mempool_get :: "nat \<Rightarrow> 'a rte_mempool \<Rightarrow> int \<times> 'a option \<times> 'a rte_mempool" where
  "rte_mempool_get lcore_id mp =
     (let (ret, objs, mp) = rte_mempool_get_bulk lcore_id mp 1
      in (ret, case objs of [] \<Rightarrow> None | x # _ \<Rightarrow> Some x, mp))"

definition rte_mempool_count :: "'a rte_mempool \<Rightarrow> nat" where
  "rte_mempool_count mp =
     (let cnt = unat (rte_ring_count (mp_ring mp))
      in if mp_cache_size mp = 0 then cnt
         else let cnt = cnt + sum_list (map length (mp_local_cache mp))
              in if cnt > unat (mp_size mp) then unat (mp_size mp) else cnt)"

text \<open>The wrappers of the kernel's pool interface.\<close>

definition pool_cache_get :: "nat \<Rightarrow> 'a rte_mempool \<Rightarrow> 'a option \<times> 'a rte_mempool" where
  "pool_cache_get lcore_id mp =
     (let (ret, obj, mp) = rte_mempool_get lcore_id mp
      in (if ret \<noteq> 0 then None else obj, mp))"

definition pool_cache_put :: "nat \<Rightarrow> 'a rte_mempool \<Rightarrow> 'a \<Rightarrow> 'a rte_mempool" where
  "pool_cache_put lcore_id mp obj = rte_mempool_put lcore_id mp obj"

section \<open>Conservation\<close>

definition pool_objs :: "'a rte_mempool \<Rightarrow> 'a multiset" where
  "pool_objs mp = mset (ring_contents (mp_ring mp)) + mset (concat (mp_local_cache mp))"

text \<open>The ring can hold every object of the pool (it is created with at least one slot
  more than the pool has objects), and the threshold of the caches is between
  their size and twice the maximal size.\<close>

definition pool_inv :: "'a rte_mempool \<Rightarrow> bool" where
  "pool_inv mp \<longleftrightarrow>
     ring_inv (mp_ring mp) \<and> length (mp_local_cache mp) = RTE_MAX_LCORE \<and>
     unat (mp_cache_size mp) \<le> RTE_MEMPOOL_CACHE_MAX_SIZE \<and>
     mp_cache_size mp \<le> mp_cache_flushthresh mp \<and>
     unat (mp_cache_flushthresh mp) \<le> 2 * RTE_MEMPOOL_CACHE_MAX_SIZE \<and>
     (\<forall>c\<in>set (mp_local_cache mp). length c \<le> 2 * RTE_MEMPOOL_CACHE_MAX_SIZE) \<and>
     size (pool_objs mp) \<le> ring_capacity (mp_ring mp)"

abbreviation pool_cap :: "'a rte_mempool \<Rightarrow> nat" where
  "pool_cap mp \<equiv> ring_capacity (mp_ring mp)"

lemma mset_concat_update:
  "i < length xss \<Longrightarrow> mset (concat (xss[i := ys])) + mset (xss ! i) = mset (concat xss) + mset ys"
  by (induction xss arbitrary: i) (auto simp: nth_Cons' ac_simps split: nat.splits)

lemma ring_bulk_put:
  assumes "ring_inv r" "ring_used r + length xs \<le> ring_capacity r"
  shows "snd (rte_ring_mp_enqueue_bulk r xs (of_nat (length xs))) = ring_push r xs"
    "snd (rte_ring_sp_enqueue_bulk r xs (of_nat (length xs))) = ring_push r xs"
proof -
  have n: "unat (of_nat (length xs) :: u32) = length xs"
    using assms ring_capacity_bound [OF assms(1)] by (intro unat_of_nat_small) simp
  have "snd (rte_ring_enqueue_bulk r xs (of_nat (length xs))) = ring_push r xs"
    using rte_ring_enqueue_bulk_room [OF assms(1), of "of_nat (length xs)" xs] assms n by simp
  then show "snd (rte_ring_mp_enqueue_bulk r xs (of_nat (length xs))) = ring_push r xs"
    "snd (rte_ring_sp_enqueue_bulk r xs (of_nat (length xs))) = ring_push r xs"
    by (auto simp: rte_ring_enqueue_bulk_def rte_ring_mp_enqueue_bulk_def
        rte_ring_sp_enqueue_bulk_def mp_do_enqueue_alone split: if_splits)
qed

lemma ring_bulk_get:
  assumes "ring_inv r"
  shows "rte_ring_mc_dequeue_bulk r n =
      (if ring_used r < unat n then (- ENOENT, [], r)
       else (0, take (unat n) (ring_contents r), ring_pop r (unat n)))"
    "rte_ring_sc_dequeue_bulk r n =
      (if ring_used r < unat n then (- ENOENT, [], r)
       else (0, take (unat n) (ring_contents r), ring_pop r (unat n)))"
proof -
  have "rte_ring_dequeue_bulk r n =
      (if ring_used r < unat n then (- ENOENT, [], r)
       else (0, take (unat n) (ring_contents r), ring_pop r (unat n)))"
    using assms by (simp add: ring_simps)
  then show "rte_ring_mc_dequeue_bulk r n =
      (if ring_used r < unat n then (- ENOENT, [], r)
       else (0, take (unat n) (ring_contents r), ring_pop r (unat n)))"
    "rte_ring_sc_dequeue_bulk r n =
      (if ring_used r < unat n then (- ENOENT, [], r)
       else (0, take (unat n) (ring_contents r), ring_pop r (unat n)))"
    by (auto simp: rte_ring_dequeue_bulk_def rte_ring_mc_dequeue_bulk_def
        rte_ring_sc_dequeue_bulk_def mc_do_dequeue_alone split: if_splits)
qed

lemma pool_inv_ring: "pool_inv mp \<Longrightarrow> ring_inv (mp_ring mp)"
  by (simp add: pool_inv_def)

lemma pool_ring_room:
  assumes "pool_inv mp" "size (pool_objs mp) + k \<le> pool_cap mp"
  shows "ring_used (mp_ring mp) + length (mp_local_cache mp ! i) + k \<le> pool_cap mp \<or>
         \<not> i < length (mp_local_cache mp)" "ring_used (mp_ring mp) + k \<le> pool_cap mp"
proof -
  have eq: "size (pool_objs mp) = ring_used (mp_ring mp) + length (concat (mp_local_cache mp))"
    by (simp add: pool_objs_def)
  have "length (mp_local_cache mp ! i) \<le> length (concat (mp_local_cache mp))"
    if "i < length (mp_local_cache mp)"
    using that member_le_sum_list [of "length (mp_local_cache mp ! i)" "map length (mp_local_cache mp)"]
    by (simp add: length_concat)
  then show "ring_used (mp_ring mp) + length (mp_local_cache mp ! i) + k \<le> pool_cap mp \<or>
         \<not> i < length (mp_local_cache mp)" "ring_used (mp_ring mp) + k \<le> pool_cap mp"
    using assms(2) eq by auto
qed

lemma mempool_ring_put_objs:
  assumes "pool_inv mp" "size (pool_objs mp) + length objs \<le> pool_cap mp"
  shows "pool_objs (mempool_ring_put mp objs (of_nat (length objs)) b) = pool_objs mp + mset objs \<and>
         pool_inv (mempool_ring_put mp objs (of_nat (length objs)) b) \<and>
         pool_cap (mempool_ring_put mp objs (of_nat (length objs)) b) = pool_cap mp"
proof -
  have r: "ring_inv (mp_ring mp)" "ring_used (mp_ring mp) + length objs \<le> pool_cap mp"
    using pool_inv_ring [OF assms(1)] pool_ring_room(2) [OF assms] .
  have eq: "mempool_ring_put mp objs (of_nat (length objs)) b = mp\<lparr> mp_ring := ring_push (mp_ring mp) objs \<rparr>"
    using ring_bulk_put [OF r] by (simp add: mempool_ring_put_def)
  then have "pool_objs (mempool_ring_put mp objs (of_nat (length objs)) b) = pool_objs mp + mset objs"
    by (simp add: pool_objs_def ring_push_contents [OF r])
  with eq show ?thesis
    using assms r by (simp add: pool_inv_def ring_push_inv)
qed

lemma mempool_put_bulk_objs:
  assumes inv: "pool_inv mp" and room: "size (pool_objs mp) + length objs \<le> pool_cap mp"
  shows "pool_objs (mempool_put_bulk l mp objs (of_nat (length objs)) b) = pool_objs mp + mset objs \<and>
         pool_inv (mempool_put_bulk l mp objs (of_nat (length objs)) b) \<and>
         pool_cap (mempool_put_bulk l mp objs (of_nat (length objs)) b) = pool_cap mp"
proof -
  let ?n = "of_nat (length objs) :: u32" and ?c = "mp_local_cache mp ! l" and ?cs = "unat (mp_cache_size mp)"
  define os where "os = ?c @ objs"
  have n: "unat ?n = length objs"
    using room ring_capacity_bound [OF pool_inv_ring [OF inv]] by (intro unat_of_nat_small) simp
  show ?thesis
  proof (cases "mp_cache_size mp = 0 \<or> \<not> b \<or> l \<ge> RTE_MAX_LCORE \<or> unat ?n > RTE_MEMPOOL_CACHE_MAX_SIZE")
    case True
    then have "mempool_put_bulk l mp objs ?n b = mempool_ring_put mp objs ?n b"
      by (auto simp: mempool_put_bulk_def)
    then show ?thesis using mempool_ring_put_objs [OF assms] by simp
  next
    case False
    then have l: "l < length (mp_local_cache mp)" using inv by (simp add: pool_inv_def)
    have upd: "mset (concat ((mp_local_cache mp)[l := ys])) + mset ?c = mset (concat (mp_local_cache mp)) + mset ys" for ys
      by (rule mset_concat_update [OF l])
    show ?thesis
    proof (cases "length os \<ge> unat (mp_cache_flushthresh mp)")
      case flush: True
      let ?mp = "mp\<lparr> mp_ring := ring_push (mp_ring mp) (drop ?cs os),
          mp_local_cache := (mp_local_cache mp)[l := take ?cs os] \<rparr>"
      have len: "?cs \<le> length os"
        using flush inv by (auto simp: pool_inv_def word_le_nat_alt)
      have r: "ring_inv (mp_ring mp)" "ring_used (mp_ring mp) + length (drop ?cs os) \<le> pool_cap mp"
        using pool_inv_ring [OF inv] pool_ring_room(1) [OF assms, of l] l by (auto simp: os_def)
      have eq: "mempool_put_bulk l mp objs ?n b = ?mp"
        using False flush n ring_bulk_put(1) [OF r]
        by (simp add: mempool_put_bulk_def Let_def not_le not_less flip: os_def)
      have "pool_objs ?mp + mset ?c = mset (ring_contents (mp_ring mp)) + mset (drop ?cs os) +
          (mset (concat ((mp_local_cache mp)[l := take ?cs os])) + mset ?c)"
        by (simp add: pool_objs_def ring_push_contents [OF r] ac_simps)
      also have "\<dots> = mset (ring_contents (mp_ring mp)) + mset (concat (mp_local_cache mp)) +
          mset (take ?cs os @ drop ?cs os)"
        unfolding upd by (simp only: mset_append ac_simps)
      also have "mset (take ?cs os @ drop ?cs os) = mset ?c + mset objs"
        by (simp only: append_take_drop_id) (simp add: os_def)
      finally have "pool_objs ?mp + mset ?c = pool_objs mp + mset objs + mset ?c"
        by (simp add: pool_objs_def ac_simps)
      then have objs: "pool_objs ?mp = pool_objs mp + mset objs" by simp
      then have "pool_inv ?mp"
        using inv room r by (auto simp: pool_inv_def ring_push_inv dest!: set_update_subset_insert [THEN subsetD])
      then show ?thesis using eq objs by simp
    next
      case keep: False
      let ?mp = "mp\<lparr> mp_local_cache := (mp_local_cache mp)[l := os] \<rparr>"
      have eq: "mempool_put_bulk l mp objs ?n b = ?mp"
        using False keep n by (simp add: mempool_put_bulk_def Let_def not_le not_less flip: os_def)
      have "pool_objs ?mp + mset ?c = pool_objs mp + mset objs + mset ?c"
        using upd [of os] by (simp add: pool_objs_def os_def ac_simps)
      then have objs: "pool_objs ?mp = pool_objs mp + mset objs" by simp
      then have "pool_inv ?mp"
        using inv room keep by (auto simp: pool_inv_def dest!: set_update_subset_insert [THEN subsetD])
      then show ?thesis using eq objs by simp
    qed
  qed
qed

lemma mempool_ring_get_objs:
  assumes "pool_inv mp" "mempool_ring_get mp n b = (ret, objs, mp')"
  shows "pool_inv mp' \<and> pool_cap mp' = pool_cap mp \<and> pool_objs mp = pool_objs mp' + mset objs \<and>
         (ret = 0 \<and> length objs = unat n \<or> ret = - ENOENT \<and> objs = [] \<and> mp' = mp \<and>
          ring_used (mp_ring mp) < unat n)"
proof -
  have r: "ring_inv (mp_ring mp)" using assms(1) by (simp add: pool_inv_def)
  show ?thesis
  proof (cases "ring_used (mp_ring mp) < unat n")
    case True
    then have "ret = - ENOENT" "objs = []" "mp' = mp"
      using assms(2) by (auto simp: mempool_ring_get_def ring_bulk_get [OF r] split: if_splits)
    then show ?thesis using assms(1) True by simp
  next
    case False
    then have eq: "ret = 0" "objs = take (unat n) (ring_contents (mp_ring mp))"
      "mp' = mp\<lparr> mp_ring := ring_pop (mp_ring mp) (unat n) \<rparr>"
      using assms(2) by (auto simp: mempool_ring_get_def ring_bulk_get [OF r] split: if_splits)
    have pop: "ring_inv (ring_pop (mp_ring mp) (unat n))"
      "ring_contents (ring_pop (mp_ring mp) (unat n)) = drop (unat n) (ring_contents (mp_ring mp))"
      using False r by (auto intro: ring_pop_inv ring_pop_contents)
    have "mset (ring_contents (mp_ring mp)) =
        mset (take (unat n) (ring_contents (mp_ring mp))) + mset (drop (unat n) (ring_contents (mp_ring mp)))"
      by (metis append_take_drop_id mset_append)
    then have objs: "pool_objs mp = pool_objs mp' + mset objs"
      using eq pop by (simp add: pool_objs_def ac_simps)
    then have "size (pool_objs mp') \<le> pool_cap mp"
      using assms(1) by (simp add: pool_inv_def)
    with objs eq pop False assms(1) show ?thesis by (simp add: pool_inv_def)
  qed
qed

lemma pool_from_cache_objs:
  assumes "pool_inv mp" "l < RTE_MAX_LCORE" "n \<le> length cache"
    "pool_objs mp0 + mset (mp_local_cache mp ! l) = pool_objs mp + mset cache"
    "size (pool_objs mp0) \<le> pool_cap mp" "length cache - n \<le> 2 * RTE_MEMPOOL_CACHE_MAX_SIZE"
  defines "mp' \<equiv> mp\<lparr> mp_local_cache := (mp_local_cache mp)[l := take (length cache - n) cache] \<rparr>"
  shows "pool_inv mp' \<and> pool_cap mp' = pool_cap mp \<and>
         pool_objs mp0 = pool_objs mp' + mset (rev (drop (length cache - n) cache))"
proof -
  have l: "l < length (mp_local_cache mp)" using assms(1,2) by (simp add: pool_inv_def)
  let ?k = "length cache - n"
  have "pool_objs mp' + mset (drop ?k cache) + mset (mp_local_cache mp ! l) =
      mset (ring_contents (mp_ring mp)) + mset (drop ?k cache) +
      (mset (concat ((mp_local_cache mp)[l := take ?k cache])) + mset (mp_local_cache mp ! l))"
    by (simp add: pool_objs_def mp'_def ac_simps)
  also have "\<dots> = mset (ring_contents (mp_ring mp)) + mset (concat (mp_local_cache mp)) +
      mset (take ?k cache @ drop ?k cache)"
    unfolding mset_concat_update [OF l] by (simp only: mset_append ac_simps)
  also have "\<dots> = pool_objs mp0 + mset (mp_local_cache mp ! l)"
    unfolding append_take_drop_id using assms(4) by (simp add: pool_objs_def [of mp])
  finally have objs: "pool_objs mp0 = pool_objs mp' + mset (rev (drop ?k cache))" by simp
  then have "size (pool_objs mp') \<le> pool_cap mp" using assms(5) by simp
  then have "pool_inv mp'"
    using assms(1,6) by (auto simp: pool_inv_def mp'_def dest!: set_update_subset_insert [THEN subsetD])
  with objs show ?thesis by (simp add: mp'_def)
qed

lemma mempool_get_bulk_objs:
  assumes inv: "pool_inv mp" and get: "mempool_get_bulk l mp n b = (ret, objs, mp')"
  shows "pool_inv mp' \<and> pool_cap mp' = pool_cap mp \<and> pool_objs mp = pool_objs mp' + mset objs \<and>
         (ret = 0 \<and> length objs = unat n \<or>
          ret = - ENOENT \<and> objs = [] \<and> mp' = mp \<and> ring_used (mp_ring mp) < unat n)"
proof (cases "mp_cache_size mp = 0 \<or> \<not> b \<or> n \<ge> mp_cache_size mp \<or> l \<ge> RTE_MAX_LCORE")
  case True
  then show ?thesis
    using get mempool_ring_get_objs [OF inv] by (auto simp: mempool_get_bulk_def)
next
  case False
  let ?c = "mp_local_cache mp ! l" and ?cs = "mp_cache_size mp"
  have l: "l < RTE_MAX_LCORE" and ncs: "unat n < unat ?cs" and cs: "unat ?cs \<le> RTE_MEMPOOL_CACHE_MAX_SIZE"
    using False inv by (auto simp: pool_inv_def word_le_nat_alt not_le)
  have size: "size (pool_objs mp) \<le> pool_cap mp"
    and clen: "length ?c \<le> 2 * RTE_MEMPOOL_CACHE_MAX_SIZE"
    using inv l by (auto simp: pool_inv_def)
  have nle: "\<not> ?cs \<le> n" using False by simp
  note r = pool_inv_ring [OF inv]
  show ?thesis
  proof (cases "length ?c < unat n")
    case backfill: True
    let ?req = "n + (?cs - of_nat (length ?c))"
    have lc: "unat (of_nat (length ?c) :: u32) = length ?c"
      using clen by (intro unat_of_nat_small) simp
    have req: "unat ?req = unat n + (unat ?cs - length ?c)"
      using ncs cs backfill lc
      by (subst unat_add_small) (auto simp: unat_sub word_le_nat_alt)
    show ?thesis
    proof (cases "ring_used (mp_ring mp) < unat ?req")
      case True
      then have "mempool_ring_get mp n b = (ret, objs, mp')"
        using False backfill get nle
        by (simp add: mempool_get_bulk_def Let_def ring_bulk_get [OF r])
      then show ?thesis by (rule mempool_ring_get_objs [OF inv])
    next
      case enough: False
      let ?ring = "ring_pop (mp_ring mp) (unat ?req)"
      let ?fill = "take (unat ?req) (ring_contents (mp_ring mp))"
      let ?mp = "mp\<lparr> mp_ring := ?ring \<rparr>"
      define cache where "cache = ?c @ ?fill"
      have pop: "ring_inv ?ring" "ring_contents ?ring = drop (unat ?req) (ring_contents (mp_ring mp))"
        using enough r by (auto intro: ring_pop_inv ring_pop_contents)
      have split: "mset (ring_contents (mp_ring mp)) = mset ?fill + mset (ring_contents ?ring)"
        unfolding pop by (metis append_take_drop_id mset_append)
      have objs: "pool_objs mp + mset (mp_local_cache ?mp ! l) = pool_objs ?mp + mset cache"
        using split by (simp add: pool_objs_def cache_def ac_simps)
      have "pool_inv ?mp"
        using inv pop split by (simp add: pool_inv_def pool_objs_def)
      moreover have "ret = 0" "objs = rev (drop (length cache - unat n) cache)"
        "mp' = ?mp\<lparr> mp_local_cache := (mp_local_cache ?mp)[l := take (length cache - unat n) cache] \<rparr>"
        using False nle backfill get enough
        by (auto simp: mempool_get_bulk_def Let_def ring_bulk_get [OF r] simp: cache_def)
      moreover have "length cache - unat n \<le> 2 * RTE_MEMPOOL_CACHE_MAX_SIZE" "unat n \<le> length cache"
        using enough req backfill cs ncs by (auto simp: cache_def)
      ultimately show ?thesis
        using pool_from_cache_objs [of ?mp l "unat n" cache mp] l objs size by auto
    qed
  next
    case hit: False
    then have "ret = 0" "objs = rev (drop (length ?c - unat n) ?c)"
      "mp' = mp\<lparr> mp_local_cache := (mp_local_cache mp)[l := take (length ?c - unat n) ?c] \<rparr>"
      using False nle get by (auto simp: mempool_get_bulk_def Let_def)
    then show ?thesis
      using pool_from_cache_objs [OF inv l, of "unat n" ?c mp] hit size clen by auto
  qed
qed

section \<open>The pool interface\<close>

text \<open>What the users of a pool rely on: an object that was got is no longer in the
  pool, and putting it back restores the pool.\<close>

locale object_pool =
  fixes invar :: "'p \<Rightarrow> bool"
    and objs :: "'p \<Rightarrow> 'a multiset"
    and capacity :: "'p \<Rightarrow> nat"
    and get :: "'p \<Rightarrow> 'a option \<times> 'p"
    and put :: "'p \<Rightarrow> 'a \<Rightarrow> 'p"
  assumes get_some: "invar p \<Longrightarrow> get p = (Some x, p') \<Longrightarrow>
      invar p' \<and> capacity p' = capacity p \<and> objs p = add_mset x (objs p')"
    and get_none: "invar p \<Longrightarrow> get p = (None, p') \<Longrightarrow> p' = p"
    and put_room: "invar p \<Longrightarrow> size (objs p) < capacity p \<Longrightarrow>
      invar (put p x) \<and> capacity (put p x) = capacity p \<and> objs (put p x) = add_mset x (objs p)"
    and bounded: "invar p \<Longrightarrow> size (objs p) \<le> capacity p"
begin

lemma get_put:
  assumes "invar p" "get p = (Some x, p')"
  shows "invar (put p' x) \<and> objs (put p' x) = objs p"
proof -
  have "size (objs p') < capacity p'"
    using get_some [OF assms] bounded [OF assms(1)] by simp
  then show ?thesis using get_some [OF assms] put_room [of p' x] by simp
qed

text \<open>Objects in use: what was taken out of a pool that started with \<^term>\<open>all\<close>.\<close>

lemma conserved_get:
  assumes "invar p" "objs p + used = all" "get p = (Some x, p')"
  shows "objs p' + add_mset x used = all"
  using get_some [OF assms(1,3)] assms(2) by simp

lemma conserved_put:
  assumes "invar p" "objs p + add_mset x used = all" "size all \<le> capacity p"
  shows "objs (put p x) + used = all" "invar (put p x)"
proof -
  have "size (objs p) < capacity p" using assms(2,3) by auto
  then show "objs (put p x) + used = all" "invar (put p x)"
    using put_room [OF assms(1), of x] assms(2) by auto
qed

end

lemma pool_cache_get_spec:
  assumes "pool_inv mp" "pool_cache_get l mp = (ox, mp')"
  shows "pool_inv mp' \<and> pool_cap mp' = pool_cap mp \<and>
         (case ox of None \<Rightarrow> mp' = mp \<and> ring_used (mp_ring mp) = 0
          | Some x \<Rightarrow> pool_objs mp = add_mset x (pool_objs mp'))"
proof -
  obtain ret objs where get: "mempool_get_bulk l mp 1 (mp_flags mp AND MEMPOOL_F_SC_GET = 0) = (ret, objs, mp')"
    and ox: "ox = (if ret \<noteq> 0 then None else case objs of [] \<Rightarrow> None | x # _ \<Rightarrow> Some x)"
    using assms(2)
    by (auto simp: pool_cache_get_def rte_mempool_get_def rte_mempool_get_bulk_def Let_def split: prod.splits)
  show ?thesis
    using mempool_get_bulk_objs [OF assms(1) get] ox
    by (auto simp: length_Suc_conv)
qed

lemma pool_cache_put_spec:
  assumes "pool_inv mp" "size (pool_objs mp) < pool_cap mp"
  shows "pool_inv (pool_cache_put l mp x) \<and> pool_cap (pool_cache_put l mp x) = pool_cap mp \<and>
         pool_objs (pool_cache_put l mp x) = add_mset x (pool_objs mp)"
  using mempool_put_bulk_objs [OF assms(1), of "[x]" l] assms(2)
  by (simp add: pool_cache_put_def rte_mempool_put_def rte_mempool_put_bulk_def)

interpretation mpool: object_pool pool_inv pool_objs pool_cap "pool_cache_get l" "pool_cache_put l" for l
proof
  fix p :: "'a rte_mempool" and p'
  assume "pool_inv p" "pool_cache_get l p = (None, p')"
  then show "p' = p" using pool_cache_get_spec [of p l None p'] by simp
next
  fix p :: "'a rte_mempool" and x p'
  assume "pool_inv p" "pool_cache_get l p = (Some x, p')"
  then show "pool_inv p' \<and> pool_cap p' = pool_cap p \<and> pool_objs p = add_mset x (pool_objs p')"
    using pool_cache_get_spec [of p l "Some x" p'] by simp
qed (simp_all add: pool_cache_put_spec, simp add: pool_inv_def)

text \<open>
  C17. The pool conserves its objects.  A bulk put that fits adds exactly the given
  objects to the ring and the caches of the pool; a bulk get either delivers the
  requested number of objects, which then are exactly what the pool lost, or
  reports \<open>-ENOENT\<close>, delivers nothing and leaves the pool as it was, and that only
  when the ring holds fewer objects than requested.  Both keep the invariant,
  with and without the per-core caches.
\<close>

theorem mempool_conserves_objects:
  assumes "pool_inv mp"
  shows "(size (pool_objs mp) + length xs \<le> pool_cap mp \<longrightarrow>
            pool_objs (rte_mempool_put_bulk l mp xs (of_nat (length xs))) = pool_objs mp + mset xs \<and>
            pool_inv (rte_mempool_put_bulk l mp xs (of_nat (length xs)))) \<and>
         (case rte_mempool_get_bulk l mp n of (ret, objs, mp') \<Rightarrow>
            pool_inv mp' \<and> pool_objs mp = pool_objs mp' + mset objs \<and>
            (ret = 0 \<and> length objs = unat n \<or>
             ret = - ENOENT \<and> objs = [] \<and> mp' = mp \<and> ring_used (mp_ring mp) < unat n))"
proof -
  obtain ret objs mp' where get: "rte_mempool_get_bulk l mp n = (ret, objs, mp')"
    using prod_cases3 by blast
  then show ?thesis
    using mempool_put_bulk_objs [OF assms, of xs l] mempool_get_bulk_objs [OF assms, of l n _ ret objs mp']
    by (auto simp: rte_mempool_put_bulk_def rte_mempool_get_bulk_def)
qed

text \<open>A pool of two objects with a cache of one object on core 0.\<close>

definition small_pool :: "nat rte_mempool" where
  "small_pool =
     \<lparr> mp_ring = ring_push wrapping_ring [5], mp_flags = 0, mp_size = 2, mp_cache_size = 4,
       mp_cache_flushthresh = 6, mp_local_cache = [6] # replicate 127 [] \<rparr>"

lemma small_pool_facts: "pool_inv small_pool" "pool_objs small_pool = {#5, 6#}" "pool_cap small_pool = 3"
proof -
  have w: "ring_inv wrapping_ring" by code_simp
  have c: "ring_capacity wrapping_ring = 3" "ring_used wrapping_ring = 0" "ring_contents wrapping_ring = []"
    by (simp_all add: wrapping_ring_def ring_capacity_def ring_used_def ring_contents_def ring_read_def)
  have push: "ring_inv (ring_push wrapping_ring [5])" "ring_contents (ring_push wrapping_ring [5]) = [5]"
    using ring_push_inv [OF w, of "[5]"] ring_push_contents [OF w, of "[5]"] c by auto
  then show objs: "pool_objs small_pool = {#5, 6#}" and cap: "pool_cap small_pool = 3"
    using c by (simp_all add: pool_objs_def small_pool_def)
  show "pool_inv small_pool"
    using push objs cap by (auto simp: pool_inv_def small_pool_def)
qed

theorem mempool_conserves_objects_witness:
  "pool_objs (rte_mempool_put_bulk 0 small_pool [7] 1) = {#5, 6, 7#}"
  using mempool_conserves_objects [OF small_pool_facts(1), of "[7]" 0] small_pool_facts
  by auto

end
