(* ===== verification/Rte_Mbuf.thy ===== *)
theory Rte_Mbuf
  imports Rte_Mempool "HOL-Library.Monad_Syntax"
begin

unbundle bit_operations_syntax

text \<open>
  The packet buffers of DPDK (\<^verbatim>\<open>dpdk-2.0.0/lib/librte_mbuf/rte_mbuf.h\<close>) and the
  wrappers through which the stack uses them
  (\<^verbatim>\<open>netbsd/porting/rte_wrappers/rte_wrappers.c\<close>,
  \<^verbatim>\<open>netbsd/porting/pool/subr_pool.c\<close>).  A direct buffer owns the bytes behind its
  header; an indirect one (a clone) shares the bytes of a direct buffer, whose
  reference counter says how many users it has.  The theory shows that the
  counters are exact, so that a buffer is in its pool exactly when nobody
  refers to it.
\<close>

section \<open>Data\<close>

text \<open>The fields that the code reads or writes.  The pool is named by a number.\<close>

record rte_mbuf =
  buf_addr :: addr
  buf_physaddr :: nat
  buf_len :: u16
  data_off :: u16
  refcnt :: u16
  nb_segs :: "8 word"
  port :: "8 word"
  ol_flags :: "64 word"
  packet_type :: u16
  data_len :: u16
  pkt_len :: u32
  vlan_tci :: u16
  hash :: "64 word"
  rm_pool :: nat
  rm_next :: "addr option"
  tx_offload :: "64 word"

text \<open>The buffers of the process, their pools with the element size each was created
  with, the address translation of the huge pages, and the running core.\<close>

record rte_state =
  rmb :: "addr \<Rightarrow> rte_mbuf"
  rpool :: "nat \<Rightarrow> addr rte_mempool"
  elt_size :: "nat \<Rightarrow> u32"
  virt2phy :: "addr \<Rightarrow> nat"
  rlcore :: nat

abbreviation SIZEOF_RTE_MBUF :: nat where "SIZEOF_RTE_MBUF \<equiv> 128"
abbreviation RTE_PKTMBUF_HEADROOM :: u16 where "RTE_PKTMBUF_HEADROOM \<equiv> 128"
definition IND_ATTACHED_MBUF :: "64 word" where "IND_ATTACHED_MBUF = push_bit 62 1"

definition RTE_MBUF_TO_BADDR :: "addr \<Rightarrow> addr" where
  "RTE_MBUF_TO_BADDR mb = mb + SIZEOF_RTE_MBUF"

definition RTE_MBUF_FROM_BADDR :: "addr \<Rightarrow> addr" where
  "RTE_MBUF_FROM_BADDR ba = ba - SIZEOF_RTE_MBUF"

definition RTE_MBUF_INDIRECT :: "rte_mbuf \<Rightarrow> bool" where
  "RTE_MBUF_INDIRECT mb \<longleftrightarrow> ol_flags mb AND IND_ATTACHED_MBUF \<noteq> 0"

definition upd_rmb :: "addr \<Rightarrow> (rte_mbuf \<Rightarrow> rte_mbuf) \<Rightarrow> 'a rte_state_scheme \<Rightarrow> 'a rte_state_scheme" where
  "upd_rmb a f s = s\<lparr> rmb := (rmb s)(a := f (rmb s a)) \<rparr>"

section \<open>Operations\<close>

definition rte_mbuf_refcnt_update :: "addr \<Rightarrow> u16 \<Rightarrow> 'a rte_state_scheme \<Rightarrow> u16 \<times> 'a rte_state_scheme" where
  "rte_mbuf_refcnt_update m v s =
     (refcnt (rmb s m) + v, upd_rmb m (\<lambda>b. b\<lparr> refcnt := refcnt b + v \<rparr>) s)"

definition rte_mbuf_refcnt_read :: "addr \<Rightarrow> 'a rte_state_scheme \<Rightarrow> u16" where
  "rte_mbuf_refcnt_read m s = refcnt (rmb s m)"

definition rte_mbuf_refcnt_set :: "addr \<Rightarrow> u16 \<Rightarrow> 'a rte_state_scheme \<Rightarrow> 'a rte_state_scheme" where
  "rte_mbuf_refcnt_set m v s = upd_rmb m (\<lambda>b. b\<lparr> refcnt := v \<rparr>) s"

definition rte_mbuf_raw_alloc :: "nat \<Rightarrow> 'a rte_state_scheme \<Rightarrow> addr option \<times> 'a rte_state_scheme" where
  "rte_mbuf_raw_alloc mp s =
     (let (ret, mb, pool) = rte_mempool_get (rlcore s) (rpool s mp);
          s = s\<lparr> rpool := (rpool s)(mp := pool) \<rparr>
      in if ret < 0 then (None, s)
         else case mb of None \<Rightarrow> (None, s)
              | Some m \<Rightarrow> (Some m, rte_mbuf_refcnt_set m 1 s))"

definition rte_mbuf_raw_free :: "addr \<Rightarrow> 'a rte_state_scheme \<Rightarrow> 'a rte_state_scheme" where
  "rte_mbuf_raw_free m s =
     (let p = rm_pool (rmb s m)
      in s\<lparr> rpool := (rpool s)(p := rte_mempool_put (rlcore s) (rpool s p) m) \<rparr>)"

text \<open>The constructor the pools of packet buffers are created with.\<close>

definition rte_pktmbuf_init :: "nat \<Rightarrow> addr \<Rightarrow> 'a rte_state_scheme \<Rightarrow> 'a rte_state_scheme" where
  "rte_pktmbuf_init mp m s =
     (let blen = ucast (elt_size s mp - of_nat SIZEOF_RTE_MBUF) :: u16
      in s\<lparr> rmb := (rmb s)(m := \<lparr> buf_addr = m + SIZEOF_RTE_MBUF,
                buf_physaddr = virt2phy s m + SIZEOF_RTE_MBUF, buf_len = blen,
                data_off = min RTE_PKTMBUF_HEADROOM blen, refcnt = 0, nb_segs = 1, port = 0xff,
                ol_flags = 0, packet_type = 0, data_len = 0, pkt_len = 0, vlan_tci = 0, hash = 0,
                rm_pool = mp, rm_next = None, tx_offload = 0 \<rparr>) \<rparr>)"

definition default_data_off :: "u16 \<Rightarrow> u16" where
  "default_data_off blen = (if RTE_PKTMBUF_HEADROOM \<le> blen then RTE_PKTMBUF_HEADROOM else blen)"

definition rte_pktmbuf_reset :: "addr \<Rightarrow> 'a rte_state_scheme \<Rightarrow> 'a rte_state_scheme" where
  "rte_pktmbuf_reset m s =
     upd_rmb m (\<lambda>b. b\<lparr> rm_next := None, pkt_len := 0, tx_offload := 0, vlan_tci := 0, nb_segs := 1,
                       port := 0xff, ol_flags := 0, packet_type := 0,
                       data_off := default_data_off (buf_len b), data_len := 0 \<rparr>) s"

definition rte_pktmbuf_alloc :: "nat \<Rightarrow> 'a rte_state_scheme \<Rightarrow> addr option \<times> 'a rte_state_scheme" where
  "rte_pktmbuf_alloc mp s =
     (case rte_mbuf_raw_alloc mp s of
        (None, s) \<Rightarrow> (None, s)
      | (Some m, s) \<Rightarrow> (Some m, rte_pktmbuf_reset m s))"

definition rte_pktmbuf_attach :: "addr \<Rightarrow> addr \<Rightarrow> 'a rte_state_scheme \<Rightarrow> 'a rte_state_scheme" where
  "rte_pktmbuf_attach mi md s =
     (let s = snd (rte_mbuf_refcnt_update md 1 s); d = rmb s md
      in upd_rmb mi (\<lambda>b. b\<lparr> buf_physaddr := buf_physaddr d, buf_addr := buf_addr d, buf_len := buf_len d,
           data_off := data_off d, data_len := data_len d, port := port d, vlan_tci := vlan_tci d,
           tx_offload := tx_offload d, hash := hash d, rm_next := None,
           pkt_len := ucast (data_len d), nb_segs := 1,
           ol_flags := ol_flags d OR IND_ATTACHED_MBUF, packet_type := packet_type d \<rparr>) s)"

definition rte_pktmbuf_detach :: "addr \<Rightarrow> 'a rte_state_scheme \<Rightarrow> 'a rte_state_scheme" where
  "rte_pktmbuf_detach m s =
     (let blen = ucast (elt_size s (rm_pool (rmb s m)) - of_nat SIZEOF_RTE_MBUF) :: u16
      in upd_rmb m (\<lambda>b. b\<lparr> buf_physaddr := virt2phy s m + SIZEOF_RTE_MBUF,
           buf_addr := RTE_MBUF_TO_BADDR m, buf_len := blen, data_off := default_data_off blen,
           data_len := 0, ol_flags := 0 \<rparr>) s)"

text \<open>The condition of the source reads the counter and, only when it is not one,
  decrements it.\<close>

definition rte_pktmbuf_prefree_seg :: "addr \<Rightarrow> 'a rte_state_scheme \<Rightarrow> addr option \<times> 'a rte_state_scheme" where
  "rte_pktmbuf_prefree_seg m s =
     (let (last, s) = (if rte_mbuf_refcnt_read m s = 1 then (True, s)
                       else let (c, s) = rte_mbuf_refcnt_update m (- 1) s in (c = 0, s))
      in if last
         then let s = rte_mbuf_refcnt_set m 0 s
              in if RTE_MBUF_INDIRECT (rmb s m)
                 then let md = RTE_MBUF_FROM_BADDR (buf_addr (rmb s m));
                          s = rte_pktmbuf_detach m s;
                          (c, s) = rte_mbuf_refcnt_update md (- 1) s
                      in (Some m, if c = 0 then rte_mbuf_raw_free md s else s)
                 else (Some m, s)
         else (None, s))"

definition rte_pktmbuf_free_seg :: "addr \<Rightarrow> 'a rte_state_scheme \<Rightarrow> 'a rte_state_scheme" where
  "rte_pktmbuf_free_seg m s =
     (case rte_pktmbuf_prefree_seg m s of
        (None, s) \<Rightarrow> s
      | (Some m, s) \<Rightarrow> rte_mbuf_raw_free m (upd_rmb m (\<lambda>b. b\<lparr> rm_next := None \<rparr>) s))"

partial_function (option) rte_pktmbuf_free ::
  "addr option \<Rightarrow> 'a rte_state_scheme \<Rightarrow> 'a rte_state_scheme option" where
  "rte_pktmbuf_free m s =
     (case m of None \<Rightarrow> Some s
      | Some m \<Rightarrow> rte_pktmbuf_free (rm_next (rmb s m)) (rte_pktmbuf_free_seg m s))"

text \<open>The loop of the clone: \<^term>\<open>prev\<close> is the buffer whose link the source's pointer
  \<^verbatim>\<open>prev\<close> points to.  The result is the last indirect buffer, or none when it could
  not be allocated.\<close>

partial_function (option) clone_segs ::
  "nat \<Rightarrow> addr \<Rightarrow> addr \<Rightarrow> addr \<Rightarrow> 8 word \<Rightarrow> 'a rte_state_scheme \<Rightarrow>
   (addr option \<times> addr \<times> 8 word \<times> 'a rte_state_scheme) option" where
  "clone_segs mp md mi prev nseg s =
     (let nseg = nseg + 1;
          s = rte_pktmbuf_attach mi md s;
          s = upd_rmb prev (\<lambda>b. b\<lparr> rm_next := Some mi \<rparr>) s
      in case rm_next (rmb s md) of
           None \<Rightarrow> Some (Some mi, mi, nseg, s)
         | Some md \<Rightarrow>
             (case rte_pktmbuf_alloc mp s of
                (None, s) \<Rightarrow> Some (None, mi, nseg, s)
              | (Some mi', s) \<Rightarrow> clone_segs mp md mi' mi nseg s))"

definition rte_pktmbuf_clone ::
  "addr \<Rightarrow> nat \<Rightarrow> 'a rte_state_scheme \<Rightarrow> (addr option \<times> 'a rte_state_scheme) option" where
  "rte_pktmbuf_clone md mp s =
     (case rte_pktmbuf_alloc mp s of
        (None, s) \<Rightarrow> Some (None, s)
      | (Some mc, s) \<Rightarrow>
          (let pktlen = pkt_len (rmb s md)
           in do {
             (mi, prev, nseg, s) \<leftarrow> clone_segs mp md mc mc 0 s;
             let s = upd_rmb prev (\<lambda>b. b\<lparr> rm_next := None \<rparr>) s;
             let s = upd_rmb mc (\<lambda>b. b\<lparr> nb_segs := nseg, pkt_len := pktlen \<rparr>) s;
             case mi of
               None \<Rightarrow> do { s \<leftarrow> rte_pktmbuf_free (Some mc) s; Some (None, s) }
             | Some _ \<Rightarrow> Some (Some mc, s)
           }))"

section \<open>Lengths\<close>

definition rte_pktmbuf_mtod :: "rte_mbuf \<Rightarrow> addr" where
  "rte_pktmbuf_mtod m = buf_addr m + unat (data_off m)"

definition rte_pktmbuf_headroom :: "rte_mbuf \<Rightarrow> u16" where
  "rte_pktmbuf_headroom m = data_off m"

definition rte_pktmbuf_tailroom :: "rte_mbuf \<Rightarrow> u16" where
  "rte_pktmbuf_tailroom m = buf_len m - rte_pktmbuf_headroom m - data_len m"

partial_function (option) rte_pktmbuf_lastseg :: "addr \<Rightarrow> 'a rte_state_scheme \<Rightarrow> addr option" where
  "rte_pktmbuf_lastseg m s =
     (case rm_next (rmb s m) of None \<Rightarrow> Some m | Some m \<Rightarrow> rte_pktmbuf_lastseg m s)"

definition rte_pktmbuf_prepend :: "addr \<Rightarrow> u16 \<Rightarrow> 'a rte_state_scheme \<Rightarrow> addr option \<times> 'a rte_state_scheme" where
  "rte_pktmbuf_prepend m n s =
     (if n > rte_pktmbuf_headroom (rmb s m) then (None, s)
      else let s = upd_rmb m (\<lambda>b. b\<lparr> data_off := data_off b - n, data_len := data_len b + n,
                                    pkt_len := pkt_len b + ucast n \<rparr>) s
           in (Some (rte_pktmbuf_mtod (rmb s m)), s))"

definition rte_pktmbuf_append ::
  "addr \<Rightarrow> u16 \<Rightarrow> 'a rte_state_scheme \<Rightarrow> (addr option \<times> 'a rte_state_scheme) option" where
  "rte_pktmbuf_append m n s = do {
     m_last \<leftarrow> rte_pktmbuf_lastseg m s;
     if n > rte_pktmbuf_tailroom (rmb s m_last) then Some (None, s)
     else let tail = rte_pktmbuf_mtod (rmb s m_last) + unat (data_len (rmb s m_last));
              s = upd_rmb m_last (\<lambda>b. b\<lparr> data_len := data_len b + n \<rparr>) s;
              s = upd_rmb m (\<lambda>b. b\<lparr> pkt_len := pkt_len b + ucast n \<rparr>) s
          in Some (Some tail, s)
   }"

definition rte_pktmbuf_adj :: "addr \<Rightarrow> u16 \<Rightarrow> 'a rte_state_scheme \<Rightarrow> addr option \<times> 'a rte_state_scheme" where
  "rte_pktmbuf_adj m n s =
     (if n > data_len (rmb s m) then (None, s)
      else let s = upd_rmb m (\<lambda>b. b\<lparr> data_len := data_len b - n, data_off := data_off b + n,
                                    pkt_len := pkt_len b - ucast n \<rparr>) s
           in (Some (rte_pktmbuf_mtod (rmb s m)), s))"

definition rte_pktmbuf_trim :: "addr \<Rightarrow> u16 \<Rightarrow> 'a rte_state_scheme \<Rightarrow> (int \<times> 'a rte_state_scheme) option" where
  "rte_pktmbuf_trim m n s = do {
     m_last \<leftarrow> rte_pktmbuf_lastseg m s;
     if n > data_len (rmb s m_last) then Some (- 1, s)
     else let s = upd_rmb m_last (\<lambda>b. b\<lparr> data_len := data_len b - n \<rparr>) s;
              s = upd_rmb m (\<lambda>b. b\<lparr> pkt_len := pkt_len b - ucast n \<rparr>) s
          in Some (0, s)
   }"

section \<open>The wrappers of the stack\<close>

definition allocate_mbuf :: "nat \<Rightarrow> 'a rte_state_scheme \<Rightarrow> addr option \<times> 'a rte_state_scheme" where
  "allocate_mbuf pool s = rte_pktmbuf_alloc pool s"

definition free_mbuf :: "addr \<Rightarrow> 'a rte_state_scheme \<Rightarrow> 'a rte_state_scheme" where
  "free_mbuf mbuf s = rte_pktmbuf_free_seg mbuf s"

definition increment_refcnt :: "addr \<Rightarrow> 'a rte_state_scheme \<Rightarrow> 'a rte_state_scheme" where
  "increment_refcnt m s = snd (rte_mbuf_refcnt_update m 1 s)"

definition read_refcnt :: "addr \<Rightarrow> 'a rte_state_scheme \<Rightarrow> u16" where
  "read_refcnt m s = rte_mbuf_refcnt_read m s"

definition get_mbuf_data :: "addr \<Rightarrow> 'a rte_state_scheme \<Rightarrow> addr" where
  "get_mbuf_data buf s = rte_pktmbuf_mtod (rmb s buf)"

definition pool_data_mbuf_clone ::
  "nat \<Rightarrow> addr \<Rightarrow> 'a rte_state_scheme \<Rightarrow> (addr option \<times> 'a rte_state_scheme) option" where
  "pool_data_mbuf_clone mempool to_clone s = rte_pktmbuf_clone to_clone mempool s"

text \<open>Appending one segment to a packet under construction: the first call (no previous
  segment) starts the packet.  The data offset is moved to where \<^term>\<open>buf\<close> points.\<close>

definition chain_rte_mbufs ::
  "addr \<Rightarrow> addr option \<Rightarrow> addr \<Rightarrow> addr \<Rightarrow> int \<Rightarrow> 'a rte_state_scheme \<Rightarrow> 'a rte_state_scheme" where
  "chain_rte_mbufs head prev mbuf buf n s =
     (let s = upd_rmb mbuf (\<lambda>b. b\<lparr> data_len := of_int n \<rparr>) s;
          s = (case prev of
                 None \<Rightarrow> upd_rmb head (\<lambda>b. b\<lparr> pkt_len := of_int n, nb_segs := 1 \<rparr>) s
               | Some prev \<Rightarrow>
                   let s = upd_rmb head (\<lambda>b. b\<lparr> pkt_len := pkt_len b + of_int n \<rparr>) s;
                       s = upd_rmb prev (\<lambda>b. b\<lparr> rm_next := Some mbuf \<rparr>) s
                   in upd_rmb head (\<lambda>b. b\<lparr> nb_segs := nb_segs b + 1 \<rparr>) s);
          s = upd_rmb mbuf (\<lambda>b. b\<lparr> rm_next := None \<rparr>) s
      in upd_rmb mbuf (\<lambda>b. b\<lparr> data_off := data_off b + of_int (int buf - int (rte_pktmbuf_mtod b)) \<rparr>) s)"

section \<open>Pools and counters\<close>

lemma rmb_upd_rmb [simp]: "rmb (upd_rmb a f s) = (rmb s)(a := f (rmb s a))"
  and rpool_upd_rmb [simp]: "rpool (upd_rmb a f s) = rpool s"
  and elt_size_upd_rmb [simp]: "elt_size (upd_rmb a f s) = elt_size s"
  and rlcore_upd_rmb [simp]: "rlcore (upd_rmb a f s) = rlcore s"
  and virt2phy_upd_rmb [simp]: "virt2phy (upd_rmb a f s) = virt2phy s"
  and more_upd_rmb [simp]: "rte_state.more (upd_rmb a f s) = rte_state.more s"
  by (simp_all add: upd_rmb_def)

lemma IND_bit: "bit IND_ATTACHED_MBUF n \<longleftrightarrow> n = 62"
  unfolding IND_ATTACHED_MBUF_def bit_push_bit_iff bit_1_iff by auto

lemma RTE_MBUF_INDIRECT_bit: "RTE_MBUF_INDIRECT b \<longleftrightarrow> bit (ol_flags b) 62"
  unfolding RTE_MBUF_INDIRECT_def IND_ATTACHED_MBUF_def push_bit_of_1 and_exp_eq_0_iff_not_bit by simp

lemma INDIRECT_simps [simp]:
  "RTE_MBUF_INDIRECT (b\<lparr> ol_flags := 0 \<rparr>) = False"
  "RTE_MBUF_INDIRECT (b\<lparr> ol_flags := f OR IND_ATTACHED_MBUF \<rparr>) = True"
  by (simp_all add: RTE_MBUF_INDIRECT_bit bit_or_iff IND_bit)

lemma INDIRECT_cong:
  "ol_flags b = ol_flags c \<Longrightarrow> RTE_MBUF_INDIRECT b = RTE_MBUF_INDIRECT c"
  by (simp add: RTE_MBUF_INDIRECT_def)

text \<open>The direct buffer whose bytes an indirect one uses.\<close>

definition rm_base :: "rte_mbuf \<Rightarrow> addr" where
  "rm_base b = RTE_MBUF_FROM_BADDR (buf_addr b)"

definition attached :: "addr set \<Rightarrow> (addr \<Rightarrow> rte_mbuf) \<Rightarrow> addr \<Rightarrow> addr set" where
  "attached U h d = {i \<in> U. RTE_MBUF_INDIRECT (h i) \<and> rm_base (h i) = d}"

lemma finite_attached: "finite U \<Longrightarrow> finite (attached U h d)"
  by (simp add: attached_def)

text \<open>The counters: \<^term>\<open>r\<close> says how many references the users of the buffers hold.\<close>

definition counts_ok :: "addr set \<Rightarrow> (addr \<Rightarrow> nat) \<Rightarrow> (addr \<Rightarrow> rte_mbuf) \<Rightarrow> bool" where
  "counts_ok U r h \<longleftrightarrow>
     (\<forall>a\<in>U. unat (refcnt (h a)) = r a + card (attached U h a)) \<and>
     (\<forall>a\<in>U. \<not> RTE_MBUF_INDIRECT (h a) \<longrightarrow> buf_addr (h a) = RTE_MBUF_TO_BADDR a) \<and>
     (\<forall>i\<in>U. RTE_MBUF_INDIRECT (h i) \<longrightarrow>
        refcnt (h i) \<noteq> 0 \<and> rm_base (h i) \<in> U \<and> \<not> RTE_MBUF_INDIRECT (h (rm_base (h i))))"

lemma counts_ok_refcnt: "counts_ok U r h \<Longrightarrow> a \<in> U \<Longrightarrow> unat (refcnt (h a)) = r a + card (attached U h a)"
  and counts_ok_direct: "counts_ok U r h \<Longrightarrow> a \<in> U \<Longrightarrow> \<not> RTE_MBUF_INDIRECT (h a) \<Longrightarrow>
    buf_addr (h a) = RTE_MBUF_TO_BADDR a"
  and counts_ok_indirect: "counts_ok U r h \<Longrightarrow> i \<in> U \<Longrightarrow> RTE_MBUF_INDIRECT (h i) \<Longrightarrow>
    refcnt (h i) \<noteq> 0 \<and> rm_base (h i) \<in> U \<and> \<not> RTE_MBUF_INDIRECT (h (rm_base (h i)))"
  by (simp_all add: counts_ok_def)

text \<open>The buffers of pool \<^term>\<open>p\<close> that nobody refers to.\<close>

definition unreferenced :: "addr set \<Rightarrow> (addr \<Rightarrow> rte_mbuf) \<Rightarrow> nat \<Rightarrow> addr set" where
  "unreferenced U h p = {a \<in> U. refcnt (h a) = 0 \<and> rm_pool (h a) = p}"

text \<open>Every pool holds exactly these, each once, but for the buffers of \<^term>\<open>X\<close>, which
  are on their way to the pool.\<close>

definition pools_ok :: "addr set \<Rightarrow> addr set \<Rightarrow> 'a rte_state_scheme \<Rightarrow> bool" where
  "pools_ok U X s \<longleftrightarrow>
     (\<forall>p. pool_inv (rpool s p) \<and> pool_objs (rpool s p) = mset_set (unreferenced U (rmb s) p - X) \<and>
          card {a \<in> U. rm_pool (rmb s a) = p} \<le> pool_cap (rpool s p))"

definition rmb_inv :: "addr set \<Rightarrow> (addr \<Rightarrow> nat) \<Rightarrow> 'a rte_state_scheme \<Rightarrow> bool" where
  "rmb_inv U r s \<longleftrightarrow> finite U \<and> counts_ok U r (rmb s) \<and> pools_ok U {} s"

lemma rte_mempool_get_spec:
  assumes "pool_inv mp" "rte_mempool_get l mp = (ret, ox, mp')"
  shows "pool_inv mp' \<and> pool_cap mp' = pool_cap mp \<and>
         (ret = 0 \<and> (\<exists>x. ox = Some x \<and> pool_objs mp = add_mset x (pool_objs mp')) \<or>
          ret < 0 \<and> ox = None \<and> mp' = mp \<and> ring_used (mp_ring mp) = 0)"
proof -
  obtain objs where get: "mempool_get_bulk l mp 1 (mp_flags mp AND MEMPOOL_F_SC_GET = 0) = (ret, objs, mp')"
    and ox: "ox = (case objs of [] \<Rightarrow> None | x # _ \<Rightarrow> Some x)"
    using assms(2)
    by (auto simp: rte_mempool_get_def rte_mempool_get_bulk_def Let_def split: prod.splits)
  show ?thesis
    using mempool_get_bulk_objs [OF assms(1) get] ox by (auto simp: length_Suc_conv)
qed

lemma rte_mempool_put_spec:
  assumes "pool_inv mp" "size (pool_objs mp) < pool_cap mp"
  shows "pool_inv (rte_mempool_put l mp x) \<and> pool_cap (rte_mempool_put l mp x) = pool_cap mp \<and>
         pool_objs (rte_mempool_put l mp x) = add_mset x (pool_objs mp)"
  using pool_cache_put_spec [OF assms] by (simp add: pool_cache_put_def)

lemma raw_free_pools_ok:
  assumes "pools_ok U (insert a X) s" "finite U" "a \<in> U" "a \<notin> X" "refcnt (rmb s a) = 0"
  shows "pools_ok U X (rte_mbuf_raw_free a s)"
proof -
  let ?p = "rm_pool (rmb s a)"
  let ?F = "unreferenced U (rmb s) ?p"
  have pool: "pool_inv (rpool s ?p)" "pool_objs (rpool s ?p) = mset_set (?F - insert a X)"
    and cap: "card {a \<in> U. rm_pool (rmb s a) = ?p} \<le> pool_cap (rpool s ?p)"
    using assms(1) by (auto simp: pools_ok_def)
  have a: "a \<in> ?F - X" and fin: "finite ?F"
    using assms(2-5) by (auto simp: unreferenced_def)
  have ins: "mset_set (?F - X) = add_mset a (mset_set (?F - insert a X))"
    using a fin mset_set.remove [of "?F - X" a] by (metis Diff_insert finite_Diff)
  have "card (?F - insert a X) < card (?F - X)"
    using a fin by (intro psubset_card_mono) auto
  also have "card (?F - X) \<le> card {a \<in> U. rm_pool (rmb s a) = ?p}"
    using assms(2) by (intro card_mono) (auto simp: unreferenced_def)
  finally have "size (pool_objs (rpool s ?p)) < pool_cap (rpool s ?p)"
    using pool(2) cap by simp
  from rte_mempool_put_spec [OF pool(1) this, of "rlcore s" a]
  have "pool_objs (rte_mempool_put (rlcore s) (rpool s ?p) a) = mset_set (?F - X)"
    "pool_inv (rte_mempool_put (rlcore s) (rpool s ?p) a)"
    "pool_cap (rte_mempool_put (rlcore s) (rpool s ?p) a) = pool_cap (rpool s ?p)"
    unfolding pool(2) ins by simp_all
  moreover have "unreferenced U (rmb s) p - insert a X = unreferenced U (rmb s) p - X" if "p \<noteq> ?p" for p
    using that by (auto simp: unreferenced_def)
  ultimately show ?thesis
    using assms(1) unfolding pools_ok_def rte_mbuf_raw_free_def Let_def by simp
qed

lemma pools_ok_cong:
  assumes "pools_ok U X s" "rpool t = rpool s" "\<And>a. rm_pool (rmb t a) = rm_pool (rmb s a)"
    and "\<And>p. unreferenced U (rmb t) p - Y = unreferenced U (rmb s) p - X"
  shows "pools_ok U Y t"
  using assms by (simp add: pools_ok_def)

lemma rmb_raw_free [simp]: "rmb (rte_mbuf_raw_free m s) = rmb s"
  and elt_size_raw_free [simp]: "elt_size (rte_mbuf_raw_free m s) = elt_size s"
  and more_raw_free [simp]: "rte_state.more (rte_mbuf_raw_free m s) = rte_state.more s"
  by (simp_all add: rte_mbuf_raw_free_def Let_def)

section \<open>Allocation and release\<close>

definition fresh_rmb :: "rte_mbuf \<Rightarrow> rte_mbuf" where
  "fresh_rmb b = b\<lparr> refcnt := 1, rm_next := None, pkt_len := 0, tx_offload := 0, vlan_tci := 0, nb_segs := 1,
     port := 0xff, ol_flags := 0, packet_type := 0, data_off := default_data_off (buf_len b), data_len := 0 \<rparr>"

lemma rte_pktmbuf_alloc_inv:
  assumes "rmb_inv U r s" "rte_pktmbuf_alloc p s = (x, t)"
  shows "case x of
      None \<Rightarrow> t = s \<and> ring_used (mp_ring (rpool s p)) = 0
    | Some a \<Rightarrow> a \<in> U \<and> r a = 0 \<and> refcnt (rmb s a) = 0 \<and> rm_pool (rmb s a) = p \<and>
        \<not> RTE_MBUF_INDIRECT (rmb s a) \<and> attached U (rmb s) a = {} \<and>
        rmb t = (rmb s)(a := fresh_rmb (rmb s a)) \<and> rmb_inv U (r(a := 1)) t"
proof -
  have pool: "pool_inv (rpool s p)" "pool_objs (rpool s p) = mset_set (unreferenced U (rmb s) p)"
    and counts: "counts_ok U r (rmb s)" and fin: "finite U"
    using assms(1) by (auto simp: rmb_inv_def pools_ok_def)
  obtain ret ox mp where get: "rte_mempool_get (rlcore s) (rpool s p) = (ret, ox, mp)"
    using prod_cases3 by blast
  note spec = rte_mempool_get_spec [OF pool(1) get]
  show ?thesis
  proof (cases "ret < 0")
    case True
    then have "x = None" "t = s" "ring_used (mp_ring (rpool s p)) = 0"
      using assms(2) get spec by (auto simp: rte_pktmbuf_alloc_def rte_mbuf_raw_alloc_def Let_def)
    then show ?thesis by simp
  next
    case False
    then obtain a where a: "ox = Some a" "pool_objs (rpool s p) = add_mset a (pool_objs mp)"
      and mp: "pool_inv mp" "pool_cap mp = pool_cap (rpool s p)"
      using spec by auto
    have "rte_pktmbuf_alloc p s =
        (Some a, upd_rmb a fresh_rmb (s\<lparr> rpool := (rpool s)(p := mp) \<rparr>))"
      using get False a(1)
      by (simp add: rte_pktmbuf_alloc_def rte_mbuf_raw_alloc_def rte_mbuf_refcnt_set_def
          rte_pktmbuf_reset_def fresh_rmb_def upd_rmb_def)
    then have x: "x = Some a" and t: "rmb t = (rmb s)(a := fresh_rmb (rmb s a))" "rpool t = (rpool s)(p := mp)"
      using assms(2) by auto
    have "a \<in># mset_set (unreferenced U (rmb s) p)" using a pool by simp
    then have aF: "a \<in> unreferenced U (rmb s) p"
      using fin by (simp add: unreferenced_def)
    then have a0: "a \<in> U" "refcnt (rmb s a) = 0" "rm_pool (rmb s a) = p"
      by (auto simp: unreferenced_def)
    have "unat (refcnt (rmb s a)) = r a + card (attached U (rmb s) a)"
      by (rule counts_ok_refcnt [OF counts a0(1)])
    then have r0: "r a = 0" "attached U (rmb s) a = {}" and dir: "\<not> RTE_MBUF_INDIRECT (rmb s a)"
      using a0 counts_ok_indirect [OF counts] finite_attached [OF fin] by auto
    have dir': "\<not> RTE_MBUF_INDIRECT (fresh_rmb b)" for b
      by (simp add: fresh_rmb_def RTE_MBUF_INDIRECT_bit)
    have att: "attached U (rmb t) = attached U (rmb s)"
      using dir dir' by (auto simp: t attached_def fun_eq_iff)
    have "counts_ok U (r(a := 1)) (rmb t)"
      unfolding counts_ok_def att
    proof (intro conjI ballI impI)
      fix i assume "i \<in> U" "RTE_MBUF_INDIRECT (rmb t i)"
      then have "i \<noteq> a" "RTE_MBUF_INDIRECT (rmb s i)" using dir' by (auto simp: t split: if_splits)
      with counts_ok_indirect [OF counts \<open>i \<in> U\<close>] dir'
      show "refcnt (rmb t i) \<noteq> 0" "rm_base (rmb t i) \<in> U" "\<not> RTE_MBUF_INDIRECT (rmb t (rm_base (rmb t i)))"
        by (auto simp: t)
    next
      fix b assume "b \<in> U"
      then show "unat (refcnt (rmb t b)) = (r(a := 1)) b + card (attached U (rmb s) b)"
        using counts_ok_refcnt [OF counts \<open>b \<in> U\<close>] r0 by (simp add: t fresh_rmb_def)
    next
      fix b assume "b \<in> U" "\<not> RTE_MBUF_INDIRECT (rmb t b)"
      then show "buf_addr (rmb t b) = RTE_MBUF_TO_BADDR b"
        using counts_ok_direct [OF counts \<open>b \<in> U\<close>] dir by (cases "b = a") (simp_all add: t fresh_rmb_def)
    qed
    moreover have "pool_objs mp = mset_set (unreferenced U (rmb t) p)"
    proof -
      have "unreferenced U (rmb t) p = unreferenced U (rmb s) p - {a}"
        by (auto simp: unreferenced_def t fresh_rmb_def)
      then show ?thesis
        using a pool aF fin by (simp add: mset_set_Diff unreferenced_def)
    qed
    moreover have "unreferenced U (rmb t) q = unreferenced U (rmb s) q" if "q \<noteq> p" for q
      using that a0 by (auto simp: unreferenced_def t fresh_rmb_def)
    moreover have "rm_pool (rmb t b) = rm_pool (rmb s b)" for b
      by (simp add: t fresh_rmb_def)
    ultimately have pools: "pools_ok U {} t" and "counts_ok U (r(a := 1)) (rmb t)"
      using assms(1) mp unfolding rmb_inv_def pools_ok_def by (simp_all add: t(2))
    then have "rmb_inv U (r(a := 1)) t" using fin by (simp add: rmb_inv_def)
    with x a0 r0 dir t show ?thesis by simp
  qed
qed

text \<open>One reference less, with others left.\<close>

lemma rm_base_upd [simp]:
  "rm_base (b\<lparr> refcnt := c \<rparr>) = rm_base b" "rm_base (b\<lparr> rm_next := x \<rparr>) = rm_base b"
  "RTE_MBUF_INDIRECT (b\<lparr> refcnt := c \<rparr>) = RTE_MBUF_INDIRECT b"
  "RTE_MBUF_INDIRECT (b\<lparr> rm_next := x \<rparr>) = RTE_MBUF_INDIRECT b"
  by (simp_all add: rm_base_def RTE_MBUF_INDIRECT_def)

lemma attached_refcnt [simp]:
  "attached U (h(m := (h m)\<lparr> refcnt := c \<rparr>)) = attached U h"
  "attached U (h(m := (h m)\<lparr> rm_next := x \<rparr>)) = attached U h"
  by (auto simp: attached_def rm_base_def RTE_MBUF_INDIRECT_def fun_eq_iff)

lemma counts_ok_set_refcnt:
  assumes "counts_ok U r h" "unat c = k + card (attached U h m)" "RTE_MBUF_INDIRECT (h m) \<Longrightarrow> c \<noteq> 0"
  shows "counts_ok U (r(m := k)) (h(m := (h m)\<lparr> refcnt := c \<rparr>))"
  using assms unfolding counts_ok_def attached_refcnt
  by (auto simp: rm_base_def RTE_MBUF_INDIRECT_def)

lemma counts_ok_set_next:
  "counts_ok U r h \<Longrightarrow> counts_ok U r (h(m := (h m)\<lparr> rm_next := x \<rparr>))"
  unfolding counts_ok_def attached_refcnt by (auto simp: rm_base_def RTE_MBUF_INDIRECT_def)

text \<open>The last reference to an indirect buffer.\<close>

lemma counts_ok_detach:
  assumes counts: "counts_ok U r h" and fin: "finite U" and m: "m \<in> U" "RTE_MBUF_INDIRECT (h m)"
    and h': "\<not> RTE_MBUF_INDIRECT b" "buf_addr b = RTE_MBUF_TO_BADDR m" "refcnt b = 0"
    and r: "refcnt (h m) = 1" "0 < r m" and d: "d = rm_base (h m)"
  shows "counts_ok U (r(m := r m - 1)) (h(m := b, d := (h d)\<lparr> refcnt := refcnt (h d) - 1 \<rparr>))"
proof -
  let ?h = "h(m := b, d := (h d)\<lparr> refcnt := refcnt (h d) - 1 \<rparr>)"
  have dU: "d \<in> U" and dir: "\<not> RTE_MBUF_INDIRECT (h d)" and dm: "d \<noteq> m"
    using counts_ok_indirect [OF counts m] m d by auto
  have "r m = 1 \<and> card (attached U h m) = 0"
    using counts_ok_refcnt [OF counts m(1)] r by simp
  then have m_none: "r m = 1" "attached U h m = {}"
    using finite_attached [OF fin, of h m] by auto
  have ind: "RTE_MBUF_INDIRECT (?h a) \<longleftrightarrow> a \<noteq> m \<and> RTE_MBUF_INDIRECT (h a)"
    and base: "a \<noteq> m \<Longrightarrow> rm_base (?h a) = rm_base (h a)" for a
    using h' dir by (auto simp: RTE_MBUF_INDIRECT_def rm_base_def)
  have att: "attached U ?h a = attached U h a - {m}" for a
    using base by (auto simp: attached_def ind simp del: fun_upd_apply)
  have att': "attached U h a - {m} = attached U h a" if "a \<noteq> d" for a
    using that d by (auto simp: attached_def)
  have md: "m \<in> attached U h d" using m d by (auto simp: attached_def)
  then have pos: "0 < card (attached U h d)" using finite_attached [OF fin] card_gt_0_iff by blast
  have cnt: "unat (refcnt (h d) - 1) = unat (refcnt (h d)) - 1"
    using counts_ok_refcnt [OF counts dU] pos
    by (intro unat_minus_one) auto
  show ?thesis
    unfolding counts_ok_def att
  proof (intro conjI ballI impI)
    fix a assume a: "a \<in> U"
    show "unat (refcnt (?h a)) = (r(m := r m - 1)) a + card (attached U h a - {m})"
      using counts_ok_refcnt [OF counts a] cnt pos md dm h'(3) m_none att' [of a]
      by (cases "a = d") (auto simp: card_Diff_singleton)
  next
    fix a assume "a \<in> U" "\<not> RTE_MBUF_INDIRECT (?h a)"
    then show "buf_addr (?h a) = RTE_MBUF_TO_BADDR a"
      using counts_ok_direct [OF counts \<open>a \<in> U\<close>] h' dir dm unfolding ind by auto
  next
    fix i assume i: "i \<in> U" "RTE_MBUF_INDIRECT (?h i)"
    then have i': "i \<noteq> m" "RTE_MBUF_INDIRECT (h i)" "i \<noteq> d" using dir unfolding ind by auto
    from counts_ok_indirect [OF counts i(1) i'(2)] i' base [OF i'(1)]
    show "refcnt (?h i) \<noteq> 0" "rm_base (?h i) \<in> U" "\<not> RTE_MBUF_INDIRECT (?h (rm_base (?h i)))"
      unfolding ind by auto
  qed
qed

text \<open>The buffers a release writes to.\<close>

definition released :: "addr \<Rightarrow> 'a rte_state_scheme \<Rightarrow> rte_mbuf" where
  "released m s = (let blen = ucast (elt_size s (rm_pool (rmb s m)) - of_nat SIZEOF_RTE_MBUF) :: u16
     in (rmb s m)\<lparr> refcnt := 0, buf_physaddr := virt2phy s m + SIZEOF_RTE_MBUF,
           buf_addr := RTE_MBUF_TO_BADDR m, buf_len := blen, data_off := default_data_off blen,
           data_len := 0, ol_flags := 0, rm_next := None \<rparr>)"

lemma released_direct [simp]:
  "\<not> RTE_MBUF_INDIRECT (released m s)" "refcnt (released m s) = 0"
  "buf_addr (released m s) = RTE_MBUF_TO_BADDR m" "rm_pool (released m s) = rm_pool (rmb s m)"
  by (simp_all add: released_def Let_def RTE_MBUF_INDIRECT_bit)

lemma rte_pktmbuf_free_seg_shared:
  assumes "refcnt (rmb s m) \<noteq> 1" "refcnt (rmb s m) \<noteq> 0"
  shows "rte_pktmbuf_free_seg m s = upd_rmb m (\<lambda>b. b\<lparr> refcnt := refcnt b - 1 \<rparr>) s"
  using assms
  by (simp add: rte_pktmbuf_free_seg_def rte_pktmbuf_prefree_seg_def rte_mbuf_refcnt_read_def
      rte_mbuf_refcnt_update_def diff_conv_add_uminus [symmetric] del: diff_conv_add_uminus)

lemma rte_pktmbuf_free_seg_direct:
  assumes "refcnt (rmb s m) = 1" "\<not> RTE_MBUF_INDIRECT (rmb s m)"
  shows "rte_pktmbuf_free_seg m s =
    rte_mbuf_raw_free m (upd_rmb m (\<lambda>b. b\<lparr> refcnt := 0, rm_next := None \<rparr>) s)"
  using assms INDIRECT_cong [of "(rmb s m)\<lparr> refcnt := 0 \<rparr>" "rmb s m"]
  by (simp add: rte_pktmbuf_free_seg_def rte_pktmbuf_prefree_seg_def rte_mbuf_refcnt_read_def
      rte_mbuf_refcnt_set_def upd_rmb_def)

lemma rte_pktmbuf_free_seg_indirect:
  assumes "refcnt (rmb s m) = 1" "RTE_MBUF_INDIRECT (rmb s m)" "d = rm_base (rmb s m)" "d \<noteq> m"
  shows "\<exists>t. rmb t = (rmb s)(m := released m s, d := (rmb s d)\<lparr> refcnt := refcnt (rmb s d) - 1 \<rparr>) \<and>
    rpool t = rpool s \<and> rlcore t = rlcore s \<and> elt_size t = elt_size s \<and> virt2phy t = virt2phy s \<and>
    rte_state.more t = rte_state.more s \<and>
    rte_pktmbuf_free_seg m s =
      rte_mbuf_raw_free m (if refcnt (rmb s d) = 1 then rte_mbuf_raw_free d t else t)"
proof -
  define t where "t = s\<lparr> rmb := (rmb s)(m := released m s, d := (rmb s d)\<lparr> refcnt := refcnt (rmb s d) - 1 \<rparr>) \<rparr>"
  define t1 where "t1 = s\<lparr> rmb := (rmb s)(m := (released m s)\<lparr> rm_next := rm_next (rmb s m) \<rparr>,
      d := (rmb s d)\<lparr> refcnt := refcnt (rmb s d) - 1 \<rparr>) \<rparr>"
  have ind: "RTE_MBUF_INDIRECT ((rmb s m)\<lparr> refcnt := 0 \<rparr>)"
    using assms(2) by (simp add: RTE_MBUF_INDIRECT_def)
  have pre: "rte_pktmbuf_prefree_seg m s =
      (Some m, if refcnt (rmb s d) = 1 then rte_mbuf_raw_free d t1 else t1)"
    using assms(1,3,4) ind
    by (simp add: rte_pktmbuf_prefree_seg_def rte_mbuf_refcnt_read_def rte_mbuf_refcnt_set_def
        rte_pktmbuf_detach_def rte_mbuf_refcnt_update_def upd_rmb_def t1_def released_def rm_base_def
        Let_def fun_upd_twist)
  have "upd_rmb m (\<lambda>b. b\<lparr> rm_next := None \<rparr>) t1 = t"
    using assms(4) by (simp add: upd_rmb_def t_def t1_def fun_upd_twist released_def Let_def)
  moreover have "upd_rmb m f (rte_mbuf_raw_free d t1) = rte_mbuf_raw_free d (upd_rmb m f t1)"
    if "\<And>b. rm_pool (f b) = rm_pool b" for f
    using that by (simp add: upd_rmb_def rte_mbuf_raw_free_def Let_def)
  ultimately have "rte_pktmbuf_free_seg m s =
      rte_mbuf_raw_free m (if refcnt (rmb s d) = 1 then rte_mbuf_raw_free d t else t)"
    unfolding rte_pktmbuf_free_seg_def pre by simp
  then show ?thesis by (intro exI [of _ t]) (simp add: t_def)
qed

text \<open>Giving up a reference keeps the invariant: the buffer, and the direct buffer it was
  attached to, go back to their pools exactly when that was the last reference.\<close>

lemma rte_pktmbuf_free_seg_inv:
  assumes inv: "rmb_inv U r s" and m: "m \<in> U" "0 < r m"
  shows "rmb_inv U (r(m := r m - 1)) (rte_pktmbuf_free_seg m s)"
proof -
  let ?h = "rmb s"
  have counts: "counts_ok U r ?h" and fin: "finite U" and pools: "pools_ok U {} s"
    using inv by (auto simp: rmb_inv_def)
  note cnt = counts_ok_refcnt [OF counts m(1)]
  have nz: "refcnt (?h m) \<noteq> 0" using cnt m(2) by auto
  consider (shared) "refcnt (?h m) \<noteq> 1" | (direct) "refcnt (?h m) = 1" "\<not> RTE_MBUF_INDIRECT (?h m)"
    | (indirect) "refcnt (?h m) = 1" "RTE_MBUF_INDIRECT (?h m)" by auto
  then show ?thesis
  proof cases
    case shared
    have c: "unat (refcnt (?h m) - 1) = unat (refcnt (?h m)) - 1" using nz by (rule unat_minus_one)
    have nz': "refcnt (?h m) - 1 \<noteq> 0" using shared by simp
    have "counts_ok U (r(m := r m - 1)) (?h(m := (?h m)\<lparr> refcnt := refcnt (?h m) - 1 \<rparr>))"
      using cnt m(2) c nz' by (intro counts_ok_set_refcnt [OF counts]) auto
    moreover have "pools_ok U {} (rte_pktmbuf_free_seg m s)"
      using nz nz' by (intro pools_ok_cong [OF pools])
        (auto simp: rte_pktmbuf_free_seg_shared [OF shared nz] unreferenced_def split: if_splits)
    ultimately show ?thesis
      using fin by (simp add: rmb_inv_def rte_pktmbuf_free_seg_shared [OF shared nz])
  next
    case direct
    let ?t = "upd_rmb m (\<lambda>b. b\<lparr> refcnt := 0, rm_next := None \<rparr>) s"
    have "counts_ok U (r(m := r m - 1)) (?h(m := (?h m)\<lparr> refcnt := 0 \<rparr>))"
      using cnt m(2) direct by (intro counts_ok_set_refcnt [OF counts]) auto
    then have "counts_ok U (r(m := r m - 1)) (rmb ?t)"
      using counts_ok_set_next [of U _ "?h(m := (?h m)\<lparr> refcnt := 0 \<rparr>)" m None] by simp
    moreover have "pools_ok U {m} ?t"
      using nz m(1) by (intro pools_ok_cong [OF pools]) (auto simp: unreferenced_def)
    then have "pools_ok U {} (rte_mbuf_raw_free m ?t)"
      using fin m(1) by (intro raw_free_pools_ok) auto
    ultimately show ?thesis
      using fin by (simp add: rmb_inv_def rte_pktmbuf_free_seg_direct [OF direct])
  next
    case indirect
    define d where "d = rm_base (?h m)"
    have d: "d \<in> U" "\<not> RTE_MBUF_INDIRECT (?h d)" "d \<noteq> m"
      using counts_ok_indirect [OF counts m(1) indirect(2)] indirect(2) by (auto simp: d_def)
    obtain t where t: "rmb t = ?h(m := released m s, d := (?h d)\<lparr> refcnt := refcnt (?h d) - 1 \<rparr>)"
      "rpool t = rpool s"
      and eq: "rte_pktmbuf_free_seg m s =
        rte_mbuf_raw_free m (if refcnt (?h d) = 1 then rte_mbuf_raw_free d t else t)"
      using rte_pktmbuf_free_seg_indirect [OF indirect d_def d(3)] by auto
    have "m \<in> attached U ?h d" using m(1) indirect(2) by (simp add: attached_def d_def)
    then have "0 < card (attached U ?h d)" using finite_attached [OF fin] card_gt_0_iff by blast
    then have dnz: "refcnt (?h d) \<noteq> 0" using counts_ok_refcnt [OF counts d(1)] by auto
    have "counts_ok U (r(m := r m - 1)) (rmb t)"
      unfolding t by (rule counts_ok_detach [OF counts fin m(1) indirect(2) _ _ _ indirect(1) m(2) d_def]) auto
    moreover have "pools_ok U {} (rte_pktmbuf_free_seg m s)"
    proof (cases "refcnt (?h d) = 1")
      case True
      then have "pools_ok U {d, m} t"
        using nz m(1) d dnz by (intro pools_ok_cong [OF pools]) (auto simp: unreferenced_def t)
      then have "pools_ok U {m} (rte_mbuf_raw_free d t)"
        using fin d True by (intro raw_free_pools_ok) (auto simp: t)
      then show ?thesis
        using fin m(1) d True eq by (auto simp: t intro!: raw_free_pools_ok)
    next
      case False
      then have "pools_ok U {m} t"
        using nz m(1) d dnz by (intro pools_ok_cong [OF pools]) (auto simp: unreferenced_def t split: if_splits)
      then show ?thesis
        using fin m(1) d False eq by (auto simp: t intro!: raw_free_pools_ok)
    qed
    ultimately show ?thesis
      using fin eq by (simp add: rmb_inv_def)
  qed
qed

section \<open>Clones\<close>

text \<open>Fields other than the counter, the buffer, the flags and the pool do not matter.\<close>

lemma rmb_inv_upd:
  assumes "\<And>b. refcnt (f b) = refcnt b" "\<And>b. buf_addr (f b) = buf_addr b"
    "\<And>b. ol_flags (f b) = ol_flags b" "\<And>b. rm_pool (f b) = rm_pool b"
  shows "rmb_inv U r (upd_rmb a f s) \<longleftrightarrow> rmb_inv U r s"
proof -
  have *: "refcnt (rmb (upd_rmb a f s) x) = refcnt (rmb s x)"
    "RTE_MBUF_INDIRECT (rmb (upd_rmb a f s) x) = RTE_MBUF_INDIRECT (rmb s x)"
    "rm_base (rmb (upd_rmb a f s) x) = rm_base (rmb s x)"
    "buf_addr (rmb (upd_rmb a f s) x) = buf_addr (rmb s x)"
    "rm_pool (rmb (upd_rmb a f s) x) = rm_pool (rmb s x)" for x
    using assms by (auto simp: rm_base_def RTE_MBUF_INDIRECT_def)
  show ?thesis
    unfolding rmb_inv_def counts_ok_def pools_ok_def unreferenced_def attached_def * by simp
qed

lemma increment_refcnt_inv:
  assumes inv: "rmb_inv U r s" and m: "m \<in> U" "refcnt (rmb s m) \<noteq> 0" "unat (refcnt (rmb s m)) + 1 < 2 ^ 16"
  shows "rmb_inv U (r(m := r m + 1)) (increment_refcnt m s)"
proof -
  have counts: "counts_ok U r (rmb s)" and pools: "pools_ok U {} s" and fin: "finite U"
    using inv by (auto simp: rmb_inv_def)
  have c: "unat (refcnt (rmb s m) + 1) = unat (refcnt (rmb s m)) + 1"
    using m(3) by (simp add: unat_word_ariths)
  then have nz: "refcnt (rmb s m) + 1 \<noteq> 0" by (metis add_is_0 unat_0 zero_neq_one)
  have "counts_ok U (r(m := r m + 1)) ((rmb s)(m := (rmb s m)\<lparr> refcnt := refcnt (rmb s m) + 1 \<rparr>))"
    using counts_ok_refcnt [OF counts m(1)] c nz by (intro counts_ok_set_refcnt [OF counts]) auto
  moreover have "pools_ok U {} (increment_refcnt m s)"
    using m(2) nz by (intro pools_ok_cong [OF pools])
      (auto simp: increment_refcnt_def rte_mbuf_refcnt_update_def unreferenced_def split: if_splits)
  ultimately show ?thesis
    using fin by (simp add: rmb_inv_def increment_refcnt_def rte_mbuf_refcnt_update_def)
qed

text \<open>A direct buffer that can get one more clone.\<close>

definition clonable :: "addr set \<Rightarrow> (addr \<Rightarrow> rte_mbuf) \<Rightarrow> addr \<Rightarrow> bool" where
  "clonable U h d \<longleftrightarrow> d \<in> U \<and> \<not> RTE_MBUF_INDIRECT (h d) \<and> refcnt (h d) \<noteq> 0 \<and>
     unat (refcnt (h d)) + 1 < 2 ^ 16"

lemma counts_ok_attach:
  assumes counts: "counts_ok U r h" and fin: "finite U" and md: "clonable U h md"
    and mi: "mi \<in> U" "r mi = 1" "refcnt (h mi) = 1" "\<not> RTE_MBUF_INDIRECT (h mi)" "mi \<noteq> md"
    and b: "RTE_MBUF_INDIRECT b" "rm_base b = md" "refcnt b = 1"
  shows "counts_ok U r (h(md := (h md)\<lparr> refcnt := refcnt (h md) + 1 \<rparr>, mi := b))"
proof -
  let ?h = "h(md := (h md)\<lparr> refcnt := refcnt (h md) + 1 \<rparr>, mi := b)"
  have md': "md \<in> U" "\<not> RTE_MBUF_INDIRECT (h md)"
    and c: "unat (refcnt (h md) + 1) = unat (refcnt (h md)) + 1"
    using md by (auto simp: clonable_def unat_word_ariths)
  have ind: "RTE_MBUF_INDIRECT (?h a) \<longleftrightarrow> a = mi \<or> RTE_MBUF_INDIRECT (h a)"
    and base: "a \<noteq> mi \<Longrightarrow> rm_base (?h a) = rm_base (h a)" for a
    using b by (auto simp: RTE_MBUF_INDIRECT_def rm_base_def)
  have att: "attached U ?h a = (if a = md then insert mi (attached U h a) else attached U h a)" for a
    using base b mi by (auto simp: attached_def ind)
  have miA: "mi \<notin> attached U h md" using mi(4) by (simp add: attached_def)
  have none: "attached U h mi = {}"
    using counts_ok_refcnt [OF counts mi(1)] mi finite_attached [OF fin, of h mi] by simp
  show ?thesis
    unfolding counts_ok_def
  proof (intro conjI ballI impI)
    fix a assume a: "a \<in> U"
    show "unat (refcnt (?h a)) = r a + card (attached U ?h a)"
      unfolding att using counts_ok_refcnt [OF counts a] c miA finite_attached [OF fin] b mi none by auto
  next
    fix a assume a: "a \<in> U" "\<not> RTE_MBUF_INDIRECT (?h a)"
    then show "buf_addr (?h a) = RTE_MBUF_TO_BADDR a"
      using counts_ok_direct [OF counts a(1)] unfolding ind by auto
  next
    fix i assume i: "i \<in> U" "RTE_MBUF_INDIRECT (?h i)"
    have "refcnt (?h i) \<noteq> 0 \<and> rm_base (?h i) \<in> U \<and> rm_base (?h i) \<noteq> mi \<and>
        \<not> RTE_MBUF_INDIRECT (h (rm_base (?h i)))"
    proof (cases "i = mi")
      case False
      then have ii: "RTE_MBUF_INDIRECT (h i)" using i unfolding ind by simp
      then have "i \<in> attached U h (rm_base (h i))" using i by (simp add: attached_def)
      then have "rm_base (h i) \<noteq> mi" using none by auto
      moreover have "i \<noteq> md" using ii md' by auto
      ultimately show ?thesis
        using counts_ok_indirect [OF counts i(1) ii] base [OF False] False by simp
    qed (use b md' mi in simp)
    then show "refcnt (?h i) \<noteq> 0" "rm_base (?h i) \<in> U" "\<not> RTE_MBUF_INDIRECT (?h (rm_base (?h i)))"
      unfolding ind by blast+
  qed
qed

lemma rte_pktmbuf_attach_heap:
  assumes "mi \<noteq> md"
  obtains b where "rmb (rte_pktmbuf_attach mi md s) =
      (rmb s)(md := (rmb s md)\<lparr> refcnt := refcnt (rmb s md) + 1 \<rparr>, mi := b)"
    and "RTE_MBUF_INDIRECT b" "buf_addr b = buf_addr (rmb s md)" "refcnt b = refcnt (rmb s mi)"
      "rm_pool b = rm_pool (rmb s mi)" "rm_next b = None" "data_len b = data_len (rmb s md)"
      "data_off b = data_off (rmb s md)"
proof -
  let ?b = "rmb (rte_pktmbuf_attach mi md s) mi"
  note defs = rte_pktmbuf_attach_def rte_mbuf_refcnt_update_def Let_def
  have "rmb (rte_pktmbuf_attach mi md s) =
      (rmb s)(md := (rmb s md)\<lparr> refcnt := refcnt (rmb s md) + 1 \<rparr>, mi := ?b)"
    using assms by (simp add: defs)
  moreover have "RTE_MBUF_INDIRECT ?b" by (simp add: defs RTE_MBUF_INDIRECT_bit bit_or_iff IND_bit)
  moreover have "buf_addr ?b = buf_addr (rmb s md)" "refcnt ?b = refcnt (rmb s mi)"
      "rm_pool ?b = rm_pool (rmb s mi)" "rm_next ?b = None" "data_len ?b = data_len (rmb s md)"
      "data_off ?b = data_off (rmb s md)"
    using assms by (simp_all add: defs)
  ultimately show thesis by (rule that)
qed

lemma rte_pktmbuf_attach_inv:
  assumes inv: "rmb_inv U r s" and md: "clonable U (rmb s) md"
    and mi: "mi \<in> U" "r mi = 1" "refcnt (rmb s mi) = 1" "\<not> RTE_MBUF_INDIRECT (rmb s mi)" "mi \<noteq> md"
  shows "rmb_inv U r (rte_pktmbuf_attach mi md s)"
    and "rm_base (rmb (rte_pktmbuf_attach mi md s) mi) = md"
    and "RTE_MBUF_INDIRECT (rmb (rte_pktmbuf_attach mi md s) mi)"
proof -
  let ?h = "rmb s" and ?t = "rte_pktmbuf_attach mi md s"
  have counts: "counts_ok U r ?h" and pools: "pools_ok U {} s" and fin: "finite U"
    using inv by (auto simp: rmb_inv_def)
  obtain b where t: "rmb ?t = ?h(md := (?h md)\<lparr> refcnt := refcnt (?h md) + 1 \<rparr>, mi := b)"
    and b: "RTE_MBUF_INDIRECT b" "buf_addr b = buf_addr (?h md)" "refcnt b = 1" "rm_pool b = rm_pool (?h mi)"
    using mi(3) by (rule_tac rte_pktmbuf_attach_heap [OF mi(5), of s]) auto
  have base: "rm_base b = md"
    using b(2) counts_ok_direct [OF counts, of md] md
    by (simp add: clonable_def rm_base_def RTE_MBUF_FROM_BADDR_def RTE_MBUF_TO_BADDR_def)
  then show "rm_base (rmb ?t mi) = md" "RTE_MBUF_INDIRECT (rmb ?t mi)" using b by (simp_all add: t)
  have "unat (refcnt (?h md) + 1) = unat (refcnt (?h md)) + 1"
    using md by (auto simp: clonable_def unat_word_ariths)
  then have nz: "refcnt (?h md) + 1 \<noteq> 0" by (metis add_is_0 unat_0 zero_neq_one)
  have "counts_ok U r (rmb ?t)"
    unfolding t by (rule counts_ok_attach [OF counts fin md mi b(1) base b(3)])
  moreover have "pools_ok U {} ?t"
  proof (rule pools_ok_cong [OF pools])
    show pool: "rm_pool (rmb ?t a) = rm_pool (?h a)" for a
      using b(4) by (simp add: t)
    have "refcnt (rmb ?t a) = 0 \<longleftrightarrow> refcnt (?h a) = 0" for a
      using nz b(3) md mi(3) by (simp add: t clonable_def)
    then show "unreferenced U (rmb ?t) p - {} = unreferenced U ?h p - {}" for p
      unfolding unreferenced_def pool by simp
  qed (simp add: rte_pktmbuf_attach_def rte_mbuf_refcnt_update_def Let_def)
  ultimately show "rmb_inv U r ?t" using fin by (simp add: rmb_inv_def)
qed

abbreviation nexts :: "'a rte_state_scheme \<Rightarrow> addr \<Rightarrow> addr option" where
  "nexts s \<equiv> \<lambda>a. rm_next (rmb s a)"

lemma rte_pktmbuf_free_seg_next:
  assumes "rmb_inv U r s" "m \<in> U" "0 < r m" "a \<noteq> m"
  shows "nexts (rte_pktmbuf_free_seg m s) a = nexts s a"
proof -
  have counts: "counts_ok U r (rmb s)" using assms(1) by (simp add: rmb_inv_def)
  have nz: "refcnt (rmb s m) \<noteq> 0" using counts_ok_refcnt [OF counts assms(2)] assms(3) by auto
  show ?thesis
  proof (cases "refcnt (rmb s m) = 1 \<and> RTE_MBUF_INDIRECT (rmb s m)")
    case True
    then have "rm_base (rmb s m) \<noteq> m" using counts_ok_indirect [OF counts assms(2)] by auto
    from rte_pktmbuf_free_seg_indirect [OF _ _ refl this, of] True assms(4) show ?thesis by auto
  next
    case False
    then show ?thesis
      using nz assms(4) rte_pktmbuf_free_seg_shared [of s m] rte_pktmbuf_free_seg_direct [of s m]
      by (cases "refcnt (rmb s m) = 1") auto
  qed
qed

lemma rte_pktmbuf_free_inv:
  assumes "linked (nexts s) p ms" "rmb_inv U r s" "\<forall>m\<in>set ms. m \<in> U \<and> 0 < r m"
  shows "\<exists>t. rte_pktmbuf_free p s = Some t \<and> rmb_inv U (\<lambda>a. if a \<in> set ms then r a - 1 else r a) t"
  using assms
proof (induction ms arbitrary: p s r)
  case Nil
  then show ?case by (subst rte_pktmbuf_free.simps) simp
next
  case (Cons m ms)
  let ?s = "rte_pktmbuf_free_seg m s" and ?r = "r(m := r m - 1)"
  have p: "p = Some m" and l: "linked (nexts s) (rm_next (rmb s m)) ms" using Cons.prems by auto
  have m: "m \<notin> set ms" using linked_distinct [OF Cons.prems(1)] by simp
  have "linked (nexts ?s) (rm_next (rmb s m)) ms"
    using l m Cons.prems(3) by (intro linked_cong [OF l] rte_pktmbuf_free_seg_next [OF Cons.prems(2)]) auto
  moreover have "rmb_inv U ?r ?s" "\<forall>m\<in>set ms. m \<in> U \<and> 0 < ?r m"
    using rte_pktmbuf_free_seg_inv [OF Cons.prems(2), of m] Cons.prems(3) m by auto
  ultimately obtain t where "rte_pktmbuf_free (rm_next (rmb s m)) ?s = Some t"
    "rmb_inv U (\<lambda>a. if a \<in> set ms then ?r a - 1 else ?r a) t"
    using Cons.IH [of ?s _ ?r] by blast
  moreover have "(\<lambda>a. if a \<in> set ms then ?r a - 1 else ?r a) = (\<lambda>a. if a \<in> set (m # ms) then r a - 1 else r a)"
    using m by (auto simp: fun_eq_iff)
  ultimately show ?case
    by (subst rte_pktmbuf_free.simps) (simp add: p)
qed

text \<open>One round of the clone's loop: attach, and link to the previous indirect buffer.\<close>

definition clone_link :: "addr \<Rightarrow> addr \<Rightarrow> addr \<Rightarrow> 'a rte_state_scheme \<Rightarrow> 'a rte_state_scheme" where
  "clone_link mi md prev s = upd_rmb prev (\<lambda>b. b\<lparr> rm_next := Some mi \<rparr>) (rte_pktmbuf_attach mi md s)"

lemma clone_link_inv:
  assumes inv: "rmb_inv U r s" and md: "clonable U (rmb s) md"
    and mi: "mi \<in> U" "r mi = 1" "refcnt (rmb s mi) = 1" "\<not> RTE_MBUF_INDIRECT (rmb s mi)"
    and ne: "mi \<noteq> md" "prev \<noteq> md"
  defines "t \<equiv> clone_link mi md prev s"
  shows "rmb_inv U r t" "rm_base (rmb t mi) = md" "nexts t md = nexts s md"
    and "\<And>a. a \<noteq> mi \<Longrightarrow> a \<noteq> md \<Longrightarrow> a \<noteq> prev \<Longrightarrow> rmb t a = rmb s a"
    and "prev \<noteq> mi \<Longrightarrow> rmb t prev = (rmb s prev)\<lparr> rm_next := Some mi \<rparr>"
proof -
  let ?s = "rte_pktmbuf_attach mi md s"
  note att = rte_pktmbuf_attach_inv [OF inv md mi ne(1)]
  obtain b where s: "rmb ?s = (rmb s)(md := (rmb s md)\<lparr> refcnt := refcnt (rmb s md) + 1 \<rparr>, mi := b)"
    by (rule rte_pktmbuf_attach_heap [OF ne(1), of s])
  show "rmb_inv U r t" using att(1) by (simp add: t_def clone_link_def rmb_inv_upd)
  show "rm_base (rmb t mi) = md" using att(2) by (auto simp: t_def clone_link_def)
  show "nexts t md = nexts s md" using ne by (simp add: t_def clone_link_def s)
  show "rmb t a = rmb s a" if "a \<noteq> mi" "a \<noteq> md" "a \<noteq> prev" for a
    using that by (simp add: t_def clone_link_def s)
  show "prev \<noteq> mi \<Longrightarrow> rmb t prev = (rmb s prev)\<lparr> rm_next := Some mi \<rparr>"
    using ne by (simp add: t_def clone_link_def s)
qed

lemma clone_segs_unfold:
  "clone_segs mp md mi prev nseg s =
     (case nexts (clone_link mi md prev s) md of
        None \<Rightarrow> Some (Some mi, mi, nseg + 1, clone_link mi md prev s)
      | Some md' \<Rightarrow>
          (case rte_pktmbuf_alloc mp (clone_link mi md prev s) of
             (None, s) \<Rightarrow> Some (None, mi, nseg + 1, s)
           | (Some mi', s) \<Rightarrow> clone_segs mp md' mi' mi (nseg + 1) s))"
  by (subst clone_segs.simps) (simp only: clone_link_def Let_def)

text \<open>The loop of the clone.  It makes one indirect buffer for each segment until a buffer
  is missing; the indirect buffers are linked in the order of the segments.\<close>

definition cloned :: "addr set \<Rightarrow> (addr \<Rightarrow> nat) \<Rightarrow> 'a rte_state_scheme \<Rightarrow> addr list \<Rightarrow> addr \<Rightarrow> addr \<Rightarrow>
    addr option \<Rightarrow> addr list \<Rightarrow> 'a rte_state_scheme \<Rightarrow> bool" where
  "cloned U r s mds mi prev x ns t \<longleftrightarrow>
     rmb_inv U (\<lambda>a. if a \<in> set ns then 1 else r a) t \<and> (\<forall>a\<in>set ns. a \<in> U \<and> r a = 0) \<and>
     linked ((nexts t)(last (mi # ns) := None)) (Some mi) (mi # ns) \<and>
     (prev \<notin> set (mi # ns) \<longrightarrow> rmb t prev = (rmb s prev)\<lparr> rm_next := Some mi \<rparr>) \<and>
     (\<forall>a. a \<notin> set (mi # ns) \<and> a \<notin> set mds \<and> a \<noteq> prev \<longrightarrow> rmb t a = rmb s a) \<and>
     (x \<noteq> None \<longrightarrow> map (\<lambda>a. rm_base (rmb t a)) (mi # ns) = mds)"

lemma cloned_Nil:
  assumes "rmb_inv U r s" "clonable U (rmb s) md" "mi \<in> U" "r mi = 1" "refcnt (rmb s mi) = 1"
    "\<not> RTE_MBUF_INDIRECT (rmb s mi)" "mi \<noteq> md" "prev \<noteq> md" "x = None \<or> mds = []" "prev \<notin> set mds"
  shows "cloned U r s (md # mds) mi prev x [] (clone_link mi md prev s)"
  using clone_link_inv [OF assms(1-8)] assms(9) by (auto simp: cloned_def)

lemma cloned_Cons:
  assumes s: "rmb_inv U r s" "clonable U (rmb s) md" "mi \<in> U" "r mi = 1" "refcnt (rmb s mi) = 1"
      "\<not> RTE_MBUF_INDIRECT (rmb s mi)" "mi \<noteq> md" "prev \<noteq> md"
    and s3: "rmb s3 = (rmb (clone_link mi md prev s))(mi' := b)"
    and new: "mi' \<in> U" "r mi' = 0" "mi \<notin> set mds" "prev \<notin> set mds"
    and rec: "cloned U (r(mi' := 1)) s3 mds mi' mi x ns t"
  shows "cloned U r s (md # mds) mi prev x (mi' # ns) t"
proof -
  let ?l = "clone_link mi md prev s"
  note l = clone_link_inv [OF s]
  have ns: "\<forall>a\<in>set ns. a \<in> U \<and> (r(mi' := 1)) a = 0"
    and lk: "linked ((nexts t)(last (mi' # ns) := None)) (Some mi') (mi' # ns)"
    and fr: "\<forall>a. a \<notin> set (mi' # ns) \<and> a \<notin> set mds \<and> a \<noteq> mi \<longrightarrow> rmb t a = rmb s3 a"
    using rec by (simp_all add: cloned_def)
  have ne: "mi \<notin> set (mi' # ns)" using ns new s(4) by (auto split: if_splits)
  then have mi: "rmb t mi = (rmb ?l mi)\<lparr> rm_next := Some mi' \<rparr>"
    using rec by (simp add: cloned_def s3)
  have frame: "rmb t a = rmb ?l a" if "a \<notin> set (mi # mi' # ns)" "a \<notin> set mds" for a
    using that fr by (simp add: s3)
  have "(\<lambda>a. if a \<in> set ns then 1 else (r(mi' := 1)) a) = (\<lambda>a. if a \<in> set (mi' # ns) then 1 else r a)"
    by (auto simp: fun_eq_iff)
  then have "rmb_inv U (\<lambda>a. if a \<in> set (mi' # ns) then 1 else r a) t"
    using rec unfolding cloned_def by (metis (no_types, lifting))
  moreover have "\<forall>a\<in>set (mi' # ns). a \<in> U \<and> r a = 0" using ns new by (auto split: if_splits)
  moreover have "linked ((nexts t)(last (mi # mi' # ns) := None)) (Some mi) (mi # mi' # ns)"
    using lk mi ne by (auto simp: linked_upd)
  moreover have "prev \<notin> set (mi # mi' # ns) \<longrightarrow> rmb t prev = (rmb s prev)\<lparr> rm_next := Some mi \<rparr>"
    using frame [of prev] l(5) new(4) by simp
  moreover have "\<forall>a. a \<notin> set (mi # mi' # ns) \<and> a \<notin> set (md # mds) \<and> a \<noteq> prev \<longrightarrow> rmb t a = rmb s a"
    using frame l(4) by simp
  moreover have "x \<noteq> None \<longrightarrow> map (\<lambda>a. rm_base (rmb t a)) (mi # mi' # ns) = md # mds"
    using rec mi l(2) by (simp add: cloned_def)
  ultimately show ?thesis unfolding cloned_def by blast
qed

lemma clone_segs_inv:
  assumes "rmb_inv U r s" "linked (nexts s) (Some md) (md # mds)" "\<forall>d\<in>set (md # mds). clonable U (rmb s) d"
    and "mi \<in> U" "r mi = 1" "refcnt (rmb s mi) = 1" "\<not> RTE_MBUF_INDIRECT (rmb s mi)"
    and "prev \<notin> set (md # mds)" "mi \<notin> set (md # mds)"
  shows "\<exists>x ns t. clone_segs p md mi prev nseg s = Some (x, last (mi # ns), nseg + of_nat (Suc (length ns)), t) \<and>
     cloned U r s (md # mds) mi prev x ns t"
  using assms
proof (induction mds arbitrary: md mi prev nseg s r)
  case Nil
  let ?l = "clone_link mi md prev s"
  have ne: "mi \<noteq> md" "prev \<noteq> md" and md: "clonable U (rmb s) md" using Nil.prems by auto
  have "nexts ?l md = None"
    using clone_link_inv(3) [OF Nil.prems(1) md Nil.prems(4-7) ne] Nil.prems(2) by simp
  then have "clone_segs p md mi prev nseg s = Some (Some mi, mi, nseg + 1, ?l)"
    by (simp add: clone_segs_unfold)
  then show ?case
    using cloned_Nil [OF Nil.prems(1) md Nil.prems(4-7) ne] by force
next
  case (Cons md' mds)
  let ?l = "clone_link mi md prev s"
  have ne: "mi \<noteq> md" "prev \<noteq> md" and md: "clonable U (rmb s) md" and nd: "distinct (md # md' # mds)"
    using Cons.prems linked_distinct [OF Cons.prems(2)] by auto
  note l = clone_link_inv [OF Cons.prems(1) md Cons.prems(4-7) ne]
  have l_segs: "rmb ?l a = rmb s a" if "a \<in> set (md' # mds)" for a
  proof -
    have "a \<noteq> md" "a \<noteq> mi" "a \<noteq> prev" using that nd Cons.prems(8,9) by auto
    then show ?thesis using l(4) by simp
  qed
  have next_md: "nexts ?l md = Some md'" using Cons.prems(2) l(3) by simp
  obtain x s3 where al: "rte_pktmbuf_alloc p ?l = (x, s3)" by fastforce
  show ?case
  proof (cases x)
    case None
    then have "clone_segs p md mi prev nseg s = Some (None, mi, nseg + 1, ?l)"
      using al next_md rte_pktmbuf_alloc_inv [OF l(1) al] by (simp add: clone_segs_unfold)
    then show ?thesis
      using cloned_Nil [OF Cons.prems(1) md Cons.prems(4-7) ne, of None "md' # mds"] Cons.prems(8) by force
  next
    case (Some mi')
    have mi': "mi' \<in> U" "r mi' = 0" "refcnt (rmb ?l mi') = 0"
      and s3: "rmb s3 = (rmb ?l)(mi' := fresh_rmb (rmb ?l mi'))" and inv3: "rmb_inv U (r(mi' := 1)) s3"
      using rte_pktmbuf_alloc_inv [OF l(1) al] Some by auto
    have fresh: "mi' \<notin> set (md' # mds)"
      using mi'(3) Cons.prems(3) l_segs by (auto simp: clonable_def)
    have heap: "rmb s3 a = rmb s a" if "a \<in> set (md' # mds)" for a
      using that fresh l_segs [OF that] by (auto simp: s3)
    have link: "linked (nexts s3) (Some md') (md' # mds)"
    proof (rule linked_cong)
      show "linked (nexts s) (Some md') (md' # mds)" using Cons.prems(2) by simp
    qed (simp only: heap)
    have clon: "\<forall>d\<in>set (md' # mds). clonable U (rmb s3) d"
    proof
      fix d assume d: "d \<in> set (md' # mds)"
      then have "clonable U (rmb s) d" using Cons.prems(3) by auto
      then show "clonable U (rmb s3) d" unfolding clonable_def heap [OF d] .
    qed
    have dir: "(r(mi' := 1)) mi' = 1" "refcnt (rmb s3 mi') = 1" "\<not> RTE_MBUF_INDIRECT (rmb s3 mi')"
      by (simp_all add: s3 fresh_rmb_def RTE_MBUF_INDIRECT_bit)
    have out: "mi \<notin> set (md' # mds)" "prev \<notin> set (md' # mds)" using Cons.prems(8,9) by simp_all
    obtain y ns t where rec: "clone_segs p md' mi' mi (nseg + 1) s3 =
          Some (y, last (mi' # ns), nseg + 1 + of_nat (Suc (length ns)), t)"
      and cl: "cloned U (r(mi' := 1)) s3 (md' # mds) mi' mi y ns t"
      using Cons.IH [OF inv3 link clon mi'(1) dir out(1) fresh, of "nseg + 1"] by blast
    have "clone_segs p md mi prev nseg s =
        Some (y, last (mi # mi' # ns), nseg + of_nat (Suc (length (mi' # ns))), t)"
      using rec al Some next_md by (simp add: clone_segs_unfold ac_simps)
    then show ?thesis
      using cloned_Cons [OF Cons.prems(1) md Cons.prems(4-7) ne s3 mi'(1,2) out cl] by blast
  qed
qed

lemma cloned_terminated:
  fixes n :: "8 word" and l :: u32
  assumes cl: "cloned U (r(mc := 1)) s mds mc mc x ns t" and mc: "mc \<in> U" "r mc = 0"
  defines "u \<equiv> upd_rmb mc (\<lambda>b. b\<lparr> nb_segs := n, pkt_len := l \<rparr>)
                 (upd_rmb (last (mc # ns)) (\<lambda>b. b\<lparr> rm_next := None \<rparr>) t)"
  shows "linked (nexts u) (Some mc) (mc # ns)" "rmb_inv U (\<lambda>a. if a \<in> set (mc # ns) then 1 else r a) u"
    and "\<forall>a\<in>set (mc # ns). a \<in> U \<and> r a = 0"
    and "x \<noteq> None \<Longrightarrow> map (\<lambda>a. rm_base (rmb u a)) (mc # ns) = mds"
    and "nb_segs (rmb u mc) = n" "pkt_len (rmb u mc) = l"
proof -
  have nx: "nexts u = (nexts t)(last (mc # ns) := None)"
    by (auto simp: u_def)
  have base: "rm_base (rmb u a) = rm_base (rmb t a)" for a
    by (auto simp: u_def rm_base_def)
  have "rmb_inv U (\<lambda>a. if a \<in> set ns then 1 else (r(mc := 1)) a) u"
    using cl by (simp add: cloned_def u_def rmb_inv_upd del: One_nat_def)
  moreover have "(\<lambda>a. if a \<in> set ns then 1 else (r(mc := 1)) a) = (\<lambda>a. if a \<in> set (mc # ns) then 1 else r a)"
    by (auto simp: fun_eq_iff)
  ultimately show "rmb_inv U (\<lambda>a. if a \<in> set (mc # ns) then 1 else r a) u" by simp
  show "linked (nexts u) (Some mc) (mc # ns)" using cl unfolding nx cloned_def by blast
  show "\<forall>a\<in>set (mc # ns). a \<in> U \<and> r a = 0" using cl mc by (auto simp: cloned_def split: if_splits)
  show "x \<noteq> None \<Longrightarrow> map (\<lambda>a. rm_base (rmb u a)) (mc # ns) = mds"
    using cl unfolding base cloned_def by simp
qed (simp_all add: u_def)

text \<open>A clone has one indirect buffer per segment, each attached to its segment; when the
  pool runs out, everything that was made is given back.\<close>

definition clone_result :: "addr set \<Rightarrow> (addr \<Rightarrow> nat) \<Rightarrow> addr list \<Rightarrow> u32 \<Rightarrow> addr option \<Rightarrow>
    'a rte_state_scheme \<Rightarrow> bool" where
  "clone_result U r mds l x t \<longleftrightarrow>
     (case x of
        None \<Rightarrow> rmb_inv U r t
      | Some mc \<Rightarrow> \<exists>ns. linked (nexts t) (Some mc) (mc # ns) \<and>
          rmb_inv U (\<lambda>a. if a \<in> set (mc # ns) then 1 else r a) t \<and>
          (\<forall>a\<in>set (mc # ns). a \<in> U \<and> r a = 0) \<and> map (\<lambda>a. rm_base (rmb t a)) (mc # ns) = mds \<and>
          pkt_len (rmb t mc) = l \<and> nb_segs (rmb t mc) = of_nat (length mds))"

lemma rte_pktmbuf_clone_inv:
  assumes inv: "rmb_inv U r s" and lk: "linked (nexts s) (Some md) (md # mds)"
    and clon: "\<forall>d\<in>set (md # mds). clonable U (rmb s) d"
  shows "\<exists>x t. rte_pktmbuf_clone md p s = Some (x, t) \<and> clone_result U r (md # mds) (pkt_len (rmb s md)) x t"
proof -
  obtain x s1 where al: "rte_pktmbuf_alloc p s = (x, s1)" by fastforce
  note spec = rte_pktmbuf_alloc_inv [OF inv al]
  show ?thesis
  proof (cases x)
    case None
    then show ?thesis using al spec inv by (auto simp: rte_pktmbuf_clone_def clone_result_def)
  next
    case (Some mc)
    have mc: "mc \<in> U" "r mc = 0" "refcnt (rmb s mc) = 0" and inv1: "rmb_inv U (r(mc := 1)) s1"
      and s1: "rmb s1 = (rmb s)(mc := fresh_rmb (rmb s mc))"
      using spec Some by auto
    have out: "mc \<notin> set (md # mds)" using mc(3) clon by (auto simp: clonable_def)
    have heap: "rmb s1 a = rmb s a" if "a \<in> set (md # mds)" for a using that out by (auto simp: s1)
    have lk1: "linked (nexts s1) (Some md) (md # mds)" by (rule linked_cong [OF lk]) (simp only: heap)
    have clon1: "\<forall>d\<in>set (md # mds). clonable U (rmb s1) d" using clon heap unfolding clonable_def by metis
    have dir: "(r(mc := 1)) mc = 1" "refcnt (rmb s1 mc) = 1" "\<not> RTE_MBUF_INDIRECT (rmb s1 mc)"
      by (simp_all add: s1 fresh_rmb_def RTE_MBUF_INDIRECT_bit)
    obtain y ns t where loop: "clone_segs p md mc mc 0 s1 =
          Some (y, last (mc # ns), 0 + of_nat (Suc (length ns)), t)"
      and cl: "cloned U (r(mc := 1)) s1 (md # mds) mc mc y ns t"
      using clone_segs_inv [OF inv1 lk1 clon1 mc(1) dir out out, of p 0] by blast
    define u where "u = upd_rmb mc (\<lambda>b. b\<lparr> nb_segs := of_nat (Suc (length ns)), pkt_len := pkt_len (rmb s md) \<rparr>)
        (upd_rmb (last (mc # ns)) (\<lambda>b. b\<lparr> rm_next := None \<rparr>) t)"
    have eq: "rte_pktmbuf_clone md p s =
        (case y of None \<Rightarrow> do { s \<leftarrow> rte_pktmbuf_free (Some mc) u; Some (None, s) } | Some _ \<Rightarrow> Some (Some mc, u))"
      using al Some loop heap [of md] by (cases y) (simp_all add: rte_pktmbuf_clone_def u_def Let_def)
    note fin = cloned_terminated(1,2,4-) [OF cl mc(1,2), where n = "of_nat (Suc (length ns))" and l = "pkt_len (rmb s md)",
        folded u_def]
    note zero = cloned_terminated(3) [OF cl mc(1,2)]
    show ?thesis
    proof (cases y)
      case None
      let ?r = "\<lambda>a. if a \<in> set (mc # ns) then 1 else r a"
      obtain v where "rte_pktmbuf_free (Some mc) u = Some v"
        and "rmb_inv U (\<lambda>a. if a \<in> set (mc # ns) then ?r a - 1 else ?r a) v"
        using rte_pktmbuf_free_inv [OF fin(1,2)] zero by auto
      moreover have "(\<lambda>a. if a \<in> set (mc # ns) then ?r a - 1 else ?r a) = r"
        using zero by (auto simp: fun_eq_iff)
      ultimately show ?thesis using eq None by (simp add: clone_result_def)
    next
      case (Some z)
      then have "map (\<lambda>a. rm_base (rmb u a)) (mc # ns) = md # mds" using fin(3) by simp
      then have "length (md # mds) = Suc (length ns)" by (metis length_Cons length_map)
      then show ?thesis using eq Some fin zero by (auto simp: clone_result_def intro!: exI [of _ ns])
    qed
  qed
qed

section \<open>What the operations leave alone\<close>

text \<open>The state that an upper layer adds is not touched, nor is the running core.\<close>

definition same_rest :: "'a rte_state_scheme \<Rightarrow> 'a rte_state_scheme \<Rightarrow> bool" where
  "same_rest s t \<longleftrightarrow> rte_state.more t = rte_state.more s \<and> rlcore t = rlcore s \<and>
     elt_size t = elt_size s \<and> virt2phy t = virt2phy s"

lemma same_rest_refl [simp]: "same_rest s s"
  by (simp add: same_rest_def)

lemma same_rest_trans: "same_rest s t \<Longrightarrow> same_rest t u \<Longrightarrow> same_rest s u"
  by (simp add: same_rest_def)

lemma same_rest_upd [simp]: "same_rest s (upd_rmb a f t) = same_rest s t"
  "same_rest s (t\<lparr> rpool := p \<rparr>) = same_rest s t" "same_rest (upd_rmb a f s) t = same_rest s t"
  by (simp_all add: same_rest_def)

lemma same_rest_alloc: "rte_pktmbuf_alloc p s = (x, t) \<Longrightarrow> same_rest s t"
  by (auto simp: rte_pktmbuf_alloc_def rte_mbuf_raw_alloc_def rte_mbuf_refcnt_set_def rte_pktmbuf_reset_def
      Let_def split: prod.splits option.splits if_splits)

lemma same_rest_raw_free [simp]: "same_rest s (rte_mbuf_raw_free m t) = same_rest s t"
  by (simp add: rte_mbuf_raw_free_def Let_def)

lemma same_rest_attach [simp]: "same_rest s (rte_pktmbuf_attach mi md t) = same_rest s t"
  by (simp add: rte_pktmbuf_attach_def rte_mbuf_refcnt_update_def Let_def)

lemma same_rest_free_seg [simp]: "same_rest s (rte_pktmbuf_free_seg m s)"
  by (auto simp: rte_pktmbuf_free_seg_def rte_pktmbuf_prefree_seg_def rte_mbuf_refcnt_update_def
      rte_mbuf_refcnt_set_def rte_pktmbuf_detach_def Let_def split: option.splits prod.splits if_splits)

lemma same_rest_free:
  assumes "rte_pktmbuf_free m s = Some t"
  shows "same_rest s t"
  using _ assms
proof (rule rte_pktmbuf_free.raw_induct [where P = "\<lambda>_ s t. same_rest s t"])
  fix f m and s t :: "'a rte_state_scheme"
  assume "\<And>m s t. f m s = Some t \<Longrightarrow> same_rest s t"
    and "(case m of None \<Rightarrow> Some s | Some m \<Rightarrow> f (rm_next (rmb s m)) (rte_pktmbuf_free_seg m s)) = Some t"
  then show "same_rest s t" by (cases m) (auto intro: same_rest_trans [OF same_rest_free_seg])
qed

lemma same_rest_clone_segs:
  assumes "clone_segs p md mi prev n s = Some y"
  shows "same_rest s (snd (snd (snd y)))"
  using _ assms
proof (rule clone_segs.raw_induct [where P = "\<lambda>_ _ _ _ _ s y. same_rest s (snd (snd (snd y)))"])
  fix f :: "nat \<Rightarrow> addr \<Rightarrow> addr \<Rightarrow> addr \<Rightarrow> 8 word \<Rightarrow> 'a rte_state_scheme \<Rightarrow>
      (addr option \<times> addr \<times> 8 word \<times> 'a rte_state_scheme) option"
    and p md mi prev n y and s :: "'a rte_state_scheme"
  assume IH: "\<And>p md mi prev n s y. f p md mi prev n s = Some y \<Longrightarrow> same_rest s (snd (snd (snd y)))"
  define u where "u = upd_rmb prev (\<lambda>b. b\<lparr> rm_next := Some mi \<rparr>) (rte_pktmbuf_attach mi md s)"
  assume "(let nseg = n + 1; s = rte_pktmbuf_attach mi md s; s = upd_rmb prev (\<lambda>b. b\<lparr> rm_next := Some mi \<rparr>) s
      in case rm_next (rmb s md) of None \<Rightarrow> Some (Some mi, mi, nseg, s)
         | Some md \<Rightarrow> (case rte_pktmbuf_alloc p s of (None, s) \<Rightarrow> Some (None, mi, nseg, s)
              | (Some mi', s) \<Rightarrow> f p md mi' mi nseg s)) = Some y"
  then have step: "(case rm_next (rmb u md) of None \<Rightarrow> Some (Some mi, mi, n + 1, u)
         | Some md \<Rightarrow> (case rte_pktmbuf_alloc p u of (None, s) \<Rightarrow> Some (None, mi, n + 1, s)
              | (Some mi', s) \<Rightarrow> f p md mi' mi (n + 1) s)) = Some y"
    by (simp only: Let_def u_def)
  have u: "same_rest s u" by (simp add: u_def)
  show "same_rest s (snd (snd (snd y)))"
  proof (cases "rm_next (rmb u md)")
    case None
    then show ?thesis using step u by auto
  next
    case (Some md')
    obtain x v where al: "rte_pktmbuf_alloc p u = (x, v)" by fastforce
    then have "same_rest s v" using same_rest_trans [OF u] same_rest_alloc by blast
    then show ?thesis using step Some al IH by (cases x; cases y) (auto intro: same_rest_trans)
  qed
qed

lemma same_rest_clone: "rte_pktmbuf_clone md p s = Some (x, t) \<Longrightarrow> same_rest s t"
  unfolding rte_pktmbuf_clone_def
  by (auto simp: Let_def bind_eq_Some_conv split: prod.splits option.splits
      dest!: same_rest_alloc same_rest_clone_segs same_rest_free intro: same_rest_trans)

section \<open>The life of the buffers\<close>

text \<open>The steps of the users: \<^term>\<open>r\<close> counts the references they hold.  A user frees and clones
  only what it holds, a clone is made of a direct buffer of one segment, and the
  16-bit counters do not overflow.  The other fields may be changed at will.\<close>

inductive buf_step :: "addr set \<Rightarrow> (addr \<Rightarrow> nat) \<times> 'a rte_state_scheme \<Rightarrow> (addr \<Rightarrow> nat) \<times> 'a rte_state_scheme \<Rightarrow> bool"
  for U where
  alloc: "allocate_mbuf p s = (Some a, t) \<Longrightarrow> buf_step U (r, s) (r(a := r a + 1), t)"
| alloc_fail: "allocate_mbuf p s = (None, t) \<Longrightarrow> buf_step U (r, s) (r, t)"
| ref: "m \<in> U \<Longrightarrow> 0 < r m \<Longrightarrow> unat (refcnt (rmb s m)) + 1 < 2 ^ 16 \<Longrightarrow>
    buf_step U (r, s) (r(m := r m + 1), increment_refcnt m s)"
| clone: "m \<in> U \<Longrightarrow> 0 < r m \<Longrightarrow> unat (refcnt (rmb s m)) + 1 < 2 ^ 16 \<Longrightarrow> \<not> RTE_MBUF_INDIRECT (rmb s m) \<Longrightarrow>
    rm_next (rmb s m) = None \<Longrightarrow> pool_data_mbuf_clone p m s = Some (x, t) \<Longrightarrow>
    buf_step U (r, s) (case x of None \<Rightarrow> r | Some c \<Rightarrow> r(c := r c + 1), t)"
| free: "m \<in> U \<Longrightarrow> 0 < r m \<Longrightarrow> buf_step U (r, s) (r(m := r m - 1), free_mbuf m s)"
| edit: "(\<And>b. refcnt (f b) = refcnt b \<and> buf_addr (f b) = buf_addr b \<and> ol_flags (f b) = ol_flags b \<and>
    rm_pool (f b) = rm_pool b) \<Longrightarrow> buf_step U (r, s) (r, upd_rmb m f s)"

lemma buf_step_inv:
  assumes "buf_step U (r, s) (r', t)" "rmb_inv U r s"
  shows "rmb_inv U r' t"
  using assms(1)
proof cases
  case (alloc p a)
  then show ?thesis
    using rte_pktmbuf_alloc_inv [OF assms(2), of p "Some a" t] by (simp add: allocate_mbuf_def)
next
  case (alloc_fail p)
  then show ?thesis
    using rte_pktmbuf_alloc_inv [OF assms(2), of p None t] assms(2) by (simp add: allocate_mbuf_def)
next
  case (ref m)
  have "refcnt (rmb s m) \<noteq> 0"
    using counts_ok_refcnt [of U r "rmb s" m] ref assms(2) by (auto simp: rmb_inv_def)
  then show ?thesis using ref increment_refcnt_inv [OF assms(2)] by simp
next
  case (clone m p x)
  have "refcnt (rmb s m) \<noteq> 0"
    using counts_ok_refcnt [of U r "rmb s" m] clone assms(2) by (auto simp: rmb_inv_def)
  then obtain y u where "rte_pktmbuf_clone m p s = Some (y, u)" "clone_result U r [m] (pkt_len (rmb s m)) y u"
    using rte_pktmbuf_clone_inv [OF assms(2), of m "[]" p] clone by (auto simp: clonable_def)
  moreover have "(\<lambda>a. if a = c then 1 else r a) = r(c := 1)" for c by (auto simp: fun_eq_iff)
  ultimately show ?thesis
    using clone by (auto simp: pool_data_mbuf_clone_def clone_result_def split: option.splits)
next
  case (free m)
  then show ?thesis using rte_pktmbuf_free_seg_inv [OF assms(2)] by (simp add: free_mbuf_def)
next
  case (edit f m)
  then show ?thesis using assms(2) by (simp add: rmb_inv_upd)
qed

lemma buf_steps_inv:
  assumes "(buf_step U)\<^sup>*\<^sup>* x y" "rmb_inv U (fst x) (snd x)"
  shows "rmb_inv U (fst y) (snd y)"
  using assms by (induction) (auto dest: buf_step_inv)

lemma rmb_inv_in_pool:
  assumes "rmb_inv U r s" "a \<in> U"
  shows "a \<in># pool_objs (rpool s (rm_pool (rmb s a))) \<longleftrightarrow> r a = 0 \<and> attached U (rmb s) a = {}"
proof -
  have fin: "finite U" and counts: "counts_ok U r (rmb s)" and pools: "pools_ok U {} s"
    using assms by (auto simp: rmb_inv_def)
  have "a \<in># pool_objs (rpool s (rm_pool (rmb s a))) \<longleftrightarrow> refcnt (rmb s a) = 0"
    using pools fin assms(2) by (simp add: pools_ok_def unreferenced_def)
  also have "\<dots> \<longleftrightarrow> unat (refcnt (rmb s a)) = 0" by (simp add: unat_eq_0)
  finally show ?thesis
    using counts_ok_refcnt [OF counts assms(2)] finite_attached [OF fin] by simp
qed

lemma rmb_inv_all_returned:
  assumes "rmb_inv U r s" "\<forall>a\<in>U. r a = 0"
  shows "pool_objs (rpool s p) = mset_set {a \<in> U. rm_pool (rmb s a) = p}"
proof -
  have fin: "finite U" and counts: "counts_ok U r (rmb s)" and pools: "pools_ok U {} s"
    using assms by (auto simp: rmb_inv_def)
  have dir: "\<not> RTE_MBUF_INDIRECT (rmb s i)" if i: "i \<in> U" for i
  proof
    assume ind: "RTE_MBUF_INDIRECT (rmb s i)"
    have "unat (refcnt (rmb s i)) \<noteq> 0"
      using counts_ok_indirect [OF counts i ind] by (simp add: unat_eq_0)
    then have "card (attached U (rmb s) i) \<noteq> 0"
      using counts_ok_refcnt [OF counts i] assms(2) i by simp
    then obtain j where "j \<in> attached U (rmb s) i" by (metis card.empty equals0I)
    then show False using counts_ok_indirect [OF counts, of j] ind by (auto simp: attached_def)
  qed
  then have "attached U (rmb s) a = {}" for a by (auto simp: attached_def)
  then have "refcnt (rmb s a) = 0" if "a \<in> U" for a
    using counts_ok_refcnt [OF counts that] assms(2) that by (simp add: unat_eq_0)
  then have "unreferenced U (rmb s) p = {a \<in> U. rm_pool (rmb s a) = p}" by (auto simp: unreferenced_def)
  then show ?thesis using pools by (simp add: pools_ok_def)
qed


text \<open>The clone of a buffer of one segment, whatever the buffer is.\<close>

lemma rte_pktmbuf_clone_single:
  assumes inv: "rmb_inv U r s" and c: "c \<in> U" "refcnt (rmb s c) \<noteq> 0" "rm_next (rmb s c) = None"
    and clone: "rte_pktmbuf_clone c p s = Some (Some i, t)"
  obtains b where "i \<in> U" "refcnt (rmb s i) = 0" "i \<noteq> c"
    and "rmb t = (rmb s)(c := (rmb s c)\<lparr> refcnt := refcnt (rmb s c) + 1 \<rparr>, i := b)"
    and "RTE_MBUF_INDIRECT b" "rm_base b = rm_base (rmb s c)" "refcnt b = 1"
proof -
  obtain x s1 where al: "rte_pktmbuf_alloc p s = (x, s1)" by fastforce
  note spec = rte_pktmbuf_alloc_inv [OF inv al]
  obtain mc where x: "x = Some mc" using clone al by (cases x) (auto simp: rte_pktmbuf_clone_def)
  have mc: "mc \<in> U" "refcnt (rmb s mc) = 0" and s1: "rmb s1 = (rmb s)(mc := fresh_rmb (rmb s mc))"
    using spec x by auto
  have ne: "mc \<noteq> c" using mc c by auto
  obtain b where at: "rmb (rte_pktmbuf_attach mc c s1) =
      (rmb s1)(c := (rmb s1 c)\<lparr> refcnt := refcnt (rmb s1 c) + 1 \<rparr>, mc := b)"
    and b: "RTE_MBUF_INDIRECT b" "buf_addr b = buf_addr (rmb s1 c)" "refcnt b = refcnt (rmb s1 mc)"
    by (rule rte_pktmbuf_attach_heap [OF ne, of s1])
  let ?b = "b\<lparr> rm_next := None, nb_segs := 1, pkt_len := pkt_len (rmb s c) \<rparr>"
  have nx: "nexts (clone_link mc c mc s1) c = None" using ne c(3) by (simp add: clone_link_def at s1)
  have "rte_pktmbuf_clone c p s = Some (Some mc, upd_rmb mc (\<lambda>b. b\<lparr> nb_segs := 1, pkt_len := pkt_len (rmb s c) \<rparr>)
      (upd_rmb mc (\<lambda>b. b\<lparr> rm_next := None \<rparr>) (clone_link mc c mc s1)))"
    using al x ne nx by (simp add: rte_pktmbuf_clone_def clone_segs_unfold Let_def s1)
  then have i: "i = mc" and t: "rmb t = (rmb s)(c := (rmb s c)\<lparr> refcnt := refcnt (rmb s c) + 1 \<rparr>, mc := ?b)"
    using clone ne by (auto simp: clone_link_def at s1 fun_eq_iff)
  show thesis
  proof (rule that [of ?b])
    show "RTE_MBUF_INDIRECT ?b" using b(1) by (simp add: RTE_MBUF_INDIRECT_def)
    show "rm_base ?b = rm_base (rmb s c)" using b(2) ne by (simp add: rm_base_def s1)
    show "refcnt ?b = 1" using b(3) by (simp add: s1 fresh_rmb_def)
  qed (use i mc ne t in simp_all)
qed

text \<open>
  C27. A clone of a clone is miscounted.  \<open>rte_pktmbuf_attach\<close> counts the new reference at the
  buffer it is given, and the release counts it off at the buffer that owns the
  bytes.  So when the buffer to clone is itself a clone, making a clone and
  releasing it leaves the counter of the owner of the bytes one too low (it goes
  back to its pool while still in use) and that of the clone one too high.
\<close>

theorem clone_of_clone_miscounted:
  assumes "rmb_inv U r s" "c \<in> U" "RTE_MBUF_INDIRECT (rmb s c)" "rm_next (rmb s c) = None"
    and "pool_data_mbuf_clone p c s = Some (Some i, t)"
  shows "refcnt (rmb (free_mbuf i t) (rm_base (rmb s c))) = refcnt (rmb s (rm_base (rmb s c))) - 1 \<and>
         refcnt (rmb (free_mbuf i t) c) = refcnt (rmb s c) + 1"
proof -
  let ?d = "rm_base (rmb s c)"
  have counts: "counts_ok U r (rmb s)" using assms(1) by (simp add: rmb_inv_def)
  note ind = counts_ok_indirect [OF counts assms(2,3)]
  obtain b where i: "i \<in> U" "refcnt (rmb s i) = 0" "i \<noteq> c"
    and t: "rmb t = (rmb s)(c := (rmb s c)\<lparr> refcnt := refcnt (rmb s c) + 1 \<rparr>, i := b)"
    and b: "RTE_MBUF_INDIRECT b" "rm_base b = ?d" "refcnt b = 1"
    using rte_pktmbuf_clone_single [OF assms(1,2) _ assms(4)] assms(5) ind
    unfolding pool_data_mbuf_clone_def by metis
  have dc: "?d \<noteq> c" using ind assms(3) by auto
  have "refcnt (rmb s ?d) \<noteq> 0"
  proof -
    have "c \<in> attached U (rmb s) ?d" using assms(2,3) by (simp add: attached_def)
    moreover have "finite U" using assms(1) by (simp add: rmb_inv_def)
    ultimately have "0 < card (attached U (rmb s) ?d)" using finite_attached card_gt_0_iff by blast
    then show ?thesis using counts_ok_refcnt [OF counts, of ?d] ind by auto
  qed
  then have di: "?d \<noteq> i" using i by auto
  have ib: "refcnt (rmb t i) = 1" "RTE_MBUF_INDIRECT (rmb t i)" "?d = rm_base (rmb t i)" using b t by simp_all
  obtain u where u: "rmb u = (rmb t)(i := released i t, ?d := (rmb t ?d)\<lparr> refcnt := refcnt (rmb t ?d) - 1 \<rparr>)"
    and free: "rte_pktmbuf_free_seg i t =
      rte_mbuf_raw_free i (if refcnt (rmb t ?d) = 1 then rte_mbuf_raw_free ?d u else u)"
    using rte_pktmbuf_free_seg_indirect [OF ib(1,2) ib(3) di] by auto
  have "rmb (free_mbuf i t) = rmb u" by (simp add: free_mbuf_def free)
  then show ?thesis using u t di dc i by simp
qed

text \<open>Initialised buffers and a pool without a cache that holds some of them.\<close>

definition bufs_pooled :: "addr list \<Rightarrow> rte_state" where
  "bufs_pooled xs =
     (let pool = \<lambda>xs. \<lparr> mp_ring = ring_push wrapping_ring xs, mp_flags = 0, mp_size = 3, mp_cache_size = 0,
            mp_cache_flushthresh = 0, mp_local_cache = replicate RTE_MAX_LCORE [] \<rparr>;
          blank = \<lparr> buf_addr = 0, buf_physaddr = 0, buf_len = 0, data_off = 0, refcnt = 0, nb_segs = 0, port = 0,
            ol_flags = 0, packet_type = 0, data_len = 0, pkt_len = 0, vlan_tci = 0, hash = 0, rm_pool = 0,
            rm_next = None, tx_offload = 0 \<rparr>
      in fold (rte_pktmbuf_init 0) [1000, 4000, 7000]
           \<lparr> rmb = \<lambda>_. blank, rpool = \<lambda>p. pool (if p = 0 then xs else []),
             elt_size = \<lambda>_. 2176, virt2phy = id, rlcore = 0 \<rparr>)"

lemma bufs_pooled_pool:
  assumes "length xs \<le> 3"
  shows "pool_inv (rpool (bufs_pooled xs) p)" "pool_cap (rpool (bufs_pooled xs) p) = 3"
    "pool_objs (rpool (bufs_pooled xs) p) = (if p = 0 then mset xs else {#})"
    "ring_used (mp_ring (rpool (bufs_pooled xs) 0)) = length xs"
proof -
  have w: "ring_inv wrapping_ring" by code_simp
  have c: "ring_capacity wrapping_ring = 3" "ring_used wrapping_ring = 0" "ring_contents wrapping_ring = []"
    by (simp_all add: wrapping_ring_def ring_capacity_def ring_used_def ring_contents_def ring_read_def)
  have push: "ring_inv (ring_push wrapping_ring xs)" "ring_contents (ring_push wrapping_ring xs) = xs"
    "ring_used (ring_push wrapping_ring xs) = length xs" if "length xs \<le> 3" for xs
    using that ring_push_inv [OF w, of xs] ring_push_contents [OF w, of xs] c
      ring_contents_length [of "ring_push wrapping_ring xs"]
    by (auto simp del: ring_contents_length)
  show "pool_inv (rpool (bufs_pooled xs) p)" "pool_cap (rpool (bufs_pooled xs) p) = 3"
    "pool_objs (rpool (bufs_pooled xs) p) = (if p = 0 then mset xs else {#})"
    "ring_used (mp_ring (rpool (bufs_pooled xs) 0)) = length xs"
    using push assms c by (auto simp: bufs_pooled_def Let_def rte_pktmbuf_init_def pool_inv_def pool_objs_def)
qed

lemma bufs_pooled_heap:
  "rm_pool (rmb (bufs_pooled xs) a) = 0" "refcnt (rmb (bufs_pooled xs) a) = 0"
  "rm_next (rmb (bufs_pooled xs) a) = None"
  "\<not> RTE_MBUF_INDIRECT (rmb (bufs_pooled xs) a)"
  "a \<in> {1000, 4000, 7000} \<Longrightarrow> buf_addr (rmb (bufs_pooled xs) a) = RTE_MBUF_TO_BADDR a"
  by (auto simp: bufs_pooled_def Let_def rte_pktmbuf_init_def RTE_MBUF_TO_BADDR_def RTE_MBUF_INDIRECT_bit)

abbreviation two_bufs :: rte_state where "two_bufs \<equiv> bufs_pooled [1000, 4000]"

lemma two_bufs_facts:
  "rmb_inv {1000, 4000} (\<lambda>_. 0) two_bufs" "ring_used (mp_ring (rpool two_bufs 0)) \<noteq> 0"
proof -
  have two: "{a. a = 1000 \<or> a = 4000} = {1000, 4000 :: addr}" by auto
  have "counts_ok {1000, 4000} (\<lambda>_. 0) (rmb two_bufs)"
    by (auto simp: counts_ok_def attached_def bufs_pooled_heap)
  moreover have "pools_ok {1000, 4000} {} two_bufs"
    by (auto simp: pools_ok_def unreferenced_def two bufs_pooled_heap bufs_pooled_pool)
  ultimately show "rmb_inv {1000, 4000} (\<lambda>_. 0) two_bufs" by (simp add: rmb_inv_def)
qed (simp add: bufs_pooled_pool)

text \<open>Buffer 4000 is a clone of buffer 1000, and buffer 7000 is free.\<close>

definition with_clone :: rte_state where
  "with_clone =
     upd_rmb 4000 (\<lambda>b. b\<lparr> refcnt := 1, ol_flags := IND_ATTACHED_MBUF, buf_addr := RTE_MBUF_TO_BADDR 1000 \<rparr>)
       (upd_rmb 1000 (\<lambda>b. b\<lparr> refcnt := 2 \<rparr>) (bufs_pooled [7000]))"

lemma with_clone_facts:
  "rmb_inv {1000, 4000, 7000} ((\<lambda>_. 0)(1000 := 1, 4000 := 1)) with_clone"
  "RTE_MBUF_INDIRECT (rmb with_clone 4000)" "rm_base (rmb with_clone 4000) = 1000"
  "rm_next (rmb with_clone 4000) = None" "refcnt (rmb with_clone 1000) = 2" "refcnt (rmb with_clone 4000) = 1"
  "ring_used (mp_ring (rpool with_clone 0)) \<noteq> 0"
proof -
  note defs = with_clone_def bufs_pooled_heap RTE_MBUF_INDIRECT_bit IND_bit rm_base_def
    RTE_MBUF_FROM_BADDR_def RTE_MBUF_TO_BADDR_def
  show ind: "RTE_MBUF_INDIRECT (rmb with_clone 4000)" and base: "rm_base (rmb with_clone 4000) = 1000"
    and "rm_next (rmb with_clone 4000) = None" "refcnt (rmb with_clone 1000) = 2"
    and "refcnt (rmb with_clone 4000) = 1"
    by (simp_all add: defs)
  show "ring_used (mp_ring (rpool with_clone 0)) \<noteq> 0" by (simp add: with_clone_def bufs_pooled_pool)
  have dir: "\<not> RTE_MBUF_INDIRECT (rmb with_clone 1000)" "\<not> RTE_MBUF_INDIRECT (rmb with_clone 7000)"
    using bufs_pooled_heap(4) by (simp_all add: with_clone_def)
  have att: "attached {1000, 4000, 7000} (rmb with_clone) a = (if a = 1000 then {4000} else {})" for a
    using ind base dir by (auto simp: attached_def)
  have "counts_ok {1000, 4000, 7000} ((\<lambda>_. 0)(1000 := 1, 4000 := 1)) (rmb with_clone)"
    unfolding counts_ok_def att using dir ind base
    by (auto simp: with_clone_def bufs_pooled_heap)
  moreover have "pools_ok {1000, 4000, 7000} {} with_clone"
  proof -
    have "unreferenced {1000, 4000, 7000} (rmb with_clone) p = (if p = 0 then {7000} else {})" for p
      by (auto simp: unreferenced_def with_clone_def bufs_pooled_heap)
    moreover have "{a. (a = 1000 \<or> a = 4000 \<or> a = 7000) \<and> rm_pool (rmb with_clone a) = p} =
        (if p = 0 then {1000, 4000, 7000} else {})" for p
      by (auto simp: with_clone_def bufs_pooled_heap)
    ultimately show ?thesis
      by (simp add: pools_ok_def with_clone_def bufs_pooled_pool)
  qed
  ultimately show "rmb_inv {1000, 4000, 7000} ((\<lambda>_. 0)(1000 := 1, 4000 := 1)) with_clone"
    by (simp add: rmb_inv_def)
qed

theorem clone_of_clone_miscounted_witness:
  "\<exists>i t. pool_data_mbuf_clone 0 4000 with_clone = Some (Some i, t) \<and>
         refcnt (rmb (free_mbuf i t) 1000) = 1 \<and> refcnt (rmb (free_mbuf i t) 4000) = 2"
proof -
  note w = with_clone_facts
  obtain x s where al: "rte_pktmbuf_alloc 0 with_clone = (x, s)" by fastforce
  then obtain i where x: "x = Some i" using rte_pktmbuf_alloc_inv [OF w(1) al] w(7) by (cases x) auto
  have "i \<noteq> 4000" and s: "rmb s 4000 = rmb with_clone 4000"
    using rte_pktmbuf_alloc_inv [OF w(1) al] x by auto
  have "nexts (clone_link i 4000 i s) 4000 = None"
    using \<open>i \<noteq> 4000\<close> s w(4)
    by (simp add: clone_link_def rte_pktmbuf_attach_def rte_mbuf_refcnt_update_def Let_def)
  then obtain t where "pool_data_mbuf_clone 0 4000 with_clone = Some (Some i, t)"
    using al x by (simp add: pool_data_mbuf_clone_def rte_pktmbuf_clone_def clone_segs_unfold Let_def)
  then show ?thesis
    using clone_of_clone_miscounted [OF w(1) _ w(2) w(4)] w(3,5,6) by auto
qed

lemma rm_pool_free_mbuf:
  assumes "rmb_inv U r s" "m \<in> U" "r m = 1" "attached U (rmb s) m = {}" "\<not> RTE_MBUF_INDIRECT (rmb s m)"
  shows "rm_pool (rmb (free_mbuf m s) a) = rm_pool (rmb s a)"
proof -
  have "unat (refcnt (rmb s m)) = 1"
    using counts_ok_refcnt [of U r "rmb s" m] assms by (simp add: rmb_inv_def)
  then have "refcnt (rmb s m) = 1" by (metis unat_1 unsigned_word_eqI)
  then show ?thesis using rte_pktmbuf_free_seg_direct [of s m] assms(5) by (simp add: free_mbuf_def)
qed


end
