(* ===== verification/Mbuf.thy ===== *)
theory Mbuf
  imports Rte_Mbuf
begin

unbundle bit_operations_syntax

text \<open>
  The memory buffers of the stack (\<^verbatim>\<open>netbsd/porting/mbuf/uipc_mbuf.c\<close>,
  \<^verbatim>\<open>special_includes/sys/mbuf.h\<close>): chains of headers, each of which points to bytes in
  a DPDK packet buffer.  The state adds to the packet buffers the headers, the
  bytes, the pool of headers and the counters of the allocator.  A panic, an
  \<^verbatim>\<open>exit\<close> and a null pointer that is followed are the value \<^term>\<open>None\<close>; lengths are
  integers (the C type \<^verbatim>\<open>int\<close>, whose overflow is undefined), and where the source
  converts to unsigned the reduction is written out.
\<close>

section \<open>Data\<close>

text \<open>The word \<^term>\<open>rcvif\<close> is also the field \<^verbatim>\<open>m_dat\<close>, and \<^term>\<open>m_pktdat\<close> is also \<^verbatim>\<open>m_ext_ref\<close>:
  the source overlays them in a union.  Data pointers are addresses, with 0 for the
  null pointer.\<close>

record pkthdr =
  rcvif :: addr
  ph_tags :: "nat list"
  ph_len :: int
  csum_flags :: int
  csum_data :: u32
  segsz :: u32

record mbuf =
  m_next :: "addr option"
  m_nextpkt :: "addr option"
  m_data :: addr
  m_len :: int
  m_flags :: u32
  m_paddr :: "addr option"
  m_type :: int
  m_pkthdr :: pkthdr
  m_pktdat :: addr
  ext_refcnt :: u32
  ext_buf :: addr
  ext_size :: u64

record mstate = rte_state +
  mbufs :: "addr \<Rightarrow> mbuf"
  dmem :: "addr \<Rightarrow> 8 word"
  mb_cache :: "addr rte_mempool"
  mb_data :: nat
  mcl_cache :: nat
  get_mbuf_called :: u64
  get_mbuf_failed :: u64
  mbuf_free_called :: u64
  max_protohdr :: int
  MCFail :: int
  MPFail :: int
  MSFail :: int

definition M_EXT :: u32 where "M_EXT = 0x00001"
definition M_PKTHDR :: u32 where "M_PKTHDR = 0x00002"
definition M_EOR :: u32 where "M_EOR = 0x00004"
definition M_BCAST :: u32 where "M_BCAST = 0x00100"
definition M_MCAST :: u32 where "M_MCAST = 0x00200"
definition M_EXT_ROMAP :: u32 where "M_EXT_ROMAP = 0x04000000"
definition M_EXT_RW :: u32 where "M_EXT_RW = 0x08000000"
definition M_EXTCOPYFLAGS :: u32 where "M_EXTCOPYFLAGS = 0xff000001"

abbreviation (input) MT_DATA :: int where "MT_DATA \<equiv> 1"
abbreviation (input) MT_HEADER :: int where "MT_HEADER \<equiv> 2"
abbreviation (input) MT_SONAME :: int where "MT_SONAME \<equiv> 3"
abbreviation (input) MT_SOOPTS :: int where "MT_SOOPTS \<equiv> 4"
abbreviation (input) MT_CONTROL :: int where "MT_CONTROL \<equiv> 6"
abbreviation (input) MT_OOBDATA :: int where "MT_OOBDATA \<equiv> 7"

abbreviation (input) MSIZE :: int where "MSIZE \<equiv> 2048"
abbreviation (input) MLEN :: int where "MLEN \<equiv> MSIZE"
abbreviation (input) MHLEN :: int where "MHLEN \<equiv> MSIZE"
abbreviation (input) M_COPYALL :: int where "M_COPYALL \<equiv> 1000000000"

definition upd_m :: "addr \<Rightarrow> (mbuf \<Rightarrow> mbuf) \<Rightarrow> 'a mstate_scheme \<Rightarrow> 'a mstate_scheme" where
  "upd_m a f s = s\<lparr> mbufs := (mbufs s)(a := f (mbufs s a)) \<rparr>"

definition has_flag :: "u32 \<Rightarrow> mbuf \<Rightarrow> bool" where
  "has_flag f m \<longleftrightarrow> m_flags m AND f \<noteq> 0"

text \<open>The functions \<^verbatim>\<open>min\<close> and \<^verbatim>\<open>max\<close> of \<^verbatim>\<open>libkern.h\<close> take and return unsigned numbers.\<close>

definition u_int :: "int \<Rightarrow> int" where "u_int x = x mod 2 ^ 32"
definition umin :: "int \<Rightarrow> int \<Rightarrow> int" where "umin a b = min (u_int a) (u_int b)"
definition umax :: "int \<Rightarrow> int \<Rightarrow> int" where "umax a b = max (u_int a) (u_int b)"

definition mem_read :: "(addr \<Rightarrow> 8 word) \<Rightarrow> addr \<Rightarrow> nat \<Rightarrow> 8 word list" where
  "mem_read mem a n = map mem [a ..< a + n]"

definition mem_write :: "addr \<Rightarrow> 8 word list \<Rightarrow> (addr \<Rightarrow> 8 word) \<Rightarrow> addr \<Rightarrow> 8 word" where
  "mem_write a bs mem x = (if a \<le> x \<and> x < a + length bs then bs ! (x - a) else mem x)"

definition memcpy :: "addr \<Rightarrow> addr \<Rightarrow> int \<Rightarrow> 'a mstate_scheme \<Rightarrow> 'a mstate_scheme" where
  "memcpy dst src n s = s\<lparr> dmem := mem_write dst (mem_read (dmem s) src (nat n)) (dmem s) \<rparr>"

definition mtod :: "mbuf \<Rightarrow> addr" where "mtod m = m_data m"

definition M_READONLY :: "addr \<Rightarrow> 'a mstate_scheme \<Rightarrow> bool" where
  "M_READONLY a s =
     (let m = mbufs s a
      in has_flag M_EXT m \<and>
         (m_flags m AND (M_EXT_ROMAP OR M_EXT_RW) \<noteq> M_EXT_RW \<or> ext_refcnt (mbufs s (m_pktdat m)) > 1))"

definition M_TRAILINGSPACE :: "mbuf \<Rightarrow> int" where "M_TRAILINGSPACE m = 0"

definition M_LEADINGSPACE :: "addr \<Rightarrow> 'a mstate_scheme \<Rightarrow> int" where
  "M_LEADINGSPACE a s =
     (let m = mbufs s a
      in if M_READONLY a s then 0
         else if has_flag M_EXT m then int (m_data m) - int (ext_buf (mbufs s (m_pktdat m)))
         else if has_flag M_PKTHDR m then int (m_data m) - int (m_pktdat m)
         else int (m_data m) - int (rcvif (m_pkthdr m)))"

text \<open>\<^verbatim>\<open>M_ALIGN\<close> and \<^verbatim>\<open>MH_ALIGN\<close>: an offset rounded down to a multiple of eight.\<close>

definition M_ALIGN :: "addr \<Rightarrow> int \<Rightarrow> 'a mstate_scheme \<Rightarrow> 'a mstate_scheme" where
  "M_ALIGN a n s = upd_m a (\<lambda>m. m\<lparr> m_data := m_data m + nat (u_int (MLEN - n) div 8 * 8) \<rparr>) s"

definition MH_ALIGN :: "addr \<Rightarrow> int \<Rightarrow> 'a mstate_scheme \<Rightarrow> 'a mstate_scheme" where
  "MH_ALIGN a n s = upd_m a (\<lambda>m. m\<lparr> m_data := m_data m + nat ((MHLEN - n) div 8 * 8) \<rparr>) s"

section \<open>Allocation\<close>

definition mbuf_take :: "'a mstate_scheme \<Rightarrow> addr option \<times> 'a mstate_scheme" where
  "mbuf_take s =
     (let s = s\<lparr> get_mbuf_called := get_mbuf_called s + 1 \<rparr>;
          (m, cache) = pool_cache_get (rlcore s) (mb_cache s);
          s = s\<lparr> mb_cache := cache \<rparr>
      in case m of None \<Rightarrow> (None, s\<lparr> get_mbuf_failed := get_mbuf_failed s + 1 \<rparr>)
         | Some m \<Rightarrow> (Some m, s))"

definition m_get_indirect :: "addr option \<Rightarrow> int \<Rightarrow> 'a mstate_scheme \<Rightarrow> (addr option \<times> 'a mstate_scheme) option" where
  "m_get_indirect to_clone type s =
     (case mbuf_take s of
        (None, s) \<Rightarrow> Some (None, s)
      | (Some m, s) \<Rightarrow> do {
          let s = upd_m m (\<lambda>b. b\<lparr> m_pktdat := m, m_type := type, m_next := None, m_nextpkt := None \<rparr>) s;
          c \<leftarrow> to_clone;
          (p, s) \<leftarrow> pool_data_mbuf_clone (mcl_cache s) c s;
          let s = upd_m m (\<lambda>b. b\<lparr> m_paddr := p, m_data := 0, m_pkthdr := (m_pkthdr b)\<lparr> rcvif := 0 \<rparr>, m_flags := 0 \<rparr>) s;
          Some (Some m, s)
        })"

text \<open>\<^verbatim>\<open>m_get\<close> leaves the program when there is a header but no packet buffer.\<close>

definition m_get :: "int \<Rightarrow> 'a mstate_scheme \<Rightarrow> (addr option \<times> 'a mstate_scheme) option" where
  "m_get type s =
     (case mbuf_take s of
        (None, s) \<Rightarrow> Some (None, s)
      | (Some m, s) \<Rightarrow>
          (let s = upd_m m (\<lambda>b. b\<lparr> m_pktdat := m, m_type := type, m_next := None, m_nextpkt := None \<rparr>) s
           in case allocate_mbuf (mb_data s) s of
                (None, s) \<Rightarrow> None
              | (Some d, s) \<Rightarrow>
                  Some (Some m, upd_m m (\<lambda>b. b\<lparr> m_paddr := Some d, m_data := get_mbuf_data d s, m_flags := 0 \<rparr>) s)))"

definition m_gethdr :: "int \<Rightarrow> 'a mstate_scheme \<Rightarrow> (addr option \<times> 'a mstate_scheme) option" where
  "m_gethdr type s = do {
     let s = s\<lparr> get_mbuf_called := get_mbuf_called s + 1 \<rparr>;
     (m, s) \<leftarrow> m_get type s;
     case m of
       None \<Rightarrow> Some (None, s\<lparr> get_mbuf_failed := get_mbuf_failed s + 1 \<rparr>)
     | Some m \<Rightarrow>
         Some (Some m, upd_m m (\<lambda>b. b\<lparr> m_pktdat := m_data b, m_flags := M_PKTHDR,
             m_pkthdr := (m_pkthdr b)\<lparr> rcvif := 0, csum_flags := 0, csum_data := 0, ph_tags := [] \<rparr>,
             m_next := None, m_nextpkt := None \<rparr>) s)
   }"

text \<open>The macro \<^verbatim>\<open>MFREE\<close>: the tags, the packet buffer and the header are given back; the
  result is the next mbuf.\<close>

definition MFREE :: "addr \<Rightarrow> 'a mstate_scheme \<Rightarrow> addr option \<times> 'a mstate_scheme" where
  "MFREE m s =
     (let s = (if has_flag M_PKTHDR (mbufs s m)
               then upd_m m (\<lambda>b. b\<lparr> m_pkthdr := (m_pkthdr b)\<lparr> ph_tags := [] \<rparr> \<rparr>) s else s);
          n = m_next (mbufs s m);
          s = (case m_paddr (mbufs s m) of
                 None \<Rightarrow> s
               | Some p \<Rightarrow> upd_m m (\<lambda>b. b\<lparr> m_paddr := None \<rparr>) (free_mbuf p s));
          s = s\<lparr> mbuf_free_called := mbuf_free_called s + 1 \<rparr>
      in (n, s\<lparr> mb_cache := pool_cache_put (rlcore s) (mb_cache s) m \<rparr>))"

definition m_free :: "addr \<Rightarrow> 'a mstate_scheme \<Rightarrow> addr option \<times> 'a mstate_scheme" where
  "m_free m s = MFREE m s"

partial_function (option) m_freem :: "addr option \<Rightarrow> 'a mstate_scheme \<Rightarrow> 'a mstate_scheme option" where
  "m_freem m s =
     (case m of None \<Rightarrow> Some s
      | Some m \<Rightarrow> (let (n, s) = MFREE m s in m_freem n s))"

definition M_COPYFLAGS :: u32 where
  "M_COPYFLAGS = 0x7ff6"

definition m_move_pkthdr :: "addr \<Rightarrow> addr \<Rightarrow> 'a mstate_scheme \<Rightarrow> 'a mstate_scheme" where
  "m_move_pkthdr to_m from_m s =
     (let s = upd_m to_m (\<lambda>b. b\<lparr> m_pkthdr := m_pkthdr (mbufs s from_m),
                                m_flags := m_flags (mbufs s from_m) AND M_COPYFLAGS,
                                m_data := m_pktdat b \<rparr>) s
      in upd_m from_m (\<lambda>b. b\<lparr> m_flags := m_flags b AND NOT M_PKTHDR \<rparr>) s)"

definition m_devget ::
  "addr \<Rightarrow> int \<Rightarrow> int \<Rightarrow> addr \<Rightarrow> addr \<Rightarrow> 'a mstate_scheme \<Rightarrow> addr option \<times> 'a mstate_scheme" where
  "m_devget buf totlen off0 ifp pdesc s =
     (case mbuf_take s of
        (None, s) \<Rightarrow> (None, s)
      | (Some m, s) \<Rightarrow>
          (Some m, upd_m m (\<lambda>b. b\<lparr> m_pktdat := m, m_type := MT_DATA, m_next := None, m_nextpkt := None,
             m_paddr := Some pdesc, m_pkthdr := (m_pkthdr b)\<lparr> rcvif := ifp, ph_len := totlen \<rparr>,
             m_len := totlen, m_data := nat (int buf + off0), m_flags := M_PKTHDR \<rparr>) s))"

definition m_prepend :: "addr \<Rightarrow> int \<Rightarrow> 'a mstate_scheme \<Rightarrow> (addr option \<times> 'a mstate_scheme) option" where
  "m_prepend m n s = do {
     (mn, s) \<leftarrow> m_get (m_type (mbufs s m)) s;
     case mn of
       None \<Rightarrow> do { s \<leftarrow> m_freem (Some m) s; Some (None, s) }
     | Some mn \<Rightarrow>
         (let s = (if has_flag M_PKTHDR (mbufs s m) then m_move_pkthdr mn m s else s);
              s = upd_m mn (\<lambda>b. b\<lparr> m_next := Some m \<rparr>) s;
              s = (if n < MHLEN then MH_ALIGN mn n s else s)
          in Some (Some mn, upd_m mn (\<lambda>b. b\<lparr> m_len := n \<rparr>) s))
   }"

text \<open>The macro \<^verbatim>\<open>M_PREPEND\<close>.  With \<^verbatim>\<open>M_DONTWAIT\<close> it only uses room in front of the data.\<close>

definition M_PREPEND :: "addr \<Rightarrow> int \<Rightarrow> bool \<Rightarrow> 'a mstate_scheme \<Rightarrow> (addr option \<times> 'a mstate_scheme) option" where
  "M_PREPEND m plen dontwait s =
     (if dontwait
      then Some (Some m, if M_LEADINGSPACE m s \<ge> plen
             then upd_m m (\<lambda>b. b\<lparr> m_data := nat (int (m_data b) - plen), m_len := m_len b + plen \<rparr>) s else s)
      else do {
        (mn, s) \<leftarrow> m_gethdr MT_HEADER s;
        case mn of
          None \<Rightarrow> Some (None, s)
        | Some mn \<Rightarrow>
            Some (Some mn, upd_m mn (\<lambda>b. b\<lparr> m_next := Some m, m_data := m_data b + 40, m_len := plen,
               m_pkthdr := (m_pkthdr b)\<lparr> ph_len := plen \<rparr> \<rparr>) s)
      })"

section \<open>Reading a chain\<close>

text \<open>The search for an offset that \<^verbatim>\<open>m_copym0\<close>, \<^verbatim>\<open>m_copydata\<close> and \<^verbatim>\<open>m_apply\<close> start with.\<close>

partial_function (option) m_skip :: "(addr \<Rightarrow> mbuf) \<Rightarrow> addr option \<Rightarrow> int \<Rightarrow> (addr option \<times> int) option" where
  "m_skip h m off =
     (if off > 0
      then case m of
             None \<Rightarrow> None
           | Some a \<Rightarrow> if off < m_len (h a) then Some (m, off) else m_skip h (m_next (h a)) (off - m_len (h a))
      else Some (m, off))"

partial_function (option) copydata_loop ::
  "addr option \<Rightarrow> int \<Rightarrow> int \<Rightarrow> addr \<Rightarrow> 'a mstate_scheme \<Rightarrow> 'a mstate_scheme option" where
  "copydata_loop m off n cp s =
     (if n > 0
      then case m of
             None \<Rightarrow> None
           | Some a \<Rightarrow>
               (let cnt = umin (m_len (mbufs s a) - off) n;
                    s = memcpy cp (nat (int (mtod (mbufs s a)) + off)) cnt s
                in copydata_loop (m_next (mbufs s a)) 0 (n - cnt) (cp + nat cnt) s)
      else Some s)"

definition m_copydata :: "addr option \<Rightarrow> int \<Rightarrow> int \<Rightarrow> addr \<Rightarrow> 'a mstate_scheme \<Rightarrow> 'a mstate_scheme option" where
  "m_copydata m off n vp s =
     (if off < 0 \<or> n < 0 then None
      else do { (m, off) \<leftarrow> m_skip (mbufs s) m off; copydata_loop m off n vp s })"

partial_function (option) apply_loop ::
  "(addr \<Rightarrow> int \<Rightarrow> 'a mstate_scheme \<Rightarrow> int \<times> 'a mstate_scheme) \<Rightarrow> addr option \<Rightarrow> int \<Rightarrow> int \<Rightarrow>
   'a mstate_scheme \<Rightarrow> (int \<times> 'a mstate_scheme) option" where
  "apply_loop f m off n s =
     (if n > 0
      then case m of
             None \<Rightarrow> None
           | Some a \<Rightarrow>
               (let cnt = umin (m_len (mbufs s a) - off) n;
                    (rval, s) = f (nat (int (mtod (mbufs s a)) + off)) cnt s
                in if rval \<noteq> 0 then Some (rval, s)
                   else apply_loop f (m_next (mbufs s a)) 0 (n - cnt) s)
      else Some (0, s))"

definition m_apply ::
  "(addr \<Rightarrow> int \<Rightarrow> 'a mstate_scheme \<Rightarrow> int \<times> 'a mstate_scheme) \<Rightarrow> addr option \<Rightarrow> int \<Rightarrow> int \<Rightarrow>
   'a mstate_scheme \<Rightarrow> (int \<times> 'a mstate_scheme) option" where
  "m_apply f m off n s = do { (m, off) \<leftarrow> m_skip (mbufs s) m off; apply_loop f m off n s }"

partial_function (option) m_getptr :: "(addr \<Rightarrow> mbuf) \<Rightarrow> addr \<Rightarrow> int \<Rightarrow> (addr \<times> int) option option" where
  "m_getptr h m loc =
     (if loc \<ge> 0
      then if m_len (h m) > loc then Some (Some (m, loc))
           else let loc = loc - m_len (h m)
                in case m_next (h m) of
                     None \<Rightarrow> Some (if loc = 0 then Some (m, m_len (h m)) else None)
                   | Some n \<Rightarrow> m_getptr h n loc
      else Some None)"

partial_function (option) sum_len :: "(addr \<Rightarrow> mbuf) \<Rightarrow> addr option \<Rightarrow> int \<Rightarrow> int option" where
  "sum_len h m pktlen =
     (case m of None \<Rightarrow> Some pktlen | Some a \<Rightarrow> sum_len h (m_next (h a)) (u_int (pktlen + m_len (h a))))"

definition m_length :: "(addr \<Rightarrow> mbuf) \<Rightarrow> addr \<Rightarrow> int option" where
  "m_length h m =
     (if has_flag M_PKTHDR (h m) then Some (u_int (ph_len (m_pkthdr (h m)))) else sum_len h (Some m) 0)"

section \<open>Copying a chain\<close>

text \<open>The loop of \<^verbatim>\<open>m_copym0\<close>.  The pointer \<^verbatim>\<open>np\<close> of the source is the link of \<^term>\<open>last\<close>, or \<^verbatim>\<open>top\<close>
  while there is none.  The result is the copy, or none when a header was missing.\<close>

definition set_np :: "addr option \<Rightarrow> addr option \<Rightarrow> addr option \<Rightarrow> 'a mstate_scheme \<Rightarrow> addr option \<times> 'a mstate_scheme" where
  "set_np first lst n s =
     (case lst of None \<Rightarrow> (n, s) | Some l \<Rightarrow> (first, upd_m l (\<lambda>b. b\<lparr> m_next := n \<rparr>) s))"

partial_function (option) copym_loop ::
  "addr option \<Rightarrow> int \<Rightarrow> int \<Rightarrow> addr option \<Rightarrow> addr option \<Rightarrow> 'a mstate_scheme \<Rightarrow>
   (addr option \<times> 'a mstate_scheme) option" where
  "copym_loop m off n first lst s =
     (if n > 0
      then case m of
             None \<Rightarrow> if n \<noteq> M_COPYALL then None
                     else Some (first, if first = None then s\<lparr> MCFail := MCFail s + 1 \<rparr> else s)
           | Some a \<Rightarrow> do {
               (mn, s) \<leftarrow> m_get_indirect (m_paddr (mbufs s a)) (m_type (mbufs s a)) s;
               let (first, s) = set_np first lst mn s;
               case mn of
                 None \<Rightarrow> do { s \<leftarrow> m_freem first s; Some (None, s\<lparr> MCFail := MCFail s + 1 \<rparr>) }
               | Some c \<Rightarrow>
                   let cnt = umin n (m_len (mbufs s a) - off)
                   in if has_flag M_EXT (mbufs s a) then None
                      else let s = upd_m c (\<lambda>b. b\<lparr> m_len := cnt, m_data := nat (int (mtod (mbufs s a)) + off) \<rparr>) s;
                               n = (if n \<noteq> M_COPYALL then n - cnt else n);
                               off = off + cnt
                           in if off = m_len (mbufs s a)
                              then copym_loop (m_next (mbufs s a)) 0 n first (Some c) s
                              else copym_loop m off n first (Some c) s
             }
      else Some (first, if first = None then s\<lparr> MCFail := MCFail s + 1 \<rparr> else s))"

definition m_copym0 :: "addr option \<Rightarrow> int \<Rightarrow> int \<Rightarrow> 'a mstate_scheme \<Rightarrow> (addr option \<times> 'a mstate_scheme) option" where
  "m_copym0 m off0 n s =
     (if off0 < 0 \<or> n < 0 \<or> off0 = 0 \<and> m = None then None
      else do { (m, off) \<leftarrow> m_skip (mbufs s) m off0; copym_loop m off n None None s })"

definition m_copym :: "addr option \<Rightarrow> int \<Rightarrow> int \<Rightarrow> 'a mstate_scheme \<Rightarrow> (addr option \<times> 'a mstate_scheme) option" where
  "m_copym m off0 n s = m_copym0 m off0 n s"

definition m_dup :: "addr option \<Rightarrow> int \<Rightarrow> int \<Rightarrow> 'a mstate_scheme \<Rightarrow> (addr option \<times> 'a mstate_scheme) option" where
  "m_dup m off0 n s = m_copym0 m off0 n s"

definition m_copypacket :: "addr option \<Rightarrow> addr option" where
  "m_copypacket m = m"

section \<open>Changing a chain\<close>

partial_function (option) m_last :: "(addr \<Rightarrow> mbuf) \<Rightarrow> addr \<Rightarrow> addr option" where
  "m_last h m = (case m_next (h m) of None \<Rightarrow> Some m | Some n \<Rightarrow> m_last h n)"

partial_function (option) cat_loop :: "addr \<Rightarrow> addr option \<Rightarrow> 'a mstate_scheme \<Rightarrow> 'a mstate_scheme option" where
  "cat_loop m n s =
     (case n of
        None \<Rightarrow> Some s
      | Some n \<Rightarrow>
          if M_READONLY m s \<or> m_len (mbufs s n) > M_TRAILINGSPACE (mbufs s m)
          then Some (upd_m m (\<lambda>b. b\<lparr> m_next := Some n \<rparr>) s)
          else let s = memcpy (nat (int (mtod (mbufs s m)) + m_len (mbufs s m))) (mtod (mbufs s n)) (m_len (mbufs s n)) s;
                   s = upd_m m (\<lambda>b. b\<lparr> m_len := m_len b + m_len (mbufs s n) \<rparr>) s;
                   (n, s) = m_free n s
               in cat_loop m n s)"

definition m_cat :: "addr \<Rightarrow> addr option \<Rightarrow> 'a mstate_scheme \<Rightarrow> 'a mstate_scheme option" where
  "m_cat m n s = do { m \<leftarrow> m_last (mbufs s) m; cat_loop m n s }"

partial_function (option) adj_head :: "addr option \<Rightarrow> int \<Rightarrow> 'a mstate_scheme \<Rightarrow> (int \<times> 'a mstate_scheme) option" where
  "adj_head m n s =
     (case m of
        None \<Rightarrow> Some (n, s)
      | Some a \<Rightarrow>
          if n > 0
          then if m_len (mbufs s a) \<le> n
               then adj_head (m_next (mbufs s a)) (n - m_len (mbufs s a)) (upd_m a (\<lambda>b. b\<lparr> m_len := 0 \<rparr>) s)
               else adj_head m 0 (upd_m a (\<lambda>b. b\<lparr> m_len := m_len b - n, m_data := m_data b + nat n \<rparr>) s)
          else Some (n, s))"

partial_function (option) adj_count :: "(addr \<Rightarrow> mbuf) \<Rightarrow> addr \<Rightarrow> int \<Rightarrow> (addr \<times> int) option" where
  "adj_count h m cnt =
     (let cnt = cnt + m_len (h m)
      in case m_next (h m) of None \<Rightarrow> Some (m, cnt) | Some n \<Rightarrow> adj_count h n cnt)"

partial_function (option) adj_keep :: "addr option \<Rightarrow> int \<Rightarrow> 'a mstate_scheme \<Rightarrow> (addr option \<times> 'a mstate_scheme) option" where
  "adj_keep m cnt s =
     (case m of
        None \<Rightarrow> Some (None, s)
      | Some a \<Rightarrow>
          if m_len (mbufs s a) \<ge> cnt then Some (Some a, upd_m a (\<lambda>b. b\<lparr> m_len := cnt \<rparr>) s)
          else adj_keep (m_next (mbufs s a)) (cnt - m_len (mbufs s a)) s)"

partial_function (option) adj_toss :: "addr \<Rightarrow> 'a mstate_scheme \<Rightarrow> 'a mstate_scheme option" where
  "adj_toss m s =
     (case m_next (mbufs s m) of
        None \<Rightarrow> Some s
      | Some n \<Rightarrow> adj_toss n (upd_m n (\<lambda>b. b\<lparr> m_len := 0 \<rparr>) s))"

definition set_ph_len :: "addr \<Rightarrow> (int \<Rightarrow> int) \<Rightarrow> 'a mstate_scheme \<Rightarrow> 'a mstate_scheme" where
  "set_ph_len m f s =
     (if has_flag M_PKTHDR (mbufs s m)
      then upd_m m (\<lambda>b. b\<lparr> m_pkthdr := (m_pkthdr b)\<lparr> ph_len := f (ph_len (m_pkthdr b)) \<rparr> \<rparr>) s else s)"

definition m_adj :: "addr option \<Rightarrow> int \<Rightarrow> 'a mstate_scheme \<Rightarrow> 'a mstate_scheme option" where
  "m_adj mp req_len s =
     (case mp of
        None \<Rightarrow> Some s
      | Some m \<Rightarrow>
          if req_len \<ge> 0
          then do {
            (n, s) \<leftarrow> adj_head mp req_len s;
            Some (set_ph_len m (\<lambda>l. l - (req_len - n)) s)
          }
          else do {
            let n = - req_len;
            (l, cnt) \<leftarrow> adj_count (mbufs s) m 0;
            if m_len (mbufs s l) \<ge> n
            then Some (set_ph_len m (\<lambda>x. x - n) (upd_m l (\<lambda>b. b\<lparr> m_len := m_len b - n \<rparr>) s))
            else do {
              let cnt = (if cnt - n < 0 then 0 else cnt - n);
              let s = set_ph_len m (\<lambda>_. cnt) s;
              (k, s) \<leftarrow> adj_keep (Some m) cnt s;
              case k of None \<Rightarrow> Some s | Some k \<Rightarrow> adj_toss k s
            }
          })"

section \<open>Rearranging a chain\<close>

definition size_t :: "int \<Rightarrow> int" where "size_t x = x mod 2 ^ 64"
definition int32 :: "int \<Rightarrow> int" where "int32 x = (x + 2 ^ 31) mod 2 ^ 32 - 2 ^ 31"

text \<open>What both loops do with the count of a round: the bytes move from the front of \<^term>\<open>n\<close> to the
  end of \<^term>\<open>m\<close>, and \<^term>\<open>n\<close> is freed when it is empty.\<close>

definition contig_move :: "addr \<Rightarrow> addr \<Rightarrow> int \<Rightarrow> 'a mstate_scheme \<Rightarrow> addr option \<times> 'a mstate_scheme" where
  "contig_move m n cnt s =
     (let s = memcpy (nat (int (mtod (mbufs s m)) + m_len (mbufs s m))) (mtod (mbufs s n)) (u_int cnt) s;
          s = upd_m m (\<lambda>b. b\<lparr> m_len := m_len b + cnt \<rparr>) s;
          s = upd_m n (\<lambda>b. b\<lparr> m_len := m_len b - cnt \<rparr>) s
      in if m_len (mbufs s n) \<noteq> 0 then (Some n, upd_m n (\<lambda>b. b\<lparr> m_data := m_data b + nat cnt \<rparr>) s)
         else m_free n s)"

partial_function (option) contig_loop ::
  "addr \<Rightarrow> addr \<Rightarrow> int \<Rightarrow> int \<Rightarrow> 'a mstate_scheme \<Rightarrow> (addr option \<times> int \<times> 'a mstate_scheme) option" where
  "contig_loop m n len space s =
     (let cnt = min (min (size_t (max len (max_protohdr s))) space) (size_t (m_len (mbufs s n)));
          (n', s) = contig_move m n cnt s;
          len = len - cnt
      in case n' of
           None \<Rightarrow> Some (None, len, s)
         | Some n' \<Rightarrow> if len > 0 then contig_loop m n' len (space - cnt) s else Some (Some n', len, s))"

text \<open>The room behind the data, from the field \<^verbatim>\<open>m_dat\<close>, which shares its word with the receiving
  interface.\<close>

definition m_room :: "mbuf \<Rightarrow> int" where
  "m_room b = int (rcvif (m_pkthdr b)) + MLEN - (int (m_data b) + m_len b)"

definition contig_finish :: "addr \<Rightarrow> addr \<Rightarrow> int \<Rightarrow> 'a mstate_scheme \<Rightarrow> (bool \<times> addr \<times> 'a mstate_scheme) option" where
  "contig_finish m n len s = do {
     (n, len, s) \<leftarrow> contig_loop m n len (size_t (m_room (mbufs s m))) s;
     Some (len \<le> 0, m, upd_m m (\<lambda>b. b\<lparr> m_next := n \<rparr>) s)
   }"

definition m_ensure_contig :: "addr \<Rightarrow> int \<Rightarrow> 'a mstate_scheme \<Rightarrow> (bool \<times> addr \<times> 'a mstate_scheme) option" where
  "m_ensure_contig n len s =
     (let b = mbufs s n
      in if \<not> has_flag M_EXT b \<and> int (m_data b) + len < int (rcvif (m_pkthdr b)) + MLEN \<and> m_next b \<noteq> None
         then if m_len b \<ge> len then Some (True, n, s)
              else contig_finish n (the (m_next b)) (len - m_len b) s
         else if len > MHLEN then Some (False, n, s)
         else do {
           (m, s) \<leftarrow> m_get (m_type b) s;
           case m of
             None \<Rightarrow> Some (False, n, s)
           | Some m \<Rightarrow>
               let s = upd_m m (\<lambda>b. b\<lparr> m_len := 0 \<rparr>) s;
                   s = (if has_flag M_PKTHDR (mbufs s n) then m_move_pkthdr m n s else s)
               in contig_finish m n len s
         })"

definition m_pullup :: "addr \<Rightarrow> int \<Rightarrow> 'a mstate_scheme \<Rightarrow> (addr option \<times> 'a mstate_scheme) option" where
  "m_pullup n len s = do {
     (ok, m, s) \<leftarrow> m_ensure_contig n len s;
     if ok then Some (Some m, s)
     else do { s \<leftarrow> m_freem (Some m) s; Some (None, s\<lparr> MPFail := MPFail s + 1 \<rparr>) }
   }"

partial_function (option) copyup_loop ::
  "addr \<Rightarrow> addr \<Rightarrow> int \<Rightarrow> int \<Rightarrow> 'a mstate_scheme \<Rightarrow> (addr option \<times> int \<times> 'a mstate_scheme) option" where
  "copyup_loop m n len space s =
     (let cnt = umin (umin (umax len (max_protohdr s)) space) (m_len (mbufs s n));
          (n', s) = contig_move m n cnt s;
          len = len - cnt
      in case n' of
           None \<Rightarrow> Some (None, len, s)
         | Some n' \<Rightarrow> if len > 0 then copyup_loop m n' len (space - cnt) s else Some (Some n', len, s))"

definition copyup_bad :: "addr option \<Rightarrow> 'a mstate_scheme \<Rightarrow> (addr option \<times> 'a mstate_scheme) option" where
  "copyup_bad n s = do { s \<leftarrow> m_freem n s; Some (None, s\<lparr> MSFail := MSFail s + 1 \<rparr>) }"

definition m_copyup :: "addr \<Rightarrow> int \<Rightarrow> int \<Rightarrow> 'a mstate_scheme \<Rightarrow> (addr option \<times> 'a mstate_scheme) option" where
  "m_copyup n len dstoff s =
     (if len > MHLEN - dstoff then copyup_bad (Some n) s
      else do {
        (m, s) \<leftarrow> m_get (m_type (mbufs s n)) s;
        case m of
          None \<Rightarrow> copyup_bad (Some n) s
        | Some m \<Rightarrow> do {
            let s = upd_m m (\<lambda>b. b\<lparr> m_len := 0 \<rparr>) s;
            let s = (if has_flag M_PKTHDR (mbufs s n) then m_move_pkthdr m n s else s);
            let s = upd_m m (\<lambda>b. b\<lparr> m_data := nat (int (m_data b) + dstoff) \<rparr>) s;
            (n, len, s) \<leftarrow> copyup_loop m n len (int32 (m_room (mbufs s m))) s;
            if len > 0 then copyup_bad n (snd (m_free m s))
            else Some (Some m, upd_m m (\<lambda>b. b\<lparr> m_next := n \<rparr>) s)
          }
      })"

text \<open>The search of \<^verbatim>\<open>m_split0\<close>; the comparison is unsigned.\<close>

partial_function (option) split_find :: "(addr \<Rightarrow> mbuf) \<Rightarrow> addr option \<Rightarrow> int \<Rightarrow> (addr option \<times> int) option" where
  "split_find h m len =
     (case m of
        None \<Rightarrow> Some (None, len)
      | Some a \<Rightarrow> if len > u_int (m_len (h a)) then split_find h (m_next (h a)) (u_int (len - m_len (h a)))
                  else Some (m, len))"

text \<open>The label \<^verbatim>\<open>extpacket\<close>: \<^term>\<open>n\<close> gets the bytes of \<^term>\<open>m\<close> from \<^term>\<open>len\<close> on and what follows \<^term>\<open>m\<close>.\<close>

definition split_tail :: "addr \<Rightarrow> addr \<Rightarrow> int \<Rightarrow> int \<Rightarrow> 'a mstate_scheme \<Rightarrow> 'a mstate_scheme" where
  "split_tail m n len remain s =
     (let s = (if has_flag M_EXT (mbufs s m)
               then let r = m_pktdat (mbufs s m);
                        s = upd_m n (\<lambda>b. b\<lparr> m_data := nat (int (m_data (mbufs s m)) + len) \<rparr>) s;
                        s = upd_m n (\<lambda>b. b\<lparr> m_flags := m_flags b OR (m_flags (mbufs s m) AND M_EXTCOPYFLAGS) \<rparr>) s;
                        s = upd_m r (\<lambda>b. b\<lparr> ext_refcnt := ext_refcnt b + 1 \<rparr>) s
                    in upd_m n (\<lambda>b. b\<lparr> m_pktdat := r \<rparr>) s
               else memcpy (mtod (mbufs s n)) (nat (int (mtod (mbufs s m)) + len)) remain s);
          s = upd_m n (\<lambda>b. b\<lparr> m_len := remain \<rparr>) s;
          s = upd_m m (\<lambda>b. b\<lparr> m_len := len \<rparr>) s;
          s = upd_m n (\<lambda>b. b\<lparr> m_next := m_next (mbufs s m) \<rparr>) s
      in upd_m m (\<lambda>b. b\<lparr> m_next := None \<rparr>) s)"

partial_function (option) m_split0 ::
  "addr \<Rightarrow> int \<Rightarrow> bool \<Rightarrow> 'a mstate_scheme \<Rightarrow> (addr option \<times> 'a mstate_scheme) option" where
  "m_split0 m0 len0 copyhdr s = do {
     (mo, len) \<leftarrow> split_find (mbufs s) (Some m0) (u_int len0);
     case mo of
       None \<Rightarrow> Some (None, s)
     | Some m \<Rightarrow>
         let remain = u_int (m_len (mbufs s m) - len)
         in if copyhdr \<and> has_flag M_PKTHDR (mbufs s m0)
            then do {
              (no, s) \<leftarrow> m_gethdr (m_type (mbufs s m0)) s;
              case no of
                None \<Rightarrow> Some (None, s)
              | Some n \<Rightarrow>
                  let len_save = ph_len (m_pkthdr (mbufs s m0));
                      s = upd_m n (\<lambda>b. b\<lparr> m_pkthdr := (m_pkthdr b)\<lparr> rcvif := rcvif (m_pkthdr (mbufs s m0)),
                                            ph_len := len_save - len0 \<rparr> \<rparr>) s;
                      s = upd_m m0 (\<lambda>b. b\<lparr> m_pkthdr := (m_pkthdr b)\<lparr> ph_len := len0 \<rparr> \<rparr>) s
                  in if has_flag M_EXT (mbufs s m) then Some (Some n, split_tail m n len remain s)
                     else if remain > MHLEN
                     then do {
                       let s = upd_m n (\<lambda>b. b\<lparr> m_len := 0 \<rparr>) (MH_ALIGN n 0 s);
                       (t, s) \<leftarrow> m_split0 m len True s;
                       let s = upd_m n (\<lambda>b. b\<lparr> m_next := t \<rparr>) s;
                       if t = None
                       then let s = snd (m_free n s)
                            in Some (None, upd_m m0 (\<lambda>b. b\<lparr> m_pkthdr := (m_pkthdr b)\<lparr> ph_len := len_save \<rparr> \<rparr>) s)
                       else Some (Some n, s)
                     }
                     else Some (Some n, split_tail m n len remain (MH_ALIGN n remain s))
            }
            else if remain = 0
            then Some (m_next (mbufs s m), upd_m m (\<lambda>b. b\<lparr> m_next := None \<rparr>) s)
            else do {
              (no, s) \<leftarrow> m_get (m_type (mbufs s m)) s;
              case no of
                None \<Rightarrow> Some (None, s)
              | Some n \<Rightarrow> Some (Some n, split_tail m n len remain (M_ALIGN n remain s))
            }
   }"

definition m_split :: "addr \<Rightarrow> int \<Rightarrow> 'a mstate_scheme \<Rightarrow> (addr option \<times> 'a mstate_scheme) option" where
  "m_split m0 len0 s = m_split0 m0 len0 True s"

section \<open>Chains as byte strings\<close>

abbreviation m_nexts :: "'a mstate_scheme \<Rightarrow> addr \<Rightarrow> addr option" where
  "m_nexts s \<equiv> \<lambda>a. m_next (mbufs s a)"

text \<open>The chain that starts at \<^term>\<open>p\<close> and consists of the mbufs \<^term>\<open>as\<close>, with lengths that are
  not negative and in the range of the C type.\<close>

definition mchain :: "'a mstate_scheme \<Rightarrow> addr option \<Rightarrow> addr list \<Rightarrow> bool" where
  "mchain s p as \<longleftrightarrow> linked (m_nexts s) p as \<and> (\<forall>a\<in>set as. 0 \<le> m_len (mbufs s a) \<and> m_len (mbufs s a) < 2 ^ 31)"

definition mbytes :: "'a mstate_scheme \<Rightarrow> addr \<Rightarrow> 8 word list" where
  "mbytes s a = mem_read (dmem s) (m_data (mbufs s a)) (nat (m_len (mbufs s a)))"

definition cbytes :: "'a mstate_scheme \<Rightarrow> addr list \<Rightarrow> 8 word list" where
  "cbytes s as = concat (map (mbytes s) as)"

definition clen :: "'a mstate_scheme \<Rightarrow> addr list \<Rightarrow> int" where
  "clen s as = (\<Sum>a\<leftarrow>as. m_len (mbufs s a))"

lemma mem_read_length [simp]: "length (mem_read mem a n) = n"
  by (simp add: mem_read_def)

lemma mem_read_0 [simp]: "mem_read mem a 0 = []"
  by (simp add: mem_read_def)

lemma mem_read_append: "mem_read mem a m @ mem_read mem (a + m) n = mem_read mem a (m + n)"
  unfolding mem_read_def map_append [symmetric] add.assoc [symmetric]
  by (simp only: upt_add_eq_append [of a "a + m" n] le_add1)

lemma take_mem_read [simp]: "take k (mem_read mem a n) = mem_read mem a (min k n)"
  by (cases "k \<le> n") (simp_all add: mem_read_def take_map take_upt)

lemma drop_mem_read [simp]: "drop k (mem_read mem a n) = mem_read mem (a + k) (n - k)"
  by (cases "k \<le> n") (simp_all add: mem_read_def drop_map drop_upt)

lemma mem_write_outside: "x < a \<or> a + length bs \<le> x \<Longrightarrow> mem_write a bs mem x = mem x"
  by (auto simp: mem_write_def)

lemma mem_read_write_other:
  "a + n \<le> b \<or> b + length bs \<le> a \<Longrightarrow> mem_read (mem_write b bs mem) a n = mem_read mem a n"
  by (auto simp: mem_read_def mem_write_def)

lemma mem_read_write_same: "mem_read (mem_write a bs mem) a (length bs) = bs"
  by (rule nth_equalityI) (simp_all add: mem_read_def mem_write_def)

lemma mem_write_append: "mem_write (a + length bs) cs (mem_write a bs mem) = mem_write a (bs @ cs) mem"
  by (rule ext) (auto simp: mem_write_def nth_append)

lemma mem_write_Nil [simp]: "mem_write a [] mem = mem"
  by (rule ext) (auto simp: mem_write_def)

lemma cbytes_Nil [simp]: "cbytes s [] = []"
  and cbytes_Cons [simp]: "cbytes s (a # as) = mbytes s a @ cbytes s as"
  and cbytes_append [simp]: "cbytes s (as @ bs) = cbytes s as @ cbytes s bs"
  by (simp_all add: cbytes_def)

lemma clen_Nil [simp]: "clen s [] = 0"
  and clen_Cons [simp]: "clen s (a # as) = m_len (mbufs s a) + clen s as"
  and clen_append [simp]: "clen s (as @ bs) = clen s as + clen s bs"
  by (simp_all add: clen_def)

lemma mbytes_length [simp]: "length (mbytes s a) = nat (m_len (mbufs s a))"
  by (simp add: mbytes_def)

lemma clen_nonneg: "mchain s p as \<Longrightarrow> 0 \<le> clen s as"
  by (auto simp: mchain_def clen_def intro!: sum_list_nonneg)

lemma mchain_Nil [simp]: "mchain s p [] \<longleftrightarrow> p = None"
  by (simp add: mchain_def)

lemma mchain_Cons:
  "mchain s p (a # as) \<longleftrightarrow> p = Some a \<and> 0 \<le> m_len (mbufs s a) \<and> m_len (mbufs s a) < 2 ^ 31 \<and> mchain s (m_next (mbufs s a)) as"
  by (auto simp: mchain_def)

lemma mchain_distinct: "mchain s p as \<Longrightarrow> distinct as"
  by (auto simp: mchain_def intro: linked_distinct)

lemma mchain_cong: "mchain s p as \<Longrightarrow> (\<And>a. a \<in> set as \<Longrightarrow> mbufs t a = mbufs s a) \<Longrightarrow> mchain t p as"
  unfolding mchain_def by (metis (mono_tags, lifting) linked_cong)

lemma cbytes_length: "mchain s p as \<Longrightarrow> length (cbytes s as) = nat (clen s as)"
proof (induction as arbitrary: p)
  case (Cons a as)
  then show ?case using clen_nonneg [of s "m_next (mbufs s a)" as] by (auto simp: mchain_Cons nat_add_distrib)
qed simp

text \<open>Two states in which the mbufs of a chain differ at most in where their data are.\<close>

definition respan :: "addr list \<Rightarrow> 'a mstate_scheme \<Rightarrow> 'a mstate_scheme \<Rightarrow> bool" where
  "respan as s t \<longleftrightarrow>
     (\<exists>f. t = s\<lparr> mbufs := f \<rparr> \<and> (\<forall>a. a \<notin> set as \<longrightarrow> f a = mbufs s a) \<and>
        (\<forall>a. f a = (mbufs s a)\<lparr> m_data := m_data (f a), m_len := m_len (f a) \<rparr>))"

lemma respan_refl: "respan as s s"
  unfolding respan_def by (intro exI [of _ "mbufs s"]) simp

lemma respan_trans:
  assumes "respan as s t" "respan as t u"
  shows "respan as s u"
proof -
  obtain f g where t: "t = s\<lparr> mbufs := f \<rparr>" and u: "u = t\<lparr> mbufs := g \<rparr>"
    and f: "\<forall>a. a \<notin> set as \<longrightarrow> f a = mbufs s a" "\<forall>a. f a = (mbufs s a)\<lparr> m_data := m_data (f a), m_len := m_len (f a) \<rparr>"
    and g: "\<forall>a. a \<notin> set as \<longrightarrow> g a = mbufs t a" "\<forall>a. g a = (mbufs t a)\<lparr> m_data := m_data (g a), m_len := m_len (g a) \<rparr>"
    using assms unfolding respan_def by auto
  have "g a = (mbufs s a)\<lparr> m_data := m_data (g a), m_len := m_len (g a) \<rparr>" for a
  proof -
    have "g a = (f a)\<lparr> m_data := m_data (g a), m_len := m_len (g a) \<rparr>" using g(2) t by simp
    also have "\<dots> = ((mbufs s a)\<lparr> m_data := m_data (f a), m_len := m_len (f a) \<rparr>)\<lparr> m_data := m_data (g a), m_len := m_len (g a) \<rparr>"
      using f(2) by metis
    finally show ?thesis by simp
  qed
  then show ?thesis
    using t u f(1) g(1) unfolding respan_def by (intro exI [of _ g]) simp
qed

lemma respan_mono: "respan as s t \<Longrightarrow> set as \<subseteq> set bs \<Longrightarrow> respan bs s t"
  unfolding respan_def by blast

lemma respan_upd:
  assumes "a \<in> set as" "\<And>b. f b = b\<lparr> m_data := m_data (f b), m_len := m_len (f b) \<rparr>"
  shows "respan as s (upd_m a f s)"
  unfolding respan_def
  by (rule exI [of _ "(mbufs s)(a := f (mbufs s a))"]) (use assms in \<open>auto simp: upd_m_def\<close>)

lemma respan_mbuf:
  "respan as s t \<Longrightarrow> mbufs t a = (mbufs s a)\<lparr> m_data := m_data (mbufs t a), m_len := m_len (mbufs t a) \<rparr>"
  by (auto simp: respan_def)

lemma respan_next: "respan as s t \<Longrightarrow> m_next (mbufs t a) = m_next (mbufs s a)"
  and respan_flags: "respan as s t \<Longrightarrow> m_flags (mbufs t a) = m_flags (mbufs s a)"
  and respan_pkthdr: "respan as s t \<Longrightarrow> m_pkthdr (mbufs t a) = m_pkthdr (mbufs s a)"
  by (subst respan_mbuf, assumption, simp)+

lemma respan_frame: "respan as s t \<Longrightarrow> a \<notin> set as \<Longrightarrow> mbufs t a = mbufs s a"
  and respan_dmem: "respan as s t \<Longrightarrow> dmem t = dmem s"
  by (auto simp: respan_def)

lemma respan_outside:
  "respan as s t \<Longrightarrow> set as \<inter> set bs = {} \<Longrightarrow> cbytes t bs = cbytes s bs \<and> clen t bs = clen s bs"
  by (induction bs) (auto simp: mbytes_def respan_frame respan_dmem)

lemma upd_m_simps [simp]:
  "mbufs (upd_m a f s) = (mbufs s)(a := f (mbufs s a))" "dmem (upd_m a f s) = dmem s"
  "rmb (upd_m a f s) = rmb s" "mb_cache (upd_m a f s) = mb_cache s" "rpool (upd_m a f s) = rpool s"
  "mb_data (upd_m a f s) = mb_data s" "mcl_cache (upd_m a f s) = mcl_cache s" "rlcore (upd_m a f s) = rlcore s"
  "elt_size (upd_m a f s) = elt_size s" "virt2phy (upd_m a f s) = virt2phy s"
  by (simp_all add: upd_m_def)

section \<open>Trimming\<close>

lemma adj_head_spec:
  assumes "mchain s p as" "0 \<le> n"
  shows "\<exists>k t. adj_head p n s = Some (k, t) \<and> n - k = min n (clen s as) \<and> respan as s t \<and> mchain t p as \<and>
    cbytes t as = drop (nat n) (cbytes s as)"
  using assms
proof (induction as arbitrary: p n s)
  case Nil
  then show ?case by (subst adj_head.simps) (auto simp: respan_refl)
next
  case (Cons a as)
  have p: "p = Some a" and la: "0 \<le> m_len (mbufs s a)" "m_len (mbufs s a) < 2 ^ 31" and ch: "mchain s (m_next (mbufs s a)) as"
    using Cons.prems by (auto simp: mchain_Cons)
  have a: "a \<notin> set as" using mchain_distinct [OF Cons.prems(1)] by simp
  show ?case
  proof (cases "0 < n \<and> m_len (mbufs s a) \<le> n")
    case True
    let ?s = "upd_m a (\<lambda>b. b\<lparr> m_len := 0 \<rparr>) s"
    have s1: "respan [a] s ?s" by (rule respan_upd) simp_all
    have same: "cbytes ?s as = cbytes s as" "clen ?s as = clen s as"
      using respan_outside [OF s1, of as] a by auto
    have "mchain ?s (m_next (mbufs s a)) as"
      by (rule mchain_cong [OF ch]) (use a in auto)
    then obtain k t where IH: "adj_head (m_next (mbufs s a)) (n - m_len (mbufs s a)) ?s = Some (k, t)"
      "n - m_len (mbufs s a) - k = min (n - m_len (mbufs s a)) (clen s as)" "respan as ?s t"
      "mchain t (m_next (mbufs s a)) as" "cbytes t as = drop (nat (n - m_len (mbufs s a))) (cbytes s as)"
      using Cons.IH [of ?s "m_next (mbufs s a)" "n - m_len (mbufs s a)"] True same by auto
    have ta: "mbufs t a = (mbufs s a)\<lparr> m_len := 0 \<rparr>" using respan_frame [OF IH(3) a] by simp
    have "adj_head p n s = Some (k, t)" using IH(1) True p by (subst adj_head.simps) simp
    moreover have "respan (a # as) s t"
      using respan_trans [OF respan_mono [OF s1, of "a # as"] respan_mono [OF IH(3), of "a # as"]] by auto
    moreover have "mchain t p (a # as)" using IH(4) p ta by (simp add: mchain_Cons)
    moreover have "cbytes t (a # as) = drop (nat n) (cbytes s (a # as))"
      using IH(5) ta True la nat_mono [of "m_len (mbufs s a)" n] by (simp add: mbytes_def nat_diff_distrib)
    ultimately show ?thesis using IH(2) by auto
  next
    case False
    show ?thesis
    proof (cases "0 < n")
      case True
      let ?t = "upd_m a (\<lambda>b. b\<lparr> m_len := m_len b - n, m_data := m_data b + nat n \<rparr>) s"
      have t: "respan [a] s ?t" by (rule respan_upd) simp_all
      have "adj_head (Some a) 0 ?t = Some (0, ?t)" by (subst adj_head.simps) simp
      then have "adj_head p n s = Some (0, ?t)" using True False p by (subst adj_head.simps) simp
      moreover have "mchain ?t p (a # as)"
      proof -
        have "mchain ?t (m_next (mbufs s a)) as" by (rule mchain_cong [OF ch]) (use a in auto)
        then show ?thesis using p True False la by (simp add: mchain_Cons)
      qed
      moreover have "cbytes ?t (a # as) = drop (nat n) (cbytes s (a # as))"
        using respan_outside [OF t, of as] a True False
        by (simp add: mbytes_def nat_diff_distrib)
      moreover have "0 \<le> clen s as" using clen_nonneg [OF ch] .
      ultimately show ?thesis using respan_mono [OF t, of "a # as"] True False by auto
    next
      case zero: False
      then have "adj_head p n s = Some (n, s)" using p by (subst adj_head.simps) simp
      then show ?thesis using zero Cons.prems respan_refl clen_nonneg [OF Cons.prems(1)] by auto
    qed
  qed
qed

lemma m_last_spec: "linked (\<lambda>a. m_next (h a)) (Some m) (m # as) \<Longrightarrow> m_last h m = Some (last (m # as))"
proof (induction as arbitrary: m)
  case Nil
  then show ?case by (subst m_last.simps) simp
next
  case (Cons a as)
  then show ?case by (subst m_last.simps) simp
qed

lemma adj_count_spec:
  "linked (m_nexts s) (Some m) (m # as) \<Longrightarrow>
   adj_count (mbufs s) m c = Some (last (m # as), c + clen s (m # as))"
proof (induction as arbitrary: m c)
  case Nil
  then show ?case by (subst adj_count.simps) simp
next
  case (Cons a as)
  then show ?case by (subst adj_count.simps) (simp add: add.assoc)
qed

lemma adj_toss_spec:
  assumes "mchain s (Some k) (k # as)"
  shows "\<exists>t. adj_toss k s = Some t \<and> respan as s t \<and> mchain t (Some k) (k # as) \<and> cbytes t as = []"
  using assms
proof (induction as arbitrary: k s)
  case Nil
  then show ?case by (subst adj_toss.simps) (auto simp: mchain_Cons respan_refl)
next
  case (Cons a as)
  let ?s = "upd_m a (\<lambda>b. b\<lparr> m_len := 0 \<rparr>) s"
  have nd: "distinct (k # a # as)" using mchain_distinct [OF Cons.prems] .
  have k: "m_next (mbufs s k) = Some a" "0 \<le> m_len (mbufs s k)" "m_len (mbufs s k) < 2 ^ 31" and ch: "mchain s (m_next (mbufs s a)) as"
    using Cons.prems by (auto simp: mchain_Cons)
  have s1: "respan [a] s ?s" by (rule respan_upd) simp_all
  have "mchain ?s (m_next (mbufs s a)) as" by (rule mchain_cong [OF ch]) (use nd in auto)
  then have "mchain ?s (Some a) (a # as)" by (simp add: mchain_Cons)
  then obtain t where t: "adj_toss a ?s = Some t" "respan as ?s t" "mchain t (Some a) (a # as)" "cbytes t as = []"
    using Cons.IH by blast
  have "adj_toss k s = Some t" using k t(1) by (subst adj_toss.simps) simp
  moreover have "respan (a # as) s t"
    using respan_trans [OF respan_mono [OF s1, of "a # as"] respan_mono [OF t(2), of "a # as"]] by auto
  moreover have "mbufs t a = (mbufs s a)\<lparr> m_len := 0 \<rparr>" "mbufs t k = mbufs s k"
    using respan_frame [OF t(2)] nd by auto
  ultimately show ?case using t k by (auto simp: mchain_Cons mbytes_def)
qed

lemma adj_keep_spec:
  assumes "mchain s p as" "as \<noteq> []" "0 \<le> c" "c \<le> clen s as"
  shows "\<exists>k t u. adj_keep p c s = Some (Some k, t) \<and> adj_toss k t = Some u \<and> respan as s u \<and> mchain u p as \<and>
    cbytes u as = take (nat c) (cbytes s as)"
  using assms
proof (induction as arbitrary: p c)
  case (Cons a as)
  have p: "p = Some a" and la: "0 \<le> m_len (mbufs s a)" "m_len (mbufs s a) < 2 ^ 31" and ch: "mchain s (m_next (mbufs s a)) as"
    using Cons.prems by (auto simp: mchain_Cons)
  have a: "a \<notin> set as" using mchain_distinct [OF Cons.prems(1)] by simp
  show ?case
  proof (cases "c \<le> m_len (mbufs s a)")
    case True
    let ?t = "upd_m a (\<lambda>b. b\<lparr> m_len := c \<rparr>) s"
    have t: "respan [a] s ?t" by (rule respan_upd) simp_all
    have "mchain ?t (m_next (mbufs s a)) as" by (rule mchain_cong [OF ch]) (use a in auto)
    then have "mchain ?t (Some a) (a # as)" using Cons.prems(3) True la by (simp add: mchain_Cons)
    then obtain u where u: "adj_toss a ?t = Some u" "respan as ?t u" "mchain u (Some a) (a # as)" "cbytes u as = []"
      using adj_toss_spec by blast
    have "adj_keep p c s = Some (Some a, ?t)" using True p by (subst adj_keep.simps) simp
    moreover have "respan (a # as) s u"
      using respan_trans [OF respan_mono [OF t, of "a # as"] respan_mono [OF u(2), of "a # as"]] by auto
    moreover have "mbufs u a = (mbufs s a)\<lparr> m_len := c \<rparr>" using respan_frame [OF u(2) a] by simp
    then have "cbytes u (a # as) = take (nat c) (cbytes s (a # as))"
      using u(4) True nat_mono [OF True] respan_dmem [OF u(2)] by (simp add: mbytes_def min_def)
    ultimately show ?thesis using u p by blast
  next
    case False
    then have "as \<noteq> []" using Cons.prems(4) by auto
    then obtain k t u where IH: "adj_keep (m_next (mbufs s a)) (c - m_len (mbufs s a)) s = Some (Some k, t)"
      "adj_toss k t = Some u" "respan as s u" "mchain u (m_next (mbufs s a)) as"
      "cbytes u as = take (nat (c - m_len (mbufs s a))) (cbytes s as)"
      using Cons.IH [OF ch, of "c - m_len (mbufs s a)"] Cons.prems(3,4) False by auto
    have "adj_keep p c s = Some (Some k, t)" using IH(1) False p by (subst adj_keep.simps) simp
    moreover have "mbufs u a = mbufs s a" using respan_frame [OF IH(3) a] .
    then have "mchain u p (a # as)" "cbytes u (a # as) = take (nat c) (cbytes s (a # as))"
      using IH la p False nat_mono [of "m_len (mbufs s a)" c] respan_dmem [OF IH(3)]
      by (simp_all add: mchain_Cons mbytes_def nat_diff_distrib min_def)
    ultimately show ?thesis using IH(2) respan_mono [OF IH(3), of "a # as"] by auto
  qed
qed simp

text \<open>The length in the packet header.\<close>

lemma set_ph_len_chain:
  assumes "mchain s p as"
  shows "mchain (set_ph_len m f s) p as" "cbytes (set_ph_len m f s) as = cbytes s as"
    "clen (set_ph_len m f s) as = clen s as" "mbytes (set_ph_len m f s) a = mbytes s a"
    "has_flag g (mbufs (set_ph_len m f s) a) = has_flag g (mbufs s a)"
    "has_flag M_PKTHDR (mbufs s m) \<Longrightarrow> ph_len (m_pkthdr (mbufs (set_ph_len m f s) m)) = f (ph_len (m_pkthdr (mbufs s m)))"
proof -
  let ?t = "set_ph_len m f s"
  have *: "m_next (mbufs ?t a) = m_next (mbufs s a)" "m_len (mbufs ?t a) = m_len (mbufs s a)"
    "m_data (mbufs ?t a) = m_data (mbufs s a)" "m_flags (mbufs ?t a) = m_flags (mbufs s a)" "dmem ?t = dmem s" for a
    by (auto simp: set_ph_len_def)
  show "mchain ?t p as" using assms by (simp add: mchain_def *)
  show "mbytes ?t a = mbytes s a" by (simp add: mbytes_def *)
  show "cbytes ?t as = cbytes s as" by (simp add: cbytes_def mbytes_def * cong: map_cong)
  show "clen ?t as = clen s as" by (simp add: clen_def *)
  show "has_flag g (mbufs ?t a) = has_flag g (mbufs s a)" by (simp add: has_flag_def *)
qed (simp add: set_ph_len_def)

lemma m_len_le_clen: "mchain s p as \<Longrightarrow> a \<in> set as \<Longrightarrow> m_len (mbufs s a) \<le> clen s as"
proof (induction as arbitrary: p)
  case (Cons b as)
  then show ?case using clen_nonneg [of s "m_next (mbufs s b)" as] by (force simp: mchain_Cons)
qed simp

lemma clen_bytes: "mchain s p as \<Longrightarrow> clen s as = int (length (cbytes s as))"
  using cbytes_length [of s p as] clen_nonneg [of s p as] by simp

lemma respan_ph_len: "respan as s t \<Longrightarrow> ph_len (m_pkthdr (mbufs t m)) = ph_len (m_pkthdr (mbufs s m))"
  by (simp add: respan_pkthdr)

lemma respan_has_flag: "respan as s t \<Longrightarrow> has_flag g (mbufs t m) = has_flag g (mbufs s m)"
  by (simp add: has_flag_def respan_flags)

text \<open>States that differ at most in the extent of the mbufs of a chain and in packet headers.\<close>

definition only_chain :: "addr list \<Rightarrow> 'a mstate_scheme \<Rightarrow> 'a mstate_scheme \<Rightarrow> bool" where
  "only_chain as s t \<longleftrightarrow> t = s\<lparr> mbufs := mbufs t \<rparr> \<and> (\<forall>a. a \<notin> set as \<longrightarrow> mbufs t a = mbufs s a) \<and>
     (\<forall>a. mbufs t a = (mbufs s a)\<lparr> m_data := m_data (mbufs t a), m_len := m_len (mbufs t a), m_pkthdr := m_pkthdr (mbufs t a) \<rparr>)"

lemma mbuf_extent:
  "x = y\<lparr> m_data := d, m_len := l \<rparr> \<Longrightarrow> x = y\<lparr> m_data := m_data x, m_len := m_len x, m_pkthdr := m_pkthdr x \<rparr>"
  "x = y\<lparr> m_data := d, m_len := l, m_pkthdr := h \<rparr> \<Longrightarrow> y = z\<lparr> m_data := d', m_len := l', m_pkthdr := h' \<rparr> \<Longrightarrow>
    x = z\<lparr> m_data := d, m_len := l, m_pkthdr := h \<rparr>"
  by simp_all

lemma respan_only:
  assumes "respan as s t"
  shows "only_chain as s t"
proof -
  obtain f where t: "t = s\<lparr> mbufs := f \<rparr>" "\<forall>a. a \<notin> set as \<longrightarrow> f a = mbufs s a"
    and f: "\<forall>a. f a = (mbufs s a)\<lparr> m_data := m_data (f a), m_len := m_len (f a) \<rparr>"
    using assms unfolding respan_def by blast
  have "f a = (mbufs s a)\<lparr> m_data := m_data (f a), m_len := m_len (f a), m_pkthdr := m_pkthdr (f a) \<rparr>" for a
    by (rule mbuf_extent(1) [OF f [rule_format]])
  then show ?thesis using t by (simp add: only_chain_def)
qed

lemma set_ph_len_only: "m \<in> set as \<Longrightarrow> only_chain as s (set_ph_len m f s)"
  unfolding only_chain_def set_ph_len_def by (auto simp: upd_m_def)

lemma only_chain_trans:
  assumes "only_chain as s t" "only_chain as t u"
  shows "only_chain as s u"
proof -
  have t: "t = s\<lparr> mbufs := mbufs t \<rparr>" and u: "u = t\<lparr> mbufs := mbufs u \<rparr>" using assms unfolding only_chain_def by blast+
  have "u = s\<lparr> mbufs := mbufs u \<rparr>" by (subst u, subst t) simp
  moreover have "mbufs u a = (mbufs s a)\<lparr> m_data := m_data (mbufs u a), m_len := m_len (mbufs u a), m_pkthdr := m_pkthdr (mbufs u a) \<rparr>" for a
    by (rule mbuf_extent(2)) (use assms in \<open>unfold only_chain_def, blast+\<close>)
  ultimately show ?thesis using assms unfolding only_chain_def by simp
qed

text \<open>What a trim to the bytes \<^term>\<open>bs\<close> leaves.\<close>

definition trimmed :: "addr \<Rightarrow> addr list \<Rightarrow> 8 word list \<Rightarrow> 'a mstate_scheme \<Rightarrow> 'a mstate_scheme \<Rightarrow> bool" where
  "trimmed m as bs s t \<longleftrightarrow> mchain t (Some m) (m # as) \<and> cbytes t (m # as) = bs \<and> only_chain (m # as) s t \<and>
     (has_flag M_PKTHDR (mbufs s m) \<and> ph_len (m_pkthdr (mbufs s m)) = clen s (m # as) \<longrightarrow>
        ph_len (m_pkthdr (mbufs t m)) = clen t (m # as))"

lemma trimmed_set_ph_len:
  assumes "respan (m # as) s t" "mchain t (Some m) (m # as)" "cbytes t (m # as) = bs"
    and "has_flag M_PKTHDR (mbufs s m) \<and> ph_len (m_pkthdr (mbufs s m)) = clen s (m # as) \<Longrightarrow>
           f (ph_len (m_pkthdr (mbufs s m))) = int (length bs)"
  shows "trimmed m as bs s (set_ph_len m f t)"
  using assms(3,4) clen_bytes [OF assms(2)] only_chain_trans [OF respan_only [OF assms(1)] set_ph_len_only [of m]]
  unfolding trimmed_def
  by (simp add: set_ph_len_chain [OF assms(2)] respan_ph_len [OF assms(1)] respan_has_flag [OF assms(1)]
      del: cbytes_Cons clen_Cons)

lemma m_adj_head_trims:
  assumes "mchain s (Some m) (m # as)" "0 \<le> n"
  shows "\<exists>t. m_adj (Some m) n s = Some t \<and> trimmed m as (drop (nat n) (cbytes s (m # as))) s t"
proof -
  obtain k t where t: "adj_head (Some m) n s = Some (k, t)" "n - k = min n (clen s (m # as))"
    "respan (m # as) s t" "mchain t (Some m) (m # as)" "cbytes t (m # as) = drop (nat n) (cbytes s (m # as))"
    using adj_head_spec [OF assms] by blast
  have "clen s (m # as) - (n - k) = int (length (drop (nat n) (cbytes s (m # as))))"
    using t(2) clen_bytes [OF assms(1)] assms(2) by (simp del: cbytes_Cons clen_Cons)
  then have "trimmed m as (drop (nat n) (cbytes s (m # as))) s (set_ph_len m (\<lambda>l. l - (n - k)) t)"
    by (intro trimmed_set_ph_len [OF t(3-5)]) simp
  then show ?thesis using t(1) assms(2) by (simp add: m_adj_def)
qed

lemma adj_last_spec:
  assumes ch: "mchain s (Some m) (m # as)" and n: "0 \<le> n" "n \<le> m_len (mbufs s (last (m # as)))"
  defines "t \<equiv> upd_m (last (m # as)) (\<lambda>b. b\<lparr> m_len := m_len b - n \<rparr>) s"
  shows "respan (m # as) s t" "mchain t (Some m) (m # as)"
    "cbytes t (m # as) = take (length (cbytes s (m # as)) - nat n) (cbytes s (m # as))"
proof -
  define l where "l = last (m # as)"
  have t: "t = upd_m l (\<lambda>b. b\<lparr> m_len := m_len b - n \<rparr>) s" and nl: "n \<le> m_len (mbufs s l)"
    using n by (simp_all only: t_def l_def)
  obtain bs where split: "m # as = bs @ [l]" by (metis append_butlast_last_id list.distinct(1) l_def)
  have nd: "distinct (bs @ [l])" using mchain_distinct [OF ch] unfolding split .
  show r: "respan (m # as) s t" unfolding t split by (rule respan_upd) auto
  have lk: "linked (m_nexts t) (Some m) (m # as)"
    using ch respan_next [OF r] unfolding mchain_def by (metis linked_cong)
  have "0 \<le> m_len (mbufs t a) \<and> m_len (mbufs t a) < 2 ^ 31" if "a \<in> set (m # as)" for a
    using ch that nl n(1) unfolding mchain_def split by (cases "a = l") (simp_all add: t)
  with lk show "mchain t (Some m) (m # as)" by (simp add: mchain_def)
  have "cbytes t bs = cbytes s bs"
    using nd unfolding t cbytes_def by (intro arg_cong [of _ _ concat] map_cong) (auto simp: mbytes_def)
  moreover have "mbytes t l = take (nat (m_len (mbufs s l)) - nat n) (mbytes s l)"
    using n(1) nl by (simp add: t mbytes_def nat_diff_distrib min_def)
  ultimately show "cbytes t (m # as) = take (length (cbytes s (m # as)) - nat n) (cbytes s (m # as))"
    using n(1) nat_mono [OF nl] unfolding split by simp
qed

lemma m_adj_tail_trims:
  assumes "mchain s (Some m) (m # as)" "n < 0"
  shows "\<exists>t. m_adj (Some m) n s = Some t \<and>
    trimmed m as (take (length (cbytes s (m # as)) - nat (- n)) (cbytes s (m # as))) s t"
proof -
  let ?l = "last (m # as)" and ?bs = "take (length (cbytes s (m # as)) - nat (- n)) (cbytes s (m # as))"
  have lk: "linked (m_nexts s) (Some m) (m # as)" using assms(1) by (simp add: mchain_def)
  note cnt = adj_count_spec [OF lk, of 0]
  have len: "clen s (m # as) = int (length (cbytes s (m # as)))" using clen_bytes [OF assms(1)] .
  show ?thesis
  proof (cases "- n \<le> m_len (mbufs s ?l)")
    case True
    have n0: "0 \<le> - n" using assms(2) by simp
    note l = adj_last_spec [OF assms(1) n0 True]
    have "m_len (mbufs s ?l) \<le> clen s (m # as)" by (rule m_len_le_clen [OF assms(1)]) simp
    then have "clen s (m # as) + n = int (length ?bs)"
      using True len assms(2) by (simp del: cbytes_Cons clen_Cons)
    then have "trimmed m as ?bs s (set_ph_len m (\<lambda>x. x - - n)
        (upd_m ?l (\<lambda>b. b\<lparr> m_len := m_len b - - n \<rparr>) s))"
      by (intro trimmed_set_ph_len [OF l]) (simp del: cbytes_Cons clen_Cons)
    then show ?thesis using cnt True assms(2) by (simp add: m_adj_def)
  next
    case False
    define c where "c = (if clen s (m # as) - - n < 0 then 0 else clen s (m # as) - - n)"
    let ?s = "set_ph_len m (\<lambda>_. c) s"
    have c: "0 \<le> c" "c \<le> clen s (m # as)" "nat c = length (cbytes s (m # as)) - nat (- n)" "c = int (length ?bs)"
      using assms(2) len by (auto simp: c_def simp del: cbytes_Cons clen_Cons)
    note ph = set_ph_len_chain [OF assms(1)]
    obtain k t u where u: "adj_keep (Some m) c ?s = Some (Some k, t)" "adj_toss k t = Some u"
      "respan (m # as) ?s u" "mchain u (Some m) (m # as)" "cbytes u (m # as) = ?bs"
      using adj_keep_spec [OF ph(1) [of m "\<lambda>_. c"] _ c(1)] c(2) unfolding ph(2,3) c(3) by blast
    have "m_adj (Some m) n s = Some u"
      using cnt False assms(2) u(1,2) by (simp add: m_adj_def c_def del: clen_Cons)
    moreover have "trimmed m as ?bs s u"
      using only_chain_trans [OF set_ph_len_only respan_only [OF u(3)]] u respan_ph_len [OF u(3), of m] ph(6) c(4) clen_bytes [OF u(4)]
      unfolding trimmed_def by simp
    ultimately show ?thesis by blast
  qed
qed

text \<open>
  C24. Trimming.  On a chain with sensible lengths \<open>m_adj\<close> returns; a request \<open>n \<ge> 0\<close> removes the
  first \<open>n\<close> bytes and a negative one the last \<open>- n\<close> bytes (all of them if there are
  fewer), no mbuf is unlinked, and a packet header that had the length of the
  chain has the length of the trimmed chain.
\<close>

theorem m_adj_trims:
  assumes "mchain s (Some m) (m # as)"
  shows "\<exists>t. m_adj (Some m) n s = Some t \<and> mchain t (Some m) (m # as) \<and>
    cbytes t (m # as) = (if n \<ge> 0 then drop (nat n) (cbytes s (m # as))
                         else take (length (cbytes s (m # as)) - nat (- n)) (cbytes s (m # as))) \<and>
    (has_flag M_PKTHDR (mbufs s m) \<and> ph_len (m_pkthdr (mbufs s m)) = clen s (m # as) \<longrightarrow>
       ph_len (m_pkthdr (mbufs t m)) = clen t (m # as))"
  using m_adj_head_trims [OF assms, of n] m_adj_tail_trims [OF assms, of n]
  unfolding trimmed_def by (cases "0 \<le> n") (auto simp del: cbytes_Cons clen_Cons)

section \<open>Reading\<close>

lemma u_int_id: "0 \<le> x \<Longrightarrow> x < 2 ^ 32 \<Longrightarrow> u_int x = x"
  by (simp add: u_int_def)

lemma umin_id: "0 \<le> a \<Longrightarrow> a < 2 ^ 32 \<Longrightarrow> 0 \<le> b \<Longrightarrow> b < 2 ^ 32 \<Longrightarrow> umin a b = min a b"
  by (simp add: umin_def u_int_id)

text \<open>Where the search for an offset ends: the chain splits into what is skipped and the
  rest, and the remaining offset lies in the first mbuf of the rest.\<close>

lemma m_skip_spec:
  assumes "mchain s p as" "0 \<le> off" "off \<le> clen s as"
  shows "\<exists>pre post q k. m_skip (mbufs s) p off = Some (q, k) \<and> as = pre @ post \<and> mchain s q post \<and>
    off = clen s pre + k \<and> 0 \<le> k \<and> (post = [] \<longrightarrow> k = 0) \<and>
    (post \<noteq> [] \<longrightarrow> k = 0 \<or> k < m_len (mbufs s (hd post)))"
  using assms
proof (induction as arbitrary: p off)
  case Nil
  then show ?case by (subst m_skip.simps) auto
next
  case (Cons a as)
  have p: "p = Some a" and ch: "mchain s (m_next (mbufs s a)) as" using Cons.prems by (auto simp: mchain_Cons)
  consider (here) "off \<le> 0 \<or> off < m_len (mbufs s a)" | (on) "0 < off" "m_len (mbufs s a) \<le> off" by linarith
  then show ?case
  proof cases
    case here
    then have "m_skip (mbufs s) p off = Some (p, off)" using p by (subst m_skip.simps) auto
    then show ?thesis using Cons.prems here by (rule_tac exI [of _ "[]"], rule_tac exI [of _ "a # as"]) auto
  next
    case on
    have "0 \<le> off - m_len (mbufs s a)" "off - m_len (mbufs s a) \<le> clen s as" using Cons.prems on by auto
    from Cons.IH [OF ch this] obtain pre post q k where IH: "m_skip (mbufs s) (m_next (mbufs s a)) (off - m_len (mbufs s a)) = Some (q, k)"
      "as = pre @ post" "mchain s q post" "off - m_len (mbufs s a) = clen s pre + k" "0 \<le> k"
      "post = [] \<longrightarrow> k = 0" "post \<noteq> [] \<longrightarrow> k = 0 \<or> k < m_len (mbufs s (hd post))"
      by blast
    have "m_skip (mbufs s) p off = Some (q, k)" using on p IH(1) by (subst m_skip.simps) simp
    then show ?thesis using IH by (rule_tac exI [of _ "a # pre"], rule_tac exI [of _ post]) auto
  qed
qed

lemma m_skip_panic:
  assumes "mchain s p as" "clen s as < off"
  shows "m_skip (mbufs s) p off = None"
  using assms
proof (induction as arbitrary: p off)
  case Nil
  then show ?case by (subst m_skip.simps) auto
next
  case (Cons a as)
  have p: "p = Some a" and ch: "mchain s (m_next (mbufs s a)) as" using Cons.prems by (auto simp: mchain_Cons)
  have "0 \<le> clen s as" "0 \<le> m_len (mbufs s a)" using clen_nonneg [OF ch] Cons.prems by (auto simp: mchain_Cons)
  then show ?case using Cons.IH [OF ch] Cons.prems p by (subst m_skip.simps) simp
qed

lemma skip_bytes:
  assumes "mchain s p (pre @ post)" "off = clen s pre + k" "0 \<le> k"
  shows "drop (nat off) (cbytes s (pre @ post)) = drop (nat k) (cbytes s post)"
proof -
  have "length (cbytes s pre) = nat (clen s pre) \<and> 0 \<le> clen s pre"
    using assms(1)
  proof (induction pre arbitrary: p)
    case (Cons a pre)
    then show ?case by (auto simp: mchain_Cons nat_add_distrib)
  qed simp
  then show ?thesis using assms(2,3) by (simp add: nat_add_distrib)
qed

text \<open>The destination of a copy does not overlap the data of the chain.\<close>

definition apart :: "'a mstate_scheme \<Rightarrow> addr \<Rightarrow> nat \<Rightarrow> addr list \<Rightarrow> bool" where
  "apart s cp n as \<longleftrightarrow>
     (\<forall>a\<in>set as. m_data (mbufs s a) + nat (m_len (mbufs s a)) \<le> cp \<or> cp + n \<le> m_data (mbufs s a))"

lemma apart_cbytes:
  assumes "apart s cp n as" "length bs \<le> n"
  shows "cbytes (s\<lparr> dmem := mem_write cp bs (dmem s) \<rparr>) as = cbytes s as"
  using assms unfolding cbytes_def apart_def
  by (intro arg_cong [of _ _ concat] map_cong) (auto simp: mbytes_def intro!: mem_read_write_other)

lemma mchain_dmem [simp]: "mchain (s\<lparr> dmem := d \<rparr>) p as = mchain s p as"
  and clen_dmem [simp]: "clen (s\<lparr> dmem := d \<rparr>) as = clen s as"
  by (simp_all add: mchain_def clen_def)

lemma copydata_loop_spec:
  assumes "mchain s p as" "0 \<le> off" "as \<noteq> [] \<longrightarrow> off \<le> m_len (mbufs s (hd as))" "0 \<le> n" "n < 2 ^ 31"
    and "off + n \<le> clen s as" "apart s cp (nat n) as"
  shows "copydata_loop p off n cp s =
    Some (s\<lparr> dmem := mem_write cp (take (nat n) (drop (nat off) (cbytes s as))) (dmem s) \<rparr>)"
  using assms
proof (induction as arbitrary: p off n cp s)
  case Nil
  then show ?case by (subst copydata_loop.simps) simp
next
  case (Cons a as)
  have p: "p = Some a" and la: "0 \<le> m_len (mbufs s a)" "m_len (mbufs s a) < 2 ^ 31"
    and ch: "mchain s (m_next (mbufs s a)) as"
    using Cons.prems(1) by (auto simp: mchain_Cons)
  show ?case
  proof (cases "n > 0")
    case False
    then show ?thesis using Cons.prems(4) by (subst copydata_loop.simps) simp
  next
    case True
    define c where "c = min (m_len (mbufs s a) - off) n"
    define bs where "bs = mem_read (dmem s) (m_data (mbufs s a) + nat off) (nat c)"
    define s1 where "s1 = s\<lparr> dmem := mem_write cp bs (dmem s) \<rparr>"
    have off: "0 \<le> off" "off \<le> m_len (mbufs s a)" using Cons.prems(2,3) by auto
    have c: "umin (m_len (mbufs s a) - off) n = c" "0 \<le> c" "c \<le> n" "length bs = nat c"
      using off la True Cons.prems(5) by (auto simp: c_def bs_def umin_id)
    have bs: "bs = take (nat c) (drop (nat off) (mbytes s a))"
      using off by (simp add: bs_def mbytes_def c_def nat_diff_distrib min_def)
    have step: "copydata_loop p off n cp s = copydata_loop (m_next (mbufs s a)) 0 (n - c) (cp + nat c) s1"
      using True p c(1) off
      by (subst copydata_loop.simps) (simp add: memcpy_def mtod_def s1_def bs_def nat_add_distrib)
    have ap: "apart s cp (nat n) as" using Cons.prems(7) by (simp add: apart_def)
    have "copydata_loop (m_next (mbufs s a)) 0 (n - c) (cp + nat c) s1 =
        Some (s1\<lparr> dmem := mem_write (cp + nat c) (take (nat (n - c)) (drop (nat 0) (cbytes s1 as))) (dmem s1) \<rparr>)"
    proof (rule Cons.IH)
      show "mchain s1 (m_next (mbufs s a)) as" using ch by (simp add: s1_def)
      show "as \<noteq> [] \<longrightarrow> 0 \<le> m_len (mbufs s1 (hd as))" using ch by (cases as) (auto simp: s1_def mchain_Cons)
      show "0 + (n - c) \<le> clen s1 as" using Cons.prems(6) clen_nonneg [OF ch] by (auto simp: s1_def c_def)
      show "apart s1 (cp + nat c) (nat (n - c)) as"
        using ap c by (auto simp: apart_def s1_def nat_diff_distrib)
    qed (use c Cons.prems(5) in auto)
    moreover have "cbytes s1 as = cbytes s as"
      unfolding s1_def by (rule apart_cbytes [OF ap]) (use c in simp)
    moreover have "take (nat n) (drop (nat off) (cbytes s (a # as))) = bs @ take (nat (n - c)) (cbytes s as)"
    proof -
      define X where "X = drop (nat off) (mbytes s a)"
      have lX: "length X = nat (m_len (mbufs s a) - off)" using off by (simp add: X_def nat_diff_distrib)
      have "take (nat n) X = bs" unfolding bs X_def [symmetric]
        using off True by (cases "n \<le> m_len (mbufs s a) - off") (simp_all add: c_def lX)
      moreover have "nat n - length X = nat (n - c)" using off True by (auto simp: c_def lX)
      moreover have "drop (nat off) (cbytes s (a # as)) = X @ cbytes s as"
        using off nat_mono [OF off(2)] by (simp add: X_def)
      ultimately show ?thesis by simp
    qed
    ultimately show ?thesis
      unfolding step using mem_write_append [of cp bs] c(4) by (simp add: s1_def)
  qed
qed

lemma copydata_loop_panic:
  assumes "mchain s p as" "0 \<le> off" "as \<noteq> [] \<longrightarrow> off \<le> m_len (mbufs s (hd as))" "0 < n" "n < 2 ^ 31" "clen s as < off + n"
  shows "copydata_loop p off n cp s = None"
  using assms
proof (induction as arbitrary: p off n cp s)
  case Nil
  then show ?case by (subst copydata_loop.simps) simp
next
  case (Cons a as)
  define c where "c = min (m_len (mbufs s a) - off) n"
  have p: "p = Some a" and la: "0 \<le> m_len (mbufs s a)" "m_len (mbufs s a) < 2 ^ 31"
    and ch: "mchain s (m_next (mbufs s a)) as"
    using Cons.prems(1) by (auto simp: mchain_Cons)
  have off: "0 \<le> off" "off \<le> m_len (mbufs s a)" using Cons.prems(2,3) by auto
  have pos: "0 \<le> clen s as" using clen_nonneg [OF ch] .
  have c: "umin (m_len (mbufs s a) - off) n = c" "0 \<le> c" "0 < n - c" "clen s as < n - c"
    using off la pos Cons.prems(4-6) by (auto simp: c_def umin_id)
  let ?s = "memcpy cp (nat (int (mtod (mbufs s a)) + off)) c s"
  have "copydata_loop (m_next (mbufs s a)) 0 (n - c) (cp + nat c) ?s = None"
  proof (rule Cons.IH)
    show "mchain ?s (m_next (mbufs s a)) as" using ch by (simp add: memcpy_def)
    show "as \<noteq> [] \<longrightarrow> 0 \<le> m_len (mbufs ?s (hd as))" using ch by (cases as) (auto simp: memcpy_def mchain_Cons)
  qed (use c Cons.prems(5) in \<open>auto simp: memcpy_def\<close>)
  then show ?case using Cons.prems(4) p c(1) by (subst copydata_loop.simps) (simp add: memcpy_def)
qed

text \<open>
  C25. Reading out of a chain.  When the requested range lies in the chain and the
  destination does not overlap its data, \<open>m_copydata\<close> stores exactly the bytes of that
  range at the destination and changes nothing else; a range that reaches
  beyond the end of the chain stops the program.
\<close>

theorem m_copydata_range:
  assumes "mchain s p as" "0 \<le> off" "0 \<le> n" "n < 2 ^ 31"
  shows "(off + n \<le> clen s as \<and> apart s vp (nat n) as \<longrightarrow>
            m_copydata p off n vp s =
              Some (s\<lparr> dmem := mem_write vp (take (nat n) (drop (nat off) (cbytes s as))) (dmem s) \<rparr>)) \<and>
         (clen s as < off + n \<longrightarrow> m_copydata p off n vp s = None)"
proof (cases "off \<le> clen s as")
  case True
  then obtain pre post q k where sk: "m_skip (mbufs s) p off = Some (q, k)" "as = pre @ post" "mchain s q post"
    "off = clen s pre + k" "0 \<le> k" "post = [] \<longrightarrow> k = 0" "post \<noteq> [] \<longrightarrow> k = 0 \<or> k < m_len (mbufs s (hd post))"
    using m_skip_spec [OF assms(1,2)] by blast
  have eq: "m_copydata p off n vp s = copydata_loop q k n vp s"
    using sk(1) assms by (simp add: m_copydata_def)
  have k: "post \<noteq> [] \<longrightarrow> k \<le> m_len (mbufs s (hd post))"
    using sk(3,7) by (cases post) (auto simp: mchain_Cons)
  have cb: "drop (nat off) (cbytes s as) = drop (nat k) (cbytes s post)"
    using skip_bytes [of s p pre post off k] assms(1) sk by simp
  show ?thesis
  proof (intro conjI impI)
    assume *: "off + n \<le> clen s as \<and> apart s vp (nat n) as"
    then have "k + n \<le> clen s post" "apart s vp (nat n) post" using sk(2,4) by (auto simp: apart_def)
    from copydata_loop_spec [OF sk(3,5) k assms(3,4) this]
    show "m_copydata p off n vp s =
        Some (s\<lparr> dmem := mem_write vp (take (nat n) (drop (nat off) (cbytes s as))) (dmem s) \<rparr>)"
      unfolding eq cb .
  next
    assume "clen s as < off + n"
    then have "0 < n" "clen s post < k + n" using True sk(2,4) by auto
    from copydata_loop_panic [OF sk(3,5) k this(1) assms(4) this(2)]
    show "m_copydata p off n vp s = None" unfolding eq .
  qed
next
  case False
  then show ?thesis using m_skip_panic [OF assms(1), of off] assms by (simp add: m_copydata_def)
qed

text \<open>
  Locating a byte.  For a position up to the length of the chain \<open>m_getptr\<close> gives the mbuf
  and the offset in it that the position stands for (at the end of the data it is
  the end of the last mbuf); for a position beyond it, or a negative one, it
  gives none.
\<close>

theorem m_getptr_locates:
  assumes "mchain s (Some m) (m # as)"
  shows "(0 \<le> loc \<and> loc \<le> clen s (m # as) \<longrightarrow>
            (\<exists>pre a post off. m_getptr (mbufs s) m loc = Some (Some (a, off)) \<and> m # as = pre @ a # post \<and>
               clen s pre + off = loc \<and> 0 \<le> off \<and> (off < m_len (mbufs s a) \<or> off = m_len (mbufs s a) \<and> post = []))) \<and>
         (loc < 0 \<or> clen s (m # as) < loc \<longrightarrow> m_getptr (mbufs s) m loc = Some None)"
  using assms
proof (induction as arbitrary: m loc)
  case Nil
  then show ?case
    by (subst (1 2) m_getptr.simps) (auto simp: mchain_Cons intro!: exI [of _ "[]"])
next
  case (Cons b as)
  have ch: "mchain s (Some b) (b # as)" and nx: "m_next (mbufs s m) = Some b" and lm: "0 \<le> m_len (mbufs s m)"
    using Cons.prems by (auto simp: mchain_Cons)
  have pos: "0 \<le> clen s (b # as)" using clen_nonneg [OF ch] .
  show ?case
  proof (cases "0 \<le> loc \<and> m_len (mbufs s m) \<le> loc")
    case True
    then have eq: "m_getptr (mbufs s) m loc = m_getptr (mbufs s) b (loc - m_len (mbufs s m))"
      using nx by (subst m_getptr.simps) (auto simp: Let_def)
    have IH: "loc - m_len (mbufs s m) \<le> clen s (b # as) \<Longrightarrow>
        \<exists>pre a post off. m_getptr (mbufs s) b (loc - m_len (mbufs s m)) = Some (Some (a, off)) \<and>
          b # as = pre @ a # post \<and> clen s pre + off = loc - m_len (mbufs s m) \<and> 0 \<le> off \<and>
          (off < m_len (mbufs s a) \<or> off = m_len (mbufs s a) \<and> post = [])"
      and none: "clen s (b # as) < loc - m_len (mbufs s m) \<Longrightarrow>
        m_getptr (mbufs s) b (loc - m_len (mbufs s m)) = Some None"
      using Cons.IH [OF ch, of "loc - m_len (mbufs s m)"] True by auto
    show ?thesis
    proof (intro conjI impI)
      assume "0 \<le> loc \<and> loc \<le> clen s (m # b # as)"
      then obtain pre a post off where "m_getptr (mbufs s) b (loc - m_len (mbufs s m)) = Some (Some (a, off))"
        "b # as = pre @ a # post" "clen s pre + off = loc - m_len (mbufs s m)" "0 \<le> off"
        "off < m_len (mbufs s a) \<or> off = m_len (mbufs s a) \<and> post = []"
        using IH by auto
      then show "\<exists>pre a post off. m_getptr (mbufs s) m loc = Some (Some (a, off)) \<and>
          m # b # as = pre @ a # post \<and> clen s pre + off = loc \<and> 0 \<le> off \<and>
          (off < m_len (mbufs s a) \<or> off = m_len (mbufs s a) \<and> post = [])"
        unfolding eq by (rule_tac exI [of _ "m # pre"]) auto
    next
      assume "loc < 0 \<or> clen s (m # b # as) < loc"
      then show "m_getptr (mbufs s) m loc = Some None" using none True unfolding eq by auto
    qed
  next
    case False
    then have "m_getptr (mbufs s) m loc = Some (if 0 \<le> loc then Some (m, loc) else None)"
      by (subst m_getptr.simps) auto
    then have "0 \<le> loc \<Longrightarrow> m_getptr (mbufs s) m loc = Some (Some (m, loc)) \<and> m # b # as = [] @ m # (b # as) \<and>
        clen s [] + loc = loc \<and> 0 \<le> loc \<and> (loc < m_len (mbufs s m) \<or> loc = m_len (mbufs s m) \<and> b # as = [])"
      and "loc < 0 \<or> clen s (m # b # as) < loc \<Longrightarrow> m_getptr (mbufs s) m loc = Some None"
      using False pos by auto
    then show ?thesis by blast
  qed
qed

section \<open>Ownership of headers and packet buffers\<close>

lemma same_rest_mstate:
  fixes s t :: "'a mstate_scheme"
  assumes "same_rest s t"
  shows "mbufs t = mbufs s" "dmem t = dmem s" "mb_cache t = mb_cache s" "mb_data t = mb_data s"
    "mcl_cache t = mcl_cache s" "rlcore t = rlcore s" "max_protohdr t = max_protohdr s"
  using assms by (cases s; cases t; simp add: same_rest_def)+

text \<open>Releasing mbufs leaves what the socket layer adds to the state.\<close>

lemma more_same_rest: "same_rest s t \<Longrightarrow> mstate.more t = mstate.more s"
  for s t :: "'a mstate_scheme"
  by (cases s; cases t; simp add: same_rest_def)

lemma more_upd_m [simp]: "mstate.more (upd_m a f s) = mstate.more s"
  by (simp add: upd_m_def)

lemma more_free_seg [simp]: "mstate.more (rte_pktmbuf_free_seg m s) = mstate.more s"
  by (rule more_same_rest [OF same_rest_free_seg])

lemma more_MFREE [simp]: "mstate.more (snd (MFREE m s)) = mstate.more s"
  by (simp add: MFREE_def Let_def free_mbuf_def split: option.splits)

lemma more_m_freem: "m_freem p s = Some t \<Longrightarrow> mstate.more t = mstate.more s"
  by (erule m_freem.raw_induct [where P = "\<lambda>p s t. mstate.more t = mstate.more s", rotated])
    (auto simp: Let_def case_prod_beta split: option.splits)

text \<open>The headers in use that point to packet buffer \<^term>\<open>p\<close>.\<close>

definition holders :: "addr set \<Rightarrow> 'a mstate_scheme \<Rightarrow> addr \<Rightarrow> addr set" where
  "holders used s p = {a \<in> used. m_paddr (mbufs s a) = Some p}"

text \<open>\<^term>\<open>M\<close> are all headers, \<^term>\<open>used\<close> those in use, \<^term>\<open>U\<close> all packet buffers, and \<^term>\<open>e\<close> counts the
  references to packet buffers from outside the headers.  The header pool holds
  exactly the unused headers, and each packet buffer has one reference per header
  that points to it.\<close>

definition mbuf_inv :: "addr set \<Rightarrow> addr set \<Rightarrow> addr set \<Rightarrow> (addr \<Rightarrow> nat) \<Rightarrow> 'a mstate_scheme \<Rightarrow> bool" where
  "mbuf_inv M U used e s \<longleftrightarrow>
     finite M \<and> used \<subseteq> M \<and> pool_inv (mb_cache s) \<and> pool_objs (mb_cache s) = mset_set (M - used) \<and>
     card M \<le> pool_cap (mb_cache s) \<and> (\<forall>a\<in>used. \<forall>p. m_paddr (mbufs s a) = Some p \<longrightarrow> p \<in> U) \<and>
     rmb_inv U (\<lambda>p. e p + card (holders used s p)) s"

lemma rmb_inv_cong: "rmb_inv U r s \<Longrightarrow> rmb t = rmb s \<Longrightarrow> rpool t = rpool s \<Longrightarrow> rmb_inv U r t"
  by (simp add: rmb_inv_def pools_ok_def)

lemma holders_cong:
  "(\<And>a. a \<in> used \<Longrightarrow> m_paddr (mbufs t a) = m_paddr (mbufs s a)) \<Longrightarrow> holders used t p = holders used s p"
  by (auto simp: holders_def)

lemma MFREE_heap:
  "fst (MFREE m s) = m_next (mbufs s m)" "a \<noteq> m \<Longrightarrow> mbufs (snd (MFREE m s)) a = mbufs s a"
  "dmem (snd (MFREE m s)) = dmem s"
proof -
  have *: "mbufs (free_mbuf p s) = mbufs s" "dmem (free_mbuf p s) = dmem s" for p and s :: "'a mstate_scheme"
    using same_rest_mstate(1,2) [OF same_rest_free_seg] by (simp_all add: free_mbuf_def)
  show "fst (MFREE m s) = m_next (mbufs s m)" "a \<noteq> m \<Longrightarrow> mbufs (snd (MFREE m s)) a = mbufs s a"
    "dmem (snd (MFREE m s)) = dmem s"
    by (auto simp: MFREE_def Let_def * split: option.splits)
qed

lemma holders_drop:
  assumes "m \<in> used" "finite used"
  shows "card (holders (used - {m}) s p) =
    (if m_paddr (mbufs s m) = Some p then card (holders used s p) - 1 else card (holders used s p))"
proof -
  have "holders (used - {m}) s p = holders used s p - {m}" by (auto simp: holders_def)
  moreover have "m \<in> holders used s p \<longleftrightarrow> m_paddr (mbufs s m) = Some p" using assms by (simp add: holders_def)
  moreover have "finite (holders used s p)" using assms(2) by (simp add: holders_def)
  ultimately show ?thesis by (simp add: card_Diff_singleton)
qed

lemma mbuf_inv_finite: "mbuf_inv M U used e s \<Longrightarrow> finite used"
  unfolding mbuf_inv_def using finite_subset by auto

text \<open>The packet buffer of a header is released.\<close>

definition drop_paddr :: "addr \<Rightarrow> 'a mstate_scheme \<Rightarrow> 'a mstate_scheme" where
  "drop_paddr m s =
     (case m_paddr (mbufs s m) of None \<Rightarrow> s | Some p \<Rightarrow> upd_m m (\<lambda>b. b\<lparr> m_paddr := None \<rparr>) (free_mbuf p s))"

lemma drop_paddr_rest:
  "mb_cache (drop_paddr m s) = mb_cache s" "rlcore (drop_paddr m s) = rlcore s"
  "mbufs (drop_paddr m s) = (mbufs s)(m := (mbufs s m)\<lparr> m_paddr := None \<rparr>)"
proof -
  note * = same_rest_mstate [OF same_rest_free_seg, folded free_mbuf_def]
  show "mb_cache (drop_paddr m s) = mb_cache s" "rlcore (drop_paddr m s) = rlcore s"
    "mbufs (drop_paddr m s) = (mbufs s)(m := (mbufs s m)\<lparr> m_paddr := None \<rparr>)"
    by (auto simp: drop_paddr_def * split: option.splits)
qed

lemma drop_paddr_inv:
  assumes inv: "mbuf_inv M U used e s" and m: "m \<in> used"
  shows "rmb_inv U (\<lambda>p. e p + card (holders (used - {m}) s p)) (drop_paddr m s)"
proof (cases "m_paddr (mbufs s m)")
  case None
  then show ?thesis
    using inv by (simp add: drop_paddr_def mbuf_inv_def holders_drop [OF m mbuf_inv_finite [OF inv]])
next
  case (Some p)
  let ?r = "\<lambda>p. e p + card (holders used s p)"
  have r: "rmb_inv U ?r s" and pU: "p \<in> U" using inv m Some by (auto simp: mbuf_inv_def)
  have fin: "finite used" by (rule mbuf_inv_finite [OF inv])
  have "m \<in> holders used s p" using m Some by (simp add: holders_def)
  then have pos: "0 < card (holders used s p)" using fin card_gt_0_iff [of "holders used s p"] by (auto simp: holders_def)
  have "?r(p := ?r p - 1) = (\<lambda>q. e q + card (holders (used - {m}) s q))"
    using pos Some by (auto simp: fun_eq_iff holders_drop [OF m fin])
  then have "rmb_inv U (\<lambda>q. e q + card (holders (used - {m}) s q)) (free_mbuf p s)"
    using rte_pktmbuf_free_seg_inv [OF r pU] pos by (simp add: free_mbuf_def)
  then show ?thesis using Some by (simp add: drop_paddr_def) (rule rmb_inv_cong, simp_all)
qed

lemma MFREE_inv:
  assumes inv: "mbuf_inv M U used e s" and m: "m \<in> used"
  shows "mbuf_inv M U (used - {m}) e (snd (MFREE m s))"
proof -
  let ?s = "if has_flag M_PKTHDR (mbufs s m) then upd_m m (\<lambda>b. b\<lparr> m_pkthdr := (m_pkthdr b)\<lparr> ph_tags := [] \<rparr> \<rparr>) s else s"
  let ?t = "drop_paddr m ?s"
  have free: "snd (MFREE m s) = ?t\<lparr> mbuf_free_called := mbuf_free_called ?t + 1,
      mb_cache := pool_cache_put (rlcore ?t) (mb_cache ?t) m \<rparr>"
    by (simp add: MFREE_def drop_paddr_def Let_def)
  have paddr: "m_paddr (mbufs ?s a) = m_paddr (mbufs s a)" for a by simp
  have h: "holders used ?s p = holders used s p" for p by (rule holders_cong) (rule paddr)
  have inv': "mbuf_inv M U used e ?s"
    using inv unfolding mbuf_inv_def h paddr by (auto intro: rmb_inv_cong)
  have pool: "pool_inv (mb_cache s)" "pool_objs (mb_cache s) = mset_set (M - used)" "card M \<le> pool_cap (mb_cache s)"
    and fin: "finite M" and sub: "used \<subseteq> M" using inv by (auto simp: mbuf_inv_def)
  have "card (M - used) < card M" using m sub fin by (intro psubset_card_mono) auto
  then have "size (pool_objs (mb_cache s)) < pool_cap (mb_cache s)" using pool by simp
  note put = pool_cache_put_spec [OF pool(1) this, of "rlcore s" m]
  have cache: "mb_cache (snd (MFREE m s)) = pool_cache_put (rlcore s) (mb_cache s) m"
    by (simp add: free drop_paddr_rest)
  have "M - (used - {m}) = insert m (M - used)" using m sub by auto
  then have "pool_objs (pool_cache_put (rlcore s) (mb_cache s) m) = mset_set (M - (used - {m}))"
    using put pool(2) fin m by simp
  moreover have heap: "m_paddr (mbufs (snd (MFREE m s)) a) = m_paddr (mbufs s a)" if "a \<in> used - {m}" for a
    using that by (simp add: free drop_paddr_rest)
  then have h': "holders (used - {m}) (snd (MFREE m s)) p = holders (used - {m}) ?s p" for p
    by (intro holders_cong) simp
  have "rmb_inv U (\<lambda>p. e p + card (holders (used - {m}) (snd (MFREE m s)) p)) (snd (MFREE m s))"
    unfolding h' by (rule rmb_inv_cong [OF drop_paddr_inv [OF inv' m]]) (simp_all add: free)
  ultimately show ?thesis
    using inv put pool(3) heap unfolding mbuf_inv_def cache by auto
qed

lemma m_freem_inv:
  assumes "linked (m_nexts s) p as" "set as \<subseteq> used" "mbuf_inv M U used e s"
  shows "\<exists>t. m_freem p s = Some t \<and> mbuf_inv M U (used - set as) e t \<and>
    (\<forall>a. a \<notin> set as \<longrightarrow> mbufs t a = mbufs s a) \<and> dmem t = dmem s"
  using assms
proof (induction as arbitrary: p s used)
  case Nil
  then show ?case by (subst m_freem.simps) auto
next
  case (Cons a as)
  let ?s = "snd (MFREE a s)"
  have p: "p = Some a" and lk: "linked (m_nexts s) (m_next (mbufs s a)) as" using Cons.prems(1) by auto
  have a: "a \<notin> set as" using linked_distinct [OF Cons.prems(1)] by simp
  have "linked (m_nexts ?s) (m_next (mbufs s a)) as"
    by (rule linked_cong [OF lk]) (use a MFREE_heap(2) in metis)
  moreover have "mbuf_inv M U (used - {a}) e ?s" using MFREE_inv [OF Cons.prems(3)] Cons.prems(2) by simp
  moreover have "set as \<subseteq> used - {a}" using Cons.prems(2) a by auto
  ultimately obtain t where "m_freem (m_next (mbufs s a)) ?s = Some t" "mbuf_inv M U (used - {a} - set as) e t"
    "\<forall>b. b \<notin> set as \<longrightarrow> mbufs t b = mbufs ?s b" "dmem t = dmem ?s"
    using Cons.IH by blast
  moreover have "m_freem p s = m_freem (m_next (mbufs s a)) ?s"
    using MFREE_heap(1) [of a s] p by (subst m_freem.simps) (simp add: split_beta)
  moreover have "used - {a} - set as = used - set (a # as)" by auto
  ultimately show ?case using MFREE_heap(2,3) by auto
qed

text \<open>A header has left the pool and is not yet in use.\<close>

definition hdr_taken :: "addr set \<Rightarrow> addr set \<Rightarrow> addr set \<Rightarrow> (addr \<Rightarrow> nat) \<Rightarrow> addr \<Rightarrow> 'a mstate_scheme \<Rightarrow> bool" where
  "hdr_taken M U used r m s \<longleftrightarrow>
     finite M \<and> used \<subseteq> M \<and> m \<in> M - used \<and> pool_inv (mb_cache s) \<and>
     pool_objs (mb_cache s) = mset_set (M - insert m used) \<and> card M \<le> pool_cap (mb_cache s) \<and>
     (\<forall>a\<in>used. \<forall>p. m_paddr (mbufs s a) = Some p \<longrightarrow> p \<in> U) \<and> rmb_inv U r s"

lemma mbuf_take_inv:
  assumes inv: "mbuf_inv M U used e s" and take: "mbuf_take s = (x, t)"
  shows "mbufs t = mbufs s" "dmem t = dmem s" "mb_data t = mb_data s" "mcl_cache t = mcl_cache s"
    "rmb t = rmb s" "rpool t = rpool s"
    "case x of None \<Rightarrow> mbuf_inv M U used e t
     | Some m \<Rightarrow> hdr_taken M U used (\<lambda>p. e p + card (holders used s p)) m t"
proof -
  obtain y c where get: "pool_cache_get (rlcore s) (mb_cache s) = (y, c)" by fastforce
  show rest: "mbufs t = mbufs s" "dmem t = dmem s" "mb_data t = mb_data s" "mcl_cache t = mcl_cache s"
    and rmb: "rmb t = rmb s" "rpool t = rpool s"
    using take get by (auto simp: mbuf_take_def Let_def split: option.splits)
  have xy: "x = y" "mb_cache t = c" using take get by (auto simp: mbuf_take_def Let_def split: option.splits)
  have pool: "pool_inv (mb_cache s)" "pool_objs (mb_cache s) = mset_set (M - used)" and fin: "finite M"
    and r: "rmb_inv U (\<lambda>p. e p + card (holders used s p)) t"
    using inv rmb_inv_cong [OF _ rmb] by (auto simp: mbuf_inv_def)
  note spec = pool_cache_get_spec [OF pool(1) get]
  have h: "holders used t = holders used s" using rest(1) by (simp add: holders_def fun_eq_iff)
  show "case x of None \<Rightarrow> mbuf_inv M U used e t
     | Some m \<Rightarrow> hdr_taken M U used (\<lambda>p. e p + card (holders used s p)) m t"
  proof (cases x)
    case None
    then show ?thesis using inv spec xy r unfolding mbuf_inv_def h rest(1) by simp
  next
    case (Some m)
    have objs: "mset_set (M - used) = add_mset m (pool_objs c)" using spec Some xy pool(2) by simp
    have "m \<in># mset_set (M - used)" unfolding objs by simp
    then have m: "m \<in> M - used" using fin by simp
    have "pool_objs c = mset_set (M - used) - {#m#}" unfolding objs by simp
    moreover have "M - insert m used = (M - used) - {m}" by auto
    ultimately have "pool_objs c = mset_set (M - insert m used)" using m fin by (simp add: mset_set_Diff)
    then have "hdr_taken M U used (\<lambda>p. e p + card (holders used s p)) m t"
      using inv spec xy(2) r m unfolding mbuf_inv_def hdr_taken_def rest(1) by simp
    then show ?thesis using Some by simp
  qed
qed

lemma hdr_taken_finish:
  assumes taken: "hdr_taken M U used r m s"
    and t: "mb_cache t = mb_cache s" "\<And>a. a \<noteq> m \<Longrightarrow> m_paddr (mbufs t a) = m_paddr (mbufs s a)"
    and r': "rmb_inv U r' t" "\<And>p. r' p = e p + card (holders used s p) + (if m_paddr (mbufs t m) = Some p then 1 else 0)"
    and p: "\<And>p. m_paddr (mbufs t m) = Some p \<Longrightarrow> p \<in> U"
  shows "mbuf_inv M U (insert m used) e t"
proof -
  have m: "m \<notin> used" and fin: "finite used" using taken finite_subset by (auto simp: hdr_taken_def)
  have "holders (insert m used) t p = (if m_paddr (mbufs t m) = Some p then insert m (holders used s p) else holders used s p)" for p
    using t(2) m by (auto simp: holders_def) metis+
  moreover have "m \<notin> holders used s p" "finite (holders used s p)" for p using m fin by (simp_all add: holders_def)
  ultimately have "e p + card (holders (insert m used) t p) = r' p" for p using r'(2) by simp
  then show ?thesis using taken t r'(1) p m unfolding mbuf_inv_def hdr_taken_def by auto (metis t(2))
qed

lemma alloc_rest:
  fixes s :: "'a mstate_scheme"
  assumes "allocate_mbuf p s = (x, t)"
  shows "mbufs t = mbufs s" "dmem t = dmem s" "mb_cache t = mb_cache s"
  using same_rest_mstate [OF same_rest_alloc] assms by (simp_all add: allocate_mbuf_def)

lemma m_get_protohdr:
  assumes "m_get type s = Some (x, t)"
  shows "max_protohdr t = max_protohdr s"
proof -
  have "max_protohdr s' = max_protohdr s" if "mbuf_take s = (y, s')" for y s'
    using that by (auto simp: mbuf_take_def Let_def split: prod.splits option.splits)
  then show ?thesis
    using assms same_rest_mstate(7) [OF same_rest_alloc]
    by (fastforce simp: m_get_def allocate_mbuf_def Let_def upd_m_def split: prod.splits option.splits)
qed

text \<open>What \<^verbatim>\<open>m_get\<close> returns: a header that was not in use and points to the data of a packet
  buffer of its own.\<close>

lemma m_get_inv:
  assumes inv: "mbuf_inv M U used e s" and get: "m_get type s = Some (x, t)"
  shows "case x of None \<Rightarrow> mbuf_inv M U used e t \<and> mbufs t = mbufs s
    | Some m \<Rightarrow> m \<in> M - used \<and> mbuf_inv M U (insert m used) e t \<and> (\<forall>a. a \<noteq> m \<longrightarrow> mbufs t a = mbufs s a) \<and>
        m_next (mbufs t m) = None \<and> m_nextpkt (mbufs t m) = None \<and> m_flags (mbufs t m) = 0 \<and> m_pktdat (mbufs t m) = m \<and> dmem t = dmem s \<and>
        (\<exists>d\<in>U. m_paddr (mbufs t m) = Some d \<and> e d = 0 \<and> holders used s d = {} \<and> m_data (mbufs t m) = get_mbuf_data d t)"
proof -
  obtain y s1 where take: "mbuf_take s = (y, s1)" by fastforce
  note tk = mbuf_take_inv [OF inv take]
  show ?thesis
  proof (cases y)
    case None
    then show ?thesis using get take tk(1,7) by (auto simp: m_get_def)
  next
    case (Some m)
    let ?s2 = "upd_m m (\<lambda>b. b\<lparr> m_pktdat := m, m_type := type, m_next := None, m_nextpkt := None \<rparr>) s1"
    obtain z s3 where al: "allocate_mbuf (mb_data ?s2) ?s2 = (z, s3)" by fastforce
    obtain d where z: "z = Some d" using get take Some al by (cases z) (auto simp: m_get_def Let_def)
    have x: "x = Some m" and t: "t = upd_m m (\<lambda>b. b\<lparr> m_paddr := Some d, m_data := get_mbuf_data d s3, m_flags := 0 \<rparr>) s3"
      using get take Some al z by (simp_all add: m_get_def Let_def)
    let ?r = "\<lambda>p. e p + card (holders used s p)"
    have taken: "hdr_taken M U used ?r m s1" using tk(7) Some by simp
    have m: "m \<in> M - used" using taken by (simp add: hdr_taken_def)
    have r: "rmb_inv U ?r ?s2"
      by (rule rmb_inv_cong [of U ?r s1]) (use taken in \<open>simp_all add: hdr_taken_def upd_m_def\<close>)
    have d: "d \<in> U" "?r d = 0" "rmb_inv U (?r(d := 1)) s3"
      using rte_pktmbuf_alloc_inv [OF r, of "mb_data ?s2" z s3] al z by (simp_all add: allocate_mbuf_def)
    note rest = alloc_rest [OF al]
    have "rmb_inv U (?r(d := 1)) t" by (rule rmb_inv_cong [OF d(3)]) (simp_all add: t upd_m_def)
    moreover have "holders used s1 p = holders used s p" for p using tk(1) by (simp add: holders_def)
    ultimately have "mbuf_inv M U (insert m used) e t"
      by (intro hdr_taken_finish [OF taken, where r' = "?r(d := 1)"]) (use d rest in \<open>auto simp: t upd_m_def\<close>)
    moreover have "holders used s d = {}"
    proof -
      have "finite (holders used s d)" using mbuf_inv_finite [OF inv] by (simp add: holders_def)
      then show ?thesis using d(2) by simp
    qed
    moreover have "get_mbuf_data d t = get_mbuf_data d s3" by (simp add: t upd_m_def get_mbuf_data_def)
    ultimately show ?thesis using x m d rest tk(1,2) by (auto simp: t upd_m_def)
  qed
qed

lemma m_get_indirect_inv:
  assumes inv: "mbuf_inv M U used e s" and get: "m_get_indirect (Some c) type s = Some (Some m, t)"
    and c: "c \<in> U" "0 < e c + card (holders used s c)" "unat (refcnt (rmb s c)) + 1 < 2 ^ 16"
      "\<not> RTE_MBUF_INDIRECT (rmb s c)" "rm_next (rmb s c) = None"
  shows "m \<in> M - used \<and> mbuf_inv M U (insert m used) e t \<and> (\<forall>a. a \<noteq> m \<longrightarrow> mbufs t a = mbufs s a)"
proof -
  obtain y s1 where take: "mbuf_take s = (y, s1)" by fastforce
  note tk = mbuf_take_inv [OF inv take]
  let ?s2 = "upd_m m (\<lambda>b. b\<lparr> m_pktdat := m, m_type := type, m_next := None, m_nextpkt := None \<rparr>) s1"
  let ?r = "\<lambda>p. e p + card (holders used s p)"
  obtain p s3 where cl: "pool_data_mbuf_clone (mcl_cache ?s2) c ?s2 = Some (p, s3)"
    and t: "t = upd_m m (\<lambda>b. b\<lparr> m_paddr := p, m_data := 0, m_pkthdr := (m_pkthdr b)\<lparr> rcvif := 0 \<rparr>, m_flags := 0 \<rparr>) s3"
    and y: "y = Some m"
    using get take by (auto simp: m_get_indirect_def Let_def split: option.splits bind_splits)
  have taken: "hdr_taken M U used ?r m s1" using tk(7) y by simp
  have r: "rmb_inv U ?r ?s2"
    by (rule rmb_inv_cong [of U ?r s1]) (use taken in \<open>simp_all add: hdr_taken_def upd_m_def\<close>)
  have "buf_step U (?r, ?s2) (case p of None \<Rightarrow> ?r | Some i \<Rightarrow> ?r(i := ?r i + 1), s3)"
    by (rule buf_step.clone [OF _ _ _ _ _ cl]) (use c tk(5) in \<open>simp_all add: upd_m_def\<close>)
  from buf_step_inv [OF this r] have r3: "rmb_inv U (case p of None \<Rightarrow> ?r | Some i \<Rightarrow> ?r(i := ?r i + 1)) s3" .
  have pU: "i \<in> U" if "p = Some i" for i
  proof -
    have "refcnt (rmb ?s2 c) \<noteq> 0"
      using counts_ok_refcnt [of U ?r "rmb ?s2" c] r c by (auto simp: rmb_inv_def)
    moreover have "rm_next (rmb ?s2 c) = None" using c(5) tk(5) by (simp add: upd_m_def)
    ultimately show ?thesis
      using rte_pktmbuf_clone_single [OF r c(1)] cl that by (metis pool_data_mbuf_clone_def)
  qed
  note rest = same_rest_mstate [OF same_rest_clone [OF cl [unfolded pool_data_mbuf_clone_def]]]
  have rt: "rmb_inv U (case p of None \<Rightarrow> ?r | Some i \<Rightarrow> ?r(i := ?r i + 1)) t"
    by (rule rmb_inv_cong [OF r3]) (simp_all add: t upd_m_def)
  have h: "holders used s1 q = holders used s q" for q using tk(1) by (simp add: holders_def)
  have "mbuf_inv M U (insert m used) e t"
    by (rule hdr_taken_finish [OF taken _ _ rt])
      (use rest h pU in \<open>auto simp: t upd_m_def split: option.splits\<close>)
  moreover have "m \<in> M - used" using taken by (simp add: hdr_taken_def)
  ultimately show ?thesis using rest tk(1) by (simp add: t upd_m_def)
qed

lemma m_devget_inv:
  assumes inv: "mbuf_inv M U used e s" and get: "m_devget buf totlen off0 ifp p s = (Some m, t)"
    and p: "p \<in> U" "0 < e p"
  shows "m \<in> M - used \<and> mbuf_inv M U (insert m used) (e(p := e p - 1)) t \<and> (\<forall>a. a \<noteq> m \<longrightarrow> mbufs t a = mbufs s a)"
proof -
  obtain y s1 where take: "mbuf_take s = (y, s1)" by fastforce
  note tk = mbuf_take_inv [OF inv take]
  let ?r = "\<lambda>p. e p + card (holders used s p)"
  have y: "y = Some m" and t: "t = upd_m m (\<lambda>b. b\<lparr> m_pktdat := m, m_type := MT_DATA, m_next := None, m_nextpkt := None,
             m_paddr := Some p, m_pkthdr := (m_pkthdr b)\<lparr> rcvif := ifp, ph_len := totlen \<rparr>,
             m_len := totlen, m_data := nat (int buf + off0), m_flags := M_PKTHDR \<rparr>) s1"
    using get take by (auto simp: m_devget_def split: option.splits)
  have taken: "hdr_taken M U used ?r m s1" using tk(7) y by simp
  have rt: "rmb_inv U ?r t"
    by (rule rmb_inv_cong [of U ?r s1]) (use taken in \<open>simp_all add: hdr_taken_def t upd_m_def\<close>)
  have "mbuf_inv M U (insert m used) (e(p := e p - 1)) t"
    by (rule hdr_taken_finish [OF taken _ _ rt])
      (use p tk(1) in \<open>auto simp: t upd_m_def holders_def\<close>)
  then show ?thesis using taken tk(1) by (simp add: hdr_taken_def t upd_m_def)
qed

lemma mbuf_inv_same:
  assumes "mbuf_inv M U used e s" "mb_cache t = mb_cache s" "\<And>a. m_paddr (mbufs t a) = m_paddr (mbufs s a)"
    and "rmb_inv U (\<lambda>p. e' p + card (holders used s p)) t"
  shows "mbuf_inv M U used e' t"
proof -
  have "holders used t p = holders used s p" for p by (rule holders_cong) (rule assms(3))
  then show ?thesis using assms by (simp add: mbuf_inv_def)
qed

lemma m_gethdr_inv:
  assumes inv: "mbuf_inv M U used e s" and get: "m_gethdr type s = Some (x, t)"
  shows "mbuf_inv M U (case x of None \<Rightarrow> used | Some m \<Rightarrow> insert m used) e t"
    "case x of None \<Rightarrow> True | Some m \<Rightarrow> m \<in> M - used"
proof -
  let ?s = "s\<lparr> get_mbuf_called := get_mbuf_called s + 1 \<rparr>"
  obtain y s1 where y: "m_get type ?s = Some (y, s1)" using get by (auto simp: m_gethdr_def Let_def split: bind_splits)
  have inv': "mbuf_inv M U used e ?s"
    by (rule mbuf_inv_same [OF inv]) (use inv in \<open>auto simp: mbuf_inv_def intro: rmb_inv_cong\<close>)
  note g = m_get_inv [OF inv' y]
  have xy: "x = y" and t: "mb_cache t = mb_cache s1" "rmb t = rmb s1" "rpool t = rpool s1"
    "m_paddr (mbufs t a) = m_paddr (mbufs s1 a)" for a
    using get y by (auto simp: m_gethdr_def Let_def upd_m_def split: option.splits)
  have inv1: "mbuf_inv M U (case x of None \<Rightarrow> used | Some m \<Rightarrow> insert m used) e s1" using g xy by (cases x) auto
  then have "rmb_inv U (\<lambda>p. e p + card (holders (case x of None \<Rightarrow> used | Some m \<Rightarrow> insert m used) s1 p)) t"
    using rmb_inv_cong [OF _ t(2,3)] unfolding mbuf_inv_def by blast
  then show "mbuf_inv M U (case x of None \<Rightarrow> used | Some m \<Rightarrow> insert m used) e t"
    by (rule mbuf_inv_same [OF inv1 t(1,4)])
  show "case x of None \<Rightarrow> True | Some m \<Rightarrow> m \<in> M - used" using g xy by (cases x) auto
qed

lemma buf_step_rest: "buf_step U (r, s) (r', t) \<Longrightarrow> same_rest s t"
  by (cases rule: buf_step.cases)
    (auto simp: allocate_mbuf_def free_mbuf_def increment_refcnt_def pool_data_mbuf_clone_def
        rte_mbuf_refcnt_update_def Let_def dest: same_rest_alloc same_rest_clone)

text \<open>The operations that move headers: allocation (plain, with a packet header, as the
  copy of an mbuf whose packet buffer has one segment, for a received packet buffer), release of a chain, a change of
  fields that keeps the packet buffer, and whatever the outside does with packet
  buffers it holds.\<close>

inductive mbuf_step ::
  "addr set \<Rightarrow> addr set \<Rightarrow> addr set \<times> (addr \<Rightarrow> nat) \<times> 'a mstate_scheme \<Rightarrow> addr set \<times> (addr \<Rightarrow> nat) \<times> 'a mstate_scheme \<Rightarrow> bool"
  for M U where
  get: "m_get type s = Some (x, t) \<Longrightarrow>
    mbuf_step M U (used, e, s) (case x of None \<Rightarrow> used | Some m \<Rightarrow> insert m used, e, t)"
| gethdr: "m_gethdr type s = Some (x, t) \<Longrightarrow>
    mbuf_step M U (used, e, s) (case x of None \<Rightarrow> used | Some m \<Rightarrow> insert m used, e, t)"
| copy: "c \<in> U \<Longrightarrow> 0 < e c + card (holders used s c) \<Longrightarrow> unat (refcnt (rmb s c)) + 1 < 2 ^ 16 \<Longrightarrow>
    \<not> RTE_MBUF_INDIRECT (rmb s c) \<Longrightarrow> rm_next (rmb s c) = None \<Longrightarrow>
    m_get_indirect (Some c) type s = Some (Some m, t) \<Longrightarrow> mbuf_step M U (used, e, s) (insert m used, e, t)"
| devget: "p \<in> U \<Longrightarrow> 0 < e p \<Longrightarrow> m_devget buf totlen off0 ifp p s = (Some m, t) \<Longrightarrow>
    mbuf_step M U (used, e, s) (insert m used, e(p := e p - 1), t)"
| freem: "linked (m_nexts s) p as \<Longrightarrow> set as \<subseteq> used \<Longrightarrow> m_freem p s = Some t \<Longrightarrow>
    mbuf_step M U (used, e, s) (used - set as, e, t)"
| edit: "(\<And>b. m_paddr (f b) = m_paddr b) \<Longrightarrow> mbuf_step M U (used, e, s) (used, e, upd_m a f s)"
| outside: "buf_step U (\<lambda>p. e p + card (holders used s p), s) (\<lambda>p. e' p + card (holders used s p), t) \<Longrightarrow>
    mbuf_step M U (used, e, s) (used, e', t)"

lemma mbuf_step_inv:
  assumes "mbuf_step M U (used, e, s) (used', e', t)" "mbuf_inv M U used e s"
  shows "mbuf_inv M U used' e' t"
  using assms(1)
proof cases
  case (get type x)
  then show ?thesis using m_get_inv [OF assms(2)] by (cases x) force+
next
  case (gethdr type x)
  then show ?thesis using m_gethdr_inv(1) [OF assms(2)] by blast
next
  case (copy c type m)
  then show ?thesis using m_get_indirect_inv [OF assms(2) copy(8) copy(3-7)] by simp
next
  case (devget p buf totlen off0 ifp m)
  then show ?thesis using m_devget_inv [OF assms(2)] by blast
next
  case (freem p as)
  then show ?thesis using m_freem_inv [OF freem(3,4) assms(2)] by auto
next
  case (edit f a)
  show ?thesis unfolding edit
    by (rule mbuf_inv_same [OF assms(2)])
      (use assms(2) edit in \<open>auto simp: upd_m_def mbuf_inv_def intro: rmb_inv_cong\<close>)
next
  case outside
  note rest = same_rest_mstate [OF buf_step_rest [OF outside(2)]]
  show ?thesis unfolding outside(1)
    by (rule mbuf_inv_same [OF assms(2)])
      (use rest buf_step_inv [OF outside(2)] assms(2) in \<open>auto simp: mbuf_inv_def\<close>)
qed

lemma mbuf_steps_inv:
  "(mbuf_step M U)\<^sup>*\<^sup>* (used, e, s) (used', e', t) \<Longrightarrow> mbuf_inv M U used e s \<Longrightarrow> mbuf_inv M U used' e' t"
  by (induction "(used', e', t)" arbitrary: used' e' t rule: rtranclp_induct)
    (auto simp: split_paired_all intro: mbuf_step_inv)


section \<open>Where copied bytes go\<close>

lemma mem_read_write: "length bs = n \<Longrightarrow> mem_read (mem_write a bs mem) a n = bs"
  by (auto simp: mem_read_def mem_write_def intro!: nth_equalityI)

text \<open>The round that uses up the last mbuf.\<close>

lemma contig_move_last:
  assumes "m \<noteq> n" "m_len (mbufs s n) = l" "m_next (mbufs s n) = None" "m_len (mbufs s m) = 0" "0 < l" "l < 2 ^ 32"
  shows "\<exists>t. contig_move m n l s = (None, t) \<and> m_data (mbufs t m) = m_data (mbufs s m) \<and> m_len (mbufs t m) = l \<and>
    dmem t = mem_write (m_data (mbufs s m)) (mem_read (dmem s) (m_data (mbufs s n)) (nat l)) (dmem s)"
proof -
  let ?s = "upd_m n (\<lambda>b. b\<lparr> m_len := m_len b - l \<rparr>) (upd_m m (\<lambda>b. b\<lparr> m_len := m_len b + l \<rparr>)
      (memcpy (m_data (mbufs s m)) (m_data (mbufs s n)) l s))"
  have "contig_move m n l s = MFREE n ?s"
    using assms by (simp add: contig_move_def mtod_def u_int_id m_free_def Let_def) (simp add: memcpy_def)
  moreover have "fst (MFREE n ?s) = None" using assms MFREE_heap(1) [of n ?s] by (simp add: upd_m_def memcpy_def)
  ultimately show ?thesis
    using assms MFREE_heap(2) [of m n ?s] MFREE_heap(3) [of n ?s]
    by (intro exI [of _ "snd (MFREE n ?s)"]) (simp add: prod_eq_iff upd_m_def memcpy_def)
qed


section \<open>Witnesses\<close>

text \<open>Two headers 5 and 6 and two packet buffers, all in their pools, with the byte \<open>x mod 256\<close> at
  every address \<open>x\<close>.\<close>

definition blank_mbuf :: mbuf where
  "blank_mbuf = \<lparr> m_next = None, m_nextpkt = None, m_data = 0, m_len = 0, m_flags = 0, m_paddr = None, m_type = 0,
     m_pkthdr = \<lparr> rcvif = 0, ph_tags = [], ph_len = 0, csum_flags = 0, csum_data = 0, segsz = 0 \<rparr>,
     m_pktdat = 0, ext_refcnt = 0, ext_buf = 0, ext_size = 0 \<rparr>"

definition idle_mstate :: mstate where
  "idle_mstate = \<lparr> rmb = rmb two_bufs, rpool = rpool two_bufs, elt_size = elt_size two_bufs, virt2phy = virt2phy two_bufs,
     rlcore = 0, mbufs = (\<lambda>_. blank_mbuf), dmem = of_nat, mb_cache = small_pool, mb_data = 0, mcl_cache = 0,
     get_mbuf_called = 0, get_mbuf_failed = 0, mbuf_free_called = 0, max_protohdr = 40,
     MCFail = 0, MPFail = 0, MSFail = 0 \<rparr>"

text \<open>A chain of two mbufs with three and five bytes.\<close>

definition chain_mstate :: mstate where
  "chain_mstate =
     upd_m 10 (\<lambda>b. b\<lparr> m_next := Some 20, m_data := 100, m_len := 3, m_flags := M_PKTHDR,
                      m_pkthdr := (m_pkthdr b)\<lparr> ph_len := 8 \<rparr> \<rparr>)
       (upd_m 20 (\<lambda>b. b\<lparr> m_data := 200, m_len := 5 \<rparr>) idle_mstate)"

lemma chain_mstate_facts:
  "mchain chain_mstate (Some 10) [10, 20]" "cbytes chain_mstate [10, 20] = [100, 101, 102, 200, 201, 202, 203, 204]"
  "clen chain_mstate [10, 20] = 8" "has_flag M_PKTHDR (mbufs chain_mstate 10)" "ph_len (m_pkthdr (mbufs chain_mstate 10)) = 8"
  by (auto simp: chain_mstate_def idle_mstate_def blank_mbuf_def mchain_def upd_m_def cbytes_def clen_def mbytes_def
      mem_read_def has_flag_def M_PKTHDR_def upt_rec)

theorem m_adj_trims_witness:
  "\<exists>t. m_adj (Some 10) (- 4) chain_mstate = Some t \<and> cbytes t [10, 20] = [100, 101, 102, 200] \<and>
       ph_len (m_pkthdr (mbufs t 10)) = clen t [10, 20]"
  using m_adj_trims [OF chain_mstate_facts(1), of "- 4"]
  by (auto simp: chain_mstate_facts simp del: cbytes_Cons clen_Cons)

theorem m_copydata_range_witness:
  "\<exists>t. m_copydata (Some 10) 2 3 900 chain_mstate = Some t \<and> mem_read (dmem t) 900 3 = [102, 200, 201] \<and>
       m_copydata (Some 10) 6 3 900 chain_mstate = None"
proof -
  have "apart chain_mstate 900 3 [10, 20]"
    by (auto simp: apart_def chain_mstate_def idle_mstate_def blank_mbuf_def)
  then show ?thesis
    using m_copydata_range [OF chain_mstate_facts(1), of 2 3 900] m_copydata_range [OF chain_mstate_facts(1), of 6 3 900]
    by (auto simp: chain_mstate_facts mem_read_write simp del: cbytes_Cons clen_Cons)
qed

theorem m_getptr_locates_witness:
  "\<exists>off. m_getptr (mbufs chain_mstate) 10 4 = Some (Some (20, off)) \<and> m_getptr (mbufs chain_mstate) 10 9 = Some None"
proof -
  have len: "m_len (mbufs chain_mstate 10) = 3" by (simp add: chain_mstate_def)
  have "\<exists>pre a post off. m_getptr (mbufs chain_mstate) 10 4 = Some (Some (a, off)) \<and> [10, 20] = pre @ a # post \<and>
      clen chain_mstate pre + off = 4 \<and> 0 \<le> off \<and>
      (off < m_len (mbufs chain_mstate a) \<or> off = m_len (mbufs chain_mstate a) \<and> post = [])"
    using m_getptr_locates [OF chain_mstate_facts(1), of 4] unfolding chain_mstate_facts(3) by simp
  then have "\<exists>off. m_getptr (mbufs chain_mstate) 10 4 = Some (Some (20, off))"
    using len by (auto simp: Cons_eq_append_conv)
  then show ?thesis using m_getptr_locates [OF chain_mstate_facts(1), of 9] unfolding chain_mstate_facts(3) by simp
qed

lemma idle_mstate_inv: "mbuf_inv {5, 6} {1000, 4000} {} (\<lambda>_. 0) idle_mstate"
proof -
  have "rmb_inv {1000, 4000} (\<lambda>_. 0) idle_mstate"
    by (rule rmb_inv_cong [OF two_bufs_facts(1)]) (simp_all add: idle_mstate_def)
  then show ?thesis by (simp add: mbuf_inv_def holders_def small_pool_facts idle_mstate_def)
qed

lemma idle_mstate_get: "\<exists>m t. m_get type (upd_m a f idle_mstate) = Some (Some m, t)"
proof -
  let ?s = "upd_m a f idle_mstate"
  have cache: "mb_cache ?s = small_pool" "rlcore ?s = 0" by (simp_all add: idle_mstate_def upd_m_def)
  obtain x s1 where take: "mbuf_take ?s = (x, s1)" by fastforce
  obtain y c where get: "pool_cache_get 0 small_pool = (y, c)" by fastforce
  have "ring_used (mp_ring small_pool) \<noteq> 0"
    by (simp add: small_pool_def ring_push_def wrapping_ring_def ring_used_def)
  then obtain m where "y = Some m" using pool_cache_get_spec [OF small_pool_facts(1) get] by (cases y) auto
  then have x: "x = Some m" and s1: "rmb s1 = rmb two_bufs" "rpool s1 = rpool two_bufs" "mb_data s1 = 0"
    using take get cache by (auto simp: mbuf_take_def Let_def idle_mstate_def upd_m_def)
  let ?s2 = "upd_m m (\<lambda>b. b\<lparr> m_pktdat := m, m_type := type, m_next := None, m_nextpkt := None \<rparr>) s1"
  obtain z s3 where al: "allocate_mbuf 0 ?s2 = (z, s3)" by fastforce
  have "rmb_inv {1000, 4000} (\<lambda>_. 0) ?s2"
    by (rule rmb_inv_cong [OF two_bufs_facts(1)]) (simp_all add: s1 upd_m_def)
  then have "z \<noteq> None"
    using rte_pktmbuf_alloc_inv [of "{1000, 4000}" "\<lambda>_. 0" ?s2 0 z s3] al two_bufs_facts(2) s1
    by (cases z) (auto simp: allocate_mbuf_def upd_m_def)
  then show ?thesis using take x al s1(3) by (auto simp: m_get_def Let_def upd_m_def)
qed


text \<open>A packet of 30 bytes in one mbuf.\<close>

definition short_packet :: mstate where
  "short_packet = upd_m 9 (\<lambda>b. b\<lparr> m_data := 300, m_len := 30, m_flags := M_PKTHDR \<rparr>) idle_mstate"


end
