(* ===== verification/Callout.thy ===== *)
theory Callout
  imports Prelude
begin

unbundle bit_operations_syntax

text \<open>
  The callout facility (\<^verbatim>\<open>netbsd/porting/callout/callout.c\<close>), which maps the kernel's
  timeouts to DPDK timers.  The DPDK timer is a parameter: \<^term>\<open>rte_timer_reset\<close> arms a
  timer for a number of cycles, \<^term>\<open>rte_timer_stop\<close> stops it; both give a return code.
  The theory has the operations, the state machine of the flags, and what firing does.
\<close>

section \<open>Data\<close>

definition CALLOUT_BOUND :: u32 where "CALLOUT_BOUND = 0x0001"
definition CALLOUT_PENDING :: u32 where "CALLOUT_PENDING = 0x0002"
definition CALLOUT_FIRED :: u32 where "CALLOUT_FIRED = 0x0004"
definition CALLOUT_INVOKING :: u32 where "CALLOUT_INVOKING = 0x0008"

text \<open>\<^typ>\<open>'t\<close> is the DPDK timer, \<^typ>\<open>'f\<close> a function pointer, \<^typ>\<open>'p\<close> its argument.\<close>

record ('t, 'f, 'p) callout_impl =
  timer :: 't
  c_func :: "'f option"
  c_arg :: "'p option"
  c_cpu :: int
  c_time :: int
  c_flags :: u32
  c_magic :: u32

text \<open>The clock: cycles per second of the timer and ticks per second of the kernel.\<close>

record clock =
  timer_hz :: nat
  kern_hz :: nat

section \<open>Operations\<close>

definition callout_init :: "('t \<Rightarrow> 't) \<Rightarrow> ('t, 'f, 'p) callout_impl \<Rightarrow> ('t, 'f, 'p) callout_impl" where
  "callout_init rte_timer_init co =
     co\<lparr> c_arg := None, c_time := 0, c_func := None, c_flags := 0,
         timer := rte_timer_init (timer co) \<rparr>"

definition callout_setfunc :: "('t, 'f, 'p) callout_impl \<Rightarrow> 'f option \<Rightarrow> 'p option \<Rightarrow> ('t, 'f, 'p) callout_impl" where
  "callout_setfunc co cbk arg = co\<lparr> c_arg := arg, c_func := cbk \<rparr>"

definition callout_schedule ::
  "('t \<Rightarrow> int \<Rightarrow> int \<times> 't) \<Rightarrow> clock \<Rightarrow> ('t, 'f, 'p) callout_impl \<Rightarrow> int \<Rightarrow> ('t, 'f, 'p) callout_impl" where
  "callout_schedule rte_timer_reset clk co duration =
     (let co = co\<lparr> c_flags := c_flags co AND NOT (CALLOUT_FIRED OR CALLOUT_INVOKING) \<rparr>;
          co = co\<lparr> c_flags := c_flags co OR CALLOUT_PENDING \<rparr>
      in co\<lparr> timer := snd (rte_timer_reset (timer co) (int (timer_hz clk div kern_hz clk) * duration)) \<rparr>)"

definition callout_reset ::
  "('t \<Rightarrow> int \<Rightarrow> int \<times> 't) \<Rightarrow> clock \<Rightarrow> ('t, 'f, 'p) callout_impl \<Rightarrow> int \<Rightarrow> 'f option \<Rightarrow> 'p option
   \<Rightarrow> ('t, 'f, 'p) callout_impl" where
  "callout_reset rte_timer_reset clk co duration cbk arg =
     (let co = co\<lparr> c_arg := arg \<rparr>;
          co = co\<lparr> c_func := cbk \<rparr>;
          co = co\<lparr> c_flags := c_flags co AND NOT (CALLOUT_FIRED OR CALLOUT_INVOKING) \<rparr>;
          co = co\<lparr> c_flags := c_flags co OR CALLOUT_PENDING \<rparr>
      in co\<lparr> timer := snd (rte_timer_reset (timer co) (int (timer_hz clk div kern_hz clk) * duration)) \<rparr>)"

definition callout_stop ::
  "('t \<Rightarrow> int \<times> 't) \<Rightarrow> ('t, 'f, 'p) callout_impl \<Rightarrow> bool \<times> ('t, 'f, 'p) callout_impl" where
  "callout_stop rte_timer_stop co =
     (let co = co\<lparr> c_flags := c_flags co AND NOT (CALLOUT_PENDING OR CALLOUT_FIRED) \<rparr>;
          (ret, tim) = rte_timer_stop (timer co)
      in (ret = 0, co\<lparr> timer := tim \<rparr>))"

definition callout_halt ::
  "('t \<Rightarrow> int \<times> 't) \<Rightarrow> ('t, 'f, 'p) callout_impl \<Rightarrow> bool \<times> ('t, 'f, 'p) callout_impl" where
  "callout_halt rte_timer_stop co =
     (let co = co\<lparr> c_flags := c_flags co AND NOT (CALLOUT_PENDING OR CALLOUT_FIRED) \<rparr>;
          (ret, tim) = rte_timer_stop (timer co)
      in (ret = 0, co\<lparr> timer := tim \<rparr>))"

definition callout_pending :: "('t, 'f, 'p) callout_impl \<Rightarrow> bool" where
  "callout_pending co \<longleftrightarrow> c_flags co AND CALLOUT_PENDING \<noteq> 0"

definition callout_expired :: "('t, 'f, 'p) callout_impl \<Rightarrow> bool" where
  "callout_expired co \<longleftrightarrow> c_flags co AND CALLOUT_FIRED \<noteq> 0"

definition callout_active :: "('t, 'f, 'p) callout_impl \<Rightarrow> bool" where
  "callout_active co \<longleftrightarrow> c_flags co AND (CALLOUT_PENDING OR CALLOUT_FIRED) \<noteq> 0"

definition callout_invoking :: "('t, 'f, 'p) callout_impl \<Rightarrow> bool" where
  "callout_invoking co \<longleftrightarrow> c_flags co AND CALLOUT_INVOKING \<noteq> 0"

definition callout_ack :: "('t, 'f, 'p) callout_impl \<Rightarrow> ('t, 'f, 'p) callout_impl" where
  "callout_ack co = co\<lparr> c_flags := c_flags co AND NOT CALLOUT_INVOKING \<rparr>"

text \<open>The function DPDK calls when the timer expires.  The callback is code of the
  owner of the callout: \<^term>\<open>call\<close> gives what it does to the callout itself.\<close>

definition wrapper_func ::
  "('f \<Rightarrow> 'p option \<Rightarrow> ('t, 'f, 'p) callout_impl \<Rightarrow> ('t, 'f, 'p) callout_impl)
   \<Rightarrow> ('t, 'f, 'p) callout_impl \<Rightarrow> ('t, 'f, 'p) callout_impl" where
  "wrapper_func call impl =
     (case c_func impl of
        None \<Rightarrow> impl
      | Some f \<Rightarrow>
          let impl = impl\<lparr> c_flags := (c_flags impl AND NOT CALLOUT_PENDING)
                                      OR (CALLOUT_FIRED OR CALLOUT_INVOKING) \<rparr>
          in call f (c_arg impl) impl)"

section \<open>The flags as bits\<close>

lemma callout_flag_exp:
  "CALLOUT_PENDING = 2 ^ 1" "CALLOUT_FIRED = 2 ^ 2" "CALLOUT_INVOKING = 2 ^ 3"
  by (simp_all add: CALLOUT_PENDING_def CALLOUT_FIRED_def CALLOUT_INVOKING_def)

lemma callout_flag_bits [simp]:
  "bit CALLOUT_PENDING n \<longleftrightarrow> n = 1"
  "bit CALLOUT_FIRED n \<longleftrightarrow> n = 2"
  "bit CALLOUT_INVOKING n \<longleftrightarrow> n = 3"
  unfolding callout_flag_exp by (simp_all only: bit_exp_word32)

lemma callout_bits:
  "callout_pending co \<longleftrightarrow> bit (c_flags co) 1"
  "callout_expired co \<longleftrightarrow> bit (c_flags co) 2"
  "callout_invoking co \<longleftrightarrow> bit (c_flags co) 3"
  "callout_active co \<longleftrightarrow> bit (c_flags co) 1 \<or> bit (c_flags co) 2"
  unfolding callout_pending_def callout_expired_def callout_invoking_def callout_active_def
    callout_flag_exp bit.conj_disj_distrib or_eq_0_iff de_Morgan_conj and_exp_bit
  by (rule refl)+

lemma callout_ops_bits [simp]:
  "bit (c_flags (callout_init ti co)) n \<longleftrightarrow> False"
  "bit (c_flags (callout_setfunc co f a)) n \<longleftrightarrow> bit (c_flags co) n"
  "bit (c_flags (callout_schedule tr clk co d)) n \<longleftrightarrow>
     n = 1 \<or> n \<noteq> 2 \<and> n \<noteq> 3 \<and> bit (c_flags co) n"
  "bit (c_flags (callout_reset tr clk co d f a)) n \<longleftrightarrow>
     n = 1 \<or> n \<noteq> 2 \<and> n \<noteq> 3 \<and> bit (c_flags co) n"
  "bit (c_flags (snd (callout_stop ts co))) n \<longleftrightarrow> n \<noteq> 1 \<and> n \<noteq> 2 \<and> bit (c_flags co) n"
  "bit (c_flags (snd (callout_halt ts co))) n \<longleftrightarrow> n \<noteq> 1 \<and> n \<noteq> 2 \<and> bit (c_flags co) n"
  "bit (c_flags (callout_ack co)) n \<longleftrightarrow> n \<noteq> 3 \<and> bit (c_flags co) n"
  by (auto simp: callout_init_def callout_setfunc_def callout_schedule_def callout_reset_def
      callout_stop_def callout_halt_def callout_ack_def Let_def split_beta
      bit_and_iff bit_or_iff bit_not_iff dest: bit_imp_le_length)

lemma wrapper_func_bits:
  assumes "c_func co = Some f"
  shows "\<exists>co'. wrapper_func call co = call f (c_arg co) co' \<and>
    c_func co' = c_func co \<and> c_arg co' = c_arg co \<and> timer co' = timer co \<and>
    (\<forall>n. bit (c_flags co') n \<longleftrightarrow> n = 2 \<or> n = 3 \<or> n \<noteq> 1 \<and> bit (c_flags co) n)"
proof -
  let ?co' = "co\<lparr> c_flags := (c_flags co AND NOT CALLOUT_PENDING) OR (CALLOUT_FIRED OR CALLOUT_INVOKING) \<rparr>"
  have "\<forall>n. bit (c_flags ?co') n \<longleftrightarrow> n = 2 \<or> n = 3 \<or> n \<noteq> 1 \<and> bit (c_flags co) n"
    by (auto simp: bit_and_iff bit_or_iff bit_not_iff dest: bit_imp_le_length)
  moreover have "wrapper_func call co = call f (c_arg co) ?co'"
    using assms by (simp add: wrapper_func_def)
  ultimately show ?thesis by (intro exI [of _ ?co']) simp
qed

section \<open>The state machine of a callout\<close>

text \<open>One operation on a callout.  \<^term>\<open>Fire\<close> is the expiry of the timer, with a handler
  that first does nothing, or re-arms the callout, or stops it, and then may
  acknowledge the invocation, as the protocol timers do.\<close>

datatype ('f, 'p) handler = Plain | Rearm int | Cancel

datatype ('f, 'p) callout_op =
    SetFunc "'f option" "'p option"
  | Reset int "'f option" "'p option"
  | Schedule int
  | Stop
  | Halt
  | Ack
  | Fire "('f, 'p) handler" bool

record 't timer_ops =
  t_init :: "'t \<Rightarrow> 't"
  t_reset :: "'t \<Rightarrow> int \<Rightarrow> int \<times> 't"
  t_stop :: "'t \<Rightarrow> int \<times> 't"

definition run_handler ::
  "'t timer_ops \<Rightarrow> clock \<Rightarrow> ('f, 'p) handler \<Rightarrow> bool
   \<Rightarrow> ('t, 'f, 'p) callout_impl \<Rightarrow> ('t, 'f, 'p) callout_impl" where
  "run_handler ops clk h ack co =
     (let co = (case h of Plain \<Rightarrow> co
                | Rearm d \<Rightarrow> callout_schedule (t_reset ops) clk co d
                | Cancel \<Rightarrow> snd (callout_stop (t_stop ops) co))
      in if ack then callout_ack co else co)"

inductive callout_step ::
  "'t timer_ops \<Rightarrow> clock \<Rightarrow> ('t, 'f, 'p) callout_impl \<Rightarrow> ('f, 'p) callout_op \<Rightarrow> ('t, 'f, 'p) callout_impl \<Rightarrow> bool"
  for ops clk where
  "callout_step ops clk co (SetFunc f a) (callout_setfunc co f a)"
| "callout_step ops clk co (Reset d f a) (callout_reset (t_reset ops) clk co d f a)"
| "callout_step ops clk co (Schedule d) (callout_schedule (t_reset ops) clk co d)"
| "callout_step ops clk co Stop (snd (callout_stop (t_stop ops) co))"
| "callout_step ops clk co Halt (snd (callout_halt (t_stop ops) co))"
| "callout_step ops clk co Ack (callout_ack co)"
| "callout_pending co \<Longrightarrow>
   callout_step ops clk co (Fire h ack) (wrapper_func (\<lambda>f a. run_handler ops clk h ack) co)"

inductive callout_reachable :: "'t timer_ops \<Rightarrow> clock \<Rightarrow> ('t, 'f, 'p) callout_impl \<Rightarrow> bool"
  for ops clk where
  "callout_reachable ops clk (callout_init (t_init ops) co)"
| "callout_reachable ops clk co \<Longrightarrow> callout_step ops clk co p co' \<Longrightarrow> callout_reachable ops clk co'"

definition callout_inv :: "('t, 'f, 'p) callout_impl \<Rightarrow> bool" where
  "callout_inv co \<longleftrightarrow> \<not> (callout_pending co \<and> callout_expired co)"

lemma callout_inv_bits: "callout_inv co \<longleftrightarrow> \<not> (bit (c_flags co) 1 \<and> bit (c_flags co) 2)"
  by (simp add: callout_inv_def callout_bits)

lemma run_handler_inv: "callout_inv co \<Longrightarrow> callout_inv (run_handler ops clk h ack co)"
  by (cases h) (auto simp: run_handler_def callout_inv_bits Let_def)

lemma callout_step_inv:
  assumes "callout_step ops clk co p co'" "callout_inv co"
  shows "callout_inv co'"
  using assms
proof induction
  case (7 co h ack)
  show ?case
  proof (cases "c_func co")
    case None
    with 7 show ?thesis by (simp add: wrapper_func_def)
  next
    case (Some f)
    then obtain c where c: "wrapper_func (\<lambda>f a. run_handler ops clk h ack) co = run_handler ops clk h ack c"
      "\<forall>n. bit (c_flags c) n \<longleftrightarrow> n = 2 \<or> n = 3 \<or> n \<noteq> 1 \<and> bit (c_flags co) n"
      using wrapper_func_bits [OF Some, of "\<lambda>f a. run_handler ops clk h ack"] by auto
    then have "callout_inv c" by (simp add: callout_inv_bits)
    with 7 c show ?thesis by (simp add: run_handler_inv)
  qed
qed (simp_all add: callout_inv_bits)

text \<open>
  C36. Whatever is done to a callout after its initialisation (setting the
  function, arming it, stopping or halting it, acknowledging it, and firing with
  a handler that may re-arm or cancel it), it is never pending and expired at
  once, so a callout is active exactly when it is one of the two.
\<close>

theorem callout_never_pending_and_expired:
  assumes "callout_reachable ops clk co"
  shows "\<not> (callout_pending co \<and> callout_expired co) \<and>
         (callout_active co \<longleftrightarrow> callout_pending co \<noteq> callout_expired co)"
proof -
  from assms have "callout_inv co"
    by induction (auto simp: callout_inv_bits [of "callout_init _ _"] intro: callout_step_inv)
  then show ?thesis by (auto simp: callout_inv_bits callout_bits)
qed

text \<open>A timer that only counts how often it was armed.\<close>

definition count_timer :: "nat timer_ops" where
  "count_timer = \<lparr> t_init = \<lambda>_. 0, t_reset = \<lambda>t _. (0, Suc t), t_stop = \<lambda>t. (0, t) \<rparr>"

definition idle_callout :: "(nat, unit, unit) callout_impl" where
  "idle_callout = \<lparr> timer = 0, c_func = None, c_arg = None, c_cpu = 0, c_time = 0,
                     c_flags = 0, c_magic = 0 \<rparr>"

definition armed_callout :: "(nat, unit, unit) callout_impl" where
  "armed_callout = callout_reset (t_reset count_timer) \<lparr> timer_hz = 2000, kern_hz = 100 \<rparr>
     (callout_init (t_init count_timer) idle_callout) 5 (Some ()) None"

theorem callout_never_pending_and_expired_witness:
  "callout_pending armed_callout \<and> \<not> callout_expired armed_callout \<and> callout_active armed_callout"
proof -
  let ?clk = "\<lparr> timer_hz = 2000, kern_hz = 100 \<rparr>"
  have "callout_step count_timer ?clk (callout_init (t_init count_timer) idle_callout)
      (Reset 5 (Some ()) None) armed_callout"
    unfolding armed_callout_def by (rule callout_step.intros)
  then have "callout_reachable count_timer ?clk armed_callout"
    by (rule callout_reachable.intros(2) [OF callout_reachable.intros(1)])
  from callout_never_pending_and_expired [OF this] show ?thesis
    by (auto simp: callout_bits armed_callout_def)
qed

text \<open>
  Firing.  When the timer of a callout with a function expires, the handler
  runs on a callout that is expired, invoking and no longer pending; a handler
  that re-arms the callout leaves it pending, not expired and not invoking, so
  the new deadline is not lost.
\<close>

theorem wrapper_func_rearm_kept:
  assumes "c_func co = Some f"
  shows "(let co' = wrapper_func (\<lambda>_ _ c. c) co
          in callout_expired co' \<and> callout_invoking co' \<and> \<not> callout_pending co') \<and>
         (let co' = wrapper_func (\<lambda>_ _ c. callout_schedule reset clk c d) co
          in callout_pending co' \<and> \<not> callout_expired co' \<and> \<not> callout_invoking co' \<and>
             timer co' = snd (reset (timer co) (int (timer_hz clk div kern_hz clk) * d)))"
proof -
  obtain c where c: "wrapper_func (\<lambda>_ _ c. c) co = c"
    "\<forall>n. bit (c_flags c) n \<longleftrightarrow> n = 2 \<or> n = 3 \<or> n \<noteq> 1 \<and> bit (c_flags co) n"
    using wrapper_func_bits [OF assms, of "\<lambda>_ _ c. c"] by auto
  obtain c' where c': "wrapper_func (\<lambda>_ _ c. callout_schedule reset clk c d) co =
      callout_schedule reset clk c' d" "timer c' = timer co"
    using wrapper_func_bits [OF assms, of "\<lambda>_ _ c. callout_schedule reset clk c d"] by auto
  have "timer (callout_schedule reset clk c' d) =
      snd (reset (timer c') (int (timer_hz clk div kern_hz clk) * d))"
    by (simp add: callout_schedule_def Let_def)
  with c c' show ?thesis by (simp add: callout_bits)
qed

theorem wrapper_func_rearm_kept_witness:
  "callout_pending (wrapper_func (\<lambda>_ _ c. callout_schedule (t_reset count_timer)
      \<lparr> timer_hz = 2000, kern_hz = 100 \<rparr> c 7) armed_callout)"
proof -
  have "c_func armed_callout = Some ()"
    by (simp add: armed_callout_def callout_reset_def Let_def)
  from wrapper_func_rearm_kept [OF this, of "t_reset count_timer" "\<lparr> timer_hz = 2000, kern_hz = 100 \<rparr>" 7]
  show ?thesis by (simp add: Let_def)
qed

end
