(* ===== verification/Softint.thy ===== *)
theory Softint
  imports Prelude
begin

text \<open>
  Software interrupts (\<^verbatim>\<open>netbsd/porting/kern/kern_softint.c\<close>): the list of scheduled
  network interrupt handlers and the loop that runs them.  The handlers
  (\<^verbatim>\<open>arpintr\<close>, \<^verbatim>\<open>ipintr\<close>) belong to the protocols; \<^term>\<open>call\<close> says what the code behind
  a function pointer does to the state.
\<close>

section \<open>Data\<close>

datatype isr_code = Arpintr | Ipintr

record netisrs =
  cbk :: "isr_code option"
  scheduled :: int

record ('f, 'p) iface_data =
  if_cbk :: 'f
  if_arg :: 'p

text \<open>The handler table, the list of scheduled entries (by their index in the table),
  the established interfaces, and whatever state the handlers work on.\<close>

record ('f, 'p, 'w) softint =
  netisr_cb :: "netisrs list"
  netisrs_list :: "nat list"
  iflist :: "('f, 'p) iface_data list"
  world :: 'w

abbreviation NETISR_IP :: nat where "NETISR_IP \<equiv> 2"
abbreviation NETISR_IPV6 :: nat where "NETISR_IPV6 \<equiv> 24"
abbreviation NETISR_ARP :: nat where "NETISR_ARP \<equiv> 28"
abbreviation NETISR_MAX :: nat where "NETISR_MAX \<equiv> 35"

section \<open>Operations\<close>

definition softint_init :: "('f, 'p, 'w) softint \<Rightarrow> ('f, 'p, 'w) softint" where
  "softint_init s =
     s\<lparr> iflist := [], netisrs_list := [],
        netisr_cb := (replicate NETISR_MAX \<lparr> cbk = None, scheduled = 0 \<rparr>)
                       [NETISR_ARP := \<lparr> cbk = Some Arpintr, scheduled = 0 \<rparr>,
                        NETISR_IP := \<lparr> cbk = Some Ipintr, scheduled = 0 \<rparr>] \<rparr>"

definition softint_establish ::
  "bool \<Rightarrow> ('f, 'p, 'w) softint \<Rightarrow> 'f \<Rightarrow> 'p \<Rightarrow> ('f, 'p) iface_data option \<times> ('f, 'p, 'w) softint" where
  "softint_establish malloc_ok s func arg =
     (if \<not> malloc_ok then (None, s)
      else let d = \<lparr> if_cbk = func, if_arg = arg \<rparr>
           in (Some d, s\<lparr> iflist := iflist s @ [d] \<rparr>))"

definition softint_schedule ::
  "('f \<Rightarrow> 'p \<Rightarrow> ('f, 'p, 'w) softint \<Rightarrow> ('f, 'p, 'w) softint)
   \<Rightarrow> ('f, 'p) iface_data \<Rightarrow> ('f, 'p, 'w) softint \<Rightarrow> ('f, 'p, 'w) softint" where
  "softint_schedule ifcall d s = ifcall (if_cbk d) (if_arg d) s"

definition schednetisr :: "nat \<Rightarrow> ('f, 'p, 'w) softint \<Rightarrow> ('f, 'p, 'w) softint" where
  "schednetisr isr s =
     (if scheduled (netisr_cb s ! isr) \<noteq> 0 then s
      else s\<lparr> netisrs_list := netisrs_list s @ [isr],
              netisr_cb := (netisr_cb s)[isr := (netisr_cb s ! isr)\<lparr> scheduled := 1 \<rparr>] \<rparr>)"

text \<open>One round of the loop: the first entry leaves the list before its handler runs.\<close>

definition softint_unlink :: "nat \<Rightarrow> ('f, 'p, 'w) softint \<Rightarrow> ('f, 'p, 'w) softint" where
  "softint_unlink i s =
     s\<lparr> netisrs_list := remove1 i (netisrs_list s),
        netisr_cb := (netisr_cb s)[i := (netisr_cb s ! i)\<lparr> scheduled := 0 \<rparr>] \<rparr>"

text \<open>The loop runs until the list is empty; \<^const>\<open>None\<close> stands for a run that does not
  end or that calls through a null pointer.\<close>

partial_function (option) softint_run ::
  "(isr_code \<Rightarrow> ('f, 'p, 'w) softint \<Rightarrow> ('f, 'p, 'w) softint)
   \<Rightarrow> ('f, 'p, 'w) softint \<Rightarrow> ('f, 'p, 'w) softint option" where
  [code]: "softint_run call s =
     (case netisrs_list s of
        [] \<Rightarrow> Some s
      | i # _ \<Rightarrow>
          (case cbk (netisr_cb s ! i) of
             None \<Rightarrow> None
           | Some f \<Rightarrow> softint_run call (call f (softint_unlink i s))))"

section \<open>The invariant\<close>

text \<open>The list has no duplicates and holds exactly the entries marked as scheduled.\<close>

definition softint_inv :: "('f, 'p, 'w) softint \<Rightarrow> bool" where
  "softint_inv s \<longleftrightarrow>
     length (netisr_cb s) = NETISR_MAX \<and> distinct (netisrs_list s) \<and>
     (\<forall>i\<in>set (netisrs_list s). i < NETISR_MAX) \<and>
     (\<forall>i<NETISR_MAX. scheduled (netisr_cb s ! i) \<noteq> 0 \<longleftrightarrow> i \<in> set (netisrs_list s))"

text \<open>Every scheduled entry has a handler.\<close>

definition softint_handled :: "('f, 'p, 'w) softint \<Rightarrow> bool" where
  "softint_handled s \<longleftrightarrow> (\<forall>i\<in>set (netisrs_list s). cbk (netisr_cb s ! i) \<noteq> None)"

lemma softint_init_inv: "softint_inv (softint_init s)" "softint_handled (softint_init s)"
  by (auto simp: softint_inv_def softint_init_def softint_handled_def nth_list_update)

lemma schednetisr_inv: "softint_inv s \<Longrightarrow> isr < NETISR_MAX \<Longrightarrow> softint_inv (schednetisr isr s)"
  by (auto simp: softint_inv_def schednetisr_def nth_list_update)

lemma softint_unlink_inv:
  "softint_inv s \<Longrightarrow> i \<in> set (netisrs_list s) \<Longrightarrow> softint_inv (softint_unlink i s)"
  by (auto simp: softint_inv_def softint_unlink_def nth_list_update dest: notin_set_remove1)

lemma softint_unlink_handled:
  "softint_inv s \<Longrightarrow> softint_handled s \<Longrightarrow> i \<in> set (netisrs_list s) \<Longrightarrow>
   softint_handled (softint_unlink i s)"
  by (auto simp: softint_inv_def softint_handled_def softint_unlink_def nth_list_update
      dest: notin_set_remove1)


definition empty_softint :: "(unit, unit, nat) softint" where
  "empty_softint = \<lparr> netisr_cb = [], netisrs_list = [], iflist = [], world = 3 \<rparr>"


text \<open>
  C38. The loop ends.  Suppose every handler keeps the invariant, schedules only
  entries that have a handler, and either reduces the amount of work left (it
  consumes a packet) or schedules nothing.  Then \<open>softint_run\<close> returns, with an
  empty list and the invariant.
\<close>

theorem softint_run_terminates:
  assumes "softint_inv s" "softint_handled s"
    and "\<And>f t. softint_inv t \<Longrightarrow> softint_handled t \<Longrightarrow>
           softint_inv (call f t) \<and> softint_handled (call f t) \<and>
           (work (call f t) < (work t :: nat) \<or>
            work (call f t) = work t \<and> netisrs_list (call f t) = netisrs_list t)"
    and "\<And>t i. work (softint_unlink i t) = work t"
  shows "\<exists>s'. softint_run call s = Some s' \<and> netisrs_list s' = [] \<and> softint_inv s'"
  using assms(1,2)
proof (induction s rule: wf_induct_rule
    [OF wf_inv_image [OF wf_lex_prod [OF wf_less wf_less], of "\<lambda>s. (work s, length (netisrs_list s))"]])
  case (1 s)
  show ?case
  proof (cases "netisrs_list s")
    case Nil
    with 1 show ?thesis by (simp add: softint_run.simps)
  next
    case (Cons i rest)
    then obtain f where f: "cbk (netisr_cb s ! i) = Some f"
      using 1(3) by (auto simp: softint_handled_def)
    let ?t = "softint_unlink i s"
    have inv: "softint_inv ?t" "softint_handled ?t"
      using 1 Cons by (auto intro: softint_unlink_inv softint_unlink_handled)
    have dec: "length (netisrs_list ?t) < length (netisrs_list s)"
      using Cons by (simp add: softint_unlink_def)
    have "\<exists>s'. softint_run call (call f ?t) = Some s' \<and> netisrs_list s' = [] \<and> softint_inv s'"
      using assms(3) [OF inv, of f] assms(4) [of i s] dec by (intro 1(1)) auto
    then show ?thesis
      using Cons f by (simp add: softint_run.simps [of call s])
  qed
qed

text \<open>A handler that takes one packet and schedules the next while there are any.\<close>

definition drain_call :: "isr_code \<Rightarrow> (unit, unit, nat) softint \<Rightarrow> (unit, unit, nat) softint" where
  "drain_call f s =
     (if world s = 0 then s
      else if softint_inv s \<and> softint_handled s \<and> cbk (netisr_cb s ! NETISR_IP) \<noteq> None
           then (schednetisr NETISR_IP s)\<lparr> world := world s - 1 \<rparr>
           else s\<lparr> world := world s - 1 \<rparr>)"

lemma drain_call_ok:
  assumes "softint_inv s" "softint_handled s"
  shows "softint_inv (drain_call f s) \<and> softint_handled (drain_call f s) \<and>
    (world (drain_call f s) < world s \<or>
     world (drain_call f s) = world s \<and> netisrs_list (drain_call f s) = netisrs_list s)"
proof -
  have "softint_handled (schednetisr NETISR_IP s)" if "cbk (netisr_cb s ! NETISR_IP) \<noteq> None"
    using assms that by (auto simp: softint_inv_def softint_handled_def schednetisr_def nth_list_update)
  then show ?thesis
    using assms schednetisr_inv [OF assms(1), of NETISR_IP]
    by (auto simp: drain_call_def softint_inv_def softint_handled_def)
qed

theorem softint_run_terminates_witness:
  "\<exists>s'. softint_run drain_call (schednetisr NETISR_IP (softint_init empty_softint)) = Some s' \<and>
        netisrs_list s' = []"
proof -
  let ?s = "schednetisr NETISR_IP (softint_init empty_softint)"
  have inv: "softint_inv ?s"
    by (simp add: schednetisr_inv softint_init_inv)
  have handled: "softint_handled ?s"
    by (simp add: softint_handled_def schednetisr_def softint_init_def nth_list_update)
  show ?thesis
    using softint_run_terminates [OF inv handled, of drain_call world, OF drain_call_ok]
    by (auto simp: softint_unlink_def)
qed

end
