(* ===== verification/Poll.thy ===== *)
theory Poll
  imports Prelude
begin

text \<open>
  The periodic routine of the service (\<^verbatim>\<open>netbsd/porting/rte_wrappers/rte_wrappers.c\<close>,
  \<^verbatim>\<open>app_glue_init_poll_intervals\<close> and \<^verbatim>\<open>app_glue_periodic\<close>): how often the driver, the
  timers and the queues of ready sockets are served.  Time stamps are unsigned
  64-bit words.  The routines it calls are given by a record of functions on the
  whole state, of which this theory sees only the polling part.
\<close>

section \<open>Data\<close>


record poll_state =
  app_glue_drv_poll_interval :: u64
  app_glue_timer_poll_interval :: u64
  app_glue_tx_ready_sockets_poll_interval :: u64
  app_glue_rx_ready_sockets_poll_interval :: u64
  app_glue_drv_last_poll_ts :: u64
  app_glue_timer_last_poll_ts :: u64
  app_glue_tx_ready_sockets_last_poll_ts :: u64
  app_glue_rx_ready_sockets_last_poll_ts :: u64
  app_glue_periodic_called :: u64
  app_glue_tx_queues_process :: u64
  app_glue_rx_queues_process :: u64
  working_cycles_stat :: u64
  total_cycles_stat :: u64
  tsc_reads :: nat

text \<open>What the routine calls: \<^verbatim>\<open>rte_rdtsc\<close> (the value of the n-th reading of the cycle
  counter), \<^verbatim>\<open>app_glue_poll\<close> on a port, \<^verbatim>\<open>rte_timer_manage\<close>,
  \<^verbatim>\<open>process_tx_ready_sockets\<close>, \<^verbatim>\<open>process_rx_ready_sockets\<close> and \<^verbatim>\<open>softint_run\<close>.\<close>

record 's poll_calls =
  pc_clock :: "nat \<Rightarrow> u64"
  pc_poll :: "nat \<Rightarrow> 's \<Rightarrow> 's"
  pc_timer_manage :: "'s \<Rightarrow> 's"
  pc_process_tx :: "'s \<Rightarrow> 's"
  pc_process_rx :: "'s \<Rightarrow> 's"
  pc_softint_run :: "'s \<Rightarrow> 's"

section \<open>Operations\<close>

text \<open>The intervals are microseconds times cycles per microsecond; the C code computes
  the product in single precision, which is the parameter \<^term>\<open>fmul\<close>.\<close>

definition app_glue_init_poll_intervals ::
  "(nat \<Rightarrow> int \<Rightarrow> u64) \<Rightarrow> nat \<Rightarrow> int \<Rightarrow> int \<Rightarrow> int \<Rightarrow> int \<Rightarrow> 'a poll_state_scheme \<Rightarrow> 'a poll_state_scheme" where
  "app_glue_init_poll_intervals fmul tsc_hz drv tmr tx rx s =
     (let cycles_in_micro = tsc_hz div 1000000
      in s\<lparr> app_glue_drv_poll_interval := fmul cycles_in_micro drv,
            app_glue_timer_poll_interval := fmul cycles_in_micro tmr,
            app_glue_tx_ready_sockets_poll_interval := fmul cycles_in_micro tx,
            app_glue_rx_ready_sockets_poll_interval := fmul cycles_in_micro rx \<rparr>)"

definition rte_rdtsc :: "'a poll_state_scheme poll_calls \<Rightarrow> 'a poll_state_scheme \<Rightarrow> u64 \<times> 'a poll_state_scheme" where
  "rte_rdtsc pc s = (pc_clock pc (tsc_reads s), s\<lparr> tsc_reads := Suc (tsc_reads s) \<rparr>)"

text \<open>A piece of work between two readings of the cycle counter, whose difference is
  added to the statistics.\<close>

definition timed :: "'a poll_state_scheme poll_calls \<Rightarrow> ('a poll_state_scheme \<Rightarrow> 'a poll_state_scheme)
    \<Rightarrow> 'a poll_state_scheme \<Rightarrow> 'a poll_state_scheme" where
  "timed pc f s =
     (let (ts0, s) = rte_rdtsc pc s;
          s = f s;
          (ts1, s) = rte_rdtsc pc s
      in s\<lparr> working_cycles_stat := working_cycles_stat s + (ts1 - ts0) \<rparr>)"

definition periodic_drv :: "'a poll_state_scheme poll_calls \<Rightarrow> nat list \<Rightarrow> u64
    \<Rightarrow> 'a poll_state_scheme \<Rightarrow> 'a poll_state_scheme" where
  "periodic_drv pc ports ts s =
     (if ts - app_glue_drv_last_poll_ts s \<ge> app_glue_drv_poll_interval s
      then timed pc (\<lambda>s. (fold (pc_poll pc) ports s)\<lparr> app_glue_drv_last_poll_ts := ts \<rparr>) s
      else s)"

definition periodic_timer :: "'a poll_state_scheme poll_calls \<Rightarrow> u64
    \<Rightarrow> 'a poll_state_scheme \<Rightarrow> 'a poll_state_scheme" where
  "periodic_timer pc ts s =
     (if ts - app_glue_timer_last_poll_ts s \<ge> app_glue_timer_poll_interval s
      then timed pc (\<lambda>s. (pc_timer_manage pc s)\<lparr> app_glue_timer_last_poll_ts := ts \<rparr>) s
      else s)"

definition periodic_tx :: "'a poll_state_scheme poll_calls \<Rightarrow> u64
    \<Rightarrow> 'a poll_state_scheme \<Rightarrow> 'a poll_state_scheme" where
  "periodic_tx pc ts s =
     (if ts - app_glue_tx_ready_sockets_last_poll_ts s \<ge> app_glue_tx_ready_sockets_poll_interval s
      then let s = timed pc (\<lambda>s. pc_process_tx pc
                     (s\<lparr> app_glue_tx_queues_process := app_glue_tx_queues_process s + 1 \<rparr>)) s
           in s\<lparr> app_glue_tx_ready_sockets_last_poll_ts := ts \<rparr>
      else s)"

definition periodic_rx :: "'a poll_state_scheme poll_calls \<Rightarrow> u64
    \<Rightarrow> 'a poll_state_scheme \<Rightarrow> 'a poll_state_scheme" where
  "periodic_rx pc ts s =
     (if ts - app_glue_rx_ready_sockets_last_poll_ts s \<ge> app_glue_rx_ready_sockets_poll_interval s
      then let s = timed pc (\<lambda>s. pc_process_rx pc
                     (s\<lparr> app_glue_rx_queues_process := app_glue_rx_queues_process s + 1 \<rparr>)) s
           in s\<lparr> app_glue_rx_ready_sockets_last_poll_ts := ts \<rparr>
      else s)"

text \<open>The ports to poll are at most 255, the range of the loop counter.\<close>

definition app_glue_periodic :: "'a poll_state_scheme poll_calls \<Rightarrow> bool \<Rightarrow> nat list
    \<Rightarrow> 'a poll_state_scheme \<Rightarrow> 'a poll_state_scheme" where
  "app_glue_periodic pc call_flush_queues ports_to_poll s =
     (let s = s\<lparr> app_glue_periodic_called := app_glue_periodic_called s + 1 \<rparr>;
          (ts, s) = rte_rdtsc pc s;
          s = periodic_drv pc ports_to_poll ts s;
          ts = (app_glue_timer_last_poll_ts s + app_glue_timer_poll_interval s) + 1;
          s = periodic_timer pc ts s;
          s = (if call_flush_queues
               then periodic_rx pc ts (periodic_tx pc ts s)
               else s\<lparr> app_glue_tx_ready_sockets_last_poll_ts := ts,
                       app_glue_rx_ready_sockets_last_poll_ts := ts \<rparr>);
          (now, s) = rte_rdtsc pc s;
          s = s\<lparr> total_cycles_stat := total_cycles_stat s + (now - ts) \<rparr>
      in pc_softint_run pc s)"

section \<open>What a call does to the time stamps\<close>

text \<open>The routines called do not touch the polling state: none of them is in the file
  that declares these static variables.\<close>

definition keeps_poll :: "('a poll_state_scheme \<Rightarrow> 'a poll_state_scheme) \<Rightarrow> bool" where
  "keeps_poll f \<longleftrightarrow> (\<forall>s. poll_state.truncate (f s) = poll_state.truncate s)"

definition poll_calls_ok :: "'a poll_state_scheme poll_calls \<Rightarrow> bool" where
  "poll_calls_ok pc \<longleftrightarrow>
     (\<forall>p. keeps_poll (pc_poll pc p)) \<and> keeps_poll (pc_timer_manage pc) \<and>
     keeps_poll (pc_process_tx pc) \<and> keeps_poll (pc_process_rx pc) \<and> keeps_poll (pc_softint_run pc)"

lemma keeps_poll_fields:
  assumes "keeps_poll f"
  shows "app_glue_drv_poll_interval (f s) = app_glue_drv_poll_interval s"
    "app_glue_timer_poll_interval (f s) = app_glue_timer_poll_interval s"
    "app_glue_tx_ready_sockets_poll_interval (f s) = app_glue_tx_ready_sockets_poll_interval s"
    "app_glue_rx_ready_sockets_poll_interval (f s) = app_glue_rx_ready_sockets_poll_interval s"
    "app_glue_timer_last_poll_ts (f s) = app_glue_timer_last_poll_ts s"
    "app_glue_tx_ready_sockets_last_poll_ts (f s) = app_glue_tx_ready_sockets_last_poll_ts s"
    "app_glue_rx_ready_sockets_last_poll_ts (f s) = app_glue_rx_ready_sockets_last_poll_ts s"
    "app_glue_tx_queues_process (f s) = app_glue_tx_queues_process s"
    "app_glue_rx_queues_process (f s) = app_glue_rx_queues_process s"
  using assms unfolding keeps_poll_def poll_state.defs poll_state.ext_inject by simp_all

lemma keeps_poll_fold: "(\<And>p. keeps_poll (f p)) \<Longrightarrow> keeps_poll (fold f ps)"
  by (induction ps) (auto simp: keeps_poll_def)

text \<open>One side of the queues of ready sockets: the gap since it was last served, its
  interval and its counter.\<close>

record side =
  sd_last :: u64
  sd_interval :: u64
  sd_count :: u64

definition tx_side :: "'a poll_state_scheme \<Rightarrow> side" where
  "tx_side s = \<lparr> sd_last = app_glue_tx_ready_sockets_last_poll_ts s,
                 sd_interval = app_glue_tx_ready_sockets_poll_interval s,
                 sd_count = app_glue_tx_queues_process s \<rparr>"

definition rx_side :: "'a poll_state_scheme \<Rightarrow> side" where
  "rx_side s = \<lparr> sd_last = app_glue_rx_ready_sockets_last_poll_ts s,
                 sd_interval = app_glue_rx_ready_sockets_poll_interval s,
                 sd_count = app_glue_rx_queues_process s \<rparr>"

definition side_step :: "u64 \<Rightarrow> side \<Rightarrow> side" where
  "side_step ts d =
     (if ts - sd_last d \<ge> sd_interval d
      then d\<lparr> sd_last := ts, sd_count := sd_count d + 1 \<rparr> else d)"

lemma timer_due: "(i :: u64) \<noteq> - 1 \<Longrightarrow> i \<le> i + 1"
  using unatSuc [of i] by (simp add: word_le_nat_alt add.commute eq_neg_iff_add_eq_0)

lemma periodic_drv_interval:
  "keeps_poll (fold (pc_poll pc) ports) \<Longrightarrow>
   app_glue_timer_poll_interval (periodic_drv pc ports ts s) = app_glue_timer_poll_interval s"
  by (simp add: periodic_drv_def timed_def rte_rdtsc_def keeps_poll_fields)

lemma app_glue_periodic_step:
  fixes s :: "'a poll_state_scheme" and ports :: "nat list"
  assumes "poll_calls_ok pc" "app_glue_timer_poll_interval s \<noteq> - 1"
  defines "ts \<equiv> app_glue_timer_last_poll_ts s + app_glue_timer_poll_interval s + 1"
    and "s' \<equiv> app_glue_periodic pc True ports s"
  shows "app_glue_timer_last_poll_ts s' = ts \<and>
    app_glue_timer_poll_interval s' = app_glue_timer_poll_interval s \<and>
    tx_side s' = side_step ts (tx_side s) \<and> rx_side s' = side_step ts (rx_side s)"
proof -
  have k: "keeps_poll (fold (pc_poll pc) ports)" "keeps_poll (pc_timer_manage pc)"
    "keeps_poll (pc_process_tx pc)" "keeps_poll (pc_process_rx pc)" "keeps_poll (pc_softint_run pc)"
    using assms(1) by (auto simp: poll_calls_ok_def intro: keeps_poll_fold)
  note f = k [THEN keeps_poll_fields(1)] k [THEN keeps_poll_fields(2)] k [THEN keeps_poll_fields(3)]
    k [THEN keeps_poll_fields(4)] k [THEN keeps_poll_fields(5)] k [THEN keeps_poll_fields(6)]
    k [THEN keeps_poll_fields(7)] k [THEN keeps_poll_fields(8)] k [THEN keeps_poll_fields(9)]
  note due = timer_due [OF assms(2)]
  show ?thesis
    unfolding s'_def app_glue_periodic_def periodic_drv_def periodic_timer_def periodic_tx_def
      periodic_rx_def timed_def rte_rdtsc_def tx_side_def rx_side_def side_step_def ts_def
    by (simp add: Let_def f due)
qed

section \<open>How often the timers and the queues are served\<close>

text \<open>
  The timers are served exactly once in every call, whatever the cycle counter
  says: the code compares the last time stamp with itself plus the interval plus
  one, and stores that sum as the new time stamp.  The calls of
  \<^verbatim>\<open>rte_timer_manage\<close> are counted by an observer of the rest of the state that no
  other routine moves.
\<close>

theorem timers_served_every_call:
  fixes obs :: "'a \<Rightarrow> nat"
  assumes "poll_calls_ok pc" "app_glue_timer_poll_interval s \<noteq> - 1"
    and "\<And>s. obs (poll_state.more (pc_timer_manage pc s)) = obs (poll_state.more s) + 1"
    and "\<And>p s. obs (poll_state.more (pc_poll pc p s)) = obs (poll_state.more s)"
    and "\<And>s. obs (poll_state.more (pc_process_tx pc s)) = obs (poll_state.more s)"
    and "\<And>s. obs (poll_state.more (pc_process_rx pc s)) = obs (poll_state.more s)"
    and "\<And>s. obs (poll_state.more (pc_softint_run pc s)) = obs (poll_state.more s)"
  shows "obs (poll_state.more (app_glue_periodic pc True ports s)) = obs (poll_state.more s) + 1 \<and>
         app_glue_timer_last_poll_ts (app_glue_periodic pc True ports s) =
           app_glue_timer_last_poll_ts s + app_glue_timer_poll_interval s + 1"
proof -
  have fold: "obs (poll_state.more (fold (pc_poll pc) ps s)) = obs (poll_state.more s)" for ps s
    by (induction ps arbitrary: s) (auto simp: assms(4))
  have drv: "obs (poll_state.more (periodic_drv pc ports ts s)) = obs (poll_state.more s)" for ts s
    by (simp add: periodic_drv_def timed_def rte_rdtsc_def Let_def fold)
  have tx: "obs (poll_state.more (periodic_tx pc ts s)) = obs (poll_state.more s)" for ts s
    by (simp add: periodic_tx_def timed_def rte_rdtsc_def Let_def assms(5))
  have rx: "obs (poll_state.more (periodic_rx pc ts s)) = obs (poll_state.more s)" for ts s
    by (simp add: periodic_rx_def timed_def rte_rdtsc_def Let_def assms(6))
  have keep: "keeps_poll (fold (pc_poll pc) ports)"
    using assms(1) by (auto simp: poll_calls_ok_def intro: keeps_poll_fold)
  have tmr: "obs (poll_state.more (periodic_timer pc
        (app_glue_timer_last_poll_ts s1 + app_glue_timer_poll_interval s + 1) s1)) = obs (poll_state.more s1) + 1"
    if "app_glue_timer_poll_interval s1 = app_glue_timer_poll_interval s" for s1
    using that timer_due [OF assms(2)]
    by (simp add: periodic_timer_def timed_def rte_rdtsc_def Let_def assms(3))
  have "obs (poll_state.more (app_glue_periodic pc True ports s)) = obs (poll_state.more s) + 1"
    by (simp add: app_glue_periodic_def rte_rdtsc_def Let_def assms(7) rx tx tmr drv
        periodic_drv_interval [OF keep])
  then show ?thesis
    using app_glue_periodic_step [OF assms(1,2), of ports] by simp
qed

fun periodic_calls :: "'a poll_state_scheme poll_calls \<Rightarrow> nat list \<Rightarrow> nat \<Rightarrow> 'a poll_state_scheme \<Rightarrow> 'a poll_state_scheme" where
  "periodic_calls pc ports 0 s = s"
| "periodic_calls pc ports (Suc n) s = periodic_calls pc ports n (app_glue_periodic pc True ports s)"

text \<open>The gap of a side grows by the timer interval plus one in each call until it
  reaches the side's interval.\<close>

lemma side_served:
  fixes side_of :: "'a poll_state_scheme \<Rightarrow> side"
  assumes step: "\<And>s. app_glue_timer_poll_interval s = i \<Longrightarrow>
      app_glue_timer_last_poll_ts (app_glue_periodic pc True ports s) =
        app_glue_timer_last_poll_ts s + i + 1 \<and>
      app_glue_timer_poll_interval (app_glue_periodic pc True ports s) = i \<and>
      side_of (app_glue_periodic pc True ports s) =
        side_step (app_glue_timer_last_poll_ts s + i + 1) (side_of s)"
    and room: "unat (sd_interval (side_of s)) + unat i + 1 < 2 ^ 64"
    and int: "app_glue_timer_poll_interval s = i"
    and gap: "unat (app_glue_timer_last_poll_ts s - sd_last (side_of s)) \<le> unat (sd_interval (side_of s))"
    and enough: "unat (sd_interval (side_of s)) \<le>
      unat (app_glue_timer_last_poll_ts s - sd_last (side_of s)) + n * (unat i + 1)"
    and "0 < n"
  shows "\<exists>m. 0 < m \<and> m \<le> n \<and> sd_count (side_of (periodic_calls pc ports m s)) = sd_count (side_of s) + 1"
  using room int gap enough \<open>0 < n\<close>
proof (induction n arbitrary: s)
  case (Suc n)
  let ?s' = "app_glue_periodic pc True ports s"
  let ?ts = "app_glue_timer_last_poll_ts s + i + 1"
  let ?d = "side_of s"
  let ?g = "app_glue_timer_last_poll_ts s - sd_last ?d"
  have st: "app_glue_timer_last_poll_ts ?s' = ?ts" "app_glue_timer_poll_interval ?s' = i"
    "side_of ?s' = side_step ?ts ?d"
    using step [OF Suc.prems(2)] by auto
  have eq: "?ts - sd_last ?d = ?g + (i + 1)" by simp
  have i1: "unat (i + 1) = unat i + 1"
    using Suc.prems(1) by (simp add: unat_word_ariths)
  have new: "unat (?ts - sd_last ?d) = unat ?g + (unat i + 1)"
    using Suc.prems(1,3) i1 unfolding eq by (subst unat_add_lem [THEN iffD1]) auto
  show ?case
  proof (cases "sd_interval ?d \<le> ?ts - sd_last ?d")
    case True
    then have "sd_count (side_of ?s') = sd_count ?d + 1"
      using st by (simp add: side_step_def)
    then show ?thesis by (intro exI [of _ 1]) simp
  next
    case False
    then have same: "side_of ?s' = ?d"
      using st by (simp add: side_step_def)
    have less: "unat (?ts - sd_last ?d) < unat (sd_interval ?d)"
      using False by (simp add: word_le_nat_alt)
    then have "0 < n" using Suc.prems(4) new by (cases n) auto
    moreover have "unat (sd_interval ?d) \<le> unat (?ts - sd_last ?d) + n * (unat i + 1)"
      using Suc.prems(4) new by simp
    ultimately obtain m where "0 < m" "m \<le> n"
      "sd_count (side_of (periodic_calls pc ports m ?s')) = sd_count ?d + 1"
      using Suc.IH [of ?s'] Suc.prems(1) st(1,2) same less by auto
    then show ?thesis by (intro exI [of _ "Suc m"]) simp
  qed
qed simp


text \<open>Calls that do nothing, on a state where both queues were just served.\<close>

definition idle_calls :: "poll_state poll_calls" where
  "idle_calls = \<lparr> pc_clock = (\<lambda>n. of_nat n), pc_poll = (\<lambda>_ s. s), pc_timer_manage = (\<lambda>s. s),
     pc_process_tx = (\<lambda>s. s), pc_process_rx = (\<lambda>s. s), pc_softint_run = (\<lambda>s. s) \<rparr>"

definition fresh_poll :: poll_state where
  "fresh_poll = \<lparr> app_glue_drv_poll_interval = 100, app_glue_timer_poll_interval = 20,
     app_glue_tx_ready_sockets_poll_interval = 90, app_glue_rx_ready_sockets_poll_interval = 10,
     app_glue_drv_last_poll_ts = 0, app_glue_timer_last_poll_ts = 0,
     app_glue_tx_ready_sockets_last_poll_ts = 0, app_glue_rx_ready_sockets_last_poll_ts = 0,
     app_glue_periodic_called = 0, app_glue_tx_queues_process = 0, app_glue_rx_queues_process = 0,
     working_cycles_stat = 0, total_cycles_stat = 0, tsc_reads = 0 \<rparr>"

lemma idle_calls_ok: "poll_calls_ok idle_calls"
  by (simp add: poll_calls_ok_def keeps_poll_def idle_calls_def)

text \<open>Calls on a state extended by a counter that only the timers move.\<close>

definition counting_calls :: "nat poll_state_scheme poll_calls" where
  "counting_calls = \<lparr> pc_clock = (\<lambda>n. 0), pc_poll = (\<lambda>_ s. s),
     pc_timer_manage = poll_state.more_update Suc,
     pc_process_tx = (\<lambda>s. s), pc_process_rx = (\<lambda>s. s), pc_softint_run = (\<lambda>s. s) \<rparr>"

theorem timers_served_every_call_witness:
  "poll_state.more (app_glue_periodic counting_calls True [0] (poll_state.extend fresh_poll 6)) = 7"
proof -
  have "poll_calls_ok counting_calls"
    by (simp add: poll_calls_ok_def keeps_poll_def counting_calls_def poll_state.defs)
  from timers_served_every_call [OF this, of "poll_state.extend fresh_poll 6" "\<lambda>n. n" "[0]"]
  show ?thesis
    by (simp add: counting_calls_def fresh_poll_def poll_state.defs)
qed


end
