(* ===== verification/Subr_Misc.thy ===== *)
theory Subr_Misc
  imports Prelude
begin

text \<open>
  Kernel support routines: hash tables (\<^verbatim>\<open>netbsd/porting/kern/subr_hash.c\<close>), which the
  protocol control blocks live in, and one-time initialisation
  (\<^verbatim>\<open>netbsd/porting/kern/subr_once.c\<close>).
\<close>

section \<open>Hash tables\<close>

type_synonym u_long = "64 word"

datatype hashtype = HASH_LIST | HASH_SLIST | HASH_TAILQ

text \<open>\<^verbatim>\<open>panic\<close> ends the program; \<^term>\<open>Hash_Table\<close> is the table of empty buckets together
  with the mask stored through \<^verbatim>\<open>hashmask\<close>.\<close>

datatype 'a hash_result = Hash_Panic | Hash_Null | Hash_Table "'a list list" u_long

definition MAXELEMENTS :: u32 where "MAXELEMENTS = push_bit 31 1"

text \<open>The sizes of the list heads, in bytes.\<close>

fun hash_esize :: "hashtype \<Rightarrow> nat" where
  "hash_esize HASH_LIST = 8"
| "hash_esize HASH_SLIST = 8"
| "hash_esize HASH_TAILQ = 16"

text \<open>The loop that doubles the size; \<^const>\<open>None\<close> is a loop that does not end.\<close>

partial_function (option) hash_grow :: "u_long \<Rightarrow> u_long \<Rightarrow> u_long option" where
  [code]: "hash_grow elements hashsize =
     (if hashsize < elements then hash_grow elements (push_bit 1 hashsize) else Some hashsize)"

definition hashinit :: "(nat \<Rightarrow> bool \<Rightarrow> bool) \<Rightarrow> u32 \<Rightarrow> hashtype \<Rightarrow> bool \<Rightarrow> 'a hash_result option" where
  "hashinit kmem_alloc_ok elements htype waitok =
     (if elements = 0 then Some Hash_Panic
      else let elements = (if elements > MAXELEMENTS then MAXELEMENTS else elements)
           in case hash_grow (ucast elements) 1 of
                None \<Rightarrow> None
              | Some hashsize \<Rightarrow>
                  if \<not> kmem_alloc_ok (unat hashsize * hash_esize htype) waitok then Some Hash_Null
                  else Some (Hash_Table (replicate (unat hashsize) []) (hashsize - 1)))"

text \<open>The number of bytes handed back to the allocator.\<close>

definition hashdone :: "hashtype \<Rightarrow> u_long \<Rightarrow> nat" where
  "hashdone htype hashmask = hash_esize htype * unat (hashmask + 1)"

lemma unat_exp64: "k < 64 \<Longrightarrow> unat ((2::u_long) ^ k) = 2 ^ k"
proof (induction k)
  case (Suc k)
  have "(2::nat) ^ Suc k < 2 ^ 64"
    using Suc.prems by (intro power_strict_increasing) auto
  with Suc show ?case by (simp add: unat_word_ariths)
qed simp

lemma hash_grow_pow2:
  assumes "unat e \<le> 2 ^ 31" "k \<le> 31" "k = 0 \<or> 2 ^ (k - 1) < unat e"
  shows "\<exists>j. k \<le> j \<and> j \<le> 31 \<and> hash_grow e (2 ^ k) = Some (2 ^ j) \<and> unat e \<le> 2 ^ j \<and>
             (j = 0 \<or> 2 ^ (j - 1) < unat e)"
  using assms(2,3)
proof (induction "31 - k" arbitrary: k)
  case 0
  then have "k = 31" by simp
  then have "\<not> (2 ^ k :: u_long) < e"
    using assms(1) unat_exp64 [of 31] by (simp add: word_less_nat_alt)
  then have "hash_grow e (2 ^ k) = Some (2 ^ k)"
    by (simp only: hash_grow.simps [of e "2 ^ k"] if_False)
  then show ?case using 0 assms(1) \<open>k = 31\<close> by (intro exI [of _ k]) simp
next
  case (Suc d)
  have u: "unat ((2::u_long) ^ k) = 2 ^ k"
    using Suc.prems by (intro unat_exp64) simp
  show ?case
  proof (cases "(2 ^ k :: u_long) < e")
    case True
    then have lt: "2 ^ k < unat e" using u by (simp add: word_less_nat_alt)
    moreover have d: "d = 31 - Suc k" and "k < 31" using Suc.hyps(2) by simp_all
    moreover have "hash_grow e (2 ^ k) = hash_grow e (2 ^ Suc k)"
      using True by (simp add: hash_grow.simps [of e "2 ^ k"] push_bit_eq_mult mult.commute)
    ultimately obtain j where "Suc k \<le> j" "j \<le> 31" "hash_grow e (2 ^ k) = Some (2 ^ j)" "unat e \<le> 2 ^ j"
      "j = 0 \<or> 2 ^ (j - 1) < unat e"
      using Suc.hyps(1) [OF d] by auto
    then show ?thesis by (intro exI [of _ j]) simp
  next
    case False
    then have "unat e \<le> 2 ^ k" using u by (simp add: word_less_nat_alt)
    with False Suc.prems show ?thesis
      by (intro exI [of _ k]) (simp add: hash_grow.simps [of e "2 ^ k"])
  qed
qed



section \<open>One-time initialisation\<close>

record once =
  o_status :: u32
  o_error :: int

abbreviation ONCE_VIRGIN :: u32 where "ONCE_VIRGIN \<equiv> 0"
abbreviation ONCE_RUNNING :: u32 where "ONCE_RUNNING \<equiv> 1"
abbreviation ONCE_DONE :: u32 where "ONCE_DONE \<equiv> 2"

text \<open>\<^term>\<open>fn\<close> is the initialisation: it works on the rest of the program's state and
  gives an error code.  \<^const>\<open>None\<close> is a failed assertion.\<close>

definition run_once :: "('w \<Rightarrow> int \<times> 'w) \<Rightarrow> once \<times> 'w \<Rightarrow> (int \<times> once \<times> 'w) option" where
  "run_once fn = (\<lambda>(u, w).
     let (u, w) =
       (if o_status u = ONCE_VIRGIN
        then let u = u\<lparr> o_status := ONCE_RUNNING \<rparr>;
                 (err, w) = fn w;
                 u = u\<lparr> o_error := err \<rparr>
             in (u\<lparr> o_status := ONCE_DONE \<rparr>, w)
        else (u, w))
     in if o_status u = ONCE_DONE then Some (o_error u, u, w) else None)"

definition RUN_ONCE :: "('w \<Rightarrow> int \<times> 'w) \<Rightarrow> once \<times> 'w \<Rightarrow> (int \<times> once \<times> 'w) option" where
  "RUN_ONCE fn = (\<lambda>(u, w).
     if o_status u = ONCE_DONE then Some (o_error u, u, w) else run_once fn (u, w))"

fun run_once_calls :: "('w \<Rightarrow> int \<times> 'w) \<Rightarrow> nat \<Rightarrow> once \<times> 'w \<Rightarrow> (int list \<times> once \<times> 'w) option" where
  "run_once_calls fn 0 uw = Some ([], uw)"
| "run_once_calls fn (Suc n) uw =
     (case RUN_ONCE fn uw of
        None \<Rightarrow> None
      | Some (e, u, w) \<Rightarrow>
          (case run_once_calls fn n (u, w) of
             None \<Rightarrow> None
           | Some (es, uw') \<Rightarrow> Some (e # es, uw')))"

lemma run_once_calls_done:
  "o_status u = ONCE_DONE \<Longrightarrow> run_once_calls fn n (u, w) = Some (replicate n (o_error u), u, w)"
  by (induction n) (simp_all add: RUN_ONCE_def)

text \<open>
  The initialisation runs exactly once: any positive number of calls of
  \<open>RUN_ONCE\<close> on a fresh control word applies it to the state once, and every call
  returns the error code of that one run.
\<close>

theorem RUN_ONCE_once:
  assumes "o_status u = ONCE_VIRGIN" "fn w = (e, w')"
  shows "run_once_calls fn (Suc n) (u, w) =
         Some (replicate (Suc n) e, \<lparr> o_status = ONCE_DONE, o_error = e \<rparr>, w')"
proof -
  have "RUN_ONCE fn (u, w) = Some (e, \<lparr> o_status = ONCE_DONE, o_error = e \<rparr>, w')"
    using assms by (cases u) (simp add: RUN_ONCE_def run_once_def)
  then show ?thesis by (simp add: run_once_calls_done)
qed

theorem RUN_ONCE_once_witness:
  "run_once_calls (\<lambda>n. (7, Suc n)) 3 (\<lparr> o_status = ONCE_VIRGIN, o_error = 0 \<rparr>, 0 :: nat) =
   Some ([7, 7, 7], \<lparr> o_status = ONCE_DONE, o_error = 7 \<rparr>, 1)"
  using RUN_ONCE_once [of "\<lparr> o_status = ONCE_VIRGIN, o_error = 0 \<rparr>" "\<lambda>n. (7, Suc n)" 0 7 1 2]
  by (simp add: eval_nat_numeral)

end
