(* ===== verification/Sockbuf.thy ===== *)
theory Sockbuf
  imports Mbuf
begin

unbundle bit_operations_syntax

text \<open>
  The buffers of a socket (\<^verbatim>\<open>netbsd/porting/kern/uipc_socket2.c\<close>, \<^verbatim>\<open>special_includes/sys/socketvar.h\<close>).
  A buffer is a queue of records, and a record is a chain of mbufs: the first
  mbufs of the records are linked through \<^term>\<open>m_nextpkt\<close>, the mbufs of a record through \<^term>\<open>m_next\<close>.  The
  operations take the structure \<^verbatim>\<open>sockbuf\<close> as a value and return it changed, together
  with the state of the mbufs.  Counters are 64-bit words, as in the source.  The
  function that the port calls when the send buffer changes
  (\<^verbatim>\<open>service_reflect_tx_socket_buf\<close>) is an argument of the operations that call it; what the
  proofs need of it is the locale \<open>tx_reflection\<close>.
\<close>

section \<open>Data\<close>

record sockbuf =
  sb_so :: addr
  sb_cc :: u64
  sb_hiwat :: u64
  sb_mbcnt :: u64
  sb_mbmax :: u64
  sb_lowat :: u64
  sb_mb :: "addr option"
  sb_mbtail :: "addr option"
  sb_lastrecord :: "addr option"
  sb_flags :: u32
  sb_timeo :: int
  sb_overflowed :: u64

record sbstate = mstate +
  sb_max :: u64
  sb_max_adj :: u64

definition SB_LOCK :: u32 where "SB_LOCK = 0x01"
definition SB_NOTIFY :: u32 where "SB_NOTIFY = 0x04"
definition SB_ASYNC :: u32 where "SB_ASYNC = 0x10"
definition SB_UPCALL :: u32 where "SB_UPCALL = 0x20"
definition SB_KNOTE :: u32 where "SB_KNOTE = 0x100"
definition SB_AUTOSIZE :: u32 where "SB_AUTOSIZE = 0x800"

abbreviation (input) MCLBYTES :: int where "MCLBYTES \<equiv> 2048"

section \<open>Counters and limits\<close>

definition sb_notify :: "sockbuf \<Rightarrow> bool" where
  "sb_notify sb \<longleftrightarrow> sb_flags sb AND (SB_NOTIFY OR SB_ASYNC OR SB_UPCALL OR SB_KNOTE) \<noteq> 0"

definition sbspace :: "sockbuf \<Rightarrow> int" where
  "sbspace sb = min (sint (sb_hiwat sb - sb_cc sb)) (sint (sb_mbmax sb - sb_mbcnt sb))"

definition sballoc :: "'a mstate_scheme \<Rightarrow> addr \<Rightarrow> sockbuf \<Rightarrow> sockbuf" where
  "sballoc s m sb =
     (let b = mbufs s m;
          sb = sb\<lparr> sb_cc := sb_cc sb + of_int (m_len b), sb_mbcnt := sb_mbcnt sb + of_int MSIZE \<rparr>
      in if has_flag M_EXT b then sb\<lparr> sb_mbcnt := sb_mbcnt sb + ext_size (mbufs s (m_pktdat b)) \<rparr> else sb)"

definition sbfree :: "'a mstate_scheme \<Rightarrow> addr \<Rightarrow> sockbuf \<Rightarrow> sockbuf" where
  "sbfree s m sb =
     (let b = mbufs s m;
          sb = sb\<lparr> sb_cc := sb_cc sb - of_int (m_len b), sb_mbcnt := sb_mbcnt sb - of_int MSIZE \<rparr>
      in if has_flag M_EXT b then sb\<lparr> sb_mbcnt := sb_mbcnt sb - ext_size (mbufs s (m_pktdat b)) \<rparr> else sb)"

definition SB_EMPTY_FIXUP :: "sockbuf \<Rightarrow> sockbuf" where
  "SB_EMPTY_FIXUP sb = (if sb_mb sb = None then sb\<lparr> sb_mbtail := None, sb_lastrecord := None \<rparr> else sb)"

definition sb_max_set :: "u64 \<Rightarrow> 'a sbstate_scheme \<Rightarrow> int \<times> 'a sbstate_scheme" where
  "sb_max_set new_sbmax s =
     (if new_sbmax < 16 * 1024 then (EINVAL, s)
      else (0, s\<lparr> sb_max := new_sbmax, sb_max_adj := new_sbmax * of_int MCLBYTES div of_int (MSIZE + MCLBYTES) \<rparr>))"

text \<open>The minimum is the unsigned 32-bit one of \<^verbatim>\<open>libkern.h\<close>.\<close>

definition sbreserve :: "sockbuf \<Rightarrow> u64 \<Rightarrow> 'a sbstate_scheme \<Rightarrow> bool \<times> sockbuf" where
  "sbreserve sb cc s =
     (if cc = 0 \<or> cc > sb_max_adj s then (False, sb)
      else let sb = sb\<lparr> sb_hiwat := cc, sb_mbmax := of_int (umin (uint (cc * 2)) (uint (sb_max s))) \<rparr>
           in (True, if sb_lowat sb > sb_hiwat sb then sb\<lparr> sb_lowat := sb_hiwat sb \<rparr> else sb))"

section \<open>Appending\<close>

definition SBLINKRECORDCHAIN :: "addr option \<Rightarrow> addr option \<Rightarrow> sockbuf \<times> 'a mstate_scheme \<Rightarrow> sockbuf \<times> 'a mstate_scheme" where
  "SBLINKRECORDCHAIN m0 mlast = (\<lambda>(sb, s).
     case sb_lastrecord sb of
       Some l \<Rightarrow> (sb\<lparr> sb_lastrecord := mlast \<rparr>, upd_m l (\<lambda>b. b\<lparr> m_nextpkt := m0 \<rparr>) s)
     | None \<Rightarrow> (sb\<lparr> sb_mb := m0, sb_lastrecord := mlast \<rparr>, s))"

definition SBLINKRECORD :: "addr \<Rightarrow> sockbuf \<times> 'a mstate_scheme \<Rightarrow> sockbuf \<times> 'a mstate_scheme" where
  "SBLINKRECORD m0 = SBLINKRECORDCHAIN (Some m0) (Some m0)"

text \<open>The guard for an mbuf that \<^verbatim>\<open>sbcompress\<close> throws away.\<close>

definition compress_skip :: "u32 \<Rightarrow> addr \<Rightarrow> addr option \<Rightarrow> 'a mstate_scheme \<Rightarrow> bool" where
  "compress_skip eor m n s \<longleftrightarrow>
     m_len (mbufs s m) = 0 \<and>
     (eor = 0 \<or>
      (case (case m_next (mbufs s m) of Some x \<Rightarrow> Some x | None \<Rightarrow> n) of
         None \<Rightarrow> False
       | Some x \<Rightarrow> m_type (mbufs s x) = m_type (mbufs s m)))"

definition compress_link :: "addr \<Rightarrow> addr option \<Rightarrow> sockbuf \<times> 'a mstate_scheme \<Rightarrow> sockbuf \<times> 'a mstate_scheme" where
  "compress_link m n = (\<lambda>(sb, s).
     let (sb, s) = (case n of Some x \<Rightarrow> (sb, upd_m x (\<lambda>b. b\<lparr> m_next := Some m \<rparr>) s)
                    | None \<Rightarrow> (sb\<lparr> sb_mb := Some m \<rparr>, s));
         sb = sb\<lparr> sb_mbtail := Some m \<rparr>;
         sb = sballoc s m sb
     in (sb, upd_m m (\<lambda>b. b\<lparr> m_flags := m_flags b AND NOT M_EOR \<rparr>) s))"

partial_function (option) sbcompress_loop ::
  "u32 \<Rightarrow> addr option \<Rightarrow> addr option \<Rightarrow> sockbuf \<times> 'a mstate_scheme \<Rightarrow>
   (u32 \<times> addr option \<times> sockbuf \<times> 'a mstate_scheme) option" where
  "sbcompress_loop eor m n x =
     (case m of
        None \<Rightarrow> Some (eor, n, x)
      | Some m \<Rightarrow>
          let (sb, s) = x;
              eor = eor OR (m_flags (mbufs s m) AND M_EOR)
          in if compress_skip eor m n s
             then let sb = (if sb_lastrecord sb = Some m then sb\<lparr> sb_lastrecord := m_next (mbufs s m) \<rparr> else sb);
                      (m', s) = m_free m s
                  in sbcompress_loop eor m' n (sb, s)
             else if (case n of None \<Rightarrow> False
                      | Some p \<Rightarrow> \<not> has_flag M_EOR (mbufs s p) \<and> m_len (mbufs s m) \<le> MCLBYTES div 4 \<and>
                          m_len (mbufs s m) \<le> M_TRAILINGSPACE (mbufs s p) \<and> m_type (mbufs s p) = m_type (mbufs s m))
             then let p = the n;
                      len = m_len (mbufs s m);
                      s = memcpy (nat (int (mtod (mbufs s p)) + m_len (mbufs s p))) (mtod (mbufs s m)) (u_int len) s;
                      s = upd_m p (\<lambda>b. b\<lparr> m_len := m_len b + len \<rparr>) s;
                      sb = sb\<lparr> sb_cc := sb_cc sb + of_int len \<rparr>;
                      (m', s) = m_free m s
                  in sbcompress_loop eor m' n (sb, s)
             else let (sb, s) = compress_link m n (sb, s);
                      m' = m_next (mbufs s m);
                      s = upd_m m (\<lambda>b. b\<lparr> m_next := None \<rparr>) s
                  in sbcompress_loop eor m' (Some m) (sb, s))"

definition sbcompress :: "addr option \<Rightarrow> addr option \<Rightarrow> sockbuf \<times> 'a mstate_scheme \<Rightarrow> (sockbuf \<times> 'a mstate_scheme) option" where
  "sbcompress m n x = do {
     (eor, n, sb, s) \<leftarrow> sbcompress_loop 0 m n x;
     Some (case n of Some n \<Rightarrow> (sb, if eor \<noteq> 0 then upd_m n (\<lambda>b. b\<lparr> m_flags := m_flags b OR eor \<rparr>) s else s)
           | None \<Rightarrow> (sb, s))
   }"

text \<open>The mark for the end of a record moves from the first mbuf to the rest.\<close>

definition pass_eor :: "addr \<Rightarrow> addr option \<Rightarrow> 'a mstate_scheme \<Rightarrow> 'a mstate_scheme" where
  "pass_eor m0 m s =
     (case m of
        Some m \<Rightarrow> if has_flag M_EOR (mbufs s m0)
          then upd_m m (\<lambda>b. b\<lparr> m_flags := m_flags b OR M_EOR \<rparr>) (upd_m m0 (\<lambda>b. b\<lparr> m_flags := m_flags b AND NOT M_EOR \<rparr>) s)
          else s
      | None \<Rightarrow> s)"

definition sbappendrecord :: "addr option \<Rightarrow> sockbuf \<times> 'a mstate_scheme \<Rightarrow> (sockbuf \<times> 'a mstate_scheme) option" where
  "sbappendrecord m0 = (\<lambda>(sb, s).
     case m0 of
       None \<Rightarrow> Some (sb, s)
     | Some m0 \<Rightarrow>
         let sb = sballoc s m0 sb;
             (sb, s) = SBLINKRECORD m0 (sb, s);
             m = m_next (mbufs s m0);
             s = upd_m m0 (\<lambda>b. b\<lparr> m_next := None \<rparr>) s
         in sbcompress m (Some m0) (sb, pass_eor m0 m s))"

text \<open>The search of \<^verbatim>\<open>sbappend\<close> through the last record: \<^term>\<open>Inl ()\<close> when it meets the end of a record,
  otherwise the last mbuf.\<close>

partial_function (option) find_eor :: "(addr \<Rightarrow> mbuf) \<Rightarrow> addr \<Rightarrow> (unit + addr) option" where
  "find_eor h n =
     (if has_flag M_EOR (h n) then Some (Inl ())
      else case m_next (h n) of None \<Rightarrow> Some (Inr n) | Some n \<Rightarrow> find_eor h n)"

definition sbappend :: "addr option \<Rightarrow> sockbuf \<times> 'a mstate_scheme \<Rightarrow> (sockbuf \<times> 'a mstate_scheme) option" where
  "sbappend m = (\<lambda>(sb, s).
     case m of
       None \<Rightarrow> Some (sb, s)
     | Some m' \<Rightarrow>
         case sb_lastrecord sb of
           Some n \<Rightarrow> do {
             x \<leftarrow> find_eor (mbufs s) n;
             case x of Inl _ \<Rightarrow> sbappendrecord m (sb, s) | Inr n \<Rightarrow> sbcompress m (Some n) (sb, s)
           }
         | None \<Rightarrow> sbcompress m None (sb\<lparr> sb_lastrecord := m \<rparr>, s))"

definition sbappendstream ::
  "(addr \<Rightarrow> int \<Rightarrow> 'a mstate_scheme \<Rightarrow> 'a mstate_scheme) \<Rightarrow> addr \<Rightarrow> sockbuf \<times> 'a mstate_scheme \<Rightarrow>
   (sockbuf \<times> 'a mstate_scheme) option" where
  "sbappendstream reflect m = (\<lambda>(sb, s). do {
     let s = reflect (sb_so sb) (m_len (mbufs s m)) s;
     (sb, s) \<leftarrow> sbcompress (Some m) (sb_mbtail sb) (sb, s);
     Some (sb\<lparr> sb_lastrecord := sb_mb sb \<rparr>, s)
   })"

text \<open>Where \<^verbatim>\<open>sbinsertoob\<close> puts a record: after the records that hold out-of-band data, behind at
  most control mbufs.\<close>

partial_function (option) oob_train :: "(addr \<Rightarrow> mbuf) \<Rightarrow> addr \<Rightarrow> bool option" where
  "oob_train h m =
     (if m_type (h m) = MT_OOBDATA then Some True
      else if m_type (h m) = MT_CONTROL
      then case m_next (h m) of None \<Rightarrow> Some False | Some n \<Rightarrow> oob_train h n
      else Some False)"

partial_function (option) oob_find ::
  "(addr \<Rightarrow> mbuf) \<Rightarrow> addr option \<Rightarrow> addr option \<Rightarrow> (addr option \<times> addr option) option" where
  "oob_find h prev cur =
     (case cur of
        None \<Rightarrow> Some (prev, None)
      | Some m \<Rightarrow> do {
          oob \<leftarrow> oob_train h m;
          if oob then oob_find h (Some m) (m_nextpkt (h m)) else Some (prev, cur)
        })"

definition sbinsertoob :: "addr option \<Rightarrow> sockbuf \<times> 'a mstate_scheme \<Rightarrow> (sockbuf \<times> 'a mstate_scheme) option" where
  "sbinsertoob m0 = (\<lambda>(sb, s).
     case m0 of
       None \<Rightarrow> Some (sb, s)
     | Some m0 \<Rightarrow> do {
         (prev, cur) \<leftarrow> oob_find (mbufs s) None (sb_mb sb);
         let sb = sballoc s m0 sb;
         let s = upd_m m0 (\<lambda>b. b\<lparr> m_nextpkt := cur \<rparr>) s;
         let sb = (if cur = None then sb\<lparr> sb_lastrecord := Some m0 \<rparr> else sb);
         let (sb, s) = (case prev of None \<Rightarrow> (sb\<lparr> sb_mb := Some m0 \<rparr>, s)
                        | Some p \<Rightarrow> (sb, upd_m p (\<lambda>b. b\<lparr> m_nextpkt := Some m0 \<rparr>) s));
         let m = m_next (mbufs s m0);
         let s = upd_m m0 (\<lambda>b. b\<lparr> m_next := None \<rparr>) s;
         sbcompress m (Some m0) (sb, pass_eor m0 m s)
       })"

text \<open>The last mbuf of the control data, and the space that they take.\<close>

partial_function (option) control_scan :: "(addr \<Rightarrow> mbuf) \<Rightarrow> addr option \<Rightarrow> int \<Rightarrow> (addr option \<times> int) option" where
  "control_scan h n space =
     (case n of
        None \<Rightarrow> Some (None, space)
      | Some a \<Rightarrow>
          let space = space + m_len (h a)
          in if m_next (h a) = None then Some (Some a, space) else control_scan h (m_next (h a)) space)"

partial_function (option) sballoc_chain :: "addr \<Rightarrow> sockbuf \<Rightarrow> 'a mstate_scheme \<Rightarrow> (addr \<times> sockbuf) option" where
  "sballoc_chain n sb s =
     (let sb = sballoc s n sb
      in case m_next (mbufs s n) of None \<Rightarrow> Some (n, sb) | Some n \<Rightarrow> sballoc_chain n sb s)"

definition sa_len :: "addr \<Rightarrow> 'a mstate_scheme \<Rightarrow> int" where
  "sa_len asa s = uint (dmem s asa)"

text \<open>A socket address has at most 255 bytes, so that \<^verbatim>\<open>MEXTMALLOC\<close> is never reached.\<close>

definition sbappendaddr ::
  "addr \<Rightarrow> addr option \<Rightarrow> addr option \<Rightarrow> sockbuf \<times> 'a mstate_scheme \<Rightarrow> (int \<times> sockbuf \<times> 'a mstate_scheme) option" where
  "sbappendaddr asa m0 control = (\<lambda>(sb, s). do {
     space \<leftarrow> (case m0 of
        None \<Rightarrow> Some (sa_len asa s)
      | Some m \<Rightarrow> if has_flag M_PKTHDR (mbufs s m) then Some (sa_len asa s + ph_len (m_pkthdr (mbufs s m))) else None);
     (n, space) \<leftarrow> control_scan (mbufs s) control space;
     if space > sbspace sb then Some (0, sb, s)
     else do {
       (m, s) \<leftarrow> m_get MT_SONAME s;
       case m of
         None \<Rightarrow> Some (0, sb, s)
       | Some m \<Rightarrow> do {
           let len = sa_len asa s;
           let s = upd_m m (\<lambda>b. b\<lparr> m_len := len \<rparr>) s;
           let s = memcpy (mtod (mbufs s m)) asa len s;
           let (control, s) = (case n of Some n \<Rightarrow> (control, upd_m n (\<lambda>b. b\<lparr> m_next := m0 \<rparr>) s) | None \<Rightarrow> (m0, s));
           let s = upd_m m (\<lambda>b. b\<lparr> m_next := control \<rparr>) s;
           (nlast, sb) \<leftarrow> sballoc_chain m sb s;
           let (sb, s) = SBLINKRECORD m (sb, s);
           Some (1, sb\<lparr> sb_mbtail := Some nlast \<rparr>, s)
         }
     }
   })"

definition m_prepend_sockaddr :: "addr \<Rightarrow> addr \<Rightarrow> 'a mstate_scheme \<Rightarrow> (addr option \<times> 'a mstate_scheme) option" where
  "m_prepend_sockaddr m0 asa s = do {
     let salen = sa_len asa s;
     (m, s) \<leftarrow> m_gethdr MT_SONAME s;
     case m of
       None \<Rightarrow> Some (None, s)
     | Some m \<Rightarrow> do {
         let s = upd_m m (\<lambda>b. b\<lparr> m_len := salen \<rparr>) s;
         let s = memcpy (mtod (mbufs s m)) asa salen s;
         Some (Some m, upd_m m (\<lambda>b. b\<lparr> m_next := Some m0,
            m_pkthdr := (m_pkthdr b)\<lparr> ph_len := salen + ph_len (m_pkthdr (mbufs s m0)) \<rparr> \<rparr>) s)
       }
   }"

text \<open>The records of the chain with the address in front of each, or what was built
  until there was no mbuf left.\<close>

partial_function (option) addrchain_loop ::
  "addr \<Rightarrow> addr option \<Rightarrow> addr option \<Rightarrow> addr option \<Rightarrow> sockbuf \<times> 'a mstate_scheme \<Rightarrow>
   (bool \<times> addr option \<times> addr option \<times> sockbuf \<times> 'a mstate_scheme) option" where
  "addrchain_loop asa m n0 nlast x =
     (case m of
        None \<Rightarrow> Some (True, n0, nlast, x)
      | Some m \<Rightarrow> do {
          (n, s) \<leftarrow> m_prepend_sockaddr m asa (snd x);
          case n of
            None \<Rightarrow> Some (False, n0, nlast, fst x, s)
          | Some n \<Rightarrow> do {
              let (n0, s) = (case n0 of None \<Rightarrow> (Some n, s)
                             | Some a \<Rightarrow> (Some a, upd_m (the nlast) (\<lambda>b. b\<lparr> m_nextpkt := Some n \<rparr>) s));
              (_, sb) \<leftarrow> sballoc_chain n (fst x) s;
              addrchain_loop asa (m_nextpkt (mbufs s m)) n0 (Some n) (sb, s)
            }
        })"

partial_function (option) sbfree_chain :: "addr \<Rightarrow> sockbuf \<Rightarrow> 'a mstate_scheme \<Rightarrow> sockbuf option" where
  "sbfree_chain n sb s =
     (let sb = sbfree s n sb
      in case m_next (mbufs s n) of None \<Rightarrow> Some sb | Some n \<Rightarrow> sbfree_chain n sb s)"

partial_function (option) addrchain_undo ::
  "addr option \<Rightarrow> sockbuf \<times> 'a mstate_scheme \<Rightarrow> (sockbuf \<times> 'a mstate_scheme) option" where
  "addrchain_undo n0 x =
     (case n0 of
        None \<Rightarrow> Some x
      | Some n \<Rightarrow> do {
          sb \<leftarrow> sbfree_chain n (fst x) (snd x);
          addrchain_undo (m_nextpkt (mbufs (snd x) n)) (sb, snd (MFREE n (snd x)))
        })"

definition sbappendaddrchain ::
  "addr \<Rightarrow> addr option \<Rightarrow> sockbuf \<times> 'a mstate_scheme \<Rightarrow> (int \<times> sockbuf \<times> 'a mstate_scheme) option" where
  "sbappendaddrchain asa m0 = (\<lambda>(sb, s).
     if (case m0 of None \<Rightarrow> False | Some m \<Rightarrow> \<not> has_flag M_PKTHDR (mbufs s m)) then None
     else do {
       (ok, n0, nlast, sb, s) \<leftarrow> addrchain_loop asa m0 None None (sb, s);
       if ok then do {
         let (sb, s) = SBLINKRECORDCHAIN n0 nlast (sb, s);
         l \<leftarrow> nlast;
         m \<leftarrow> m_last (mbufs s) l;
         Some (1, sb\<lparr> sb_mbtail := Some m \<rparr>, s)
       }
       else do { (sb, s) \<leftarrow> addrchain_undo n0 (sb, s); Some (0, sb, s) }
     })"

definition sbappendcontrol ::
  "addr option \<Rightarrow> addr option \<Rightarrow> sockbuf \<times> 'a mstate_scheme \<Rightarrow> (int \<times> sockbuf \<times> 'a mstate_scheme) option" where
  "sbappendcontrol m0 control = (\<lambda>(sb, s). do {
     c \<leftarrow> control;
     (n, space) \<leftarrow> control_scan (mbufs s) control 0;
     (_, space) \<leftarrow> control_scan (mbufs s) m0 space;
     if space > sbspace sb then Some (0, sb, s)
     else do {
       let s = upd_m (the n) (\<lambda>b. b\<lparr> m_next := m0 \<rparr>) s;
       (mlast, sb) \<leftarrow> sballoc_chain c sb s;
       let (sb, s) = SBLINKRECORD c (sb, s);
       Some (1, sb\<lparr> sb_mbtail := Some mlast \<rparr>, s)
     }
   })"

section \<open>Dropping\<close>

partial_function (option) sbdrop_loop ::
  "(addr \<Rightarrow> int \<Rightarrow> 'a mstate_scheme \<Rightarrow> 'a mstate_scheme) \<Rightarrow> addr option \<Rightarrow> addr option \<Rightarrow> int \<Rightarrow>
   sockbuf \<times> 'a mstate_scheme \<Rightarrow> (addr option \<times> addr option \<times> sockbuf \<times> 'a mstate_scheme) option" where
  "sbdrop_loop reflect m nxt len x =
     (if len > 0
      then case m of
             None \<Rightarrow> (case nxt of None \<Rightarrow> None | Some a \<Rightarrow> sbdrop_loop reflect (Some a) (m_nextpkt (mbufs (snd x) a)) len x)
           | Some a \<Rightarrow>
               let (sb, s) = x; l = m_len (mbufs s a)
               in if l > len
                  then let s = upd_m a (\<lambda>b. b\<lparr> m_len := m_len b - len, m_data := m_data b + nat len \<rparr>) s;
                           sb = sb\<lparr> sb_cc := sb_cc sb - of_int len \<rparr>
                       in Some (Some a, nxt, sb, reflect (sb_so sb) len s)
                  else let s = reflect (sb_so sb) l s;
                           sb = sbfree s a sb;
                           (mn, s) = MFREE a s
                       in sbdrop_loop reflect mn nxt (len - l) (sb, s)
      else Some (m, nxt, x))"

partial_function (option) sbdrop_empty ::
  "addr option \<Rightarrow> sockbuf \<times> 'a mstate_scheme \<Rightarrow> (addr option \<times> sockbuf \<times> 'a mstate_scheme) option" where
  "sbdrop_empty m x =
     (case m of
        None \<Rightarrow> Some (None, x)
      | Some a \<Rightarrow>
          let (sb, s) = x
          in if m_len (mbufs s a) = 0
             then let sb = sbfree s a sb; (mn, s) = MFREE a s in sbdrop_empty mn (sb, s)
             else Some (m, x))"

text \<open>The end of \<^verbatim>\<open>sbdrop\<close>, which makes the rest of the record the first record again.\<close>

definition sbdrop_finish :: "addr option \<Rightarrow> addr option \<Rightarrow> sockbuf \<Rightarrow> 'a mstate_scheme \<Rightarrow> sockbuf \<times> 'a mstate_scheme" where
  "sbdrop_finish m nxt sb s =
     (let s = (case m of Some a \<Rightarrow> upd_m a (\<lambda>b. b\<lparr> m_nextpkt := nxt \<rparr>) s | None \<Rightarrow> s);
          mb = (case m of Some a \<Rightarrow> m | None \<Rightarrow> nxt)
      in (case mb of
            None \<Rightarrow> sb\<lparr> sb_mb := mb, sb_mbtail := None, sb_lastrecord := None \<rparr>
          | Some a \<Rightarrow> if m_nextpkt (mbufs s a) = None then sb\<lparr> sb_mb := mb, sb_lastrecord := Some a \<rparr> else sb\<lparr> sb_mb := mb \<rparr>, s))"

definition sbdrop ::
  "(addr \<Rightarrow> int \<Rightarrow> 'a mstate_scheme \<Rightarrow> 'a mstate_scheme) \<Rightarrow> int \<Rightarrow> sockbuf \<times> 'a mstate_scheme \<Rightarrow>
   (sockbuf \<times> 'a mstate_scheme) option" where
  "sbdrop reflect len = (\<lambda>(sb, s). do {
     let nxt = (case sb_mb sb of None \<Rightarrow> None | Some m \<Rightarrow> m_nextpkt (mbufs s m));
     (m, nxt, x) \<leftarrow> sbdrop_loop reflect (sb_mb sb) nxt len (sb, s);
     (m, sb, s) \<leftarrow> sbdrop_empty m x;
     Some (sbdrop_finish m nxt sb s)
   })"

partial_function (option) sbflush ::
  "(addr \<Rightarrow> int \<Rightarrow> 'a mstate_scheme \<Rightarrow> 'a mstate_scheme) \<Rightarrow> sockbuf \<times> 'a mstate_scheme \<Rightarrow>
   (sockbuf \<times> 'a mstate_scheme) option" where
  "sbflush reflect x =
     (if sb_mbcnt (fst x) \<noteq> 0
      then do { x \<leftarrow> sbdrop reflect (int32 (uint (sb_cc (fst x)))) x; sbflush reflect x }
      else Some x)"

definition sbrelease ::
  "(addr \<Rightarrow> int \<Rightarrow> 'a mstate_scheme \<Rightarrow> 'a mstate_scheme) \<Rightarrow> sockbuf \<times> 'a mstate_scheme \<Rightarrow>
   (sockbuf \<times> 'a mstate_scheme) option" where
  "sbrelease reflect x = do { (sb, s) \<leftarrow> sbflush reflect x; Some (sb\<lparr> sb_mbmax := 0 \<rparr>, s) }"

partial_function (option) droprecord_loop ::
  "addr \<Rightarrow> sockbuf \<times> 'a mstate_scheme \<Rightarrow> (sockbuf \<times> 'a mstate_scheme) option" where
  "droprecord_loop m x =
     (let (sb, s) = x; sb = sbfree s m sb; (mn, s) = MFREE m s
      in case mn of None \<Rightarrow> Some (sb, s) | Some mn \<Rightarrow> droprecord_loop mn (sb, s))"

definition sbdroprecord :: "sockbuf \<times> 'a mstate_scheme \<Rightarrow> (sockbuf \<times> 'a mstate_scheme) option" where
  "sbdroprecord = (\<lambda>(sb, s). do {
     (sb, s) \<leftarrow> (case sb_mb sb of
        None \<Rightarrow> Some (sb, s)
      | Some m \<Rightarrow> droprecord_loop m (sb\<lparr> sb_mb := m_nextpkt (mbufs s m) \<rparr>, s));
     Some (SB_EMPTY_FIXUP sb, s)
   })"

section \<open>Well-formed buffers\<close>

lemma cbytes_cong: "(\<And>a. a \<in> set as \<Longrightarrow> mbufs t a = mbufs s a) \<Longrightarrow> dmem t = dmem s \<Longrightarrow> cbytes t as = cbytes s as"
  by (induction as) (auto simp: mbytes_def)

lemma clen_cong: "(\<And>a. a \<in> set as \<Longrightarrow> mbufs t a = mbufs s a) \<Longrightarrow> clen t as = clen s as"
  by (induction as) auto

definition counted :: "'a mstate_scheme \<Rightarrow> addr list \<Rightarrow> sockbuf \<Rightarrow> bool" where
  "counted s as sb \<longleftrightarrow> sb_cc sb = of_int (clen s as) \<and> sb_mbcnt sb = of_int (MSIZE * int (length as))"

text \<open>The rest \<^term>\<open>r\<close> of the record at \<^term>\<open>m\<close> and the records \<^term>\<open>rs\<close> that start at \<^term>\<open>nxt\<close>.\<close>

definition records :: "addr list \<Rightarrow> addr list list \<Rightarrow> addr option \<Rightarrow> addr option \<Rightarrow> 'a mstate_scheme \<Rightarrow> bool" where
  "records r rs m nxt s \<longleftrightarrow>
     mchain s m r \<and> linked (\<lambda>a. m_nextpkt (mbufs s a)) nxt (map hd rs) \<and>
     (\<forall>x\<in>set rs. x \<noteq> [] \<and> mchain s (Some (hd x)) x) \<and> distinct (r @ concat rs) \<and>
     (\<forall>a\<in>set (r @ concat rs). \<not> has_flag M_EXT (mbufs s a))"

definition sbq :: "sockbuf \<Rightarrow> addr list list \<Rightarrow> 'a mstate_scheme \<Rightarrow> bool" where
  "sbq sb rs s \<longleftrightarrow>
     records [] rs None (sb_mb sb) s \<and> counted s (concat rs) sb \<and>
     sb_lastrecord sb = (if rs = [] then None else Some (hd (last rs))) \<and>
     sb_mbtail sb = (if rs = [] then None else Some (last (last rs)))"

definition sbytes :: "'a mstate_scheme \<Rightarrow> addr list list \<Rightarrow> 8 word list" where
  "sbytes s rs = cbytes s (concat rs)"

text \<open>The fields that the queue operations leave alone.\<close>

definition same_limits :: "sockbuf \<Rightarrow> sockbuf \<Rightarrow> bool" where
  "same_limits sb sb' \<longleftrightarrow>
     sb_so sb' = sb_so sb \<and> sb_hiwat sb' = sb_hiwat sb \<and> sb_mbmax sb' = sb_mbmax sb \<and> sb_lowat sb' = sb_lowat sb \<and>
     sb_flags sb' = sb_flags sb \<and> sb_timeo sb' = sb_timeo sb"

lemma same_limits_refl [simp]: "same_limits sb sb"
  by (simp add: same_limits_def)

lemma same_limits_trans: "same_limits a b \<Longrightarrow> same_limits b c \<Longrightarrow> same_limits a c"
  by (simp add: same_limits_def)

lemma records_cong:
  assumes "records r rs m nxt s" "\<And>a. a \<in> set (r @ concat rs) \<Longrightarrow> mbufs t a = mbufs s a"
  shows "records r rs m nxt t"
proof -
  have hds: "set (map hd rs) \<subseteq> set (concat rs)" using assms(1) by (auto simp: records_def)
  have "mchain t m r" using assms by (auto simp: records_def intro: mchain_cong)
  moreover have "linked (\<lambda>a. m_nextpkt (mbufs t a)) nxt (map hd rs)"
  proof (rule linked_cong)
    show "linked (\<lambda>a. m_nextpkt (mbufs s a)) nxt (map hd rs)" using assms(1) by (simp add: records_def)
    show "m_nextpkt (mbufs t x) = m_nextpkt (mbufs s x)" if "x \<in> set (map hd rs)" for x
      using assms(2) [of x] subsetD [OF hds that] by simp
  qed
  moreover have "mchain t (Some (hd x)) x" if "x \<in> set rs" for x
  proof (rule mchain_cong)
    show "mchain s (Some (hd x)) x" using that assms(1) by (simp add: records_def)
    show "mbufs t a = mbufs s a" if "a \<in> set x" for a using assms(2) [of a] that \<open>x \<in> set rs\<close> by auto
  qed
  ultimately show ?thesis using assms by (simp add: records_def)
qed

lemma records_tl:
  assumes "records (a # r) rs m nxt s" "\<And>x. x \<noteq> a \<Longrightarrow> mbufs t x = mbufs s x"
  shows "records r rs (m_next (mbufs s a)) nxt t"
proof (rule records_cong [of _ _ _ _ s])
  show "records r rs (m_next (mbufs s a)) nxt s" using assms(1) by (auto simp: records_def mchain_Cons)
  show "mbufs t x = mbufs s x" if "x \<in> set (r @ concat rs)" for x
  proof -
    have "a \<notin> set (r @ concat rs)" using assms(1) by (simp add: records_def)
    then show ?thesis using assms(2) [of x] that by metis
  qed
qed

lemma records_next:
  "records [] (x # rs) m nxt s \<longleftrightarrow>
     m = None \<and> x \<noteq> [] \<and> nxt = Some (hd x) \<and> records x rs (Some (hd x)) (m_nextpkt (mbufs s (hd x))) s"
  by (auto simp: records_def)

lemma counted_free:
  assumes "counted s (a # as) sb" "\<not> has_flag M_EXT (mbufs s a)" "\<And>x. x \<in> set as \<Longrightarrow> mbufs t x = mbufs s x"
  shows "counted t as (sbfree s a sb)" "same_limits sb (sbfree s a sb)"
    "sb_mb (sbfree s a sb) = sb_mb sb" "sb_mbtail (sbfree s a sb) = sb_mbtail sb" "sb_lastrecord (sbfree s a sb) = sb_lastrecord sb"
  using assms clen_cong [of as t s] by (simp_all add: counted_def sbfree_def Let_def same_limits_def algebra_simps)

lemma clen_records_nonneg: "records r rs m nxt s \<Longrightarrow> 0 \<le> clen s r \<and> 0 \<le> clen s (concat rs)"
  using clen_nonneg by (fastforce simp: records_def clen_def mchain_def intro!: sum_list_nonneg)

section \<open>Dropping bytes\<close>

text \<open>What is left of the rest \<^term>\<open>r\<close> of a record and the records \<^term>\<open>rs\<close> when \<^term>\<open>len\<close> bytes are
  dropped: the mbufs \<open>gone\<close> are free and no other mbuf of the state has changed.\<close>

definition dropped ::
  "addr set \<Rightarrow> addr set \<Rightarrow> addr set \<Rightarrow> (addr \<Rightarrow> nat) \<Rightarrow> addr list \<Rightarrow> addr list list \<Rightarrow> sockbuf \<Rightarrow> 'a mstate_scheme \<Rightarrow> int \<Rightarrow>
   addr option \<Rightarrow> addr option \<Rightarrow> sockbuf \<Rightarrow> 'a mstate_scheme \<Rightarrow> bool" where
  "dropped M U used e r rs sb s len m' nxt' sb' t \<longleftrightarrow>
    (\<exists>gone r' rs'. r @ concat rs = gone @ r' @ concat rs' \<and> suffix rs' rs \<and> records r' rs' m' nxt' t \<and>
       counted t (r' @ concat rs') sb' \<and> same_limits sb sb' \<and>
       sb_mb sb' = sb_mb sb \<and> sb_mbtail sb' = sb_mbtail sb \<and> sb_lastrecord sb' = sb_lastrecord sb \<and>
       mbuf_inv M U (used - set gone) e t \<and> dmem t = dmem s \<and>
       cbytes t (r' @ concat rs') = drop (nat len) (cbytes s (r @ concat rs)) \<and>
       (\<forall>a. a \<notin> set (r @ concat rs) \<longrightarrow> mbufs t a = mbufs s a))"

lemma droppedI:
  "r @ concat rs = gone @ r' @ concat rs' \<Longrightarrow> suffix rs' rs \<Longrightarrow> records r' rs' m' nxt' t \<Longrightarrow>
   counted t (r' @ concat rs') sb' \<Longrightarrow> same_limits sb sb' \<Longrightarrow>
   sb_mb sb' = sb_mb sb \<Longrightarrow> sb_mbtail sb' = sb_mbtail sb \<Longrightarrow> sb_lastrecord sb' = sb_lastrecord sb \<Longrightarrow>
   mbuf_inv M U (used - set gone) e t \<Longrightarrow> dmem t = dmem s \<Longrightarrow>
   cbytes t (r' @ concat rs') = drop (nat len) (cbytes s (r @ concat rs)) \<Longrightarrow>
   (\<And>a. a \<notin> set (r @ concat rs) \<Longrightarrow> mbufs t a = mbufs s a) \<Longrightarrow> dropped M U used e r rs sb s len m' nxt' sb' t"
  unfolding dropped_def by blast

lemma dropped_none:
  "records r rs m nxt s \<Longrightarrow> counted s (r @ concat rs) sb \<Longrightarrow> mbuf_inv M U used e s \<Longrightarrow>
   dropped M U used e r rs sb s 0 m nxt sb s"
  by (rule droppedI [of _ _ "[]" r rs]) simp_all

lemma dropped_next:
  "dropped M U used e x rs sb s len m' nxt' sb' t \<Longrightarrow> dropped M U used e [] (x # rs) sb s len m' nxt' sb' t"
  unfolding dropped_def by (elim exE conjE) (intro exI conjI, auto intro: suffix_ConsI)

text \<open>Part of the first mbuf is dropped.\<close>

lemma mbuf_inv_upd:
  assumes "mbuf_inv M U used e s" "\<And>b. m_paddr (f b) = m_paddr b"
  shows "mbuf_inv M U used e (upd_m a f s)"
  by (rule mbuf_inv_same [OF assms(1)]) (use assms in \<open>auto simp: upd_m_def mbuf_inv_def intro: rmb_inv_cong\<close>)

lemma dropped_part:
  assumes rec: "records (a # r) rs m nxt s" and cnt: "counted s ((a # r) @ concat rs) sb"
    and inv: "mbuf_inv M U used e s" and len: "0 < len" "len < m_len (mbufs s a)"
  defines "t \<equiv> upd_m a (\<lambda>b. b\<lparr> m_len := m_len b - len, m_data := m_data b + nat len \<rparr>) s"
  shows "dropped M U used e (a # r) rs sb s len (Some a) nxt (sb\<lparr> sb_cc := sb_cc sb - of_int len \<rparr>) t"
proof -
  have a: "a \<notin> set (r @ concat rs)" using rec by (simp add: records_def)
  have other: "mbufs t x = mbufs s x" if "x \<noteq> a" for x using that by (simp add: t_def)
  have "records r rs (m_next (mbufs s a)) nxt t" by (rule records_tl [OF rec other])
  then have "records (a # r) rs (Some a) nxt t"
    using rec len by (auto simp: records_def mchain_Cons t_def has_flag_def)
  moreover have rest: "clen t (r @ concat rs) = clen s (r @ concat rs)" "cbytes t (r @ concat rs) = cbytes s (r @ concat rs)"
    using a by (auto intro!: clen_cong cbytes_cong simp: t_def simp del: clen_append cbytes_append)
  then have "counted t ((a # r) @ concat rs) (sb\<lparr> sb_cc := sb_cc sb - of_int len \<rparr>)"
    using cnt by (simp add: counted_def t_def)
  moreover have "cbytes t ((a # r) @ concat rs) = drop (nat len) (cbytes s ((a # r) @ concat rs))"
    using rest(2) len by (simp add: mbytes_def t_def nat_diff_distrib)
  moreover have "mbuf_inv M U used e t" unfolding t_def by (rule mbuf_inv_upd [OF inv]) simp
  ultimately show ?thesis
    by (intro droppedI [of _ _ "[]" "a # r" rs]) (use other in \<open>auto simp: same_limits_def t_def\<close>)
qed

text \<open>The first mbuf is freed and the dropping goes on behind it.\<close>

lemma dropped_more:
  assumes "dropped M U (used - {a}) e r rs sb1 s1 (len - l) m' nxt' sb' t"
    and rec: "records (a # r) rs m nxt s" and l: "l = m_len (mbufs s a)" "l \<le> len"
    and s1: "\<And>x. x \<noteq> a \<Longrightarrow> mbufs s1 x = mbufs s x" "dmem s1 = dmem s"
    and sb1: "same_limits sb sb1" "sb_mb sb1 = sb_mb sb" "sb_mbtail sb1 = sb_mbtail sb" "sb_lastrecord sb1 = sb_lastrecord sb"
  shows "dropped M U used e (a # r) rs sb s len m' nxt' sb' t"
proof -
  obtain gone r' rs' where g: "r @ concat rs = gone @ r' @ concat rs'" "suffix rs' rs" "records r' rs' m' nxt' t"
      "counted t (r' @ concat rs') sb'" "same_limits sb1 sb'"
      "sb_mb sb' = sb_mb sb1" "sb_mbtail sb' = sb_mbtail sb1" "sb_lastrecord sb' = sb_lastrecord sb1"
      "mbuf_inv M U (used - {a} - set gone) e t" "dmem t = dmem s1"
      "cbytes t (r' @ concat rs') = drop (nat (len - l)) (cbytes s1 (r @ concat rs))"
      "\<forall>b. b \<notin> set (r @ concat rs) \<longrightarrow> mbufs t b = mbufs s1 b"
    using assms(1) unfolding dropped_def by blast
  have a: "a \<notin> set (r @ concat rs)" and nonneg: "0 \<le> l" using rec l by (auto simp: records_def mchain_Cons)
  have "cbytes s1 (r @ concat rs) = cbytes s (r @ concat rs)"
    using a s1 by (intro cbytes_cong; metis)
  moreover have "nat len = nat l + nat (len - l)" using l(2) nonneg by simp
  ultimately have "cbytes t (r' @ concat rs') = drop (nat len) (cbytes s ((a # r) @ concat rs))"
    using g(11) l(1) by (simp add: drop_drop add.commute del: nat_diff_distrib)
  moreover have "used - {a} - set gone = used - set (a # gone)" by auto
  ultimately show ?thesis
    by (intro droppedI [of _ _ "a # gone" r' rs'])
      (use g s1 sb1 same_limits_trans [OF sb1(1) g(5)] in \<open>simp_all del: cbytes_append\<close>)
qed

locale tx_reflection =
  fixes reflect :: "addr \<Rightarrow> int \<Rightarrow> 'a mstate_scheme \<Rightarrow> 'a mstate_scheme"
  assumes reflect_mbufs: "mbufs (reflect so n s) = mbufs s"
    and reflect_dmem: "dmem (reflect so n s) = dmem s"
    and reflect_inv: "mbuf_inv M U used e s \<Longrightarrow> mbuf_inv M U used e (reflect so n s)"
begin

lemma records_reflect [simp]: "records r rs m nxt (reflect so n s) = records r rs m nxt s"
  using records_cong reflect_mbufs by metis

lemma bytes_reflect [simp]:
  "cbytes (reflect so n s) as = cbytes s as" "clen (reflect so n s) as = clen s as"
  "counted (reflect so n s) as sb = counted s as sb"
  by (simp_all add: cbytes_def mbytes_def [abs_def] clen_def counted_def reflect_mbufs reflect_dmem)

lemma sbfree_reflect [simp]: "sbfree (reflect so n s) m = sbfree s m"
  by (rule ext) (simp add: sbfree_def reflect_mbufs Let_def)

lemma dropped_reflect:
  "dropped M U used e r rs sb s len m' nxt' sb' t \<Longrightarrow> dropped M U used e r rs sb s len m' nxt' sb' (reflect so n t)"
  unfolding dropped_def records_reflect bytes_reflect reflect_mbufs reflect_dmem using reflect_inv by blast

lemma sbdrop_loop_spec:
  assumes "records r rs m nxt s" "counted s (r @ concat rs) sb" "set (r @ concat rs) \<subseteq> used" "mbuf_inv M U used e s"
    and "0 \<le> len" "len \<le> clen s (r @ concat rs)"
  shows "\<exists>m' nxt' sb' t. sbdrop_loop reflect m nxt len (sb, s) = Some (m', nxt', sb', t) \<and>
    dropped M U used e r rs sb s len m' nxt' sb' t"
  using assms
proof (induction "length r + length rs + length (concat rs)" arbitrary: r rs m nxt len sb s used rule: less_induct)
  case less
  consider "len = 0" | "0 < len" "r = []" | a r1 where "0 < len" "r = a # r1" using less.prems(5) by (cases r) fastforce+
  then show ?case
  proof cases
    case 1
    then show ?thesis using dropped_none [OF less.prems(1,2,4)] by (subst sbdrop_loop.simps) simp
  next
    case 2
    then obtain x rs'' where rs: "rs = x # rs''" using less.prems(6) by (cases rs) auto
    have "m = None" "nxt = Some (hd x)" "x \<noteq> []" and rec: "records x rs'' (Some (hd x)) (m_nextpkt (mbufs s (hd x))) s"
      using less.prems(1) unfolding 2 rs records_next by auto
    then have "sbdrop_loop reflect m nxt len (sb, s) =
        sbdrop_loop reflect (Some (hd x)) (m_nextpkt (mbufs s (hd x))) len (sb, s)"
      using 2 by (subst sbdrop_loop.simps) simp
    moreover have "length x + length rs'' + length (concat rs'') < length r + length rs + length (concat rs)"
      by (simp add: rs 2)
    from less.hyps [OF this rec, of sb used len] less.prems(2-)
    have "\<exists>m' nxt' sb' t. sbdrop_loop reflect (Some (hd x)) (m_nextpkt (mbufs s (hd x))) len (sb, s) = Some (m', nxt', sb', t) \<and>
        dropped M U used e x rs'' sb s len m' nxt' sb' t"
      by (simp add: rs 2)
    ultimately show ?thesis unfolding 2 rs by (metis dropped_next)
  next
    case 3
    have m: "m = Some a" using less.prems(1) by (simp add: 3 records_def mchain_Cons)
    show ?thesis
    proof (cases "m_len (mbufs s a) > len")
      case True
      then show ?thesis
        using dropped_reflect [OF dropped_part [OF less.prems(1) [unfolded 3] less.prems(2) [unfolded 3] less.prems(4) 3(1) True]]
        unfolding 3(2) by (subst sbdrop_loop.simps) (simp add: m 3(1) Let_def)
    next
      case False
      let ?l = "m_len (mbufs s a)"
      let ?s1 = "reflect (sb_so sb) ?l s"
      let ?sb = "sbfree s a sb" and ?s = "snd (MFREE a ?s1)"
      have rec: "records (a # r1) rs m nxt s" and cnt: "counted s (a # r1 @ concat rs) sb"
        using less.prems(1,2) unfolding 3(2) by simp_all
      have eq: "sbdrop_loop reflect m nxt len (sb, s) = sbdrop_loop reflect (m_next (mbufs s a)) nxt (len - ?l) (?sb, ?s)"
        using 3(1) False MFREE_heap(1) [of a ?s1]
        by (subst sbdrop_loop.simps) (simp add: m Let_def split_beta reflect_mbufs)
      have other: "mbufs ?s x = mbufs s x" if "x \<noteq> a" for x using MFREE_heap(2) [OF that] reflect_mbufs by metis
      have a: "a \<notin> set (r1 @ concat rs)" "\<not> has_flag M_EXT (mbufs s a)" "a \<in> used"
        using rec less.prems(3) unfolding 3(2) by (simp_all add: records_def)
      have rest: "mbufs ?s x = mbufs s x" if "x \<in> set (r1 @ concat rs)" for x using other that a(1) by metis
      note free = counted_free [OF cnt a(2) rest]
      have "clen ?s (r1 @ concat rs) = clen s (r1 @ concat rs)" by (rule clen_cong) (rule rest)
      then have "\<exists>m' nxt' sb' t. sbdrop_loop reflect (m_next (mbufs s a)) nxt (len - ?l) (?sb, ?s) = Some (m', nxt', sb', t) \<and>
          dropped M U (used - {a}) e r1 rs ?sb ?s (len - ?l) m' nxt' sb' t"
        using less.prems(3-6) a(1) False MFREE_inv [OF reflect_inv [OF less.prems(4)] a(3)]
        by (intro less.hyps [OF _ records_tl [OF rec other] free(1)]) (auto simp: 3(2))
      moreover have "dmem ?s = dmem s" using MFREE_heap(3) reflect_dmem by metis
      ultimately show ?thesis
        unfolding eq 3(2) using dropped_more [OF _ rec refl _ other] False free(2-5) by (meson a(1) linorder_not_less)
    qed
  qed
qed

end

lemma sbdrop_empty_spec:
  assumes "records r rs m nxt s" "counted s (r @ concat rs) sb" "set (r @ concat rs) \<subseteq> used" "mbuf_inv M U used e s"
  shows "\<exists>m' sb' t. sbdrop_empty m (sb, s) = Some (m', sb', t) \<and> dropped M U used e r rs sb s 0 m' nxt sb' t \<and>
    (case m' of None \<Rightarrow> True | Some a \<Rightarrow> m_len (mbufs t a) \<noteq> 0)"
  using assms
proof (induction r arbitrary: m sb s used)
  case Nil
  then have "m = None" by (simp add: records_def)
  then show ?case using dropped_none [OF Nil.prems(1,2,4)] by (subst sbdrop_empty.simps) simp
next
  case (Cons a r)
  have m: "m = Some a" using Cons.prems(1) by (simp add: records_def mchain_Cons)
  show ?case
  proof (cases "m_len (mbufs s a) = 0")
    case False
    then show ?thesis using dropped_none [OF Cons.prems(1,2,4)] by (subst sbdrop_empty.simps) (simp add: m)
  next
    case True
    let ?s = "snd (MFREE a s)" and ?sb = "sbfree s a sb"
    have eq: "sbdrop_empty m (sb, s) = sbdrop_empty (m_next (mbufs s a)) (?sb, ?s)"
      using True MFREE_heap(1) [of a s] by (subst sbdrop_empty.simps) (simp add: m Let_def split_beta)
    have a: "a \<notin> set (r @ concat rs)" "\<not> has_flag M_EXT (mbufs s a)" "a \<in> used"
      using Cons.prems(1,3) by (simp_all add: records_def)
    have rest: "mbufs ?s x = mbufs s x" if "x \<in> set (r @ concat rs)" for x using MFREE_heap(2) that a(1) by metis
    note free = counted_free [OF Cons.prems(2) [simplified] a(2) rest]
    note rec = records_tl [OF Cons.prems(1) MFREE_heap(2)]
    have "\<exists>m' sb' t. sbdrop_empty (m_next (mbufs s a)) (?sb, ?s) = Some (m', sb', t) \<and>
        dropped M U (used - {a}) e r rs ?sb ?s 0 m' nxt sb' t \<and> (case m' of None \<Rightarrow> True | Some a \<Rightarrow> m_len (mbufs t a) \<noteq> 0)"
      using Cons.prems(3) a(1) MFREE_inv [OF Cons.prems(4) a(3)] by (intro Cons.IH [OF rec free(1)]) auto
    moreover have "dropped M U used e (a # r) rs sb s 0 m' nxt sb' t"
      if "dropped M U (used - {a}) e r rs ?sb ?s 0 m' nxt sb' t" for m' sb' t
      by (rule dropped_more [OF _ Cons.prems(1) refl _ MFREE_heap(2), of _ _ _ _ ?sb])
        (use that True free(2-5) MFREE_heap(3) in auto)
    ultimately show ?thesis unfolding eq by blast
  qed
qed

lemma sbdrop_empty_after:
  assumes d: "dropped M U used e r rs sb s len m1 nxt sb1 s1"
    and use: "set (r @ concat rs) \<subseteq> used" and dist: "distinct (r @ concat rs)"
  shows "\<exists>m' sb' t. sbdrop_empty m1 (sb1, s1) = Some (m', sb', t) \<and> dropped M U used e r rs sb s len m' nxt sb' t \<and>
    (case m' of None \<Rightarrow> True | Some a \<Rightarrow> m_len (mbufs t a) \<noteq> 0)"
proof -
  obtain g1 r1 rs1 where 1: "r @ concat rs = g1 @ r1 @ concat rs1" "suffix rs1 rs" "records r1 rs1 m1 nxt s1"
      "counted s1 (r1 @ concat rs1) sb1" "same_limits sb sb1"
      "sb_mb sb1 = sb_mb sb" "sb_mbtail sb1 = sb_mbtail sb" "sb_lastrecord sb1 = sb_lastrecord sb"
      "mbuf_inv M U (used - set g1) e s1" "dmem s1 = dmem s"
      "cbytes s1 (r1 @ concat rs1) = drop (nat len) (cbytes s (r @ concat rs))"
      "\<forall>b. b \<notin> set (r @ concat rs) \<longrightarrow> mbufs s1 b = mbufs s b"
    using d unfolding dropped_def by blast
  have "set (r1 @ concat rs1) \<subseteq> used - set g1" using use dist unfolding 1(1) distinct_append set_append by blast
  from sbdrop_empty_spec [OF 1(3,4) this 1(9)] obtain m2 sb2 s2 where empty: "sbdrop_empty m1 (sb1, s1) = Some (m2, sb2, s2)"
    and d2: "dropped M U (used - set g1) e r1 rs1 sb1 s1 0 m2 nxt sb2 s2"
    and nz: "case m2 of None \<Rightarrow> True | Some a \<Rightarrow> m_len (mbufs s2 a) \<noteq> 0" by blast
  obtain g2 r2 rs2 where 2: "r1 @ concat rs1 = g2 @ r2 @ concat rs2" "suffix rs2 rs1" "records r2 rs2 m2 nxt s2"
      "counted s2 (r2 @ concat rs2) sb2" "same_limits sb1 sb2"
      "sb_mb sb2 = sb_mb sb1" "sb_mbtail sb2 = sb_mbtail sb1" "sb_lastrecord sb2 = sb_lastrecord sb1"
      "mbuf_inv M U (used - set g1 - set g2) e s2" "dmem s2 = dmem s1"
      "cbytes s2 (r2 @ concat rs2) = drop (nat 0) (cbytes s1 (r1 @ concat rs1))"
      "\<forall>b. b \<notin> set (r1 @ concat rs1) \<longrightarrow> mbufs s2 b = mbufs s1 b"
    using d2 unfolding dropped_def by blast
  have "mbufs s2 b = mbufs s b" if "b \<notin> set (r @ concat rs)" for b
  proof -
    have "b \<notin> set (r1 @ concat rs1)" using that unfolding 1(1) by simp
    then show ?thesis using 1(12) 2(12) that by simp
  qed
  moreover have "used - set g1 - set g2 = used - set (g1 @ g2)" by auto
  moreover have "r @ concat rs = (g1 @ g2) @ r2 @ concat rs2" unfolding 1(1) 2(1) by simp
  moreover have "cbytes s2 (r2 @ concat rs2) = drop (nat len) (cbytes s (r @ concat rs))" unfolding 2(11) 1(11) by simp
  ultimately have "dropped M U used e r rs sb s len m2 nxt sb2 s2"
    by (intro droppedI [of _ _ "g1 @ g2" r2 rs2])
      (use 1 2 same_limits_trans [OF 1(5) 2(5)] suffix_order.trans [OF 2(2) 1(2)] in \<open>simp_all only:\<close>)
  then show ?thesis using empty nz by blast
qed

text \<open>The rest of a record becomes the first record.\<close>

definition first_record :: "addr list \<Rightarrow> addr list list \<Rightarrow> addr list list" where
  "first_record r rs = (if r = [] then rs else r # rs)"

lemma concat_first_record [simp]: "concat (first_record r rs) = r @ concat rs"
  by (simp add: first_record_def)

lemma records_attach:
  assumes "records r rs m nxt s"
  shows "records [] (first_record r rs) None (case m of Some a \<Rightarrow> m | None \<Rightarrow> nxt)
    (case m of Some a \<Rightarrow> upd_m a (\<lambda>b. b\<lparr> m_nextpkt := nxt \<rparr>) s | None \<Rightarrow> s)"
proof (cases r)
  case Nil
  then show ?thesis using assms by (auto simp: first_record_def records_def)
next
  case (Cons a r')
  let ?t = "upd_m a (\<lambda>b. b\<lparr> m_nextpkt := nxt \<rparr>) s"
  have m: "m = Some a" using assms by (simp add: Cons records_def mchain_Cons)
  have "records r' rs (m_next (mbufs s a)) nxt ?t" by (rule records_tl [OF assms [unfolded Cons]]) simp
  then have "records r rs (Some a) nxt ?t"
    using assms unfolding Cons by (auto simp: records_def mchain_Cons has_flag_def)
  then show ?thesis by (simp add: first_record_def Cons m records_next)
qed

lemma first_record_last:
  assumes "rs \<noteq> []" "suffix rs' rs" "concat rs = gone @ r @ concat rs'" "r @ concat rs' \<noteq> []" "\<forall>x\<in>set rs. x \<noteq> []"
  shows "last (last (first_record r rs')) = last (last rs)" "rs' \<noteq> [] \<Longrightarrow> last (first_record r rs') = last rs"
proof -
  have ll: "last (concat ys) = last (last ys)" if "ys \<noteq> []" "\<forall>x\<in>set ys. x \<noteq> []" for ys :: "'a list list"
    using that by (induction ys rule: rev_induct) auto
  have ne: "first_record r rs' \<noteq> []" "\<forall>x\<in>set (first_record r rs'). x \<noteq> []"
    using assms(2,4,5) by (auto simp: first_record_def dest: set_mono_suffix)
  have "last (concat rs) = last (r @ concat rs')" using assms(3,4) by (metis last_appendR)
  then show "last (last (first_record r rs')) = last (last rs)"
    using ll [OF assms(1,5)] ll [OF ne] by simp
  show "last (first_record r rs') = last rs" if "rs' \<noteq> []"
    using that assms(2) by (auto simp: first_record_def suffix_def)
qed

lemma sbdrop_finish_spec:
  assumes d: "records r' rs' m' nxt' t" "counted t (r' @ concat rs') sb'" "sb_mbtail sb' = sb_mbtail sb" "sb_lastrecord sb' = sb_lastrecord sb"
    and q: "sbq sb rs s" "rs \<noteq> []" and suf: "suffix rs' rs" "concat rs = gone @ r' @ concat rs'"
  shows "sbq (fst (sbdrop_finish m' nxt' sb' t)) (first_record r' rs') (snd (sbdrop_finish m' nxt' sb' t))"
    "same_limits sb' (fst (sbdrop_finish m' nxt' sb' t))"
proof -
  let ?u = "case m' of Some a \<Rightarrow> upd_m a (\<lambda>b. b\<lparr> m_nextpkt := nxt' \<rparr>) t | None \<Rightarrow> t"
  let ?mb = "case m' of Some a \<Rightarrow> m' | None \<Rightarrow> nxt'"
  have rec: "records [] (first_record r' rs') None ?mb ?u" by (rule records_attach [OF d(1)])
  have u: "snd (sbdrop_finish m' nxt' sb' t) = ?u" by (simp add: sbdrop_finish_def Let_def)
  have "m_len (mbufs ?u a) = m_len (mbufs t a)" for a by (cases m') auto
  then have cnt: "counted ?u (r' @ concat rs') sb'" using d(2) by (simp add: counted_def clen_def)
  have ne: "\<forall>x\<in>set rs. x \<noteq> []" using q by (simp add: sbq_def records_def)
  show "same_limits sb' (fst (sbdrop_finish m' nxt' sb' t))"
    by (auto simp: sbdrop_finish_def same_limits_def Let_def split: option.splits)
  show "sbq (fst (sbdrop_finish m' nxt' sb' t)) (first_record r' rs') (snd (sbdrop_finish m' nxt' sb' t))"
  proof (cases "first_record r' rs'")
    case Nil
    then have "?mb = None" using rec by (simp add: records_def)
    moreover have "r' @ concat rs' = []" using Nil concat_first_record [of r' rs'] by simp
    ultimately show ?thesis using rec cnt unfolding u Nil counted_def
      by (simp only: sbq_def) (simp add: sbdrop_finish_def Let_def counted_def)
  next
    case (Cons x ys)
    have hd: "?mb = Some (hd x)" "x \<noteq> []" and nx: "linked (\<lambda>a. m_nextpkt (mbufs ?u a)) (m_nextpkt (mbufs ?u (hd x))) (map hd ys)"
      using rec by (auto simp: records_def Cons)
    have "r' @ concat rs' \<noteq> []" using hd(2) unfolding concat_first_record [symmetric] Cons by simp
    note l = first_record_last [OF q(2) suf this ne]
    have tail: "sb_mbtail sb = Some (last (last rs))" "sb_lastrecord sb = Some (hd (last rs))"
      using q by (simp_all add: sbq_def)
    have ys: "m_nextpkt (mbufs ?u (hd x)) = None \<longleftrightarrow> ys = []" using nx by (cases ys) auto
    have "ys \<noteq> [] \<Longrightarrow> rs' \<noteq> []" using Cons by (auto simp: first_record_def split: if_splits)
    then have "sb_lastrecord (fst (sbdrop_finish m' nxt' sb' t)) = Some (hd (last (x # ys)))"
      using hd(1) ys d(4) tail(2) l(2) Cons by (cases "ys = []") (auto simp: sbdrop_finish_def Let_def)
    moreover have "sb_mbtail (fst (sbdrop_finish m' nxt' sb' t)) = Some (last (last (x # ys)))"
      using hd(1) d(3) tail(1) l(1) Cons by (simp add: sbdrop_finish_def Let_def)
    moreover have "sb_mb (fst (sbdrop_finish m' nxt' sb' t)) = ?mb" "sb_cc (fst (sbdrop_finish m' nxt' sb' t)) = sb_cc sb'"
      "sb_mbcnt (fst (sbdrop_finish m' nxt' sb' t)) = sb_mbcnt sb'"
      using hd(1) by (simp_all add: sbdrop_finish_def Let_def)
    ultimately show ?thesis
      using rec cnt Cons unfolding u by (simp add: sbq_def counted_def del: concat.simps flip: concat_first_record)
  qed
qed

lemma sbdrop_finish_state:
  "cbytes (snd (sbdrop_finish m nxt sb s)) as = cbytes s as" "dmem (snd (sbdrop_finish m nxt sb s)) = dmem s"
  "mbuf_inv M U used e s \<Longrightarrow> mbuf_inv M U used e (snd (sbdrop_finish m nxt sb s))"
  "m \<noteq> Some a \<Longrightarrow> mbufs (snd (sbdrop_finish m nxt sb s)) a = mbufs s a"
proof -
  have "mbytes (snd (sbdrop_finish m nxt sb s)) = mbytes s"
    by (rule ext) (auto simp: sbdrop_finish_def Let_def mbytes_def split: option.splits)
  then show "cbytes (snd (sbdrop_finish m nxt sb s)) as = cbytes s as" by (simp add: cbytes_def)
  show "dmem (snd (sbdrop_finish m nxt sb s)) = dmem s" "m \<noteq> Some a \<Longrightarrow> mbufs (snd (sbdrop_finish m nxt sb s)) a = mbufs s a"
    by (auto simp: sbdrop_finish_def Let_def split: option.splits)
  show "mbuf_inv M U used e s \<Longrightarrow> mbuf_inv M U used e (snd (sbdrop_finish m nxt sb s))"
    by (cases m) (auto simp: sbdrop_finish_def Let_def intro: mbuf_inv_upd)
qed

lemma cbytes_nonempty:
  assumes "records (a # r) rs m nxt s" "m_len (mbufs s a) \<noteq> 0"
  shows "cbytes s ((a # r) @ xs) \<noteq> []"
proof -
  have "0 < m_len (mbufs s a)" using assms by (simp add: records_def mchain_Cons)
  then have "mbytes s a \<noteq> []" by (metis length_0_conv mbytes_length nat_0_iff not_le)
  then show ?thesis by simp
qed

lemma records_bytes_length:
  assumes "records r rs m nxt s"
  shows "int (length (cbytes s (r @ concat rs))) = clen s (r @ concat rs)"
proof -
  have "\<forall>a\<in>set as. 0 \<le> m_len (mbufs s a) \<Longrightarrow> int (length (cbytes s as)) = clen s as" for as
    by (induction as) auto
  moreover have "\<forall>a\<in>set (r @ concat rs). 0 \<le> m_len (mbufs s a)" using assms by (auto simp: records_def mchain_def)
  ultimately show ?thesis by blast
qed

lemma dropped_all_gone:
  assumes "x \<noteq> []" "records x ys m nxt s" "x @ concat ys = gone @ r' @ concat rs'" "suffix rs' ys" "records r' rs' m2 nxt1 s2"
    and "cbytes s2 (r' @ concat rs') = drop (nat (clen s (x @ concat ys))) (cbytes s (x @ concat ys))"
    and "case m2 of None \<Rightarrow> True | Some a \<Rightarrow> m_len (mbufs s2 a) \<noteq> 0"
  shows "gone \<noteq> []"
proof
  assume gone: "gone = []"
  have empty: "cbytes s2 (r' @ concat rs') = []"
    using assms(6) records_bytes_length [OF assms(2)] by (metis drop_all nat_int order_refl)
  show False
  proof (cases r')
    case Nil
    then have "length (concat rs') = length x + length (concat ys)" using arg_cong [OF assms(3), of length] gone by simp
    moreover have "length (concat rs') \<le> length (concat ys)" using assms(4) by (auto simp: suffix_def)
    ultimately show False using assms(1) by simp
  next
    case (Cons a r)
    then have "m_len (mbufs s2 a) \<noteq> 0" using assms(5,7) by (auto simp: records_def mchain_Cons)
    then show False using cbytes_nonempty [of a r rs' m2 nxt1 s2 "concat rs'"] assms(5) empty by (simp add: Cons)
  qed
qed

lemma u64_of_int_eq_0: "0 \<le> k \<Longrightarrow> k < 2 ^ 64 \<Longrightarrow> (of_int k :: u64) = 0 \<longleftrightarrow> k = 0"
  using zdvd_imp_le [of "2 ^ 64" k] by (auto simp: word_of_int_eq_0_iff)

lemma int32_u64: "0 \<le> c \<Longrightarrow> c < 2 ^ 31 \<Longrightarrow> int32 (uint (of_int c :: u64)) = c"
  by (simp add: int32_def uint_word_of_int)

context tx_reflection
begin

text \<open>Dropping \<^term>\<open>len\<close> bytes from the front.\<close>

lemma sbdrop_spec:
  assumes q: "sbq sb rs s" and use: "set (concat rs) \<subseteq> used" and inv: "mbuf_inv M U used e s"
    and len: "0 \<le> len" "len \<le> clen s (concat rs)"
  shows "\<exists>sb' t rs' gone. sbdrop reflect len (sb, s) = Some (sb', t) \<and> concat rs = gone @ concat rs' \<and>
    length rs' \<le> length rs \<and> (rs \<noteq> [] \<and> len = clen s (concat rs) \<longrightarrow> gone \<noteq> []) \<and>
    sbq sb' rs' t \<and> same_limits sb sb' \<and> mbuf_inv M U (used - set gone) e t \<and> dmem t = dmem s \<and>
    sbytes t rs' = drop (nat len) (sbytes s rs) \<and> (\<forall>a. a \<notin> set (concat rs) \<longrightarrow> mbufs t a = mbufs s a)"
proof (cases rs)
  case Nil
  have "sb_mb sb = None" "sb_mbtail sb = None" "sb_lastrecord sb = None" "len = 0"
    using q len by (auto simp: sbq_def records_def Nil)
  then have "sbdrop reflect len (sb, s) = Some (sb, s)"
    by (simp add: sbdrop_def sbdrop_loop.simps sbdrop_empty.simps sbdrop_finish_def)
  then show ?thesis using q inv by (auto simp: Nil sbytes_def)
next
  case (Cons x ys)
  let ?nxt = "m_nextpkt (mbufs s (hd x))"
  have mb: "sb_mb sb = Some (hd x)" and x: "x \<noteq> []" and rec: "records x ys (Some (hd x)) ?nxt s"
    and cnt: "counted s (x @ concat ys) sb"
    using q unfolding sbq_def Cons records_next by auto
  obtain m1 nxt1 sb1 s1 where loop: "sbdrop_loop reflect (Some (hd x)) ?nxt len (sb, s) = Some (m1, nxt1, sb1, s1)"
    and d1: "dropped M U used e x ys sb s len m1 nxt1 sb1 s1"
    using sbdrop_loop_spec [OF rec cnt _ inv len(1)] use len(2) by (auto simp: Cons)
  have "set (x @ concat ys) \<subseteq> used" "distinct (x @ concat ys)" using use rec by (auto simp: Cons records_def)
  from sbdrop_empty_after [OF d1 this] obtain m2 sb2 s2 where empty: "sbdrop_empty m1 (sb1, s1) = Some (m2, sb2, s2)"
    and d2: "dropped M U used e x ys sb s len m2 nxt1 sb2 s2"
    and nz: "case m2 of None \<Rightarrow> True | Some a \<Rightarrow> m_len (mbufs s2 a) \<noteq> 0" by blast
  obtain gone r' rs' where g: "x @ concat ys = gone @ r' @ concat rs'" "suffix rs' ys" "records r' rs' m2 nxt1 s2"
      "counted s2 (r' @ concat rs') sb2" "same_limits sb sb2"
      "sb_mb sb2 = sb_mb sb" "sb_mbtail sb2 = sb_mbtail sb" "sb_lastrecord sb2 = sb_lastrecord sb"
      "mbuf_inv M U (used - set gone) e s2" "dmem s2 = dmem s"
      "cbytes s2 (r' @ concat rs') = drop (nat len) (cbytes s (x @ concat ys))"
      "\<forall>b. b \<notin> set (x @ concat ys) \<longrightarrow> mbufs s2 b = mbufs s b"
    using d2 unfolding dropped_def by blast
  let ?f = "sbdrop_finish m2 nxt1 sb2 s2"
  have "sbdrop reflect len (sb, s) = Some ?f" using loop empty by (simp add: sbdrop_def mb)
  moreover note fin = sbdrop_finish_spec [OF g(3,4,7,8) q [unfolded Cons] _ suffix_ConsI [OF g(2), of x], of gone]
  have "sbq (fst ?f) (first_record r' rs') (snd ?f)" using fin(1) g(1) by (simp add: Cons)
  moreover have "same_limits sb (fst ?f)" using fin(2) g(1) same_limits_trans [OF g(5)] by (simp add: Cons)
  moreover note sf = sbdrop_finish_state [where m = m2 and nxt = nxt1 and sb = sb2 and s = s2]
  have "mbuf_inv M U (used - set gone) e (snd ?f)" by (rule sf(3) [OF g(9)])
  moreover have "sbytes (snd ?f) (first_record r' rs') = drop (nat len) (sbytes s rs)"
    using g(11) sf(1) by (simp add: sbytes_def Cons)
  moreover have "length (first_record r' rs') \<le> length rs" using suffix_length_le [OF g(2)] by (simp add: first_record_def Cons)
  moreover have "mbufs (snd ?f) a = mbufs s a" if "a \<notin> set (concat rs)" for a
  proof -
    have "m2 \<noteq> Some a" using that g(1,3) by (cases r') (auto simp: Cons records_def mchain_Cons)
    then show ?thesis using sf(4) g(12) that by (simp add: Cons)
  qed
  moreover have "gone \<noteq> []" if "len = clen s (concat rs)"
    by (rule dropped_all_gone [OF x rec g(1-3) _ nz]) (use g(11) that in \<open>simp add: Cons\<close>)
  ultimately show ?thesis
    using g(1,10) sf(2)
    by (rule_tac exI [of _ "fst ?f"], rule_tac exI [of _ "snd ?f"], rule_tac exI [of _ "first_record r' rs'"],
        rule_tac exI [of _ gone]) (simp add: Cons)
qed

lemma sbdrop_loop_panic:
  assumes "records r rs m nxt s" "clen s (r @ concat rs) < len"
  shows "sbdrop_loop reflect m nxt len (sb, s) = None"
  using assms
proof (induction "length r + length rs + length (concat rs)" arbitrary: r rs m nxt len sb s rule: less_induct)
  case less
  have pos: "0 < len" using clen_records_nonneg [OF less.prems(1)] less.prems(2) by simp
  consider "r = []" "rs = []" | x ys where "r = []" "rs = x # ys" | a r1 where "r = a # r1" by (cases r; cases rs) auto
  then show ?case
  proof cases
    case 1
    then have "m = None" "nxt = None" using less.prems(1) by (auto simp: records_def)
    then show ?thesis using pos by (subst sbdrop_loop.simps) simp
  next
    case 2
    have "m = None" "nxt = Some (hd x)" and rec: "records x ys (Some (hd x)) (m_nextpkt (mbufs s (hd x))) s"
      using less.prems(1) unfolding 2 records_next by auto
    moreover have "sbdrop_loop reflect (Some (hd x)) (m_nextpkt (mbufs s (hd x))) len (sb, s) = None"
      by (rule less.hyps [OF _ rec]) (use less.prems(2) in \<open>simp_all add: 2\<close>)
    ultimately show ?thesis using pos by (subst sbdrop_loop.simps) simp
  next
    case 3
    let ?l = "m_len (mbufs s a)" and ?s1 = "reflect (sb_so sb) (m_len (mbufs s a)) s"
    have m: "m = Some a" and rec: "records (a # r1) rs m nxt s" and a: "a \<notin> set (r1 @ concat rs)"
      using less.prems(1) by (auto simp: 3 records_def mchain_Cons)
    have l: "?l \<le> len" using less.prems clen_records_nonneg [OF records_tl [OF rec, of s]] by (simp add: 3)
    have other: "mbufs (snd (MFREE a ?s1)) x = mbufs s x" if "x \<noteq> a" for x
      using MFREE_heap(2) [OF that] reflect_mbufs by metis
    have "clen (snd (MFREE a ?s1)) (r1 @ concat rs) = clen s (r1 @ concat rs)" by (rule clen_cong) (use a other in metis)
    then have "sbdrop_loop reflect (m_next (mbufs s a)) nxt (len - ?l) (sbfree s a sb, snd (MFREE a ?s1)) = None"
      by (intro less.hyps [OF _ records_tl [OF rec other]]) (use less.prems(2) in \<open>simp_all add: 3\<close>)
    then show ?thesis
      using pos l MFREE_heap(1) [of a ?s1]
      by (subst sbdrop_loop.simps) (simp add: m Let_def split_beta reflect_mbufs)
  qed
qed

text \<open>A request for more bytes than there are stops the program.\<close>

lemma sbdrop_panic:
  assumes q: "sbq sb rs s" and len: "clen s (concat rs) < len"
  shows "sbdrop reflect len (sb, s) = None"
proof -
  have "sbdrop_loop reflect (sb_mb sb) (case sb_mb sb of None \<Rightarrow> None | Some m \<Rightarrow> m_nextpkt (mbufs s m)) len (sb, s) = None"
  proof (cases rs)
    case Nil
    then show ?thesis using q len sbdrop_loop_panic [of "[]" "[]" None None s len sb] by (simp add: sbq_def records_def)
  next
    case (Cons x ys)
    then show ?thesis using q len sbdrop_loop_panic [of x ys] by (auto simp: sbq_def records_next)
  qed
  then show ?thesis by (simp add: sbdrop_def)
qed

text \<open>Flushing releases every mbuf of the buffer.\<close>

lemma sbflush_spec:
  assumes "sbq sb rs s" "set (concat rs) \<subseteq> used" "mbuf_inv M U used e s"
    and "clen s (concat rs) < 2 ^ 31" "length (concat rs) < 2 ^ 52"
  shows "\<exists>sb' t. sbflush reflect (sb, s) = Some (sb', t) \<and> sbq sb' [] t \<and> same_limits sb sb' \<and>
    mbuf_inv M U (used - set (concat rs)) e t \<and> dmem t = dmem s \<and> (\<forall>a. a \<notin> set (concat rs) \<longrightarrow> mbufs t a = mbufs s a)"
  using assms
proof (induction "length (concat rs)" arbitrary: rs sb s used rule: less_induct)
  case less
  have rec: "records [] rs None (sb_mb sb) s" and cc: "sb_cc sb = of_int (clen s (concat rs))"
    and cnt: "sb_mbcnt sb = of_int (MSIZE * int (length (concat rs)))"
    using less.prems(1) by (simp_all add: sbq_def counted_def)
  have nonneg: "0 \<le> clen s (concat rs)" using clen_records_nonneg [OF rec] by simp
  show ?case
  proof (cases "rs = []")
    case True
    then have "sbflush reflect (sb, s) = Some (sb, s)" using cnt by (subst sbflush.simps) simp
    then show ?thesis using less.prems True by simp
  next
    case False
    have "concat rs \<noteq> []" using False rec by (cases rs) (auto simp: records_def)
    then have "sb_mbcnt sb \<noteq> 0" unfolding cnt
      using u64_of_int_eq_0 [of "MSIZE * int (length (concat rs))"] less.prems(5) by simp
    then have eq: "sbflush reflect (sb, s) = sbdrop reflect (clen s (concat rs)) (sb, s) \<bind> sbflush reflect"
      using int32_u64 [OF nonneg less.prems(4)] cc by (subst sbflush.simps) simp
    obtain sb1 s1 rs1 gone where 1: "sbdrop reflect (clen s (concat rs)) (sb, s) = Some (sb1, s1)"
        "concat rs = gone @ concat rs1" "gone \<noteq> []" "sbq sb1 rs1 s1" "same_limits sb sb1"
        "mbuf_inv M U (used - set gone) e s1" "dmem s1 = dmem s"
        "sbytes s1 rs1 = drop (nat (clen s (concat rs))) (sbytes s rs)" "\<forall>a. a \<notin> set (concat rs) \<longrightarrow> mbufs s1 a = mbufs s a"
      using sbdrop_spec [OF less.prems(1-3) nonneg order_refl] False by blast
    have "distinct (gone @ concat rs1)" using rec 1(2) by (simp add: records_def)
    then have use: "set (concat rs1) \<subseteq> used - set gone" using less.prems(2) unfolding 1(2) by auto
    have "clen s1 (concat rs1) = int (length (sbytes s1 rs1))"
      using records_bytes_length [of "[]" rs1 None "sb_mb sb1" s1] 1(4) by (simp add: sbq_def sbytes_def)
    moreover have "length (sbytes s rs) = nat (clen s (concat rs))"
      using records_bytes_length [OF rec] by (simp add: sbytes_def)
    ultimately have "clen s1 (concat rs1) = 0" using 1(8) by simp
    moreover have "length (concat rs1) < length (concat rs)" using 1(2,3) by simp
    ultimately obtain sb' t where 2: "sbflush reflect (sb1, s1) = Some (sb', t)" "sbq sb' [] t" "same_limits sb1 sb'"
        "mbuf_inv M U (used - set gone - set (concat rs1)) e t" "dmem t = dmem s1"
        "\<forall>a. a \<notin> set (concat rs1) \<longrightarrow> mbufs t a = mbufs s1 a"
      using less.hyps [OF _ 1(4) use 1(6)] less.prems(5) by auto
    have "used - set gone - set (concat rs1) = used - set (concat rs)" unfolding 1(2) by auto
    then show ?thesis
      using 1 2 same_limits_trans [OF 1(5) 2(3)] unfolding eq by auto
  qed
qed

end

section \<open>Appending to a stream\<close>

definition lastopt :: "'a list \<Rightarrow> 'a option" where
  "lastopt xs = (if xs = [] then None else Some (last xs))"

lemma lastopt_simps [simp]: "lastopt [] = None" "lastopt (xs @ [x]) = Some x"
  by (simp_all add: lastopt_def)

lemma linked_last: "linked nxt p xs \<Longrightarrow> xs \<noteq> [] \<Longrightarrow> nxt (last xs) = None"
  by (induction xs arbitrary: p) auto

lemma linked_snoc:
  assumes "linked nxt p xs" "x \<notin> set xs" "nxt' x = None" "\<And>y. y \<in> set xs \<Longrightarrow> y \<noteq> last xs \<Longrightarrow> nxt' y = nxt y"
    and "xs \<noteq> [] \<Longrightarrow> nxt' (last xs) = Some x"
  shows "linked nxt' (if xs = [] then Some x else p) (xs @ [x])"
proof (cases "xs = []")
  case False
  have "linked (nxt'(last xs := None)) p xs"
    by (rule linked_cong [OF assms(1)]) (use assms(4) linked_last [OF assms(1) False] in auto)
  then show ?thesis
    using False assms linked_distinct [OF assms(1)] by (simp add: linked_append)
qed (use assms(3) in simp)

text \<open>At most the link of an mbuf has changed.\<close>

definition relinked :: "addr set \<Rightarrow> 'a mstate_scheme \<Rightarrow> 'a mstate_scheme \<Rightarrow> bool" where
  "relinked A s t \<longleftrightarrow> (\<forall>a\<in>A. mbufs t a = (mbufs s a)\<lparr> m_next := m_next (mbufs t a) \<rparr>)"

lemma relinked_fields:
  assumes "relinked A s t" "a \<in> A"
  shows "m_len (mbufs t a) = m_len (mbufs s a)" "m_data (mbufs t a) = m_data (mbufs s a)"
    "m_nextpkt (mbufs t a) = m_nextpkt (mbufs s a)" "m_flags (mbufs t a) = m_flags (mbufs s a)"
proof -
  have "mbufs t a = (mbufs s a)\<lparr> m_next := m_next (mbufs t a) \<rparr>" using assms by (simp add: relinked_def)
  from arg_cong [OF this, of m_len] arg_cong [OF this, of m_data] arg_cong [OF this, of m_nextpkt] arg_cong [OF this, of m_flags]
  show "m_len (mbufs t a) = m_len (mbufs s a)" "m_data (mbufs t a) = m_data (mbufs s a)"
    "m_nextpkt (mbufs t a) = m_nextpkt (mbufs s a)" "m_flags (mbufs t a) = m_flags (mbufs s a)"
    by simp_all
qed

lemma relinked_bytes:
  assumes "relinked A s t" "set as \<subseteq> A" "dmem t = dmem s"
  shows "cbytes t as = cbytes s as" "clen t as = clen s as" "counted t as sb = counted s as sb"
proof -
  show *: "cbytes t as = cbytes s as" "clen t as = clen s as"
    using assms by (induction as) (auto simp: mbytes_def relinked_fields [OF assms(1)])
  show "counted t as sb = counted s as sb" by (simp add: counted_def *)
qed

lemma relinked_trans: "relinked A s t \<Longrightarrow> relinked B t u \<Longrightarrow> B \<subseteq> A \<Longrightarrow> relinked B s u"
  unfolding relinked_def by (metis mbuf.surjective mbuf.update_convs(1) subsetD)

text \<open>One mbuf with data is linked behind the others.\<close>

lemma compress_link_spec:
  assumes lk: "linked (m_nexts s) (sb_mb sb) bs" and cnt: "counted s bs sb"
    and a: "a \<notin> set bs" "\<not> has_flag M_EXT (mbufs s a)" "\<not> has_flag M_EOR (mbufs s a)" and inv: "mbuf_inv M U used e s"
  defines "sb1 \<equiv> fst (compress_link a (lastopt bs) (sb, s))"
    and "t \<equiv> upd_m a (\<lambda>b. b\<lparr> m_next := None \<rparr>) (snd (compress_link a (lastopt bs) (sb, s)))"
  shows "linked (m_nexts t) (sb_mb sb1) (bs @ [a])" "counted t (bs @ [a]) sb1" "sb_mbtail sb1 = Some a" "same_limits sb sb1"
    "sb_lastrecord sb1 = sb_lastrecord sb" "m_next (mbufs (snd (compress_link a (lastopt bs) (sb, s))) a) = m_next (mbufs s a)"
    "relinked UNIV s t" "\<And>x. x \<noteq> a \<Longrightarrow> lastopt bs \<noteq> Some x \<Longrightarrow> mbufs t x = mbufs s x" "dmem t = dmem s" "mbuf_inv M U used e t"
proof -
  have "m_flags (mbufs s a) AND NOT M_EOR = m_flags (mbufs s a)"
    using a(3) by (simp add: has_flag_def and_not_absorb)
  then have flags: "(mbufs s a)\<lparr> m_flags := m_flags (mbufs s a) AND NOT M_EOR, m_next := n \<rparr> = (mbufs s a)\<lparr> m_next := n \<rparr>" for n
    by simp
  have l: "lastopt bs = Some x \<Longrightarrow> x \<in> set bs" for x by (auto simp: lastopt_def split: if_splits)
  have t: "mbufs t = (case lastopt bs of None \<Rightarrow> mbufs s | Some x \<Rightarrow> (mbufs s)(x := (mbufs s x)\<lparr> m_next := Some a \<rparr>))
      (a := (mbufs s a)\<lparr> m_next := None \<rparr>)"
    using l a(1) flags by (auto simp: t_def compress_link_def Let_def fun_upd_def split: option.splits)
  show rel: "relinked UNIV s t" by (auto simp: relinked_def t split: option.splits)
  show d: "dmem t = dmem s" by (auto simp: t_def compress_link_def Let_def split: option.splits)
  show "\<And>x. x \<noteq> a \<Longrightarrow> lastopt bs \<noteq> Some x \<Longrightarrow> mbufs t x = mbufs s x" by (auto simp: t split: option.splits)
  show "mbuf_inv M U used e t"
    by (auto simp: t_def compress_link_def Let_def split: option.splits intro!: mbuf_inv_upd inv)
  show "sb_mbtail sb1 = Some a" "same_limits sb sb1" "sb_lastrecord sb1 = sb_lastrecord sb"
    by (auto simp: sb1_def compress_link_def sballoc_def same_limits_def Let_def split: option.splits)
  show "m_next (mbufs (snd (compress_link a (lastopt bs) (sb, s))) a) = m_next (mbufs s a)"
    using l a(1) by (auto simp: compress_link_def Let_def split: option.splits)
  have "counted s (bs @ [a]) sb1"
    using cnt a l by (auto simp: sb1_def compress_link_def sballoc_def counted_def Let_def algebra_simps has_flag_def split: option.splits)
  then show "counted t (bs @ [a]) sb1" using relinked_bytes(3) [OF rel _ d] by blast
  have mb: "sb_mb sb1 = (if bs = [] then Some a else sb_mb sb)"
    by (auto simp: sb1_def compress_link_def sballoc_def lastopt_def Let_def)
  show "linked (m_nexts t) (sb_mb sb1) (bs @ [a])"
    unfolding mb by (rule linked_snoc [OF lk a(1)]) (use a(1) in \<open>auto simp: t lastopt_def\<close>)
qed

abbreviation nonempty :: "'a mstate_scheme \<Rightarrow> addr list \<Rightarrow> addr list" where
  "nonempty s as \<equiv> filter (\<lambda>a. m_len (mbufs s a) \<noteq> 0) as"

abbreviation empties :: "'a mstate_scheme \<Rightarrow> addr list \<Rightarrow> addr set" where
  "empties s as \<equiv> {a \<in> set as. m_len (mbufs s a) = 0}"

text \<open>What compressing a chain without end-of-record marks behind the mbufs \<^term>\<open>bs\<close> leaves: the
  empty mbufs are freed and the others linked.\<close>

definition compressed ::
  "addr set \<Rightarrow> addr set \<Rightarrow> addr set \<Rightarrow> (addr \<Rightarrow> nat) \<Rightarrow> addr list \<Rightarrow> addr list \<Rightarrow> sockbuf \<Rightarrow> 'a mstate_scheme \<Rightarrow> sockbuf \<Rightarrow>
   'a mstate_scheme \<Rightarrow> bool" where
  "compressed M U used e bs as sb s sb' t \<longleftrightarrow>
    linked (m_nexts t) (sb_mb sb') (bs @ nonempty s as) \<and> counted t (bs @ nonempty s as) sb' \<and>
    sb_mbtail sb' = lastopt (bs @ nonempty s as) \<and> same_limits sb sb' \<and>
    mbuf_inv M U (used - empties s as) e t \<and> dmem t = dmem s \<and> relinked (- empties s as) s t \<and>
    (\<forall>a. a \<notin> set (bs @ as) \<longrightarrow> mbufs t a = mbufs s a)"

lemma compressed_skip:
  assumes c: "compressed M U (used - {a}) e bs as sb1 s1 sb' t"
    and a: "m_len (mbufs s a) = 0" "a \<notin> set as"
    and s1: "\<And>x. x \<noteq> a \<Longrightarrow> mbufs s1 x = mbufs s x" "dmem s1 = dmem s" and sb1: "same_limits sb sb1"
  shows "compressed M U used e bs (a # as) sb s sb' t"
proof -
  have rest: "m_len (mbufs s1 x) = m_len (mbufs s x)" if "x \<in> set as" for x using s1(1) [of x] that a(2) by metis
  have f: "nonempty s1 as = nonempty s as" "empties s1 as = empties s as" using rest by (auto intro!: filter_cong)
  have "used - {a} - empties s as = used - empties s (a # as)" using a by auto
  moreover have "relinked (- empties s (a # as)) s t"
    unfolding relinked_def
  proof
    fix x assume x: "x \<in> - empties s (a # as)"
    then have "x \<noteq> a" "x \<in> - empties s as" using a(1) by auto
    moreover have "relinked (- empties s as) s1 t" using c unfolding compressed_def f by simp
    ultimately have "mbufs t x = (mbufs s1 x)\<lparr> m_next := m_next (mbufs t x) \<rparr>" unfolding relinked_def by blast
    then show "mbufs t x = (mbufs s x)\<lparr> m_next := m_next (mbufs t x) \<rparr>" unfolding s1(1) [OF \<open>x \<noteq> a\<close>] .
  qed
  ultimately show ?thesis
    using c a s1 same_limits_trans [OF sb1] unfolding compressed_def f by auto
qed

lemma compressed_link:
  assumes c: "compressed M U used e (bs @ [a]) as sb1 s1 sb' t"
    and a: "m_len (mbufs s a) \<noteq> 0"
    and s1: "relinked UNIV s s1" "\<And>x. x \<notin> set bs \<Longrightarrow> x \<noteq> a \<Longrightarrow> mbufs s1 x = mbufs s x" "dmem s1 = dmem s" and sb1: "same_limits sb sb1"
  shows "compressed M U used e bs (a # as) sb s sb' t"
proof -
  have rest: "m_len (mbufs s1 x) = m_len (mbufs s x)" for x by (rule relinked_fields(1) [OF s1(1)]) simp
  have f: "nonempty s1 as = nonempty s as" "empties s1 as = empties s as" using rest by (auto intro!: filter_cong)
  have "empties s (a # as) = empties s as" using a by auto
  moreover have "relinked (- empties s as) s t"
    using c relinked_trans [OF s1(1)] unfolding compressed_def f by simp
  ultimately show ?thesis
    using c a s1 same_limits_trans [OF sb1] unfolding compressed_def f by auto
qed

lemma sbcompress_loop_stream:
  assumes "linked (m_nexts s) (sb_mb sb) bs" "counted s bs sb" "sb_mbtail sb = lastopt bs"
    and "mchain s m as" "distinct (bs @ as)" "\<forall>a\<in>set as. \<not> has_flag M_EXT (mbufs s a) \<and> \<not> has_flag M_EOR (mbufs s a)"
    and "set as \<subseteq> used" "mbuf_inv M U used e s"
  shows "\<exists>sb' t. sbcompress_loop 0 m (lastopt bs) (sb, s) = Some (0, lastopt (bs @ nonempty s as), sb', t) \<and>
    compressed M U used e bs as sb s sb' t"
  using assms
proof (induction as arbitrary: m bs sb s used)
  case Nil
  then show ?case by (subst sbcompress_loop.simps) (simp add: relinked_def compressed_def)
next
  case (Cons a as)
  have m: "m = Some a" and len: "0 \<le> m_len (mbufs s a)" and ch: "mchain s (m_next (mbufs s a)) as"
    using Cons.prems(4) by (auto simp: mchain_Cons)
  have a: "a \<notin> set bs" "a \<notin> set as" "a \<in> used" using Cons.prems(5,7) by auto
  have ext: "\<not> has_flag M_EXT (mbufs s a)" and eor: "\<not> has_flag M_EOR (mbufs s a)" using Cons.prems(6) by auto
  have eor0: "m_flags (mbufs s a) AND M_EOR = 0" using eor by (simp add: has_flag_def)
  show ?case
  proof (cases "m_len (mbufs s a) = 0")
    case True
    let ?s = "snd (MFREE a s)"
    let ?sb = "if sb_lastrecord sb = Some a then sb\<lparr> sb_lastrecord := m_next (mbufs s a) \<rparr> else sb"
    have eq: "sbcompress_loop 0 m (lastopt bs) (sb, s) = sbcompress_loop 0 (m_next (mbufs s a)) (lastopt bs) (?sb, ?s)"
      using True MFREE_heap(1) [of a s]
      by (subst sbcompress_loop.simps) (simp add: m eor0 compress_skip_def m_free_def split_beta Let_def)
    have rest: "mbufs ?s x = mbufs s x" if "x \<in> set (bs @ as)" for x
      by (rule MFREE_heap(2)) (use that a in auto)
    have "nonempty ?s as = nonempty s as" using rest by (auto intro!: filter_cong)
    moreover have "\<exists>sb' t. sbcompress_loop 0 (m_next (mbufs s a)) (lastopt bs) (?sb, ?s) = Some (0, lastopt (bs @ nonempty ?s as), sb', t) \<and>
        compressed M U (used - {a}) e bs as ?sb ?s sb' t"
    proof (rule Cons.IH)
      show "linked (m_nexts ?s) (sb_mb ?sb) bs" using Cons.prems(1) rest by (auto intro: linked_cong)
      show "counted ?s bs ?sb" using Cons.prems(2) clen_cong [of bs ?s s] rest by (simp add: counted_def)
      show "mchain ?s (m_next (mbufs s a)) as" by (rule mchain_cong [OF ch]) (use rest in simp)
      show "mbuf_inv M U (used - {a}) e ?s" by (rule MFREE_inv [OF Cons.prems(8) a(3)])
    qed (use Cons.prems rest a in auto)
    moreover have "same_limits sb ?sb" by (simp add: same_limits_def)
    ultimately show ?thesis
      unfolding eq using True compressed_skip [OF _ True a(2) MFREE_heap(2,3)] by fastforce
  next
    case False
    define sb1 where "sb1 = fst (compress_link a (lastopt bs) (sb, s))"
    define s1 where "s1 = upd_m a (\<lambda>b. b\<lparr> m_next := None \<rparr>) (snd (compress_link a (lastopt bs) (sb, s)))"
    note l = compress_link_spec [OF Cons.prems(1,2) a(1) ext eor Cons.prems(8), folded sb1_def s1_def]
    have eq: "sbcompress_loop 0 m (lastopt bs) (sb, s) = sbcompress_loop 0 (m_next (mbufs s a)) (lastopt (bs @ [a])) (sb1, s1)"
      using False l(6) len
      by (subst sbcompress_loop.simps)
        (simp add: m eor0 compress_skip_def M_TRAILINGSPACE_def split_beta Let_def sb1_def s1_def split: option.splits)
    have other: "mbufs s1 x = mbufs s x" if "x \<notin> set bs" "x \<noteq> a" for x
      by (rule l(8)) (use that in \<open>auto simp: lastopt_def\<close>)
    have rest: "mbufs s1 x = mbufs s x" if "x \<in> set as" for x
      by (rule other) (use that a(2) Cons.prems(5) in auto)
    have "nonempty s1 as = nonempty s as" using rest by (auto intro!: filter_cong)
    moreover have "\<exists>sb' t. sbcompress_loop 0 (m_next (mbufs s a)) (lastopt (bs @ [a])) (sb1, s1) =
        Some (0, lastopt ((bs @ [a]) @ nonempty s1 as), sb', t) \<and> compressed M U used e (bs @ [a]) as sb1 s1 sb' t"
    proof (rule Cons.IH [OF l(1,2) _ _ _ _ _ l(10)])
      show "mchain s1 (m_next (mbufs s a)) as" by (rule mchain_cong [OF ch]) (rule rest)
    qed (use Cons.prems rest l(3) in auto)
    ultimately show ?thesis
      unfolding eq using False compressed_link [OF _ False l(7) other l(9,4)] by fastforce
  qed
qed

text \<open>A stream is at most one record.\<close>

definition stream_of :: "addr list \<Rightarrow> addr list list" where
  "stream_of bs = (if bs = [] then [] else [bs])"

lemma concat_stream_of [simp]: "concat (stream_of bs) = bs"
  by (simp add: stream_of_def)

lemma sbq_stream:
  "sbq sb (stream_of bs) s \<longleftrightarrow>
     linked (m_nexts s) (sb_mb sb) bs \<and> counted s bs sb \<and> sb_mbtail sb = lastopt bs \<and> sb_lastrecord sb = sb_mb sb \<and>
     (\<forall>a\<in>set bs. 0 \<le> m_len (mbufs s a) \<and> m_len (mbufs s a) < 2 ^ 31 \<and> \<not> has_flag M_EXT (mbufs s a)) \<and>
     (bs \<noteq> [] \<longrightarrow> m_nextpkt (mbufs s (hd bs)) = None)"
proof (cases bs)
  case Nil
  then show ?thesis by (auto simp: sbq_def stream_of_def records_def)
next
  case (Cons b bs')
  have "linked (m_nexts s) (sb_mb sb) bs \<Longrightarrow> distinct bs" by (rule linked_distinct)
  then show ?thesis
    by (auto simp: sbq_def stream_of_def records_def mchain_def lastopt_def Cons)
qed

lemma nonempty_bytes: "mchain s p as \<Longrightarrow> cbytes s (nonempty s as) = cbytes s as"
  by (induction as arbitrary: p) (auto simp: mchain_Cons mbytes_def)

context tx_reflection
begin

text \<open>Appending a chain to a stream.\<close>

lemma sbappendstream_spec:
  assumes q: "sbq sb (stream_of bs) s" and ch: "mchain s (Some m) as" and dist: "distinct (bs @ as)"
    and new: "\<forall>a\<in>set as. \<not> has_flag M_EXT (mbufs s a) \<and> \<not> has_flag M_EOR (mbufs s a) \<and> m_nextpkt (mbufs s a) = None"
    and use: "set as \<subseteq> used" and inv: "mbuf_inv M U used e s"
  shows "\<exists>sb' t. sbappendstream reflect m (sb, s) = Some (sb', t) \<and> sbq sb' (stream_of (bs @ nonempty s as)) t \<and>
    same_limits sb sb' \<and> mbuf_inv M U (used - empties s as) e t \<and> dmem t = dmem s \<and>
    cbytes t (bs @ nonempty s as) = cbytes s bs @ cbytes s as \<and> (\<forall>a. a \<notin> set (bs @ as) \<longrightarrow> mbufs t a = mbufs s a)"
proof -
  let ?s = "reflect (sb_so sb) (m_len (mbufs s m)) s"
  have mb: "mbufs ?s = mbufs s" and dm: "dmem ?s = dmem s" by (rule reflect_mbufs, rule reflect_dmem)
  have ch': "mchain ?s (Some m) as" by (rule mchain_cong [OF ch]) (simp add: mb)
  have bs: "linked (m_nexts s) (sb_mb sb) bs" "counted s bs sb" "sb_mbtail sb = lastopt bs"
    and lens: "\<forall>a\<in>set bs. 0 \<le> m_len (mbufs s a) \<and> m_len (mbufs s a) < 2 ^ 31 \<and> \<not> has_flag M_EXT (mbufs s a)"
    and pkt: "bs \<noteq> [] \<longrightarrow> m_nextpkt (mbufs s (hd bs)) = None"
    using q unfolding sbq_stream by auto
  obtain sb1 t where loop: "sbcompress_loop 0 (Some m) (lastopt bs) (sb, ?s) = Some (0, lastopt (bs @ nonempty s as), sb1, t)"
    and c: "compressed M U used e bs as sb ?s sb1 t"
    using sbcompress_loop_stream [of ?s sb bs "Some m" as used M U e] bs ch' dist new use reflect_inv [OF inv]
    by (auto simp: mb)
  have run: "sbappendstream reflect m (sb, s) = Some (sb1\<lparr> sb_lastrecord := sb_mb sb1 \<rparr>, t)"
    using loop bs(3) by (simp add: sbappendstream_def sbcompress_def split: option.splits)
  have rel: "relinked (- empties s as) s t" using c by (simp add: compressed_def relinked_def mb)
  have sub: "set (bs @ nonempty s as) \<subseteq> - empties s as" using dist by auto
  note fld = relinked_fields [OF rel subsetD [OF sub]]
  have dm': "dmem t = dmem s" using c dm by (simp add: compressed_def)
  have "sbq (sb1\<lparr> sb_lastrecord := sb_mb sb1 \<rparr>) (stream_of (bs @ nonempty s as)) t"
    unfolding sbq_stream
  proof (intro conjI ballI impI)
    show "linked (m_nexts t) (sb_mb (sb1\<lparr> sb_lastrecord := sb_mb sb1 \<rparr>)) (bs @ nonempty s as)"
      "counted t (bs @ nonempty s as) (sb1\<lparr> sb_lastrecord := sb_mb sb1 \<rparr>)"
      "sb_mbtail (sb1\<lparr> sb_lastrecord := sb_mb sb1 \<rparr>) = lastopt (bs @ nonempty s as)"
      using c by (simp_all add: compressed_def counted_def mb)
    fix a assume a: "a \<in> set (bs @ nonempty s as)"
    show "0 \<le> m_len (mbufs t a)" "m_len (mbufs t a) < 2 ^ 31" "\<not> has_flag M_EXT (mbufs t a)"
      using lens ch new a unfolding fld(1) [OF a] has_flag_def fld(4) [OF a] by (auto simp: mchain_def)
  next
    assume ne: "bs @ nonempty s as \<noteq> []"
    let ?h = "hd (bs @ nonempty s as)"
    have h: "?h \<in> set (bs @ nonempty s as)" using ne by (rule hd_in_set)
    show "m_nextpkt (mbufs t ?h) = None"
      unfolding fld(3) [OF h] using pkt new h by (cases "bs = []") auto
  qed simp
  moreover have "cbytes t (bs @ nonempty s as) = cbytes s bs @ cbytes s as"
    using relinked_bytes(1) [OF rel sub dm'] nonempty_bytes [OF ch] by simp
  moreover have "same_limits sb (sb1\<lparr> sb_lastrecord := sb_mb sb1 \<rparr>)" using c by (simp add: compressed_def same_limits_def)
  ultimately show ?thesis using run c dm' by (auto simp: compressed_def mb)
qed

end

section \<open>Records\<close>

lemma droprecord_loop_spec:
  assumes "records (a # r) rs (Some a) nxt s" "counted s ((a # r) @ concat rs) sb" "set (a # r) \<subseteq> used" "mbuf_inv M U used e s"
  shows "\<exists>sb' t. droprecord_loop a (sb, s) = Some (sb', t) \<and> records [] rs None nxt t \<and> counted t (concat rs) sb' \<and>
    same_limits sb sb' \<and> sb_mb sb' = sb_mb sb \<and> sb_mbtail sb' = sb_mbtail sb \<and> sb_lastrecord sb' = sb_lastrecord sb \<and>
    mbuf_inv M U (used - set (a # r)) e t \<and> dmem t = dmem s \<and> (\<forall>x. x \<notin> set (a # r) \<longrightarrow> mbufs t x = mbufs s x)"
  using assms
proof (induction r arbitrary: a s sb used)
  case Nil
  let ?s = "snd (MFREE a s)"
  have a: "\<not> has_flag M_EXT (mbufs s a)" "a \<notin> set (concat rs)" and nx: "m_next (mbufs s a) = None"
    using Nil.prems(1) by (auto simp: records_def mchain_Cons)
  have "droprecord_loop a (sb, s) = Some (sbfree s a sb, ?s)"
    using MFREE_heap(1) [of a s] nx by (subst droprecord_loop.simps) (simp add: split_beta)
  moreover have "records [] rs None nxt ?s"
    using records_tl [OF Nil.prems(1) MFREE_heap(2)] unfolding nx .
  moreover have rest: "mbufs ?s x = mbufs s x" if "x \<in> set (concat rs)" for x by (rule MFREE_heap(2)) (use that a in metis)
  note f = counted_free [OF Nil.prems(2) [unfolded append_Cons append_Nil] a(1) rest]
  ultimately show ?case
    using f Nil.prems MFREE_heap MFREE_inv [of M U used e s a] by auto
next
  case (Cons b r)
  let ?s = "snd (MFREE a s)"
  have a: "\<not> has_flag M_EXT (mbufs s a)" "a \<notin> set ((b # r) @ concat rs)" and nx: "m_next (mbufs s a) = Some b"
    using Cons.prems(1) by (auto simp: records_def mchain_Cons)
  have eq: "droprecord_loop a (sb, s) = droprecord_loop b (sbfree s a sb, ?s)"
    using MFREE_heap(1) [of a s] nx by (subst droprecord_loop.simps) (simp add: split_beta)
  have rec: "records (b # r) rs (Some b) nxt ?s"
    using records_tl [OF Cons.prems(1) MFREE_heap(2)] unfolding nx .
  have rest: "mbufs ?s x = mbufs s x" if "x \<in> set (b # r @ concat rs)" for x
    by (rule MFREE_heap(2)) (use that a in auto)
  note f = counted_free [OF Cons.prems(2) [unfolded append_Cons] a(1) rest]
  have "mbuf_inv M U (used - {a}) e ?s" "set (b # r) \<subseteq> used - {a}"
    using Cons.prems(3) a(2) MFREE_inv [OF Cons.prems(4)] by auto
  then obtain sb' t where t: "droprecord_loop b (sbfree s a sb, ?s) = Some (sb', t)" "records [] rs None nxt t"
      "counted t (concat rs) sb'" "same_limits (sbfree s a sb) sb'" "sb_mb sb' = sb_mb (sbfree s a sb)"
      "sb_mbtail sb' = sb_mbtail (sbfree s a sb)" "sb_lastrecord sb' = sb_lastrecord (sbfree s a sb)"
      "mbuf_inv M U (used - {a} - set (b # r)) e t" "dmem t = dmem ?s" "\<forall>x. x \<notin> set (b # r) \<longrightarrow> mbufs t x = mbufs ?s x"
    using Cons.IH [OF rec f(1) [folded append_Cons]] by blast
  have "used - {a} - set (b # r) = used - set (a # b # r)" by auto
  moreover have "mbufs t x = mbufs s x" if "x \<notin> set (a # b # r)" for x
    using t(10) MFREE_heap(2) [of x a s] that by simp
  ultimately show ?case
    unfolding eq using t f same_limits_trans [OF f(2) t(4)] MFREE_heap(3) [of a s] by simp
qed

text \<open>Dropping the first record.\<close>

lemma sbdroprecord_spec:
  assumes q: "sbq sb (r # rs) s" and use: "set r \<subseteq> used" and inv: "mbuf_inv M U used e s"
  shows "\<exists>sb' t. sbdroprecord (sb, s) = Some (sb', t) \<and> sbq sb' rs t \<and> same_limits sb sb' \<and>
    mbuf_inv M U (used - set r) e t \<and> dmem t = dmem s \<and> (\<forall>x. x \<notin> set r \<longrightarrow> mbufs t x = mbufs s x)"
proof -
  obtain a r' where r: "r = a # r'" using q by (cases r) (auto simp: sbq_def records_def)
  let ?sb = "sb\<lparr> sb_mb := m_nextpkt (mbufs s a) \<rparr>"
  have mb: "sb_mb sb = Some a" and rec: "records (a # r') rs (Some a) (m_nextpkt (mbufs s a)) s"
    and cnt: "counted s ((a # r') @ concat rs) ?sb"
    using q by (auto simp: sbq_def records_next r counted_def)
  obtain sb' t where t: "droprecord_loop a (?sb, s) = Some (sb', t)" "records [] rs None (m_nextpkt (mbufs s a)) t"
      "counted t (concat rs) sb'" "same_limits ?sb sb'" "sb_mb sb' = sb_mb ?sb"
      "sb_mbtail sb' = sb_mbtail ?sb" "sb_lastrecord sb' = sb_lastrecord ?sb"
      "mbuf_inv M U (used - set r) e t" "dmem t = dmem s" "\<forall>x. x \<notin> set r \<longrightarrow> mbufs t x = mbufs s x"
    using droprecord_loop_spec [OF rec cnt _ inv] use unfolding r by blast
  have "sbdroprecord (sb, s) = Some (SB_EMPTY_FIXUP sb', t)" using t(1) by (simp add: sbdroprecord_def mb)
  moreover have "same_limits sb (SB_EMPTY_FIXUP sb')" using t(4) by (simp add: same_limits_def SB_EMPTY_FIXUP_def)
  moreover have "sbq (SB_EMPTY_FIXUP sb') rs t"
  proof (cases rs)
    case Nil
    then show ?thesis using t(2,3,5) by (simp add: sbq_def SB_EMPTY_FIXUP_def counted_def records_def)
  next
    case (Cons x ys)
    then have "sb_mb sb' \<noteq> None" using t(2,5) by (auto simp: records_def)
    then show ?thesis using t(2,3,5-7) q Cons by (simp add: sbq_def SB_EMPTY_FIXUP_def)
  qed
  ultimately show ?thesis using t by auto
qed

lemma sballoc_chain_spec:
  assumes "mchain s (Some a) (a # as)" "\<forall>x\<in>set (a # as). \<not> has_flag M_EXT (mbufs s x)" "counted s bs sb"
  shows "\<exists>sb'. sballoc_chain a sb s = Some (last (a # as), sb') \<and> counted s (bs @ a # as) sb' \<and> same_limits sb sb' \<and>
    sb_mb sb' = sb_mb sb \<and> sb_mbtail sb' = sb_mbtail sb \<and> sb_lastrecord sb' = sb_lastrecord sb"
  using assms
proof (induction as arbitrary: a bs sb)
  case Nil
  then show ?case
    by (subst sballoc_chain.simps)
      (auto simp: mchain_Cons sballoc_def counted_def same_limits_def Let_def algebra_simps)
next
  case (Cons b as)
  have nx: "m_next (mbufs s a) = Some b" and ch: "mchain s (Some b) (b # as)" using Cons.prems(1) by (auto simp: mchain_Cons)
  have eq: "sballoc_chain a sb s = sballoc_chain b (sballoc s a sb) s" by (subst sballoc_chain.simps) (simp add: nx)
  have "counted s (bs @ [a]) (sballoc s a sb)" using Cons.prems(2,3) by (simp add: sballoc_def counted_def Let_def algebra_simps)
  from Cons.IH [OF ch _ this] obtain sb' where sb': "sballoc_chain b (sballoc s a sb) s = Some (last (b # as), sb')"
      "counted s ((bs @ [a]) @ b # as) sb'" "same_limits (sballoc s a sb) sb'" "sb_mb sb' = sb_mb (sballoc s a sb)"
      "sb_mbtail sb' = sb_mbtail (sballoc s a sb)" "sb_lastrecord sb' = sb_lastrecord (sballoc s a sb)"
    using Cons.prems(2) by auto
  moreover have "same_limits sb (sballoc s a sb)" by (simp add: same_limits_def sballoc_def Let_def)
  ultimately show ?case
    unfolding eq using Cons.prems(2) same_limits_trans by (auto simp: sballoc_def Let_def)
qed

lemma linked_hds_snoc:
  assumes q: "records [] rs None (sb_mb sb) s" and l: "sb_lastrecord sb = (if rs = [] then None else Some (hd (last rs)))"
    and r: "r \<noteq> []" "mchain s (Some (hd r)) r" "distinct (concat rs @ r)" "\<forall>x\<in>set r. \<not> has_flag M_EXT (mbufs s x)"
      "m_nextpkt (mbufs s (hd r)) = None"
  shows "records [] (rs @ [r]) None (sb_mb (fst (SBLINKRECORD (hd r) (sb, s)))) (snd (SBLINKRECORD (hd r) (sb, s)))"
proof -
  let ?t = "snd (SBLINKRECORD (hd r) (sb, s))"
  have hr: "hd r \<in> set r" using r(1) by simp
  have nxt: "m_next (mbufs ?t x) = m_next (mbufs s x)" "m_len (mbufs ?t x) = m_len (mbufs s x)"
    "m_flags (mbufs ?t x) = m_flags (mbufs s x)" for x
    by (auto simp: SBLINKRECORD_def SBLINKRECORDCHAIN_def split: option.splits)
  have ch: "mchain ?t p x = mchain s p x" for p x by (simp add: mchain_def nxt)
  have ne: "x \<noteq> []" if "x \<in> set rs" for x using q that by (simp add: records_def)
  have out: "hd r \<notin> set (map hd rs)"
  proof
    assume "hd r \<in> set (map hd rs)"
    then obtain x where "x \<in> set rs" "hd r = hd x" by auto
    then have "hd r \<in> set (concat rs)" using ne by (metis UN_I hd_in_set set_concat)
    then show False using r(3) hr by auto
  qed
  have "linked (\<lambda>a. m_nextpkt (mbufs ?t a)) (if map hd rs = [] then Some (hd r) else sb_mb sb) (map hd rs @ [hd r])"
  proof (rule linked_snoc [OF _ out])
    show "linked (\<lambda>a. m_nextpkt (mbufs s a)) (sb_mb sb) (map hd rs)" using q by (simp add: records_def)
  qed (use r(5) l out in \<open>auto simp: SBLINKRECORD_def SBLINKRECORDCHAIN_def last_map split: option.splits if_splits\<close>)
  moreover have "sb_mb (fst (SBLINKRECORD (hd r) (sb, s))) = (if rs = [] then Some (hd r) else sb_mb sb)"
    using l by (simp add: SBLINKRECORD_def SBLINKRECORDCHAIN_def)
  ultimately show ?thesis
    using q r by (auto simp: records_def ch has_flag_def nxt)
qed

lemma mbuf_inv_memcpy: "mbuf_inv M U used e s \<Longrightarrow> mbuf_inv M U used e (memcpy d p n s)"
  by (rule mbuf_inv_same) (auto simp: memcpy_def mbuf_inv_def intro: rmb_inv_cong)

text \<open>The last steps of \<^verbatim>\<open>sbappendaddr\<close>: a record is counted, linked, and its last mbuf noted.\<close>

lemma append_record:
  assumes q: "sbq sb rs s" and r: "mchain s (Some a) (a # as)" "distinct (concat rs @ a # as)"
      "\<forall>x\<in>set (a # as). \<not> has_flag M_EXT (mbufs s x)" "m_nextpkt (mbufs s a) = None" and inv: "mbuf_inv M U used e s"
  shows "\<exists>sb1 sb' t. sballoc_chain a sb s = Some (last (a # as), sb1) \<and> SBLINKRECORD a (sb1, s) = (sb', t) \<and>
    sbq (sb'\<lparr> sb_mbtail := Some (last (a # as)) \<rparr>) (rs @ [a # as]) t \<and>
    same_limits sb (sb'\<lparr> sb_mbtail := Some (last (a # as)) \<rparr>) \<and> mbuf_inv M U used e t \<and> dmem t = dmem s"
proof -
  have rec: "records [] rs None (sb_mb sb) s" and l: "sb_lastrecord sb = (if rs = [] then None else Some (hd (last rs)))"
    and cnt: "counted s (concat rs) sb"
    using q by (simp_all add: sbq_def)
  obtain sb1 where sb1: "sballoc_chain a sb s = Some (last (a # as), sb1)" "counted s (concat rs @ a # as) sb1"
      "same_limits sb sb1" "sb_mb sb1 = sb_mb sb" "sb_mbtail sb1 = sb_mbtail sb" "sb_lastrecord sb1 = sb_lastrecord sb"
    using sballoc_chain_spec [OF r(1,3) cnt] by blast
  obtain sb' t where lk: "SBLINKRECORD a (sb1, s) = (sb', t)" by fastforce
  have "records [] (rs @ [a # as]) None (sb_mb sb') t"
    using linked_hds_snoc [of rs sb1 s "a # as"] rec l r sb1 lk by simp
  moreover have len: "m_len (mbufs t x) = m_len (mbufs s x)" for x
    using lk by (auto simp: SBLINKRECORD_def SBLINKRECORDCHAIN_def split: option.splits)
  then have "clen t xs = clen s xs" for xs by (simp add: clen_def)
  moreover have sb': "sb' = sb1\<lparr> sb_mb := sb_mb sb', sb_lastrecord := Some a \<rparr>" "dmem t = dmem s" "mbuf_inv M U used e t"
    using lk inv by (auto simp: SBLINKRECORD_def SBLINKRECORDCHAIN_def split: option.splits intro: mbuf_inv_upd)
  have "sb_cc sb' = sb_cc sb1" "sb_mbcnt sb' = sb_mbcnt sb1" "sb_lastrecord sb' = Some a" "same_limits sb1 sb'"
    using lk by (auto simp: SBLINKRECORD_def SBLINKRECORDCHAIN_def same_limits_def split: option.splits)
  ultimately have "sbq (sb'\<lparr> sb_mbtail := Some (last (a # as)) \<rparr>) (rs @ [a # as]) t"
    "same_limits sb (sb'\<lparr> sb_mbtail := Some (last (a # as)) \<rparr>)"
    using sb1(2,3) len by (simp_all add: sbq_def counted_def same_limits_def del: last.simps)
  then show ?thesis using sb1(1) lk sb'(2,3) by blast
qed

text \<open>A datagram is queued as a record of the address of its sender and its data, or
  nothing is changed.\<close>

lemma sbappendaddr_spec:
  assumes q: "sbq sb rs s" and r: "mchain s (Some a) (a # as)" "distinct (concat rs @ a # as)"
      "\<forall>x\<in>set (a # as). \<not> has_flag M_EXT (mbufs s x)" "has_flag M_PKTHDR (mbufs s a)"
    and use: "set (concat rs @ a # as) \<subseteq> used" and inv: "mbuf_inv M U used e s"
  shows "(sa_len asa s + ph_len (m_pkthdr (mbufs s a)) > sbspace sb \<longrightarrow> sbappendaddr asa (Some a) None (sb, s) = Some (0, sb, s)) \<and>
    (sa_len asa s + ph_len (m_pkthdr (mbufs s a)) \<le> sbspace sb \<longrightarrow>
       (\<forall>s1. m_get MT_SONAME s = Some (None, s1) \<longrightarrow> sbappendaddr asa (Some a) None (sb, s) = Some (0, sb, s1)) \<and>
       (\<forall>n s1. m_get MT_SONAME s = Some (Some n, s1) \<longrightarrow> n \<notin> used \<and>
          (\<exists>sb' t. sbappendaddr asa (Some a) None (sb, s) = Some (1, sb', t) \<and> sbq sb' (rs @ [n # a # as]) t \<and> same_limits sb sb' \<and>
             mbuf_inv M U (insert n used) e t)))"
proof -
  have sc: "control_scan (mbufs s) None k = Some (None, k)" for k by (subst control_scan.simps) simp
  have "\<exists>sb' t. sbappendaddr asa (Some a) None (sb, s) = Some (1, sb', t) \<and> sbq sb' (rs @ [n # a # as]) t \<and> same_limits sb sb' \<and>
      mbuf_inv M U (insert n used) e t" "n \<notin> used"
    if get: "m_get MT_SONAME s = Some (Some n, s1)" and room: "sa_len asa s + ph_len (m_pkthdr (mbufs s a)) \<le> sbspace sb" for n s1
  proof -
    note g = m_get_inv [OF inv get, simplified]
    show n: "n \<notin> used" using g by simp
    let ?len = "sa_len asa s1"
    let ?s2 = "memcpy (m_data (mbufs s1 n)) asa ?len (upd_m n (\<lambda>b. b\<lparr> m_len := ?len \<rparr>) s1)"
    define s3 where "s3 = upd_m n (\<lambda>b. b\<lparr> m_next := Some a \<rparr>) ?s2"
    have nf: "m_len (mbufs s3 n) = ?len" "m_next (mbufs s3 n) = Some a" "m_nextpkt (mbufs s3 n) = None" "m_flags (mbufs s3 n) = 0"
      using g by (simp_all add: s3_def memcpy_def)
    have other: "mbufs s3 x = mbufs s x" if "x \<in> set (concat rs @ a # as)" for x
      using g that use by (auto simp: s3_def memcpy_def)
    have "clen s3 (concat rs) = clen s (concat rs)" by (rule clen_cong) (use other in simp)
    moreover have "records [] rs None (sb_mb sb) s3"
      by (rule records_cong [of _ _ _ _ s]) (use q other in \<open>auto simp: sbq_def\<close>)
    ultimately have q3: "sbq sb rs s3" using q by (simp add: sbq_def counted_def)
    have len: "0 \<le> ?len" "?len < 2 ^ 31" using uint_bounded [of "dmem s1 asa"] by (simp_all add: sa_len_def)
    have "mchain s3 (Some a) (a # as)" by (rule mchain_cong [OF r(1)]) (use other in auto)
    then have ch3: "mchain s3 (Some n) (n # a # as)" using len nf by (simp add: mchain_Cons)
    have "mbuf_inv M U (insert n used) e s3"
      using g unfolding s3_def by (intro mbuf_inv_upd mbuf_inv_memcpy) auto
    moreover have "\<forall>x\<in>set (n # a # as). \<not> has_flag M_EXT (mbufs s3 x)"
      using nf(4) r(3) other by (auto simp: has_flag_def)
    moreover have "distinct (concat rs @ n # a # as)" using r(2) n use by auto
    ultimately obtain sb1 sb' t where fin: "sballoc_chain n sb s3 = Some (last (n # a # as), sb1)" "SBLINKRECORD n (sb1, s3) = (sb', t)"
        "sbq (sb'\<lparr> sb_mbtail := Some (last (n # a # as)) \<rparr>) (rs @ [n # a # as]) t"
        "same_limits sb (sb'\<lparr> sb_mbtail := Some (last (n # a # as)) \<rparr>)" "mbuf_inv M U (insert n used) e t"
      using append_record [OF q3 ch3 _ _ nf(3), of M U "insert n used" e] by blast
    have "sbappendaddr asa (Some a) None (sb, s) = Some (1, sb'\<lparr> sb_mbtail := Some (last (n # a # as)) \<rparr>, t)"
      using get room r(4) fin(1,2) sc by (simp add: sbappendaddr_def mtod_def Let_def s3_def del: last.simps)
    then show "\<exists>sb' t. sbappendaddr asa (Some a) None (sb, s) = Some (1, sb', t) \<and> sbq sb' (rs @ [n # a # as]) t \<and> same_limits sb sb' \<and>
      mbuf_inv M U (insert n used) e t" using fin(3-5) by blast
  qed
  then show ?thesis using r(4) sc by (auto simp: sbappendaddr_def)
qed

end
