(* ===== verification/Socket.thy ===== *)
theory Socket
  imports Sockbuf
begin

unbundle bit_operations_syntax

text \<open>
  Sockets (\<^verbatim>\<open>netbsd/porting/kern/uipc_socket.c\<close> and \<^verbatim>\<open>uipc_socket2.c\<close>, \<^verbatim>\<open>special_includes/sys/socketvar.h\<close>)
  with the part of \<^verbatim>\<open>glue/app_glue.c\<close> that they call back: a wake-up puts the socket on
  one of the queues of the glue layer.  The code in the branches that the port
  compiles out is not modelled; locking is empty in this port, and so are \<^verbatim>\<open>sblock\<close> and \<^verbatim>\<open>sowait\<close>.  The
  protocol switch (\<^verbatim>\<open>pr_usrreq\<close>, a function pointer in the source) and the
  function that mirrors the room of the send buffer are arguments.
\<close>

section \<open>Data\<close>

record protosw =
  pr_type :: int
  pr_flags :: u32

record socket =
  so_type :: int
  so_options :: u16
  so_linger :: u16
  so_state :: u16
  so_pcb :: "addr option"
  so_proto :: addr
  so_head :: "addr option"
  so_onq :: "(addr \<times> bool) option"
  so_q0 :: "addr list"
  so_q :: "addr list"
  so_q0len :: int
  so_qlen :: int
  so_qlimit :: int
  so_timeo :: int
  so_error :: int
  so_aborting :: u16
  so_snd :: sockbuf
  so_rcv :: sockbuf
  so_upcall2 :: bool
  glueing_block :: "addr option"
  read_queue_present :: bool
  write_queue_present :: bool
  accept_queue_present :: bool
  closed_queue_present :: bool
  buffers_available_notification_queue_present :: bool

text \<open>The queue a socket is on is named by the listening socket and whether it is the queue
  of complete connections.  The state adds the sockets, their pool, the
  protocols, the state of the TCP control block of a socket (if it has
  one), and the lists of \<^verbatim>\<open>app_glue.c\<close>.\<close>

record sostate = sbstate +
  sockets :: "addr \<Rightarrow> socket"
  socket_cache :: "addr rte_mempool"
  protosws :: "addr \<Rightarrow> protosw"
  t_state :: "addr \<Rightarrow> int option"
  somaxconn :: int
  read_ready_socket_list_head :: "addr list"
  read_sockets_queue_len :: u64
  closed_socket_list_head :: "addr list"
  write_ready_socket_list_head :: "addr list"
  write_sockets_queue_len :: u64
  accept_ready_socket_list_head :: "addr list"
  buffers_available_notification_socket_list_head :: "addr list"

definition SS_NOFDREF :: u16 where "SS_NOFDREF = 0x001"
definition SS_ISCONNECTED :: u16 where "SS_ISCONNECTED = 0x002"
definition SS_ISCONNECTING :: u16 where "SS_ISCONNECTING = 0x004"
definition SS_ISDISCONNECTING :: u16 where "SS_ISDISCONNECTING = 0x008"
definition SS_CANTSENDMORE :: u16 where "SS_CANTSENDMORE = 0x010"
definition SS_CANTRCVMORE :: u16 where "SS_CANTRCVMORE = 0x020"
definition SS_RCVATMARK :: u16 where "SS_RCVATMARK = 0x040"
definition SS_RESTARTSYS :: u16 where "SS_RESTARTSYS = 0x100"
definition SS_ISCONFIRMING :: u16 where "SS_ISCONFIRMING = 0x200"
definition SS_MORETOCOME :: u16 where "SS_MORETOCOME = 0x400"
definition SS_ISDISCONNECTED :: u16 where "SS_ISDISCONNECTED = 0x800"
definition SS_NBIO :: u16 where "SS_NBIO = 0x2000"

definition SO_ACCEPTCONN :: u16 where "SO_ACCEPTCONN = 0x0002"
definition SO_DONTROUTE :: u16 where "SO_DONTROUTE = 0x0010"
definition SO_LINGER :: u16 where "SO_LINGER = 0x0080"
definition SO_ACCEPTFILTER :: u16 where "SO_ACCEPTFILTER = 0x1000"

definition PR_ATOMIC :: u32 where "PR_ATOMIC = 0x01"
definition PR_ADDR :: u32 where "PR_ADDR = 0x02"
definition PR_CONNREQUIRED :: u32 where "PR_CONNREQUIRED = 0x04"
definition PR_RIGHTS :: u32 where "PR_RIGHTS = 0x10"
definition PR_ABRTACPTDIS :: u32 where "PR_ABRTACPTDIS = 0x80"

definition MSG_OOB :: u32 where "MSG_OOB = 0x0001"
definition MSG_DONTROUTE :: u32 where "MSG_DONTROUTE = 0x0004"
definition MSG_EOR :: u32 where "MSG_EOR = 0x0008"

abbreviation (input) SOCK_STREAM :: int where "SOCK_STREAM \<equiv> 1"
abbreviation (input) SOCK_DGRAM :: int where "SOCK_DGRAM \<equiv> 2"
abbreviation (input) TCPS_LISTEN :: int where "TCPS_LISTEN \<equiv> 1"
abbreviation (input) TCPS_ESTABLISHED :: int where "TCPS_ESTABLISHED \<equiv> 4"

text \<open>The error numbers of the stack (\<^verbatim>\<open>special_includes/sys/errno.h\<close>).\<close>

abbreviation (input) EPIPE :: int where "EPIPE \<equiv> 32"
abbreviation (input) EWOULDBLOCK :: int where "EWOULDBLOCK \<equiv> 35"
abbreviation (input) EALREADY :: int where "EALREADY \<equiv> 37"
abbreviation (input) EDESTADDRREQ :: int where "EDESTADDRREQ \<equiv> 39"
abbreviation (input) EMSGSIZE :: int where "EMSGSIZE \<equiv> 40"
abbreviation (input) EPROTOTYPE :: int where "EPROTOTYPE \<equiv> 41"
abbreviation (input) EPROTONOSUPPORT :: int where "EPROTONOSUPPORT \<equiv> 43"
abbreviation (input) EOPNOTSUPP :: int where "EOPNOTSUPP \<equiv> 45"
abbreviation (input) EAFNOSUPPORT :: int where "EAFNOSUPPORT \<equiv> 47"
abbreviation (input) ECONNABORTED :: int where "ECONNABORTED \<equiv> 53"
abbreviation (input) ENOBUFS_BSD :: int where "ENOBUFS_BSD \<equiv> 55"
abbreviation (input) EISCONN :: int where "EISCONN \<equiv> 56"
abbreviation (input) ENOTCONN :: int where "ENOTCONN \<equiv> 57"

datatype pru = PRU_ATTACH | PRU_DETACH | PRU_BIND | PRU_LISTEN | PRU_CONNECT | PRU_ACCEPT | PRU_DISCONNECT |
  PRU_SHUTDOWN | PRU_RCVD | PRU_SEND | PRU_ABORT | PRU_SENDOOB | PRU_CONNECT2

text \<open>What the socket layer calls: the protocol with a socket, a request and three mbufs,
  the mirror of the send buffer, and the lookup in the tables of protocols (by domain,
  protocol number or 0, and type).\<close>

record 's so_calls =
  pr_usrreq :: "addr \<Rightarrow> pru \<Rightarrow> addr option \<Rightarrow> addr option \<Rightarrow> addr option \<Rightarrow> 's \<Rightarrow> (int \<times> 's) option"
  reflect_tx :: "addr \<Rightarrow> int \<Rightarrow> 's \<Rightarrow> 's"
  pffind :: "int \<Rightarrow> int \<Rightarrow> int \<Rightarrow> addr option"
  pffinddomain :: "int \<Rightarrow> bool"

definition upd_so :: "addr \<Rightarrow> (socket \<Rightarrow> socket) \<Rightarrow> 'a sostate_scheme \<Rightarrow> 'a sostate_scheme" where
  "upd_so a f s = s\<lparr> sockets := (sockets s)(a := f (sockets s a)) \<rparr>"

definition so_is :: "u16 \<Rightarrow> addr \<Rightarrow> 'a sostate_scheme \<Rightarrow> bool" where
  "so_is f a s \<longleftrightarrow> so_state (sockets s a) AND f \<noteq> 0"

definition so_opt :: "u16 \<Rightarrow> addr \<Rightarrow> 'a sostate_scheme \<Rightarrow> bool" where
  "so_opt f a s \<longleftrightarrow> so_options (sockets s a) AND f \<noteq> 0"

definition pr_has :: "u32 \<Rightarrow> addr \<Rightarrow> 'a sostate_scheme \<Rightarrow> bool" where
  "pr_has f a s \<longleftrightarrow> pr_flags (protosws s (so_proto (sockets s a))) AND f \<noteq> 0"

definition set_state :: "u16 \<Rightarrow> u16 \<Rightarrow> addr \<Rightarrow> 'a sostate_scheme \<Rightarrow> 'a sostate_scheme" where
  "set_state clr st a = upd_so a (\<lambda>k. k\<lparr> so_state := (so_state k AND NOT clr) OR st \<rparr>)"

section \<open>Readiness and wake-up\<close>

definition soreadable :: "addr \<Rightarrow> 'a sostate_scheme \<Rightarrow> bool" where
  "soreadable a s \<longleftrightarrow>
     (let k = sockets s a
      in sb_cc (so_rcv k) \<ge> sb_lowat (so_rcv k) \<or> so_is SS_CANTRCVMORE a s \<or> so_qlen k \<noteq> 0 \<or> so_error k \<noteq> 0)"

definition sowritable :: "addr \<Rightarrow> 'a sostate_scheme \<Rightarrow> bool" where
  "sowritable a s \<longleftrightarrow>
     (let k = sockets s a
      in sbspace (so_snd k) \<ge> sint (sb_lowat (so_snd k)) \<and> (so_is SS_ISCONNECTED a s \<or> \<not> pr_has PR_CONNREQUIRED a s) \<or>
         so_is SS_CANTSENDMORE a s \<or> so_error k \<noteq> 0)"

text \<open>A disconnected socket goes on the queue of closed sockets.\<close>

definition queue_closed :: "addr \<Rightarrow> 'a sostate_scheme \<Rightarrow> 'a sostate_scheme" where
  "queue_closed so s =
     (if closed_queue_present (sockets s so) then s
      else (upd_so so (\<lambda>k. k\<lparr> closed_queue_present := True \<rparr>) s)
        \<lparr> closed_socket_list_head := closed_socket_list_head s @ [so] \<rparr>)"

definition app_glue_sock_readable :: "addr \<Rightarrow> 'a sostate_scheme \<Rightarrow> 'a sostate_scheme" where
  "app_glue_sock_readable so s =
     (let k = sockets s so; tp = t_state s so
      in if so_is SS_ISDISCONNECTED so s then queue_closed so s
         else if so_type k = SOCK_STREAM \<and> tp \<noteq> None \<and> tp \<noteq> Some TCPS_ESTABLISHED
         then if tp = Some TCPS_LISTEN \<and> \<not> accept_queue_present k
              then (upd_so so (\<lambda>k. k\<lparr> accept_queue_present := True \<rparr>) s)
                     \<lparr> accept_ready_socket_list_head := accept_ready_socket_list_head s @ [so] \<rparr>
              else s
         else if read_queue_present k then s
         else (upd_so so (\<lambda>k. k\<lparr> read_queue_present := True \<rparr>) s)
                \<lparr> read_ready_socket_list_head := read_ready_socket_list_head s @ [so],
                  read_sockets_queue_len := read_sockets_queue_len s + 1 \<rparr>)"

definition app_glue_sock_write_space :: "addr \<Rightarrow> 'a sostate_scheme \<Rightarrow> 'a sostate_scheme" where
  "app_glue_sock_write_space so s =
     (let k = sockets s so; tp = t_state s so
      in if so_is SS_ISDISCONNECTED so s then queue_closed so s
         else if so_type k = SOCK_STREAM \<and> tp \<noteq> None \<and> tp \<noteq> Some TCPS_ESTABLISHED then s
         else if sowritable so s \<and> \<not> write_queue_present k
         then (upd_so so (\<lambda>k. k\<lparr> write_queue_present := True \<rparr>) s)
                \<lparr> write_ready_socket_list_head := write_ready_socket_list_head s @ [so],
                  write_sockets_queue_len := write_sockets_queue_len s + 1 \<rparr>
         else s)"

text \<open>The tests \<^verbatim>\<open>band | POLLIN\<close> and \<^verbatim>\<open>band | POLLOUT\<close> are true for every event.\<close>

definition app_glue_so_upcall2 :: "addr \<Rightarrow> 'a sostate_scheme \<Rightarrow> 'a sostate_scheme" where
  "app_glue_so_upcall2 so s = app_glue_sock_write_space so (app_glue_sock_readable so s)"

text \<open>The second upcall of \<^verbatim>\<open>sowakeup\<close> needs the flag \<^verbatim>\<open>SB_UPCALL\<close>, and the function it would call is never set: a null
  pointer is called.\<close>

definition sowakeup :: "addr \<Rightarrow> sockbuf \<Rightarrow> 'a sostate_scheme \<Rightarrow> 'a sostate_scheme option" where
  "sowakeup so sb s =
     (let s = (if so_upcall2 (sockets s so) then app_glue_so_upcall2 so s else s)
      in if sb_flags sb AND SB_UPCALL \<noteq> 0 then None else Some s)"

definition sorwakeup :: "addr \<Rightarrow> 'a sostate_scheme \<Rightarrow> 'a sostate_scheme option" where
  "sorwakeup so s = (if sb_notify (so_rcv (sockets s so)) then sowakeup so (so_rcv (sockets s so)) s else Some s)"

definition sowwakeup :: "addr \<Rightarrow> 'a sostate_scheme \<Rightarrow> 'a sostate_scheme option" where
  "sowwakeup so s = (if sb_notify (so_snd (sockets s so)) then sowakeup so (so_snd (sockets s so)) s else Some s)"

section \<open>Allocation and connection queues\<close>

definition empty_sockbuf :: "addr \<Rightarrow> sockbuf" where
  "empty_sockbuf so = \<lparr> sb_so = so, sb_cc = 0, sb_hiwat = 0, sb_mbcnt = 0, sb_mbmax = 0, sb_lowat = 0, sb_mb = None,
     sb_mbtail = None, sb_lastrecord = None, sb_flags = 0, sb_timeo = 0, sb_overflowed = 0 \<rparr>"

definition soget :: "'a sostate_scheme \<Rightarrow> addr option \<times> 'a sostate_scheme" where
  "soget s =
     (let (so, cache) = pool_cache_get (rlcore s) (socket_cache s);
          s = s\<lparr> socket_cache := cache \<rparr>
      in case so of
           None \<Rightarrow> (None, s)
         | Some so \<Rightarrow>
             let sb = (empty_sockbuf so)\<lparr> sb_flags := SB_NOTIFY \<rparr>
             in (Some so, upd_so so (\<lambda>_. \<lparr> so_type = 0, so_options = 0, so_linger = 0, so_state = 0, so_pcb = None, so_proto = 0,
                   so_head = None, so_onq = None, so_q0 = [], so_q = [], so_q0len = 0, so_qlen = 0, so_qlimit = 0, so_timeo = 0,
                   so_error = 0, so_aborting = 0, so_snd = sb, so_rcv = sb, so_upcall2 = False, glueing_block = None,
                   read_queue_present = False, write_queue_present = False, accept_queue_present = False,
                   closed_queue_present = False, buffers_available_notification_queue_present = False \<rparr>) s))"

definition soput :: "addr \<Rightarrow> 'a sostate_scheme \<Rightarrow> 'a sostate_scheme" where
  "soput so s = s\<lparr> socket_cache := pool_cache_put (rlcore s) (socket_cache s) so \<rparr>"

definition soqinsque :: "addr \<Rightarrow> addr \<Rightarrow> bool \<Rightarrow> 'a sostate_scheme \<Rightarrow> 'a sostate_scheme" where
  "soqinsque head so q s =
     (let s = upd_so so (\<lambda>k. k\<lparr> so_head := Some head \<rparr>) s
      in if q
         then upd_so head (\<lambda>h. h\<lparr> so_q := so_q h @ [so] \<rparr>)
                (upd_so so (\<lambda>k. k\<lparr> so_onq := Some (head, True) \<rparr>) (upd_so head (\<lambda>h. h\<lparr> so_qlen := so_qlen h + 1 \<rparr>) s))
         else upd_so head (\<lambda>h. h\<lparr> so_q0 := so_q0 h @ [so] \<rparr>)
                (upd_so so (\<lambda>k. k\<lparr> so_onq := Some (head, False) \<rparr>) (upd_so head (\<lambda>h. h\<lparr> so_q0len := so_q0len h + 1 \<rparr>) s)))"

text \<open>The result is whether the socket was on the queue; a socket without a listening
  socket has no queue to compare with.\<close>

definition soqremque :: "addr \<Rightarrow> bool \<Rightarrow> 'a sostate_scheme \<Rightarrow> (bool \<times> 'a sostate_scheme) option" where
  "soqremque so q s = do {
     head \<leftarrow> so_head (sockets s so);
     if so_onq (sockets s so) \<noteq> Some (head, q) then Some (False, s)
     else do {
       let s = (if q then upd_so head (\<lambda>h. h\<lparr> so_qlen := so_qlen h - 1, so_q := remove1 so (so_q h) \<rparr>) s
                else upd_so head (\<lambda>h. h\<lparr> so_q0len := so_q0len h - 1, so_q0 := remove1 so (so_q0 h) \<rparr>) s);
       Some (True, upd_so so (\<lambda>k. k\<lparr> so_onq := None, so_head := None \<rparr>) s)
     }
   }"

abbreviation (input) sock_loan_thresh :: int where "sock_loan_thresh \<equiv> 4096"
abbreviation (input) PIPE_BUF :: u64 where "PIPE_BUF \<equiv> 512"

definition soreserve :: "'a sostate_scheme so_calls \<Rightarrow> addr \<Rightarrow> u64 \<Rightarrow> u64 \<Rightarrow> 'a sostate_scheme \<Rightarrow> (int \<times> 'a sostate_scheme) option" where
  "soreserve cl so sndcc rcvcc s =
     (let lowat = of_int (max sock_loan_thresh MCLBYTES);
          hiwat = lowat + PIPE_BUF;
          sndcc = (if sndcc < hiwat then hiwat else sndcc);
          (ok, sb) = sbreserve (so_snd (sockets s so)) sndcc s;
          s = upd_so so (\<lambda>k. k\<lparr> so_snd := sb \<rparr>) s
      in if \<not> ok then Some (ENOBUFS_BSD, s)
         else let (ok, sb) = sbreserve (so_rcv (sockets s so)) rcvcc s;
                  s = upd_so so (\<lambda>k. k\<lparr> so_rcv := sb \<rparr>) s
              in if \<not> ok
                 then do {
                   (sb, s) \<leftarrow> sbrelease (reflect_tx cl) (so_snd (sockets s so), s);
                   Some (ENOBUFS_BSD, upd_so so (\<lambda>k. k\<lparr> so_snd := sb \<rparr>) s)
                 }
                 else Some (0, upd_so so (\<lambda>k.
                   let rcv = so_rcv k; sn = so_snd k;
                       rcv = (if sb_lowat rcv = 0 then rcv\<lparr> sb_lowat := 1 \<rparr> else rcv);
                       sn = (if sb_lowat sn = 0 then sn\<lparr> sb_lowat := lowat \<rparr> else sn);
                       sn = (if sb_lowat sn > sb_hiwat sn then sn\<lparr> sb_lowat := sb_hiwat sn \<rparr> else sn)
                   in k\<lparr> so_rcv := rcv, so_snd := sn \<rparr>) s))"

section \<open>Connection state\<close>

definition soisconnecting :: "addr \<Rightarrow> 'a sostate_scheme \<Rightarrow> 'a sostate_scheme" where
  "soisconnecting = set_state (SS_ISCONNECTED OR SS_ISDISCONNECTING) SS_ISCONNECTING"

text \<open>No accept filter can be attached in this port; following the missing filter is the value
  \<^term>\<open>None\<close>.\<close>

definition soisconnected :: "addr \<Rightarrow> 'a sostate_scheme \<Rightarrow> 'a sostate_scheme option" where
  "soisconnected so s =
     (let head = so_head (sockets s so);
          s = set_state (SS_ISCONNECTING OR SS_ISDISCONNECTING OR SS_ISCONFIRMING) SS_ISCONNECTED so s
      in if head \<noteq> None \<and> so_onq (sockets s so) = Some (the head, False)
         then if \<not> so_opt SO_ACCEPTFILTER so s
              then do {
                (_, s) \<leftarrow> soqremque so False s;
                sorwakeup (the head) (soqinsque (the head) so True s)
              }
              else None
         else do { s \<leftarrow> sorwakeup so s; sowwakeup so s })"

definition soisdisconnecting :: "addr \<Rightarrow> 'a sostate_scheme \<Rightarrow> 'a sostate_scheme option" where
  "soisdisconnecting so s = do {
     let s = set_state SS_ISCONNECTING (SS_ISDISCONNECTING OR SS_CANTRCVMORE OR SS_CANTSENDMORE) so s;
     s \<leftarrow> sowwakeup so s;
     sorwakeup so s
   }"

definition soisdisconnected :: "addr \<Rightarrow> 'a sostate_scheme \<Rightarrow> 'a sostate_scheme option" where
  "soisdisconnected so s = do {
     let s = set_state (SS_ISCONNECTING OR SS_ISCONNECTED OR SS_ISDISCONNECTING)
               (SS_CANTRCVMORE OR SS_CANTSENDMORE OR SS_ISDISCONNECTED) so s;
     s \<leftarrow> sowwakeup so s;
     sorwakeup so s
   }"

definition socantsendmore :: "addr \<Rightarrow> 'a sostate_scheme \<Rightarrow> 'a sostate_scheme option" where
  "socantsendmore so s = sowwakeup so (set_state 0 SS_CANTSENDMORE so s)"

definition socantrcvmore :: "addr \<Rightarrow> 'a sostate_scheme \<Rightarrow> 'a sostate_scheme option" where
  "socantrcvmore so s = sorwakeup so (set_state 0 SS_CANTRCVMORE so s)"

text \<open>The status is one of 0, \<^term>\<open>SS_ISCONFIRMING\<close> and \<^term>\<open>SS_ISCONNECTED\<close>.\<close>

definition sonewconn ::
  "'a sostate_scheme so_calls \<Rightarrow> addr \<Rightarrow> u16 \<Rightarrow> 'a sostate_scheme \<Rightarrow> (addr option \<times> 'a sostate_scheme) option" where
  "sonewconn cl head connstatus s =
     (let connstatus = (if so_opt SO_ACCEPTFILTER head s then 0 else connstatus);
          soqueue = (connstatus \<noteq> 0)
      in if so_qlen (sockets s head) + so_q0len (sockets s head) > 3 * so_qlimit (sockets s head) div 2 then Some (None, s)
         else case soget s of
                (None, s) \<Rightarrow> Some (None, s)
              | (Some so, s) \<Rightarrow> do {
                  let h = sockets s head;
                  let s = upd_so so (\<lambda>k. k\<lparr> so_type := so_type h, so_options := so_options h AND NOT SO_ACCEPTCONN,
                    so_linger := so_linger h, so_state := so_state h OR SS_NOFDREF, so_proto := so_proto h,
                    so_timeo := so_timeo h, glueing_block := None \<rparr>) s;
                  (error, s) \<leftarrow> soreserve cl so (sb_hiwat (so_snd (sockets s head))) (sb_hiwat (so_rcv (sockets s head))) s;
                  if error \<noteq> 0 then Some (None, soput so s)
                  else do {
                    let h = sockets s head;
                    let s = upd_so so (\<lambda>k. k\<lparr>
                      so_snd := (so_snd k)\<lparr> sb_lowat := sb_lowat (so_snd h), sb_timeo := sb_timeo (so_snd h),
                        sb_flags := sb_flags (so_snd k) OR (sb_flags (so_snd h) AND (SB_AUTOSIZE OR SB_ASYNC)) \<rparr>,
                      so_rcv := (so_rcv k)\<lparr> sb_lowat := sb_lowat (so_rcv h), sb_timeo := sb_timeo (so_rcv h),
                        sb_flags := sb_flags (so_rcv k) OR (sb_flags (so_rcv h) AND (SB_AUTOSIZE OR SB_ASYNC)) \<rparr> \<rparr>) s;
                    let s = soqinsque head so soqueue s;
                    (error, s) \<leftarrow> pr_usrreq cl so PRU_ATTACH None None None s;
                    if error \<noteq> 0
                    then do { (_, s) \<leftarrow> soqremque so soqueue s; Some (None, soput so s) }
                    else if soqueue
                    then do { s \<leftarrow> sorwakeup head s; Some (Some so, set_state 0 connstatus so s) }
                    else Some (Some so, s)
                  }
                })"

section \<open>Requests to the protocol\<close>

definition sobind :: "'a sostate_scheme so_calls \<Rightarrow> addr \<Rightarrow> addr option \<Rightarrow> 'a sostate_scheme \<Rightarrow> (int \<times> 'a sostate_scheme) option" where
  "sobind cl so nam s = pr_usrreq cl so PRU_BIND None nam None s"

definition solisten :: "'a sostate_scheme so_calls \<Rightarrow> addr \<Rightarrow> int \<Rightarrow> 'a sostate_scheme \<Rightarrow> (int \<times> 'a sostate_scheme) option" where
  "solisten cl so backlog s =
     (if so_is (SS_ISCONNECTED OR SS_ISCONNECTING OR SS_ISDISCONNECTING) so s then Some (EOPNOTSUPP, s)
      else do {
        (error, s) \<leftarrow> pr_usrreq cl so PRU_LISTEN None None None s;
        if error \<noteq> 0 then Some (error, s)
        else do {
          let s = (if so_q (sockets s so) = [] then upd_so so (\<lambda>k. k\<lparr> so_options := so_options k OR SO_ACCEPTCONN \<rparr>) s else s);
          let backlog = (if backlog < 0 then 0 else backlog);
          Some (0, upd_so so (\<lambda>k. k\<lparr> so_qlimit := umin backlog (somaxconn s) \<rparr>) s)
        }
      })"

definition sodisconnect :: "'a sostate_scheme so_calls \<Rightarrow> addr \<Rightarrow> 'a sostate_scheme \<Rightarrow> (int \<times> 'a sostate_scheme) option" where
  "sodisconnect cl so s =
     (if \<not> so_is SS_ISCONNECTED so s then Some (ENOTCONN, s)
      else if so_is SS_ISDISCONNECTING so s then Some (EALREADY, s)
      else pr_usrreq cl so PRU_DISCONNECT None None None s)"

definition soconnect :: "'a sostate_scheme so_calls \<Rightarrow> addr \<Rightarrow> addr option \<Rightarrow> 'a sostate_scheme \<Rightarrow> (int \<times> 'a sostate_scheme) option" where
  "soconnect cl so nam s =
     (if so_opt SO_ACCEPTCONN so s then Some (EOPNOTSUPP, s)
      else if so_is (SS_ISCONNECTED OR SS_ISCONNECTING) so s
      then if pr_has PR_CONNREQUIRED so s then Some (EISCONN, s)
           else do {
             (error, s) \<leftarrow> sodisconnect cl so s;
             if error \<noteq> 0 then Some (EISCONN, s) else pr_usrreq cl so PRU_CONNECT None nam None s
           }
      else pr_usrreq cl so PRU_CONNECT None nam None s)"

definition soconnect2 :: "'a sostate_scheme so_calls \<Rightarrow> addr \<Rightarrow> addr \<Rightarrow> 'a sostate_scheme \<Rightarrow> (int \<times> 'a sostate_scheme) option" where
  "soconnect2 cl so1 so2 s = pr_usrreq cl so1 PRU_CONNECT2 None (Some so2) None s"

definition soaccept :: "'a sostate_scheme so_calls \<Rightarrow> addr \<Rightarrow> addr option \<Rightarrow> 'a sostate_scheme \<Rightarrow> (int \<times> 'a sostate_scheme) option" where
  "soaccept cl so nam s =
     (if \<not> so_is SS_NOFDREF so s then None
      else let s = set_state SS_NOFDREF 0 so s
           in if \<not> so_is SS_ISDISCONNECTED so s \<or> \<not> pr_has PR_ABRTACPTDIS so s
              then pr_usrreq cl so PRU_ACCEPT None nam None s
              else Some (ECONNABORTED, s))"

section \<open>Closing and creating\<close>

definition SB_NOINTR :: u32 where "SB_NOINTR = 0x40"

text \<open>The receive buffer is copied, cleared in place, and the copy released.  No protocol
  of this port passes rights, so nothing is disposed of.\<close>

definition sorflush :: "'a sostate_scheme so_calls \<Rightarrow> addr \<Rightarrow> 'a sostate_scheme \<Rightarrow> 'a sostate_scheme option" where
  "sorflush cl so s = do {
     s \<leftarrow> socantrcvmore so s;
     let s = upd_so so (\<lambda>k. k\<lparr> so_rcv := (so_rcv k)\<lparr> sb_flags := sb_flags (so_rcv k) OR SB_NOINTR \<rparr> \<rparr>) s;
     let asb = so_rcv (sockets s so);
     let s = upd_so so (\<lambda>k. k\<lparr> so_rcv := empty_sockbuf (sb_so asb) \<rparr>) s;
     (_, s) \<leftarrow> sbrelease (reflect_tx cl) (asb, s);
     Some s
   }"

definition sofree :: "'a sostate_scheme so_calls \<Rightarrow> addr \<Rightarrow> 'a sostate_scheme \<Rightarrow> 'a sostate_scheme option" where
  "sofree cl so s =
     (if so_pcb (sockets s so) \<noteq> None \<or> \<not> so_is SS_NOFDREF so s then Some s
      else do {
        (ok, s) \<leftarrow> (if so_head (sockets s so) \<noteq> None then soqremque so False s else Some (True, s));
        if \<not> ok then Some s
        else do {
          (sb, s) \<leftarrow> sbrelease (reflect_tx cl) (so_snd (sockets s so), s);
          let s = upd_so so (\<lambda>k. k\<lparr> so_snd := sb \<rparr>) s;
          s \<leftarrow> sorflush cl so s;
          Some (if so_aborting (sockets s so) = 0 then soput so s else s)
        }
      })"

definition socreate ::
  "'a sostate_scheme so_calls \<Rightarrow> int \<Rightarrow> int \<Rightarrow> int \<Rightarrow> 'a sostate_scheme \<Rightarrow> (int \<times> addr option \<times> 'a sostate_scheme) option" where
  "socreate cl family type proto s =
     (case pffind cl family proto type of
        None \<Rightarrow>
          Some (if \<not> pffinddomain cl family then EAFNOSUPPORT
                else if proto = 0 \<and> type \<noteq> 0 then EPROTOTYPE else EPROTONOSUPPORT, None, s)
      | Some prp \<Rightarrow>
          if pr_type (protosws s prp) \<noteq> type then Some (EPROTOTYPE, None, s)
          else case soget s of
                 (None, s) \<Rightarrow> None
               | (Some so, s) \<Rightarrow> do {
                   let s = upd_so so (\<lambda>k. k\<lparr> so_type := type, so_proto := prp \<rparr>) s;
                   (error, s) \<leftarrow> pr_usrreq cl so PRU_ATTACH None (if proto = 0 then None else Some (nat proto)) None s;
                   if error \<noteq> 0
                   then do { s \<leftarrow> sofree cl so (set_state 0 SS_NOFDREF so s); Some (error, None, s) }
                   else Some (0, Some so, upd_so so (\<lambda>k. k\<lparr>
                     so_rcv := (so_rcv k)\<lparr> sb_flags := sb_flags (so_rcv k) OR SB_NOTIFY \<rparr>,
                     so_snd := (so_snd k)\<lparr> sb_flags := sb_flags (so_snd k) OR SB_NOTIFY \<rparr> \<rparr>) s)
                 })"

definition soabort :: "'a sostate_scheme so_calls \<Rightarrow> addr \<Rightarrow> 'a sostate_scheme \<Rightarrow> (int \<times> 'a sostate_scheme) option" where
  "soabort cl so s = do {
     let s = upd_so so (\<lambda>k. k\<lparr> so_aborting := so_aborting k + 1 \<rparr>) s;
     (error, s) \<leftarrow> pr_usrreq cl so PRU_ABORT None None None s;
     let s = upd_so so (\<lambda>k. k\<lparr> so_aborting := so_aborting k - 1 \<rparr>) s;
     if error \<noteq> 0 \<or> so_aborting (sockets s so) = 0
     then do { s \<leftarrow> sofree cl so s; Some (error, s) }
     else Some (error, s)
   }"

partial_function (option) close_queues :: "'a sostate_scheme so_calls \<Rightarrow> addr \<Rightarrow> 'a sostate_scheme \<Rightarrow> 'a sostate_scheme option" where
  "close_queues cl so s =
     (case so_q0 (sockets s so) of
        so2 # _ \<Rightarrow> do {
          (_, s) \<leftarrow> soqremque so2 False s;
          (_, s) \<leftarrow> soabort cl so2 s;
          close_queues cl so s
        }
      | [] \<Rightarrow>
          (case so_q (sockets s so) of
             so2 # _ \<Rightarrow> do {
               (_, s) \<leftarrow> soqremque so2 True s;
               (_, s) \<leftarrow> soabort cl so2 s;
               close_queues cl so s
             }
           | [] \<Rightarrow> Some s))"

text \<open>The loop that waits for the end of a connection: \<^verbatim>\<open>sowait\<close> returns 0 at once, without letting
  anything else run.\<close>

partial_function (option) linger_wait :: "addr \<Rightarrow> 'a sostate_scheme \<Rightarrow> 'a sostate_scheme option" where
  "linger_wait so s = (if so_is SS_ISCONNECTED so s then linger_wait so s else Some s)"

definition close_connected :: "'a sostate_scheme so_calls \<Rightarrow> addr \<Rightarrow> 'a sostate_scheme \<Rightarrow> (int \<times> 'a sostate_scheme) option" where
  "close_connected cl so s =
     (if \<not> so_is SS_ISCONNECTED so s then Some (0, s)
      else do {
        (error, s) \<leftarrow> (if \<not> so_is SS_ISDISCONNECTING so s then sodisconnect cl so s else Some (0, s));
        if error \<noteq> 0 \<or> \<not> so_opt SO_LINGER so s \<or> so_is SS_ISDISCONNECTING so s \<and> so_is SS_NBIO so s then Some (error, s)
        else do { s \<leftarrow> linger_wait so s; Some (0, s) }
      })"

definition soclose :: "'a sostate_scheme so_calls \<Rightarrow> addr \<Rightarrow> 'a sostate_scheme \<Rightarrow> (int \<times> 'a sostate_scheme) option" where
  "soclose cl so s = do {
     s \<leftarrow> (if so_opt SO_ACCEPTCONN so s then close_queues cl so s else Some s);
     (error, s) \<leftarrow> (if so_pcb (sockets s so) = None then Some (0, s)
       else do {
         (error, s) \<leftarrow> close_connected cl so s;
         if so_pcb (sockets s so) \<noteq> None
         then do {
           (error2, s) \<leftarrow> pr_usrreq cl so PRU_DETACH None None None s;
           Some (if error = 0 then error2 else error, s)
         }
         else Some (error, s)
       });
     if so_is SS_NOFDREF so s then None
     else do { s \<leftarrow> sofree cl so (set_state 0 SS_NOFDREF so s); Some (error, s) }
   }"

definition soshutdown :: "'a sostate_scheme so_calls \<Rightarrow> addr \<Rightarrow> int \<Rightarrow> 'a sostate_scheme \<Rightarrow> (int \<times> 'a sostate_scheme) option" where
  "soshutdown cl so how s =
     (if how \<notin> {0, 1, 2} then Some (EINVAL, s)
      else do {
        s \<leftarrow> (if how = 0 \<or> how = 2 then sorflush cl so s else Some s);
        if how = 1 \<or> how = 2 then pr_usrreq cl so PRU_SHUTDOWN None None None s else Some (0, s)
      })"

definition sorestart :: "addr \<Rightarrow> 'a sostate_scheme \<Rightarrow> 'a sostate_scheme" where
  "sorestart = set_state 0 SS_RESTARTSYS"

section \<open>Sending\<close>

text \<open>The checks of \<^verbatim>\<open>sosend\<close> in their order; 0 lets the data go to the protocol.  An error of
  the socket is reported once.\<close>

definition sosend_error :: "addr \<Rightarrow> bool \<Rightarrow> int \<Rightarrow> int \<Rightarrow> u32 \<Rightarrow> 'a sostate_scheme \<Rightarrow> int" where
  "sosend_error so has_addr resid ctl_len flags s =
     (let k = sockets s so;
          space = sbspace (so_snd k) + (if flags AND MSG_OOB \<noteq> 0 then 1024 else 0)
      in if so_is SS_CANTSENDMORE so s then EPIPE
         else if so_error k \<noteq> 0 then so_error k
         else if \<not> so_is SS_ISCONNECTED so s \<and> pr_has PR_CONNREQUIRED so s \<and> \<not> so_is SS_ISCONFIRMING so s \<and>
                 \<not> (resid = 0 \<and> ctl_len \<noteq> 0) then ENOTCONN
         else if \<not> so_is SS_ISCONNECTED so s \<and> \<not> pr_has PR_CONNREQUIRED so s \<and> \<not> has_addr then EDESTADDRREQ
         else if resid > uint (sb_hiwat (so_snd k)) \<or> ctl_len > uint (sb_hiwat (so_snd k)) then EMSGSIZE
         else if space < resid + ctl_len then EWOULDBLOCK
         else 0)"

definition sosend ::
  "'a sostate_scheme so_calls \<Rightarrow> addr \<Rightarrow> addr option \<Rightarrow> addr \<Rightarrow> addr option \<Rightarrow> u32 \<Rightarrow> 'a sostate_scheme \<Rightarrow>
   (int \<times> 'a sostate_scheme) option" where
  "sosend cl so ad m0 control flags s =
     (let resid = ph_len (m_pkthdr (mbufs s m0));
          ctl_len = (case control of None \<Rightarrow> 0 | Some c \<Rightarrow> m_len (mbufs s c));
          dontroute = (flags AND MSG_DONTROUTE \<noteq> 0 \<and> \<not> so_opt SO_DONTROUTE so s \<and> pr_has PR_ATOMIC so s);
          error = (if resid < 0 then EINVAL else sosend_error so (ad \<noteq> None) resid ctl_len flags s);
          s = (if resid \<ge> 0 \<and> \<not> so_is SS_CANTSENDMORE so s then upd_so so (\<lambda>k. k\<lparr> so_error := 0 \<rparr>) s else s)
      in if error \<noteq> 0
         then do {
           s \<leftarrow> m_freem (Some m0) s;
           s \<leftarrow> m_freem control s;
           Some (error, s)
         }
         else do {
           let s = (if dontroute then upd_so so (\<lambda>k. k\<lparr> so_options := so_options k OR SO_DONTROUTE \<rparr>) s else s);
           let s = (if resid > 0 then set_state 0 SS_MORETOCOME so s else s);
           (error, s) \<leftarrow> pr_usrreq cl so (if flags AND MSG_OOB \<noteq> 0 then PRU_SENDOOB else PRU_SEND) (Some m0) ad control s;
           let s = (if dontroute then upd_so so (\<lambda>k. k\<lparr> so_options := so_options k AND NOT SO_DONTROUTE \<rparr>) s else s);
           Some (error, if resid > 0 then set_state SS_MORETOCOME 0 so s else s)
         })"

section \<open>Receiving\<close>

definition sbsync :: "addr option \<Rightarrow> sockbuf \<times> 'a mstate_scheme \<Rightarrow> sockbuf \<times> 'a mstate_scheme" where
  "sbsync nextrecord = (\<lambda>(sb, s).
     let (sb, s) = (case sb_mb sb of
                      Some m \<Rightarrow> (sb, upd_m m (\<lambda>b. b\<lparr> m_nextpkt := nextrecord \<rparr>) s)
                    | None \<Rightarrow> (sb\<lparr> sb_mb := nextrecord \<rparr>, s))
     in (case sb_mb sb of
           None \<Rightarrow> sb\<lparr> sb_mbtail := None, sb_lastrecord := None \<rparr>
         | Some m \<Rightarrow> if m_nextpkt (mbufs s m) = None then sb\<lparr> sb_lastrecord := Some m \<rparr> else sb, s))"

text \<open>One round of the loop of \<^verbatim>\<open>soreceive\<close>: the mbuf \<^term>\<open>m\<close> leaves the buffer, its packet buffer is
  chained behind the others, and the mbuf is freed unless its packet buffer is the
  head of the chain.\<close>

definition receive_one ::
  "addr option \<Rightarrow> addr option \<Rightarrow> addr \<Rightarrow> sockbuf \<times> 'a mstate_scheme \<Rightarrow> (addr option \<times> sockbuf \<times> 'a mstate_scheme) option" where
  "receive_one head prev m = (\<lambda>(sb, s). do {
     let nextrecord = m_nextpkt (mbufs s m);
     let sb = sbfree s m sb;
     hd_desc \<leftarrow> head;
     desc \<leftarrow> m_paddr (mbufs s m);
     let s = chain_rte_mbufs hd_desc prev desc (m_data (mbufs s m)) (m_len (mbufs s m)) s;
     let mn = m_next (mbufs s m);
     let sb = sb\<lparr> sb_mb := mn \<rparr>;
     let s = (if Some desc \<noteq> head then snd (m_free m s) else s);
     let s = upd_m m (\<lambda>b. b\<lparr> m_next := None \<rparr>) s;
     Some (case mn of
             Some n \<Rightarrow> (Some desc, if nextrecord = None then sb\<lparr> sb_lastrecord := Some n \<rparr> else sb,
                        upd_m n (\<lambda>b. b\<lparr> m_nextpkt := nextrecord \<rparr>) s)
           | None \<Rightarrow> (Some desc, SB_EMPTY_FIXUP (sb\<lparr> sb_mb := nextrecord \<rparr>), s))
   })"

text \<open>The pointer \<^verbatim>\<open>mp\<close> of the source is the result \<^term>\<open>first\<close> until the first round and then the link of
  the mbuf \<^term>\<open>lst\<close> of the last round, which the round has just set to null.\<close>

partial_function (option) receive_loop ::
  "addr \<Rightarrow> bool \<Rightarrow> addr option \<Rightarrow> addr option \<Rightarrow> addr option \<Rightarrow> addr option \<Rightarrow> addr option \<Rightarrow> 'a sostate_scheme \<Rightarrow>
   (addr option \<times> 'a sostate_scheme) option" where
  "receive_loop so oob head prev first lst m s =
     (case m of
        None \<Rightarrow> Some (first, s)
      | Some a \<Rightarrow>
          if (m_type (mbufs s a) = MT_OOBDATA) \<noteq> oob then Some (first, s)
          else do {
            let eor = has_flag M_EOR (mbufs s a);
            let s = set_state SS_RCVATMARK 0 so s;
            let n = m_next (mbufs s a);
            let (first, s) = set_np first lst (Some a) s;
            (prev, sb, s) \<leftarrow> receive_one head prev a (so_rcv (sockets s so), s);
            let s = upd_so so (\<lambda>k. k\<lparr> so_rcv := sb \<rparr>) s;
            if eor then Some (first, s) else receive_loop so oob head prev first (Some a) n s
          })"

text \<open>The result is the error, the mbuf with the address, and the first mbuf of the data.\<close>

definition soreceive_empty :: "addr \<Rightarrow> 'a sostate_scheme \<Rightarrow> int \<times> addr option \<times> addr option \<times> 'a sostate_scheme" where
  "soreceive_empty so s =
     (let k = sockets s so
      in if so_error k \<noteq> 0 then (so_error k, None, None, upd_so so (\<lambda>k. k\<lparr> so_error := 0 \<rparr>) s)
         else if \<not> so_is SS_CANTRCVMORE so s \<and> \<not> so_is (SS_ISCONNECTED OR SS_ISCONNECTING) so s \<and> pr_has PR_CONNREQUIRED so s
         then (ENOTCONN, None, None, s)
         else (-1, None, None, s))"

definition soreceive ::
  "'a sostate_scheme so_calls \<Rightarrow> addr \<Rightarrow> bool \<Rightarrow> u32 \<Rightarrow> 'a sostate_scheme \<Rightarrow>
   (int \<times> addr option \<times> addr option \<times> 'a sostate_scheme) option" where
  "soreceive cl so want_addr flags s =
     (if flags AND MSG_OOB \<noteq> 0 then Some (-1, None, None, s)
      else do {
        s \<leftarrow> (if so_is SS_ISCONFIRMING so s
              then do { (_, s) \<leftarrow> pr_usrreq cl so PRU_RCVD None None None s; Some s } else Some s);
        case sb_mb (so_rcv (sockets s so)) of
          None \<Rightarrow> Some (soreceive_empty so s)
        | Some m \<Rightarrow> do {
            let head = m_paddr (mbufs s m);
            let nextrecord = m_nextpkt (mbufs s m);
            let (paddr, m, s) = (if pr_has PR_ADDR so s
              then let sb = sbfree s m (so_rcv (sockets s so));
                       mn = m_next (mbufs s m);
                       s = (if want_addr then upd_m m (\<lambda>b. b\<lparr> m_next := None \<rparr>) s else snd (MFREE m s));
                       (sb, s) = sbsync nextrecord (sb\<lparr> sb_mb := mn \<rparr>, s)
                   in (if want_addr then Some m else None, mn, upd_so so (\<lambda>k. k\<lparr> so_rcv := sb \<rparr>) s)
              else (None, Some m, s));
            let type = (case m of None \<Rightarrow> 0 | Some m \<Rightarrow> m_type (mbufs s m));
            if type = MT_CONTROL then None
            else do {
              (mp0, s) \<leftarrow> receive_loop so (type = MT_OOBDATA) head None None None m s;
              Some (0, paddr, mp0, s)
            }
          }
      })"

section \<open>The packet buffers of received data\<close>

lemma chain_rte_keeps:
  "refcnt (rmb (chain_rte_mbufs h prev d buf n s) x) = refcnt (rmb s x)"
  "RTE_MBUF_INDIRECT (rmb (chain_rte_mbufs h prev d buf n s) x) = RTE_MBUF_INDIRECT (rmb s x)"
  "rmb_inv U r (chain_rte_mbufs h prev d buf n s) = rmb_inv U r s" "same_rest s (chain_rte_mbufs h prev d buf n s)"
  by (auto simp: chain_rte_mbufs_def Let_def rmb_inv_upd RTE_MBUF_INDIRECT_def split: option.splits)

lemma chain_rte_next: "h \<noteq> d \<Longrightarrow> rm_next (rmb (chain_rte_mbufs h (Some h) d buf n s) h) = Some d"
  by (simp add: chain_rte_mbufs_def Let_def)

lemma chain_rte_inv: "mbuf_inv M U used e (chain_rte_mbufs h prev d buf n s) = mbuf_inv M U used e s"
  using same_rest_mstate [OF chain_rte_keeps(4) [where h = h and prev = prev and d = d and buf = buf and n = n and s = s]]
  by (simp add: mbuf_inv_def holders_def chain_rte_keeps(3))

lemma MFREE_direct:
  assumes "m_paddr (mbufs s m) = Some p" "refcnt (rmb s p) = 1" "\<not> RTE_MBUF_INDIRECT (rmb s p)"
  shows "rmb (snd (MFREE m s)) = (rmb s)(p := (rmb s p)\<lparr> refcnt := 0, rm_next := None \<rparr>)"
  using assms rte_pktmbuf_free_seg_direct [OF assms(2,3)]
  by (simp add: MFREE_def Let_def free_mbuf_def upd_m_def rte_pktmbuf_free_seg_direct)

text \<open>A round that keeps the mbuf, whose packet buffer is the head.\<close>

lemma receive_one_keep:
  fixes s :: "'a mstate_scheme"
  assumes "m_paddr (mbufs s m) = Some h" "m_next (mbufs s m) = Some n" "n \<noteq> m"
  shows "\<exists>sb' t. receive_one (Some h) prev m (sb, s) = Some (Some h, sb', t) \<and>
    mbufs t n = (mbufs s n)\<lparr> m_nextpkt := m_nextpkt (mbufs s m) \<rparr> \<and>
    (\<forall>x. refcnt (rmb t x) = refcnt (rmb s x) \<and> RTE_MBUF_INDIRECT (rmb t x) = RTE_MBUF_INDIRECT (rmb s x)) \<and>
    (mbuf_inv M U used e s \<longrightarrow> mbuf_inv M U used e t) \<and> sb_mb sb' = Some n"
proof -
  let ?s1 = "chain_rte_mbufs h prev h (m_data (mbufs s m)) (m_len (mbufs s m)) s"
  note c = same_rest_mstate [OF chain_rte_keeps(4) [where h = h and prev = prev and d = h and s = s]]
  let ?t = "upd_m n (\<lambda>b. b\<lparr> m_nextpkt := m_nextpkt (mbufs s m) \<rparr>) (upd_m m (\<lambda>b. b\<lparr> m_next := None \<rparr>) ?s1)"
  have "mbuf_inv M U used e s \<Longrightarrow> mbuf_inv M U used e ?t"
    by (intro mbuf_inv_upd) (simp_all add: chain_rte_inv)
  moreover have "\<exists>sb'. receive_one (Some h) prev m (sb, s) = Some (Some h, sb', ?t) \<and> sb_mb sb' = Some n"
    using assms c by (simp add: receive_one_def Let_def)
  ultimately show ?thesis using assms c by (auto simp: chain_rte_keeps(1,2))
qed

text \<open>A round that frees the mbuf.\<close>

lemma receive_one_free:
  fixes s :: "'a mstate_scheme"
  assumes "m_paddr (mbufs s m) = Some p" "p \<noteq> h" "m_next (mbufs s m) = None"
    and "refcnt (rmb s p) = 1" "\<not> RTE_MBUF_INDIRECT (rmb s p)"
  shows "\<exists>sb' t. receive_one (Some h) (Some h) m (sb, s) = Some (Some p, sb', t) \<and>
    rm_next (rmb t h) = Some p \<and> refcnt (rmb t p) = 0 \<and>
    (mbuf_inv M U used e s \<and> m \<in> used \<longrightarrow> mbuf_inv M U (used - {m}) e t)"
proof -
  let ?s1 = "chain_rte_mbufs h (Some h) p (m_data (mbufs s m)) (m_len (mbufs s m)) s"
  note c = same_rest_mstate [OF chain_rte_keeps(4) [where h = h and prev = "Some h" and d = p and s = s]]
  let ?t = "upd_m m (\<lambda>b. b\<lparr> m_next := None \<rparr>) (snd (MFREE m ?s1))"
  have r: "rmb ?t = (rmb ?s1)(p := (rmb ?s1 p)\<lparr> refcnt := 0, rm_next := None \<rparr>)"
    using assms c by (simp add: MFREE_direct chain_rte_keeps)
  have "mbuf_inv M U used e s \<and> m \<in> used \<Longrightarrow> mbuf_inv M U (used - {m}) e ?t"
    by (intro mbuf_inv_upd MFREE_inv) (simp_all add: chain_rte_inv)
  moreover have "\<exists>sb'. receive_one (Some h) (Some h) m (sb, s) = Some (Some p, sb', ?t)"
    using assms c by (simp add: receive_one_def Let_def m_free_def)
  ultimately show ?thesis using assms r by (auto simp: chain_rte_next)
qed

lemma mbuf_inv_upd_so [simp]: "mbuf_inv M U used e (upd_so so f s) = mbuf_inv M U used e s"
  by (simp add: mbuf_inv_def holders_def upd_so_def rmb_inv_def pools_ok_def)

lemma mbufs_upd_so [simp]: "mbufs (upd_so so f s) = mbufs s" "rmb (upd_so so f s) = rmb s" "rpool (upd_so so f s) = rpool s"
  "mb_cache (upd_so so f s) = mb_cache s" "dmem (upd_so so f s) = dmem s"
  by (simp_all add: upd_so_def)

lemma set_state_same [simp]: "mbufs (set_state c f so s) = mbufs s" "rmb (set_state c f so s) = rmb s"
  "mbuf_inv M U used e (set_state c f so s) = mbuf_inv M U used e s"
  by (simp_all add: set_state_def)

lemma receive_two:
  fixes s :: "'a sostate_scheme"
  assumes inv: "mbuf_inv M U used e s" and ab: "a \<noteq> b" "b \<in> used"
    and links: "m_next (mbufs s a) = Some b" "m_next (mbufs s b) = None" "\<not> has_flag M_EOR (mbufs s a)"
    and types: "(m_type (mbufs s a) = MT_OOBDATA) = oob" "(m_type (mbufs s b) = MT_OOBDATA) = oob"
    and bufs: "m_paddr (mbufs s a) = Some p" "m_paddr (mbufs s b) = Some q" "p \<noteq> q"
    and q: "refcnt (rmb s q) = 1" "\<not> RTE_MBUF_INDIRECT (rmb s q)"
  shows "\<exists>t. receive_loop so oob (Some p) None None None (Some a) s = Some (Some a, t) \<and>
    rm_next (rmb t p) = Some q \<and> refcnt (rmb t q) = 0 \<and> mbuf_inv M U (used - {b}) e t"
proof -
  define s1 where "s1 = set_state SS_RCVATMARK 0 so s"
  have s1: "mbufs s1 = mbufs s" "rmb s1 = rmb s" "mbuf_inv M U used e s1" using inv by (simp_all add: s1_def)
  obtain sb2 s2 where r1: "receive_one (Some p) None a (so_rcv (sockets s1 so), s1) = Some (Some p, sb2, s2)"
    and s2: "mbufs s2 b = (mbufs s b)\<lparr> m_nextpkt := m_nextpkt (mbufs s a) \<rparr>" "mbuf_inv M U used e s2"
      "refcnt (rmb s2 q) = 1" "\<not> RTE_MBUF_INDIRECT (rmb s2 q)"
    using receive_one_keep [of s1 a p b None "so_rcv (sockets s1 so)" M U used e] ab bufs links q s1 by auto
  define s3 where "s3 = upd_m a (\<lambda>x. x\<lparr> m_next := Some b \<rparr>) (set_state SS_RCVATMARK 0 so (upd_so so (\<lambda>k. k\<lparr> so_rcv := sb2 \<rparr>) s2))"
  have "mbuf_inv M U used e s3" unfolding s3_def by (rule mbuf_inv_upd) (use s2 in simp_all)
  moreover have "mbufs s3 b = mbufs s2 b" "rmb s3 = rmb s2" using ab by (auto simp: s3_def)
  ultimately obtain sb4 s4 where r2: "receive_one (Some p) (Some p) b (so_rcv (sockets s3 so), s3) = Some (Some q, sb4, s4)"
    and s4: "rm_next (rmb s4 p) = Some q" "refcnt (rmb s4 q) = 0" "mbuf_inv M U (used - {b}) e s4"
    using receive_one_free [of s3 b q p "so_rcv (sockets s3 so)" M U used e] ab bufs links s2 by auto
  define t where "t = upd_so so (\<lambda>k. k\<lparr> so_rcv := sb4 \<rparr>) s4"
  have "receive_loop so oob (Some p) (Some p) (Some a) (Some a) (Some b) (upd_so so (\<lambda>k. k\<lparr> so_rcv := sb2 \<rparr>) s2) = Some (Some a, t)"
    using types links s2 r2 ab
    by (subst receive_loop.simps) (simp add: Let_def set_np_def s3_def t_def receive_loop.simps [of _ _ _ _ _ _ None])
  then have "receive_loop so oob (Some p) None None None (Some a) s = Some (Some a, t)"
    using types links r1
    by (subst receive_loop.simps) (simp add: Let_def set_np_def s1_def [symmetric] s1)
  with s4 show ?thesis by (auto simp: t_def)
qed

text \<open>C35. Receiving a stream of two mbufs hands out a packet whose second segment is free.
  The receive buffer holds the mbufs \<^term>\<open>a\<close> and \<^term>\<open>b\<close>, each with its own packet buffer, the second
  one with a single reference.  The call succeeds and returns \<^term>\<open>a\<close>.  Its packet
  buffer \<^term>\<open>p\<close> is linked to the packet buffer \<^term>\<open>q\<close>, but freeing the mbuf header \<^term>\<open>b\<close> has put
  \<^term>\<open>q\<close> back into its pool, from which it can be allocated again.\<close>

theorem soreceive_hands_out_free_segment:
  assumes "mbuf_inv M U used e s" "a \<noteq> b" "b \<in> used" "sb_mb (so_rcv (sockets s so)) = Some a"
    and "m_next (mbufs s a) = Some b" "m_next (mbufs s b) = None" "\<not> has_flag M_EOR (mbufs s a)"
    and "m_type (mbufs s a) = MT_DATA" "m_type (mbufs s b) = MT_DATA"
    and "m_paddr (mbufs s a) = Some p" "m_paddr (mbufs s b) = Some q" "p \<noteq> q"
    and "refcnt (rmb s q) = 1" "\<not> RTE_MBUF_INDIRECT (rmb s q)"
    and "\<not> so_is SS_ISCONFIRMING so s" "\<not> pr_has PR_ADDR so s" "flags AND MSG_OOB = 0"
  shows "\<exists>t. soreceive cl so w flags s = Some (0, None, Some a, t) \<and> m_paddr (mbufs s a) = Some p \<and>
    rm_next (rmb t p) = Some q \<and> q \<in># pool_objs (rpool t (rm_pool (rmb t q)))"
proof -
  obtain t where t: "receive_loop so False (Some p) None None None (Some a) s = Some (Some a, t)"
    "rm_next (rmb t p) = Some q" "refcnt (rmb t q) = 0" "mbuf_inv M U (used - {b}) e t"
    using receive_two [of M U used e s a b False p q so] assms by auto
  have "q \<in> U" using assms by (auto simp: mbuf_inv_def)
  then have "q \<in># pool_objs (rpool t (rm_pool (rmb t q)))"
    using t(3,4) by (auto simp: mbuf_inv_def rmb_inv_def pools_ok_def unreferenced_def)
  with t assms show ?thesis by (simp add: soreceive_def Let_def)
qed

section \<open>Concrete states\<close>

definition idle_socket :: socket where
  "idle_socket = \<lparr> so_type = 1, so_options = 0, so_linger = 0, so_state = SS_ISCONNECTED, so_pcb = None, so_proto = 0,
     so_head = None, so_onq = None, so_q0 = [], so_q = [], so_q0len = 0, so_qlen = 0, so_qlimit = 0, so_timeo = 0,
     so_error = 0, so_aborting = 0, so_snd = empty_sockbuf 0, so_rcv = empty_sockbuf 0, so_upcall2 = False,
     glueing_block = None, read_queue_present = False, write_queue_present = False, accept_queue_present = False,
     closed_queue_present = False, buffers_available_notification_queue_present = False \<rparr>"

definition idle_sostate :: "rte_state \<Rightarrow> sostate" where
  "idle_sostate rs = \<lparr> rmb = rmb rs, rpool = rpool rs, elt_size = elt_size rs, virt2phy = virt2phy rs, rlcore = 0,
     mbufs = (\<lambda>_. blank_mbuf), dmem = of_nat, mb_cache = small_pool, mb_data = 0, mcl_cache = 0,
     get_mbuf_called = 0, get_mbuf_failed = 0, mbuf_free_called = 0, max_protohdr = 40,
     MCFail = 0, MPFail = 0, MSFail = 0, sb_max = 262144, sb_max_adj = 200000,
     sockets = (\<lambda>_. idle_socket), socket_cache = small_pool, protosws = (\<lambda>_. \<lparr> pr_type = 1, pr_flags = 0 \<rparr>),
     t_state = Map.empty, somaxconn = 128, read_ready_socket_list_head = [], read_sockets_queue_len = 0,
     closed_socket_list_head = [], write_ready_socket_list_head = [], write_sockets_queue_len = 0,
     accept_ready_socket_list_head = [], buffers_available_notification_socket_list_head = [] \<rparr>"

text \<open>A protocol that accepts every request and does nothing.\<close>

definition silent_calls :: "'s so_calls" where
  "silent_calls = \<lparr> pr_usrreq = \<lambda>_ _ _ _ _ s. Some (0, s), reflect_tx = \<lambda>_ _ s. s, pffind = \<lambda>_ _ _. Some 0,
     pffinddomain = \<lambda>_. True \<rparr>"

text \<open>Socket 50 has received a stream of two mbufs, each with its own packet buffer.\<close>

definition held_bufs :: rte_state where
  "held_bufs = upd_rmb 1000 (\<lambda>b. b\<lparr> refcnt := 1 \<rparr>) (upd_rmb 4000 (\<lambda>b. b\<lparr> refcnt := 1 \<rparr>) (bufs_pooled []))"

definition received_sostate :: sostate where
  "received_sostate =
     upd_so 50 (\<lambda>k. k\<lparr> so_rcv := (so_rcv k)\<lparr> sb_mb := Some 10 \<rparr> \<rparr>)
       (upd_m 10 (\<lambda>b. b\<lparr> m_next := Some 20, m_type := MT_DATA, m_len := 3, m_paddr := Some 1000 \<rparr>)
         (upd_m 20 (\<lambda>b. b\<lparr> m_type := MT_DATA, m_len := 5, m_paddr := Some 4000 \<rparr>)
           ((idle_sostate held_bufs)\<lparr> mb_cache := rpool (bufs_pooled []) 0 \<rparr>)))"

lemma held_bufs_inv: "rmb_inv {1000, 4000} (\<lambda>_. 1) held_bufs"
proof -
  have "counts_ok {1000, 4000} (\<lambda>_. 1) (rmb held_bufs)"
    by (auto simp: counts_ok_def attached_def bufs_pooled_heap held_bufs_def)
  moreover have "unreferenced {1000, 4000} (rmb held_bufs) p = {}" for p
    by (auto simp: unreferenced_def held_bufs_def bufs_pooled_heap)
  moreover have "{a. (a = 1000 \<or> a = 4000) \<and> rm_pool (rmb held_bufs a) = p} = (if p = 0 then {1000, 4000} else {})" for p
    by (auto simp: held_bufs_def bufs_pooled_heap)
  ultimately show ?thesis
    by (simp add: rmb_inv_def pools_ok_def held_bufs_def bufs_pooled_pool)
qed

lemma received_sostate_inv: "mbuf_inv {10, 20} {1000, 4000} {10, 20} (\<lambda>_. 0) received_sostate"
proof -
  have same: "rmb received_sostate = rmb held_bufs" "rpool received_sostate = rpool held_bufs"
    by (simp_all add: received_sostate_def idle_sostate_def)
  have holders: "holders {10, 20} received_sostate p = (if p = 1000 then {10} else if p = 4000 then {20} else {})" for p
    by (auto simp: holders_def received_sostate_def idle_sostate_def upd_m_def)
  have "rmb_inv {1000, 4000} (\<lambda>p. 0 + card (holders {10, 20} received_sostate p)) received_sostate"
    using rmb_inv_cong [OF held_bufs_inv same] by (simp add: rmb_inv_def counts_ok_def holders)
  moreover have "mb_cache received_sostate = rpool (bufs_pooled []) 0"
    by (simp add: received_sostate_def idle_sostate_def)
  ultimately show ?thesis
    by (auto simp: mbuf_inv_def bufs_pooled_pool received_sostate_def upd_m_def)
qed

theorem soreceive_hands_out_free_segment_witness:
  "\<exists>t. soreceive silent_calls 50 False 0 received_sostate = Some (0, None, Some 10, t) \<and>
     rm_next (rmb t 1000) = Some 4000 \<and> 4000 \<in># pool_objs (rpool t (rm_pool (rmb t 4000)))"
proof -
  note defs = received_sostate_def idle_sostate_def upd_m_def has_flag_def blank_mbuf_def held_bufs_def bufs_pooled_heap
    so_is_def pr_has_def upd_so_def idle_socket_def SS_ISCONNECTED_def SS_ISCONFIRMING_def
  show ?thesis
    using soreceive_hands_out_free_segment [OF received_sostate_inv, of 10 20 50 1000 4000 0 silent_calls False]
    by (simp add: defs)
qed

end
