(* ===== verification/App_Glue.thy ===== *)
theory App_Glue
  imports Socket
begin

unbundle bit_operations_syntax

text \<open>
  The layer between the sockets and the service (\<^verbatim>\<open>glue/app_glue.c\<close>): creating, binding, connecting and closing
  sockets, sending and receiving one packet buffer, and the queues of sockets that are
  ready.  What the queues call (\<^verbatim>\<open>user_on_closure\<close>, \<^verbatim>\<open>user_data_available_cbk\<close>,
  \<^verbatim>\<open>service_on_transmission_opportunity\<close>, the notification of an accepted connection) belongs to
  the service and is an argument here.
\<close>

section \<open>State\<close>

record glstate = sostate +
  mbufs_allocated_for_tx :: u64
  mbufs_freed_for_rx :: u64

section \<open>Sockets\<close>

definition app_glue_create_socket ::
  "'a sostate_scheme so_calls \<Rightarrow> int \<Rightarrow> int \<Rightarrow> 'a sostate_scheme \<Rightarrow> (addr option \<times> 'a sostate_scheme) option" where
  "app_glue_create_socket cl family type s = do {
     (error, so, s) \<leftarrow> socreate cl family type 0 s;
     if error \<noteq> 0 then Some (None, s)
     else do { so \<leftarrow> so; Some (Some so, upd_so so (\<lambda>k. k\<lparr> so_upcall2 := True \<rparr>) s) }
   }"

text \<open>A \<^verbatim>\<open>sockaddr_in\<close> of 16 bytes: length, family, port and address in network order, zeros.\<close>

definition AF_INET :: "8 word" where "AF_INET = 2"

definition port_bytes :: "u16 \<Rightarrow> 8 word list" where
  "port_bytes p = [ucast (drop_bit 8 p), ucast p]"

definition ip_bytes :: "u32 \<Rightarrow> 8 word list" where
  "ip_bytes a = [ucast a, ucast (drop_bit 8 a), ucast (drop_bit 16 a), ucast (drop_bit 24 a)]"

definition write_bytes :: "addr \<Rightarrow> 8 word list \<Rightarrow> 'a mstate_scheme \<Rightarrow> 'a mstate_scheme" where
  "write_bytes a bs s = s\<lparr> dmem := mem_write a bs (dmem s) \<rparr>"

definition app_glue_v4_bind ::
  "'a sostate_scheme so_calls \<Rightarrow> addr \<Rightarrow> u32 \<Rightarrow> u16 \<Rightarrow> 'a sostate_scheme \<Rightarrow> (int \<times> 'a sostate_scheme) option" where
  "app_glue_v4_bind cl so ipaddr prt s = do {
     (m, s) \<leftarrow> m_get MT_SONAME s;
     case m of
       None \<Rightarrow> Some (-1, s)
     | Some m \<Rightarrow> do {
         let s = upd_m m (\<lambda>b. b\<lparr> m_len := 16 \<rparr>) s;
         let s = write_bytes (mtod (mbufs s m)) ([16, AF_INET] @ port_bytes prt @ ip_bytes ipaddr @ replicate 8 0) s;
         (error, s) \<leftarrow> sobind cl so (Some m) s;
         if error \<noteq> 0 then Some (-1, s)
         else do { s \<leftarrow> m_freem (Some m) s; Some (0, s) }
       }
   }"

text \<open>The loop that looks for a free local port; \<^term>\<open>my_port\<close> is what the uninitialised variable
  holds, and \<^term>\<open>rnd\<close> gives the random ports in turn.\<close>

partial_function (option) connect_bind ::
  "'a sostate_scheme so_calls \<Rightarrow> addr \<Rightarrow> addr \<Rightarrow> u16 \<Rightarrow> (nat \<Rightarrow> u16) \<Rightarrow> nat \<Rightarrow> 'a sostate_scheme \<Rightarrow> 'a sostate_scheme option" where
  "connect_bind cl so m my_port rnd i s = do {
     let p = mtod (mbufs s m);
     let s = write_bytes (p + 4) (replicate 4 0) s;
     let s = write_bytes (p + 2) (port_bytes (if my_port \<noteq> 0 then my_port else rnd i)) s;
     (error, s) \<leftarrow> sobind cl so (Some m) s;
     if error \<noteq> 0 \<and> my_port = 0 then connect_bind cl so m my_port rnd (Suc i) s else Some s
   }"

definition app_glue_v4_connect ::
  "'a sostate_scheme so_calls \<Rightarrow> u16 \<Rightarrow> (nat \<Rightarrow> u16) \<Rightarrow> addr \<Rightarrow> u32 \<Rightarrow> u16 \<Rightarrow> 'a sostate_scheme \<Rightarrow> (int \<times> 'a sostate_scheme) option" where
  "app_glue_v4_connect cl my_port rnd so ipaddr prt s = do {
     (m, s) \<leftarrow> m_get MT_SONAME s;
     case m of
       None \<Rightarrow> Some (-1, s)
     | Some m \<Rightarrow> do {
         let s = upd_m m (\<lambda>b. b\<lparr> m_len := 16 \<rparr>) s;
         let p = mtod (mbufs s m);
         let s = write_bytes p [16, AF_INET] s;
         s \<leftarrow> connect_bind cl so m my_port rnd 0 s;
         let s = write_bytes (p + 1) ([AF_INET] @ port_bytes prt @ ip_bytes ipaddr) s;
         (_, s) \<leftarrow> soconnect cl so (Some m) s;
         s \<leftarrow> m_freem (Some m) s;
         Some (0, s)
       }
   }"

definition app_glue_v4_listen :: "'a sostate_scheme so_calls \<Rightarrow> addr \<Rightarrow> 'a sostate_scheme \<Rightarrow> (int \<times> 'a sostate_scheme) option" where
  "app_glue_v4_listen cl so s = do {
     (error, s) \<leftarrow> solisten cl so 32000 s;
     Some (if error \<noteq> 0 then -1 else 0, s)
   }"

definition app_glue_set_glueing_block :: "addr option \<Rightarrow> addr option \<Rightarrow> 'a sostate_scheme \<Rightarrow> 'a sostate_scheme" where
  "app_glue_set_glueing_block so data s =
     (case so of None \<Rightarrow> s | Some so \<Rightarrow> upd_so so (\<lambda>k. k\<lparr> glueing_block := data \<rparr>) s)"

definition app_glue_get_glueing_block :: "addr option \<Rightarrow> 'a sostate_scheme \<Rightarrow> addr option" where
  "app_glue_get_glueing_block so s = (case so of None \<Rightarrow> None | Some so \<Rightarrow> glueing_block (sockets s so))"

definition app_glue_get_socket_type :: "addr \<Rightarrow> 'a sostate_scheme \<Rightarrow> int" where
  "app_glue_get_socket_type so s = so_type (sockets s so)"

definition app_glue_get_sock_snd_buf_space :: "addr \<Rightarrow> 'a sostate_scheme \<Rightarrow> int" where
  "app_glue_get_sock_snd_buf_space so s = int32 (sbspace (so_snd (sockets s so)))"

section \<open>Queues of ready sockets\<close>

definition app_glue_init :: "'a sostate_scheme \<Rightarrow> 'a sostate_scheme" where
  "app_glue_init s = s\<lparr> read_ready_socket_list_head := [], write_ready_socket_list_head := [],
     accept_ready_socket_list_head := [], closed_socket_list_head := [] \<rparr>"

partial_function (option) process_closed ::
  "(addr option \<Rightarrow> 'a sostate_scheme \<Rightarrow> 'a sostate_scheme option) \<Rightarrow> 'a sostate_scheme \<Rightarrow> 'a sostate_scheme option" where
  "process_closed on_closure s =
     (case closed_socket_list_head s of
        [] \<Rightarrow> Some s
      | so # _ \<Rightarrow> do {
          s \<leftarrow> on_closure (app_glue_get_glueing_block (Some so) s) s;
          let s = upd_so so (\<lambda>k. k\<lparr> closed_queue_present := False \<rparr>) s;
          process_closed on_closure (s\<lparr> closed_socket_list_head := remove1 so (closed_socket_list_head s) \<rparr>)
        })"

partial_function (option) process_accept ::
  "(addr \<Rightarrow> 'a sostate_scheme \<Rightarrow> 'a sostate_scheme option) \<Rightarrow> 'a sostate_scheme \<Rightarrow> 'a sostate_scheme option" where
  "process_accept on_accept s =
     (case accept_ready_socket_list_head s of
        [] \<Rightarrow> Some s
      | so # _ \<Rightarrow> do {
          s \<leftarrow> on_accept so s;
          let s = upd_so so (\<lambda>k. k\<lparr> accept_queue_present := False \<rparr>) s;
          process_accept on_accept (s\<lparr> accept_ready_socket_list_head := remove1 so (accept_ready_socket_list_head s) \<rparr>)
        })"

text \<open>The counter \<^term>\<open>n\<close> is what is left of the limit that was read at the start.\<close>

fun process_read ::
  "(addr \<Rightarrow> addr option \<Rightarrow> 'a sostate_scheme \<Rightarrow> 'a sostate_scheme option) \<Rightarrow> nat \<Rightarrow> 'a sostate_scheme \<Rightarrow> 'a sostate_scheme option" where
  "process_read on_data 0 s = Some s"
| "process_read on_data (Suc n) s =
     (case read_ready_socket_list_head s of
        [] \<Rightarrow> Some s
      | so # rest \<Rightarrow> do {
          let s = upd_so so (\<lambda>k. k\<lparr> read_queue_present := False \<rparr>) s;
          let s = s\<lparr> read_ready_socket_list_head := rest \<rparr>;
          s \<leftarrow> on_data so (glueing_block (sockets s so)) s;
          process_read on_data n (s\<lparr> read_sockets_queue_len := read_sockets_queue_len s - 1 \<rparr>)
        })"

definition process_rx_ready_sockets ::
  "(addr option \<Rightarrow> 'a sostate_scheme \<Rightarrow> 'a sostate_scheme option) \<Rightarrow> (addr \<Rightarrow> 'a sostate_scheme \<Rightarrow> 'a sostate_scheme option) \<Rightarrow>
   (addr \<Rightarrow> addr option \<Rightarrow> 'a sostate_scheme \<Rightarrow> 'a sostate_scheme option) \<Rightarrow> 'a sostate_scheme \<Rightarrow> 'a sostate_scheme option" where
  "process_rx_ready_sockets on_closure on_accept on_data s = do {
     s \<leftarrow> process_closed on_closure s;
     s \<leftarrow> process_accept on_accept s;
     process_read on_data (unat (read_sockets_queue_len s)) s
   }"

fun process_write ::
  "(addr \<Rightarrow> addr option \<Rightarrow> 'a sostate_scheme \<Rightarrow> 'a sostate_scheme option) \<Rightarrow> nat \<Rightarrow> 'a sostate_scheme \<Rightarrow> 'a sostate_scheme option" where
  "process_write on_tx 0 s = Some s"
| "process_write on_tx (Suc n) s =
     (case write_ready_socket_list_head s of
        [] \<Rightarrow> Some s
      | so # rest \<Rightarrow> do {
          let s = s\<lparr> write_ready_socket_list_head := rest \<rparr>;
          let s = upd_so so (\<lambda>k. k\<lparr> write_queue_present := False \<rparr>) s;
          s \<leftarrow> on_tx so (glueing_block (sockets s so)) s;
          process_write on_tx n (s\<lparr> write_sockets_queue_len := write_sockets_queue_len s - 1 \<rparr>)
        })"

definition process_tx_ready_sockets ::
  "(addr \<Rightarrow> addr option \<Rightarrow> 'a sostate_scheme \<Rightarrow> 'a sostate_scheme option) \<Rightarrow> 'a sostate_scheme \<Rightarrow> 'a sostate_scheme option" where
  "process_tx_ready_sockets on_tx s = process_write on_tx (unat (write_sockets_queue_len s)) s"

text \<open>Waiters for transmit buffers.\<close>

definition app_glue_process_tx_empty ::
  "(addr option \<Rightarrow> int \<Rightarrow> 'a sostate_scheme \<Rightarrow> 'a sostate_scheme option) \<Rightarrow> addr option \<Rightarrow> 'a sostate_scheme \<Rightarrow> 'a sostate_scheme option" where
  "app_glue_process_tx_empty set_tx_space so s =
     (case so of
        None \<Rightarrow> Some s
      | Some so \<Rightarrow>
          if buffers_available_notification_queue_present (sockets s so) then Some s
          else let s = s\<lparr> buffers_available_notification_socket_list_head :=
                            buffers_available_notification_socket_list_head s @ [so] \<rparr>;
                   s = upd_so so (\<lambda>k. k\<lparr> buffers_available_notification_queue_present := True \<rparr>) s
               in if app_glue_get_socket_type so s = SOCK_DGRAM
                  then set_tx_space (app_glue_get_glueing_block (Some so) s) (int32 (sbspace (so_snd (sockets s so)))) s
                  else Some s)"

definition app_glue_is_buffers_available_waiters_empty :: "'a sostate_scheme \<Rightarrow> bool" where
  "app_glue_is_buffers_available_waiters_empty s \<longleftrightarrow> buffers_available_notification_socket_list_head s = []"

definition app_glue_get_first_buffers_available_waiter :: "'a sostate_scheme \<Rightarrow> addr option option" where
  "app_glue_get_first_buffers_available_waiter s =
     (case buffers_available_notification_socket_list_head s of [] \<Rightarrow> None | so # _ \<Rightarrow> Some (glueing_block (sockets s so)))"

definition app_glue_remove_first_buffer_available_waiter :: "addr \<Rightarrow> 'a sostate_scheme \<Rightarrow> 'a sostate_scheme" where
  "app_glue_remove_first_buffer_available_waiter so s =
     (upd_so so (\<lambda>k. k\<lparr> buffers_available_notification_queue_present := False \<rparr>) s)
       \<lparr> buffers_available_notification_socket_list_head := remove1 so (buffers_available_notification_socket_list_head s) \<rparr>"

section \<open>Accepting and closing\<close>

text \<open>The pending connections of a listening socket, with the notification as an argument.\<close>

partial_function (option) user_on_accept ::
  "'a sostate_scheme so_calls \<Rightarrow> (addr \<Rightarrow> addr option \<Rightarrow> 'a sostate_scheme \<Rightarrow> 'a sostate_scheme option) \<Rightarrow> addr \<Rightarrow>
   'a sostate_scheme \<Rightarrow> 'a sostate_scheme option" where
  "user_on_accept cl notify so s =
     (if so_qlen (sockets s so) = 0 then Some s
      else do {
        so2 \<leftarrow> (case so_q (sockets s so) of [] \<Rightarrow> None | x # _ \<Rightarrow> Some x);
        (ad, s) \<leftarrow> m_get MT_SONAME s;
        (ok, s) \<leftarrow> soqremque so2 True s;
        if \<not> ok then None
        else do {
          (_, s) \<leftarrow> soaccept cl so2 ad s;
          let s = upd_so so2 (\<lambda>k. k\<lparr> so_upcall2 := True \<rparr>) s;
          s \<leftarrow> notify so2 (app_glue_get_glueing_block (Some so) s) s;
          s \<leftarrow> m_freem ad s;
          user_on_accept cl notify so s
        }
      })"

partial_function (option) close_accepted :: "'a sostate_scheme so_calls \<Rightarrow> addr \<Rightarrow> 'a sostate_scheme \<Rightarrow> 'a sostate_scheme option" where
  "close_accepted cl so s =
     (if so_qlen (sockets s so) = 0 then Some s
      else do {
        so2 \<leftarrow> (case so_q (sockets s so) of [] \<Rightarrow> None | x # _ \<Rightarrow> Some x);
        (ad, s) \<leftarrow> m_get MT_SONAME s;
        (ok, s) \<leftarrow> soqremque so2 True s;
        if \<not> ok then Some s
        else do {
          (_, s) \<leftarrow> soaccept cl so2 ad s;
          s \<leftarrow> m_freem ad s;
          close_accepted cl so s
        }
      })"

definition app_glue_close_socket :: "'a sostate_scheme so_calls \<Rightarrow> addr \<Rightarrow> 'a sostate_scheme \<Rightarrow> 'a sostate_scheme option" where
  "app_glue_close_socket cl so s = do {
     let s = (if read_queue_present (sockets s so)
       then upd_so so (\<lambda>k. k\<lparr> read_queue_present := False \<rparr>)
              (s\<lparr> read_ready_socket_list_head := remove1 so (read_ready_socket_list_head s) \<rparr>) else s);
     let s = (if write_queue_present (sockets s so)
       then upd_so so (\<lambda>k. k\<lparr> write_queue_present := False \<rparr>)
              (s\<lparr> write_ready_socket_list_head := remove1 so (write_ready_socket_list_head s) \<rparr>) else s);
     s \<leftarrow> (if accept_queue_present (sockets s so)
       then do {
         s \<leftarrow> close_accepted cl so s;
         Some (upd_so so (\<lambda>k. k\<lparr> accept_queue_present := False \<rparr>)
              (s\<lparr> accept_ready_socket_list_head := remove1 so (accept_ready_socket_list_head s) \<rparr>))
       } else Some s);
     let s = (if closed_queue_present (sockets s so)
       then upd_so so (\<lambda>k. k\<lparr> closed_queue_present := False \<rparr>)
              (s\<lparr> closed_socket_list_head := remove1 so (closed_socket_list_head s) \<rparr>) else s);
     (_, s) \<leftarrow> soclose cl so s;
     Some s
   }"

section \<open>Sending and receiving\<close>

definition app_glue_send ::
  "'a glstate_scheme so_calls \<Rightarrow> addr \<Rightarrow> addr \<Rightarrow> int \<Rightarrow> addr \<Rightarrow> 'a glstate_scheme \<Rightarrow> (int \<times> 'a glstate_scheme) option" where
  "app_glue_send cl so data len desc s =
     (case m_devget data len 0 0 desc s of
        (None, s) \<Rightarrow> Some (-1, s)
      | (Some m0, s) \<Rightarrow> do {
          (rc, s) \<leftarrow> sosend cl so None m0 None 0 s;
          Some (rc, if rc = 0 then s\<lparr> mbufs_allocated_for_tx := mbufs_allocated_for_tx s + 1 \<rparr> else s)
        })"

text \<open>The address of the destination stands in front of the data.\<close>

definition app_glue_sendto ::
  "'a glstate_scheme so_calls \<Rightarrow> addr \<Rightarrow> addr \<Rightarrow> int \<Rightarrow> addr \<Rightarrow> 'a glstate_scheme \<Rightarrow> (int \<times> 'a glstate_scheme) option" where
  "app_glue_sendto cl so data len desc s = do {
     (ad, s) \<leftarrow> m_get MT_SONAME s;
     case ad of
       None \<Rightarrow> Some (0, s)
     | Some ad \<Rightarrow> do {
         let s = upd_m ad (\<lambda>b. b\<lparr> m_len := 16 \<rparr>) s;
         let s = memcpy (mtod (mbufs s ad)) (data - 16) 16 s;
         case m_devget data len 0 0 desc s of
           (None, s) \<Rightarrow> do { s \<leftarrow> m_freem (Some ad) s; Some (-1, s) }
         | (Some m0, s) \<Rightarrow> do {
             let s = s\<lparr> mbufs_allocated_for_tx := mbufs_allocated_for_tx s + 1 \<rparr>;
             (rc, s) \<leftarrow> sosend cl so (Some ad) m0 None 0 s;
             s \<leftarrow> m_freem (Some ad) s;
             Some (rc, s)
           }
       }
   }"

definition app_glue_receive ::
  "'a glstate_scheme so_calls \<Rightarrow> addr \<Rightarrow> 'a glstate_scheme \<Rightarrow> (int \<times> addr option \<times> 'a glstate_scheme) option" where
  "app_glue_receive cl so s = do {
     (rc, _, mp0, s) \<leftarrow> soreceive cl so False 0 s;
     if rc \<noteq> 0 then Some (rc, None, s)
     else do {
       m \<leftarrow> mp0;
       let buf = m_paddr (mbufs s m);
       let s = upd_m m (\<lambda>b. b\<lparr> m_paddr := None \<rparr>) s;
       let s = s\<lparr> mbufs_freed_for_rx := mbufs_freed_for_rx s + 1 \<rparr>;
       Some (rc, buf, snd (m_free m s))
     }
   }"

definition app_glue_receivefrom ::
  "'a glstate_scheme so_calls \<Rightarrow> addr \<Rightarrow> 'a glstate_scheme \<Rightarrow> (int \<times> addr option \<times> 'a glstate_scheme) option" where
  "app_glue_receivefrom cl so s = do {
     (rc, paddr, mp0, s) \<leftarrow> soreceive cl so True 0 s;
     if rc \<noteq> 0 then Some (rc, None, s)
     else do {
       m \<leftarrow> mp0;
       let buf = m_paddr (mbufs s m);
       let p = mtod (mbufs s m);
       let s = upd_m m (\<lambda>b. b\<lparr> m_paddr := None \<rparr>) s;
       ad \<leftarrow> paddr;
       let s = memcpy (p - 16) (mtod (mbufs s ad)) 16 s;
       let s = s\<lparr> mbufs_freed_for_rx := mbufs_freed_for_rx s + 1 \<rparr>;
       s \<leftarrow> m_freem (Some m) s;
       s \<leftarrow> m_freem (Some ad) s;
       Some (rc, buf, s)
     }
   }"

end
