(* ===== verification/Conn_Queues.thy ===== *)
theory Conn_Queues
  imports App_Glue
begin

unbundle bit_operations_syntax

text \<open>
  The queues of a listening socket: the connections that are being set up (\<^verbatim>\<open>so_q0\<close>) and those that
  wait to be accepted (\<^verbatim>\<open>so_q\<close>).  The invariant of the queues, their counters and the back
  pointers, its preservation by the operations of \<^verbatim>\<open>uipc_socket2.c\<close>, and the way of a
  connection from one queue to the other.
\<close>

section \<open>Invariant\<close>

text \<open>What the queues look at in a socket.\<close>

definition conn_view :: "socket \<Rightarrow> addr list \<times> addr list \<times> int \<times> int \<times> (addr \<times> bool) option \<times> addr option" where
  "conn_view k = (so_q0 k, so_q k, so_q0len k, so_qlen k, so_onq k, so_head k)"

definition conn_same :: "'a sostate_scheme \<Rightarrow> 'a sostate_scheme \<Rightarrow> bool" where
  "conn_same s t \<longleftrightarrow> (\<forall>a. conn_view (sockets t a) = conn_view (sockets s a)) \<and> socket_cache t = socket_cache s"

lemma conn_same_refl [simp]: "conn_same s s"
  by (simp add: conn_same_def)

lemma conn_same_trans: "conn_same s t \<Longrightarrow> conn_same t u \<Longrightarrow> conn_same s u"
  by (simp add: conn_same_def)

lemma conn_sameD:
  assumes "conn_same s t"
  shows "so_q0 (sockets t a) = so_q0 (sockets s a)" "so_q (sockets t a) = so_q (sockets s a)"
    "so_q0len (sockets t a) = so_q0len (sockets s a)" "so_qlen (sockets t a) = so_qlen (sockets s a)"
    "so_onq (sockets t a) = so_onq (sockets s a)" "so_head (sockets t a) = so_head (sockets s a)"
    "socket_cache t = socket_cache s"
  using assms by (auto simp: conn_same_def conn_view_def)

definition conn_ok :: "'a sostate_scheme \<Rightarrow> bool" where
  "conn_ok s \<longleftrightarrow>
     (\<forall>h. distinct (so_q0 (sockets s h)) \<and> distinct (so_q (sockets s h)) \<and>
          so_q0len (sockets s h) = int (length (so_q0 (sockets s h))) \<and> so_qlen (sockets s h) = int (length (so_q (sockets s h)))) \<and>
     (\<forall>h a. (a \<in> set (so_q0 (sockets s h)) \<longleftrightarrow> so_onq (sockets s a) = Some (h, False)) \<and>
            (a \<in> set (so_q (sockets s h)) \<longleftrightarrow> so_onq (sockets s a) = Some (h, True))) \<and>
     (\<forall>a h q. so_onq (sockets s a) = Some (h, q) \<longrightarrow> so_head (sockets s a) = Some h \<and> a \<noteq> h)"

text \<open>\<^term>\<open>S\<close> are all sockets and \<^term>\<open>live\<close> those in use.  The pool holds the others, once each, and they
  belong to no queue.\<close>

definition conn_inv :: "addr set \<Rightarrow> addr set \<Rightarrow> 'a sostate_scheme \<Rightarrow> bool" where
  "conn_inv S live s \<longleftrightarrow> conn_ok s \<and> finite S \<and> live \<subseteq> S \<and> pool_inv (socket_cache s) \<and>
     pool_objs (socket_cache s) = mset_set (S - live) \<and> card S \<le> pool_cap (socket_cache s) \<and>
     (\<forall>a\<in>S - live. so_onq (sockets s a) = None \<and> so_q0 (sockets s a) = [] \<and> so_q (sockets s a) = [])"

lemma conn_ok_same: "conn_same s t \<Longrightarrow> conn_ok s \<Longrightarrow> conn_ok t"
  by (simp add: conn_ok_def conn_sameD)

lemma conn_inv_same: "conn_same s t \<Longrightarrow> conn_inv S live s \<Longrightarrow> conn_inv S live t"
  using conn_ok_same [of s t] by (auto simp: conn_inv_def conn_sameD)

lemma conn_ok_onq:
  assumes "conn_ok s" "so_onq (sockets s a) = Some (h, q)"
  shows "so_head (sockets s a) = Some h" "a \<noteq> h" "a \<in> set (if q then so_q (sockets s h) else so_q0 (sockets s h))"
  using assms unfolding conn_ok_def by (blast, blast, cases q, simp_all)

lemma conn_inv_free:
  assumes "conn_inv S live s" "a \<in> S - live"
  shows "so_onq (sockets s a) = None" "so_q0 (sockets s a) = []" "so_q (sockets s a) = []"
  using assms by (simp_all add: conn_inv_def)

section \<open>Operations that leave the queues alone\<close>

lemma sockets_upd_so [simp]: "sockets (upd_so a f s) = (sockets s)(a := f (sockets s a))"
  "socket_cache (upd_so a f s) = socket_cache s" "t_state (upd_so a f s) = t_state s" "protosws (upd_so a f s) = protosws s"
  "read_ready_socket_list_head (upd_so a f s) = read_ready_socket_list_head s"
  "write_ready_socket_list_head (upd_so a f s) = write_ready_socket_list_head s"
  "accept_ready_socket_list_head (upd_so a f s) = accept_ready_socket_list_head s"
  "closed_socket_list_head (upd_so a f s) = closed_socket_list_head s"
  "buffers_available_notification_socket_list_head (upd_so a f s) = buffers_available_notification_socket_list_head s"
  by (simp_all add: upd_so_def)

lemma length_remove1_int: "x \<in> set xs \<Longrightarrow> int (length (remove1 x xs)) = int (length xs) - 1"
  by (induction xs) auto

lemma conn_same_upd:
  "(\<And>k. conn_view (f k) = conn_view k) \<Longrightarrow> conn_same s (upd_so a f s)"
  by (simp add: conn_same_def upd_so_def)

lemma conn_same_set_state [simp]: "conn_same s (set_state c f a s)"
  by (simp add: set_state_def conn_same_upd conn_view_def)

lemma conn_same_lists [simp]:
  "conn_same s (t\<lparr> closed_socket_list_head := xs \<rparr>) = conn_same s t"
  "conn_same s (t\<lparr> accept_ready_socket_list_head := xs \<rparr>) = conn_same s t"
  "conn_same s (t\<lparr> read_ready_socket_list_head := xs \<rparr>) = conn_same s t"
  "conn_same s (t\<lparr> write_ready_socket_list_head := xs \<rparr>) = conn_same s t"
  "conn_same s (t\<lparr> read_sockets_queue_len := n \<rparr>) = conn_same s t"
  "conn_same s (t\<lparr> write_sockets_queue_len := n \<rparr>) = conn_same s t"
  by (simp_all add: conn_same_def)

lemma conn_same_closed: "conn_same s (queue_closed so s)"
  by (simp add: queue_closed_def conn_same_upd conn_view_def)

lemma conn_same_readable: "conn_same s (app_glue_sock_readable so s)"
  by (simp add: app_glue_sock_readable_def Let_def conn_same_closed conn_same_upd conn_view_def)

lemma conn_same_writable: "conn_same s (app_glue_sock_write_space so s)"
  by (simp add: app_glue_sock_write_space_def Let_def conn_same_closed conn_same_upd conn_view_def)

lemma conn_same_upcall: "conn_same s (app_glue_so_upcall2 so s)"
  using conn_same_trans [OF conn_same_readable conn_same_writable] by (simp add: app_glue_so_upcall2_def)

lemma conn_same_sowakeup: "sowakeup so sb s = Some t \<Longrightarrow> conn_same s t"
  using conn_same_upcall by (auto simp: sowakeup_def Let_def split: if_splits)

lemma conn_same_wakeups:
  "sorwakeup so s = Some t \<Longrightarrow> conn_same s t" "sowwakeup so s = Some t \<Longrightarrow> conn_same s t"
  using conn_same_sowakeup by (auto simp: sorwakeup_def sowwakeup_def split: if_splits)

section \<open>Insertion and removal\<close>

lemma soqinsque_view:
  assumes "so \<noteq> head"
  shows "sockets (soqinsque head so q s) =
      (sockets s)(so := (sockets s so)\<lparr> so_head := Some head, so_onq := Some (head, q) \<rparr>,
        head := (if q then (sockets s head)\<lparr> so_q := so_q (sockets s head) @ [so], so_qlen := so_qlen (sockets s head) + 1 \<rparr>
                 else (sockets s head)\<lparr> so_q0 := so_q0 (sockets s head) @ [so], so_q0len := so_q0len (sockets s head) + 1 \<rparr>))"
    (is "_ = ?S")
    and "socket_cache (soqinsque head so q s) = socket_cache s"
proof -
  show "socket_cache (soqinsque head so q s) = socket_cache s" by (simp add: soqinsque_def Let_def)
  have "sockets (soqinsque head so q s) a = ?S a" for a
    using assms by (cases "a = so"; cases "a = head"; cases q; simp add: soqinsque_def Let_def)
  then show "sockets (soqinsque head so q s) = ?S" by (rule ext)
qed

lemma soqinsque_ok:
  assumes "conn_ok s" "so \<noteq> head" "so_onq (sockets s so) = None"
  shows "conn_ok (soqinsque head so q s)"
proof -
  have not: "so \<notin> set (so_q0 (sockets s h))" "so \<notin> set (so_q (sockets s h))" for h
    using assms by (auto simp: conn_ok_def)
  show ?thesis
    using assms not unfolding conn_ok_def soqinsque_view [OF assms(2)] by (cases q) (auto simp: fun_upd_def)
qed

lemma soqremque_cases:
  assumes "soqremque so q s = Some (ok, t)"
  obtains head where "so_head (sockets s so) = Some head" "so_onq (sockets s so) \<noteq> Some (head, q)" "\<not> ok" "t = s"
  | head where "so_head (sockets s so) = Some head" "so_onq (sockets s so) = Some (head, q)" "ok"
      "t = upd_so so (\<lambda>k. k\<lparr> so_onq := None, so_head := None \<rparr>)
         (if q then upd_so head (\<lambda>h. h\<lparr> so_qlen := so_qlen h - 1, so_q := remove1 so (so_q h) \<rparr>) s
          else upd_so head (\<lambda>h. h\<lparr> so_q0len := so_q0len h - 1, so_q0 := remove1 so (so_q0 h) \<rparr>) s)"
  using assms by (auto simp: soqremque_def Let_def bind_eq_Some_conv split: if_splits)

lemma soqremque_ok:
  assumes ok: "conn_ok s" and rem: "soqremque so q s = Some (r, t)"
  shows "conn_ok t" "r \<Longrightarrow> so_onq (sockets t so) = None" "socket_cache t = socket_cache s"
    "a \<noteq> so \<Longrightarrow> so_onq (sockets t a) = so_onq (sockets s a)"
    "set (so_q0 (sockets t a)) \<subseteq> set (so_q0 (sockets s a))" "set (so_q (sockets t a)) \<subseteq> set (so_q (sockets s a))"
proof -
  have *: "conn_ok t \<and> (r \<longrightarrow> so_onq (sockets t so) = None) \<and> socket_cache t = socket_cache s \<and>
    (a \<noteq> so \<longrightarrow> so_onq (sockets t a) = so_onq (sockets s a)) \<and>
    set (so_q0 (sockets t a)) \<subseteq> set (so_q0 (sockets s a)) \<and> set (so_q (sockets t a)) \<subseteq> set (so_q (sockets s a))"
    using rem
  proof (cases rule: soqremque_cases)
    case (2 head)
    have "so \<in> set (if q then so_q (sockets s head) else so_q0 (sockets s head))"
      using ok 2(2) by (auto simp: conn_ok_def)
    then have pos: "int (length (remove1 so (if q then so_q (sockets s head) else so_q0 (sockets s head)))) =
        int (length (if q then so_q (sockets s head) else so_q0 (sockets s head))) - 1"
      by (rule length_remove1_int)
    have "conn_ok t"
      using ok pos 2(2) unfolding conn_ok_def 2(4) by (cases q) (auto simp: set_remove1_eq fun_upd_def split: if_splits)
    then show ?thesis using 2 set_remove1_subset [of so] by (auto simp: fun_upd_def)
  qed (use ok in auto)
  from * show "conn_ok t" "r \<Longrightarrow> so_onq (sockets t so) = None" "socket_cache t = socket_cache s"
    "a \<noteq> so \<Longrightarrow> so_onq (sockets t a) = so_onq (sockets s a)"
    "set (so_q0 (sockets t a)) \<subseteq> set (so_q0 (sockets s a))" "set (so_q (sockets t a)) \<subseteq> set (so_q (sockets s a))"
    by auto
qed

section \<open>New connections\<close>

text \<open>A socket from the pool is fresh, and one that is on no queue can go back.\<close>

lemma conn_ok_fresh:
  assumes ok: "conn_ok s" and old: "so_onq (sockets s so) = None" "so_q0 (sockets s so) = []" "so_q (sockets s so) = []"
    and new: "so_onq (sockets t so) = None" "so_q0 (sockets t so) = []" "so_q (sockets t so) = []"
      "so_q0len (sockets t so) = 0" "so_qlen (sockets t so) = 0" and rest: "\<And>a. a \<noteq> so \<Longrightarrow> sockets t a = sockets s a"
  shows "conn_ok t"
proof -
  have "so_q0len (sockets s so) = 0" "so_qlen (sockets s so) = 0" using ok old by (simp_all add: conn_ok_def)
  then have eq: "so_q0 (sockets t a) = so_q0 (sockets s a)" "so_q (sockets t a) = so_q (sockets s a)"
    "so_q0len (sockets t a) = so_q0len (sockets s a)" "so_qlen (sockets t a) = so_qlen (sockets s a)"
    "so_onq (sockets t a) = so_onq (sockets s a)" for a
    using old new rest by (cases "a = so"; simp)+
  have "so_head (sockets t a) = Some h \<and> a \<noteq> h" if "so_onq (sockets s a) = Some (h, q)" for a h q
    using that ok old rest [of a] by (cases "a = so") (auto simp: conn_ok_def)
  then show ?thesis using ok by (auto simp: conn_ok_def eq)
qed

lemma soget_inv:
  assumes inv: "conn_inv S live s" and get: "soget s = (Some so, t)"
  shows "conn_inv S (insert so live) t" "so \<in> S - live" "so_onq (sockets t so) = None"
    "so_q0 (sockets t so) = []" "so_q (sockets t so) = []" "sb_mbcnt (so_snd (sockets t so)) = 0"
proof -
  obtain x c where get': "pool_cache_get (rlcore s) (socket_cache s) = (x, c)" by fastforce
  then have x: "x = Some so" and c: "socket_cache t = c" and t: "\<And>a. a \<noteq> so \<Longrightarrow> sockets t a = sockets s a"
    and new: "so_onq (sockets t so) = None" "so_q0 (sockets t so) = []" "so_q (sockets t so) = []"
      "so_q0len (sockets t so) = 0" "so_qlen (sockets t so) = 0" "so_head (sockets t so) = None"
      "sb_mbcnt (so_snd (sockets t so)) = 0"
    using get by (auto simp: soget_def Let_def empty_sockbuf_def split: option.splits)
  have objs: "pool_objs (socket_cache s) = mset_set (S - live)" and fin: "finite (S - live)" and cap: "card S \<le> pool_cap (socket_cache s)"
    and ok: "conn_ok s" and free: "\<forall>a\<in>S - live. so_onq (sockets s a) = None \<and> so_q0 (sockets s a) = [] \<and> so_q (sockets s a) = []"
    using inv by (auto simp: conn_inv_def)
  have spec: "pool_inv c" "pool_cap c = pool_cap (socket_cache s)" "pool_objs (socket_cache s) = add_mset so (pool_objs c)"
    using pool_cache_get_spec [OF _ get'] inv x by (auto simp: conn_inv_def)
  then have mem: "so \<in># mset_set (S - live)" using objs by simp
  then show so: "so \<in> S - live" using fin by simp
  have "S - live = insert so (S - insert so live)" using so by auto
  then have "mset_set (S - live) = add_mset so (mset_set (S - insert so live))"
    using fin by (metis DiffE finite_insert insertI1 mset_set.insert)
  then have "pool_objs c = mset_set (S - insert so live)" using spec(3) objs by simp
  moreover have "conn_ok t" by (rule conn_ok_fresh [OF ok, of so]) (use free so new t in auto)
  ultimately show "conn_inv S (insert so live) t"
    using inv so spec cap c free t by (auto simp: conn_inv_def)
  show "so_onq (sockets t so) = None" "so_q0 (sockets t so) = []" "so_q (sockets t so) = []" "sb_mbcnt (so_snd (sockets t so)) = 0"
    using new by simp_all
qed

lemma soput_inv:
  assumes inv: "conn_inv S live s" and so: "so \<in> live" "so_onq (sockets s so) = None" "so_q0 (sockets s so) = []" "so_q (sockets s so) = []"
  shows "conn_inv S (live - {so}) (soput so s)"
proof -
  have fin: "finite S" "live \<subseteq> S" and objs: "pool_objs (socket_cache s) = mset_set (S - live)"
    and cap: "card S \<le> pool_cap (socket_cache s)" and pool: "pool_inv (socket_cache s)"
    using inv by (auto simp: conn_inv_def)
  have "card (S - live) < card S" using fin so(1) by (intro psubset_card_mono) auto
  then have room: "size (pool_objs (socket_cache s)) < pool_cap (socket_cache s)" using objs cap by simp
  have "S - (live - {so}) = insert so (S - live)" using fin so(1) by auto
  moreover have "so \<notin> S - live" using so(1) by simp
  ultimately show ?thesis
    using inv so pool_cache_put_spec [OF pool room, of "rlcore s" so] objs fin
    by (auto simp: conn_inv_def soput_def conn_ok_def)
qed

lemma soqinsque_inv:
  assumes "conn_inv S live s" "so \<noteq> head" "so \<notin> S - live" "head \<notin> S - live" "so_onq (sockets s so) = None"
  shows "conn_inv S live (soqinsque head so q s)" "so_onq (sockets (soqinsque head so q s) so) = Some (head, q)"
    "so_head (sockets (soqinsque head so q s) so) = Some head"
    "so_q0 (sockets (soqinsque head so q s) so) = so_q0 (sockets s so)" "so_q (sockets (soqinsque head so q s) so) = so_q (sockets s so)"
proof -
  have "conn_ok (soqinsque head so q s)" using assms by (intro soqinsque_ok) (auto simp: conn_inv_def)
  then show "conn_inv S live (soqinsque head so q s)"
    using assms by (auto simp: conn_inv_def soqinsque_view [OF assms(2)])
qed (use assms in \<open>simp_all add: soqinsque_view [OF assms(2)]\<close>)

lemma soqremque_inv:
  assumes inv: "conn_inv S live s" and rem: "soqremque so q s = Some (r, t)"
  shows "conn_inv S live t"
proof -
  have ok: "conn_ok s" using inv by (simp add: conn_inv_def)
  have "so_onq (sockets t a) = None \<and> so_q0 (sockets t a) = [] \<and> so_q (sockets t a) = []" if a: "a \<in> S - live" for a
  proof -
    have old: "so_onq (sockets s a) = None" "so_q0 (sockets s a) = []" "so_q (sockets s a) = []"
      using a inv by (auto simp: conn_inv_def)
    have "so_onq (sockets t a) = None"
      using rem by (cases rule: soqremque_cases) (use old in auto)
    then show ?thesis using soqremque_ok(5,6) [OF ok rem, of a] old by auto
  qed
  then show ?thesis using soqremque_ok(1,3) [OF ok rem] inv by (simp add: conn_inv_def)
qed

lemma soreserve_same:
  assumes "soreserve cl so sndcc rcvcc s = Some (e, t)" "sb_mbcnt (so_snd (sockets s so)) = 0"
  shows "conn_same s t"
proof -
  have cnt: "sb_mbcnt (snd (sbreserve sb cc s)) = sb_mbcnt sb" for sb cc
    by (simp add: sbreserve_def Let_def)
  have flush: "sbrelease f (sb, u) = Some (sb\<lparr> sb_mbmax := 0 \<rparr>, u)" if "sb_mbcnt sb = 0" for f sb and u :: "'a sostate_scheme"
    using that by (simp add: sbrelease_def sbflush.simps)
  obtain ok1 sb1 where r1: "sbreserve (so_snd (sockets s so)) (if sndcc < 4608 then 4608 else sndcc) s = (ok1, sb1)" by fastforce
  show ?thesis
    using assms r1 cnt [of "so_snd (sockets s so)" "if sndcc < 4608 then 4608 else sndcc"]
    by (auto simp: soreserve_def Let_def flush split: if_splits prod.splits
        intro!: conn_same_trans [OF _ conn_same_upd] conn_same_upd simp: conn_view_def)
qed

text \<open>Attaching a new socket to its protocol does not touch the queues of sockets.\<close>

definition attach_keeps_queues :: "'a sostate_scheme so_calls \<Rightarrow> bool" where
  "attach_keeps_queues cl \<longleftrightarrow>
     (\<forall>so m nam ctl s e t. pr_usrreq cl so PRU_ATTACH m nam ctl s = Some (e, t) \<longrightarrow> conn_same s t)"

text \<open>The part of \<^verbatim>\<open>sonewconn\<close> after the reservation.\<close>

lemma newconn_attach:
  assumes inv: "conn_inv S live s" and so: "so \<in> live" "so \<noteq> head" "head \<in> live" "so_onq (sockets s so) = None"
      "so_q0 (sockets s so) = []" "so_q (sockets s so) = []"
    and cl: "attach_keeps_queues cl"
    and run: "(do {
      (error, s) \<leftarrow> pr_usrreq cl so PRU_ATTACH None None None (soqinsque head so q s);
      if error \<noteq> 0 then do { (_, s) \<leftarrow> soqremque so q s; Some (None, soput so s) }
      else if q then do { s \<leftarrow> sorwakeup head s; Some (Some so, set_state 0 st so s) } else Some (Some so, s) }) = Some (r, t)"
  shows "conn_inv S (if r = None then live - {so} else live) t \<and> (r = None \<or> r = Some so \<and> so_onq (sockets t so) = Some (head, q))"
proof -
  have busy: "so \<notin> S - live" "head \<notin> S - live" using so(1,3) by auto
  note ins = soqinsque_inv [OF inv so(2) busy so(4), of q]
  obtain e s1 where att: "pr_usrreq cl so PRU_ATTACH None None None (soqinsque head so q s) = Some (e, s1)"
    using run by (auto simp: bind_eq_Some_conv)
  then have same: "conn_same (soqinsque head so q s) s1" using cl by (auto simp: attach_keeps_queues_def)
  have inv1: "conn_inv S live s1" by (rule conn_inv_same [OF same ins(1)])
  show ?thesis
  proof (cases "e = 0")
    case True
    then have "r = Some so" "conn_same s1 t"
      using run att
      by (auto simp: bind_eq_Some_conv split: if_splits intro: conn_same_trans [OF conn_same_wakeups(1) conn_same_set_state])
    then show ?thesis
      using conn_inv_same [OF _ inv1, of t] conn_sameD(5) [of s1 t so] conn_sameD(5) [OF same, of so] ins(2) by simp
  next
    case False
    then obtain b s2 where rem: "soqremque so q s1 = Some (b, s2)" and r: "r = None" "t = soput so s2"
      using run att by (auto simp: bind_eq_Some_conv)
    have ok: "conn_ok s1" using inv1 by (simp add: conn_inv_def)
    have b using rem ins(2,3) conn_sameD(5,6) [OF same, of so] by (cases rule: soqremque_cases) auto
    then have onq: "so_onq (sockets s2 so) = None" using soqremque_ok(2) [OF ok rem] by simp
    have "so_q0 (sockets s2 so) = []" "so_q (sockets s2 so) = []"
      using soqremque_ok(5,6) [OF ok rem, of so] conn_sameD(1,2) [OF same, of so] ins(4,5) so(5,6) by auto
    then show ?thesis
      using soput_inv [OF soqremque_inv [OF inv1 rem] so(1) onq] r by simp
  qed
qed

lemma sonewconn_inv:
  assumes inv: "conn_inv S live s" "head \<in> live" and cl: "attach_keeps_queues cl"
    and new: "sonewconn cl head st s = Some (r, t)"
  shows "conn_inv S (case r of None \<Rightarrow> live | Some so \<Rightarrow> insert so live) t \<and>
    (\<forall>so. r = Some so \<longrightarrow> so \<notin> live \<and> (\<exists>q. so_onq (sockets t so) = Some (head, q)))"
proof (cases "so_qlen (sockets s head) + so_q0len (sockets s head) > 3 * so_qlimit (sockets s head) div 2")
  case True
  then show ?thesis using new inv by (simp add: sonewconn_def Let_def)
next
  case room: False
  obtain x s1 where get: "soget s = (x, s1)" by fastforce
  show ?thesis
  proof (cases x)
    case None
    then have "r = None" "conn_same s t"
      using new room get pool_cache_get_spec [of "socket_cache s" "rlcore s"] inv
      by (auto simp: sonewconn_def Let_def soget_def conn_same_def conn_inv_def split: prod.splits option.splits)
    then show ?thesis using conn_inv_same inv by auto
  next
    case (Some so)
    note g = soget_inv [OF inv(1) get [unfolded Some]]
    define s2 where "s2 = upd_so so (\<lambda>k. k\<lparr> so_type := so_type (sockets s1 head),
      so_options := so_options (sockets s1 head) AND NOT SO_ACCEPTCONN, so_linger := so_linger (sockets s1 head),
      so_state := so_state (sockets s1 head) OR SS_NOFDREF, so_proto := so_proto (sockets s1 head),
      so_timeo := so_timeo (sockets s1 head), glueing_block := None \<rparr>) s1"
    have s2: "conn_same s1 s2" "sb_mbcnt (so_snd (sockets s2 so)) = 0"
      using g(6) by (auto simp: s2_def conn_view_def intro: conn_same_upd)
    obtain e s3 where res: "soreserve cl so (sb_hiwat (so_snd (sockets s2 head))) (sb_hiwat (so_rcv (sockets s2 head))) s2 = Some (e, s3)"
      using new room get Some by (auto simp: sonewconn_def Let_def s2_def bind_eq_Some_conv split: if_splits)
    have same: "conn_same s1 s3" by (rule conn_same_trans [OF s2(1) soreserve_same [OF res s2(2)]])
    note inv3 = conn_inv_same [OF same g(1)]
    have so3: "so_onq (sockets s3 so) = None" "so_q0 (sockets s3 so) = []" "so_q (sockets s3 so) = []" "so \<noteq> head" "so \<notin> live"
      using conn_sameD(1,2,5) [OF same, of so] g inv(2) by auto
    show ?thesis
    proof (cases "e = 0")
      case False
      then have "r = None" "t = soput so s3"
        using new room get Some res by (auto simp: sonewconn_def Let_def s2_def)
      then show ?thesis using soput_inv [OF inv3, of so] so3 by simp
    next
      case True
      define c where "c = (if so_opt SO_ACCEPTFILTER head s then 0 else st)"
      define s4 where "s4 = upd_so so (\<lambda>k. k\<lparr>
                      so_snd := (so_snd k)\<lparr> sb_lowat := sb_lowat (so_snd (sockets s3 head)), sb_timeo := sb_timeo (so_snd (sockets s3 head)),
                        sb_flags := sb_flags (so_snd k) OR (sb_flags (so_snd (sockets s3 head)) AND (SB_AUTOSIZE OR SB_ASYNC)) \<rparr>,
                      so_rcv := (so_rcv k)\<lparr> sb_lowat := sb_lowat (so_rcv (sockets s3 head)), sb_timeo := sb_timeo (so_rcv (sockets s3 head)),
                        sb_flags := sb_flags (so_rcv k) OR (sb_flags (so_rcv (sockets s3 head)) AND (SB_AUTOSIZE OR SB_ASYNC)) \<rparr> \<rparr>) s3"
      have s4: "conn_same s3 s4" unfolding s4_def by (rule conn_same_upd) (simp add: conn_view_def)
      have "(do {
        (error, s) \<leftarrow> pr_usrreq cl so PRU_ATTACH None None None (soqinsque head so (c \<noteq> 0) s4);
        if error \<noteq> 0 then do { (_, s) \<leftarrow> soqremque so (c \<noteq> 0) s; Some (None, soput so s) }
        else if c \<noteq> 0 then do { s \<leftarrow> sorwakeup head s; Some (Some so, set_state 0 c so s) } else Some (Some so, s) }) = Some (r, t)"
        using new room get Some res True
        by (simp add: sonewconn_def Let_def s2_def [symmetric] s4_def [symmetric] c_def [symmetric] del: sockets_upd_so)
      then have "conn_inv S (if r = None then insert so live - {so} else insert so live) t \<and>
          (r = None \<or> r = Some so \<and> so_onq (sockets t so) = Some (head, c \<noteq> 0))"
        using newconn_attach [OF conn_inv_same [OF s4 inv3] _ so3(4) _ _ _ _ cl, where q = "c \<noteq> 0" and st = c and r = r and t = t]
          conn_sameD(1,2,5) [OF s4, of so] so3 inv(2) by simp
      then show ?thesis using so3(5) by (cases r) auto
    qed
  qed
qed

section \<open>From one queue to the other\<close>

lemma soisconnected_inv:
  assumes inv: "conn_inv S live s" and con: "soisconnected so s = Some t"
  shows "conn_inv S live t"
proof -
  let ?s = "set_state (SS_ISCONNECTING OR SS_ISDISCONNECTING OR SS_ISCONFIRMING) SS_ISCONNECTED so s"
  have inv1: "conn_inv S live ?s" by (rule conn_inv_same [OF conn_same_set_state inv])
  show ?thesis
  proof (cases "\<exists>h. so_head (sockets s so) = Some h \<and> so_onq (sockets ?s so) = Some (h, False)")
    case True
    then obtain h where h: "so_head (sockets s so) = Some h" "so_onq (sockets ?s so) = Some (h, False)" by blast
    then obtain b s1 where rem: "soqremque so False ?s = Some (b, s1)" and wake: "sorwakeup h (soqinsque h so True s1) = Some t"
      using con by (auto simp: soisconnected_def Let_def bind_eq_Some_conv split: if_splits)
    have ok: "conn_ok ?s" using inv1 by (simp add: conn_inv_def)
    have hd: "so_head (sockets ?s so) = Some h" "so \<noteq> h" using conn_ok_onq [OF ok h(2)] by simp_all
    have b using rem h(2) hd(1) by (cases rule: soqremque_cases) auto
    then have onq: "so_onq (sockets s1 so) = None" by (rule soqremque_ok(2) [OF ok rem])
    have live: "so \<notin> S - live" "h \<notin> S - live"
      using conn_inv_free(1) [OF inv1, of so] conn_inv_free(2) [OF inv1, of h] h(2) conn_ok_onq(3) [OF ok h(2), simplified]
      by (auto, metis DiffI empty_iff empty_set)
    have "conn_inv S live (soqinsque h so True s1)"
      by (rule soqinsque_inv(1) [OF soqremque_inv [OF inv1 rem] hd(2) live onq])
    then show ?thesis by (rule conn_inv_same [OF conn_same_wakeups(1) [OF wake]])
  next
    case False
    then obtain s1 where "sorwakeup so ?s = Some s1" "sowwakeup so s1 = Some t"
      using con by (cases "so_head (sockets s so)") (auto simp: soisconnected_def Let_def bind_eq_Some_conv)
    then show ?thesis using conn_inv_same [OF conn_same_trans [OF conn_same_wakeups(1) conn_same_wakeups(2)] inv1] by blast
  qed
qed

text \<open>The steps of the connections of all listening sockets: a new connection, its completion, the
  removal of a connection that is accepted or aborted, and changes of state.\<close>

inductive conn_step :: "'a sostate_scheme so_calls \<Rightarrow> addr set \<times> 'a sostate_scheme \<Rightarrow> addr set \<times> 'a sostate_scheme \<Rightarrow> bool"
  for cl where
  newconn: "conn_step cl (live, s) (case r of None \<Rightarrow> live | Some so \<Rightarrow> insert so live, t)"
    if "sonewconn cl head st s = Some (r, t)" "head \<in> live"
| connected: "conn_step cl (live, s) (live, t)" if "soisconnected so s = Some t"
| removed: "conn_step cl (live, s) (live, t)" if "soqremque so q s = Some (ok, t)"
| connecting: "conn_step cl (live, s) (live, soisconnecting so s)"
| disconnecting: "conn_step cl (live, s) (live, t)" if "soisdisconnecting so s = Some t"
| disconnected: "conn_step cl (live, s) (live, t)" if "soisdisconnected so s = Some t"
| cantsendmore: "conn_step cl (live, s) (live, t)" if "socantsendmore so s = Some t"
| cantrcvmore: "conn_step cl (live, s) (live, t)" if "socantrcvmore so s = Some t"
| released: "conn_step cl (live, s) (live - {so}, soput so s)"
    if "so \<in> live" "so_onq (sockets s so) = None" "so_q0 (sockets s so) = []" "so_q (sockets s so) = []"

lemma conn_same_states:
  "conn_same s (soisconnecting so s)" "soisdisconnecting so s = Some t \<Longrightarrow> conn_same s t"
  "soisdisconnected so s = Some t \<Longrightarrow> conn_same s t" "socantsendmore so s = Some t \<Longrightarrow> conn_same s t"
  "socantrcvmore so s = Some t \<Longrightarrow> conn_same s t"
  by (auto simp: soisconnecting_def soisdisconnecting_def soisdisconnected_def socantsendmore_def socantrcvmore_def Let_def
      bind_eq_Some_conv intro: conn_same_trans [OF conn_same_set_state conn_same_trans [OF conn_same_wakeups(2) conn_same_wakeups(1)]]
      conn_same_trans [OF conn_same_set_state conn_same_wakeups(1)] conn_same_trans [OF conn_same_set_state conn_same_wakeups(2)])

lemma conn_step_inv:
  assumes "conn_step cl x y" "attach_keeps_queues cl" "conn_inv S (fst x) (snd x)"
  shows "conn_inv S (fst y) (snd y)"
  using assms
proof cases
  case (newconn head st s r t live)
  then show ?thesis using sonewconn_inv [of S live s head cl st r t] assms(2,3) by simp
next
  case (connected so s t)
  then show ?thesis using soisconnected_inv assms(3) by auto
next
  case (removed so q s ok t)
  then show ?thesis using soqremque_inv assms(3) by auto
next
  case (released so live s)
  then show ?thesis using soput_inv assms(3) by auto
qed (use assms(3) in \<open>auto intro: conn_inv_same [OF conn_same_states(1)] conn_inv_same [OF conn_same_states(2)]
  conn_inv_same [OF conn_same_states(3)] conn_inv_same [OF conn_same_states(4)] conn_inv_same [OF conn_same_states(5)]\<close>)

text \<open>C12. The queues of all listening sockets stay consistent whatever the connections do.  Starting from
  a consistent state, after any number of new connections, completions, removals and
  changes of state: the two counters of every listening socket are the lengths of its
  queues, every queued connection is on exactly one queue once and points back to that queue,
  no connection is queued on itself, and the sockets in the pool are on no queue.\<close>

theorem connection_queues_consistent:
  assumes "conn_inv S live s" "attach_keeps_queues cl" "(conn_step cl)\<^sup>*\<^sup>* (live, s) (live', t)"
  shows "so_q0len (sockets t h) = int (length (so_q0 (sockets t h))) \<and> so_qlen (sockets t h) = int (length (so_q (sockets t h))) \<and>
    distinct (so_q0 (sockets t h) @ so_q (sockets t h)) \<and>
    (\<forall>a\<in>set (so_q0 (sockets t h)). so_onq (sockets t a) = Some (h, False) \<and> so_head (sockets t a) = Some h \<and> a \<noteq> h) \<and>
    (\<forall>a\<in>set (so_q (sockets t h)). so_onq (sockets t a) = Some (h, True) \<and> so_head (sockets t a) = Some h \<and> a \<noteq> h) \<and>
    (\<forall>a\<in>#pool_objs (socket_cache t). a \<in> S - live' \<and> so_onq (sockets t a) = None)"
proof -
  have "conn_inv S (fst y) (snd y)" if "(conn_step cl)\<^sup>*\<^sup>* (live, s) y" for y
    using that by induction (use assms(1,2) conn_step_inv in auto)
  from this [OF assms(3)] have inv: "conn_inv S live' t" by simp
  then have ok: "conn_ok t" and pool: "set_mset (pool_objs (socket_cache t)) = S - live'"
    by (auto simp: conn_inv_def)
  have "so_onq (sockets t a) = Some (h, False)" if "a \<in> set (so_q0 (sockets t h))" for a
    using that ok by (auto simp: conn_ok_def)
  then have q0: "so_onq (sockets t a) = Some (h, False) \<and> so_head (sockets t a) = Some h \<and> a \<noteq> h"
    if "a \<in> set (so_q0 (sockets t h))" for a
    using that conn_ok_onq(1,2) [OF ok] by blast
  have "so_onq (sockets t a) = Some (h, True)" if "a \<in> set (so_q (sockets t h))" for a
    using that ok by (auto simp: conn_ok_def)
  then have q: "so_onq (sockets t a) = Some (h, True) \<and> so_head (sockets t a) = Some h \<and> a \<noteq> h"
    if "a \<in> set (so_q (sockets t h))" for a
    using that conn_ok_onq(1,2) [OF ok] by blast
  have "distinct (so_q0 (sockets t h) @ so_q (sockets t h))"
    using ok q0 q by (fastforce simp: conn_ok_def)
  moreover have "so_q0len (sockets t h) = int (length (so_q0 (sockets t h)))" "so_qlen (sockets t h) = int (length (so_q (sockets t h)))"
    using ok by (simp_all add: conn_ok_def)
  ultimately show ?thesis using q0 q conn_inv_free(1) [OF inv] pool by blast
qed

lemma upcall_listen:
  assumes "so_type (sockets s h) = SOCK_STREAM" "t_state s h = Some TCPS_LISTEN" "\<not> so_is SS_ISDISCONNECTED h s"
  shows "app_glue_so_upcall2 h s =
    (if accept_queue_present (sockets s h) then s
     else (upd_so h (\<lambda>k. k\<lparr> accept_queue_present := True \<rparr>) s)
            \<lparr> accept_ready_socket_list_head := accept_ready_socket_list_head s @ [h] \<rparr>)"
  using assms by (simp add: app_glue_so_upcall2_def app_glue_sock_readable_def app_glue_sock_write_space_def Let_def so_is_def)

lemma soisconnected_pending:
  assumes inv: "conn_inv S live s" and onq: "so_onq (sockets s so) = Some (h, False)"
    and opts: "\<not> so_opt SO_ACCEPTFILTER so s" "sb_flags (so_rcv (sockets s h)) = SB_NOTIFY" "so_upcall2 (sockets s h)"
    and listen: "so_type (sockets s h) = SOCK_STREAM" "t_state s h = Some TCPS_LISTEN" "\<not> so_is SS_ISDISCONNECTED h s"
    and present: "accept_queue_present (sockets s h) \<longrightarrow> h \<in> set (accept_ready_socket_list_head s)"
  shows "\<exists>t. soisconnected so s = Some t \<and> so_is SS_ISCONNECTED so t \<and>
    so_q0 (sockets t h) = remove1 so (so_q0 (sockets s h)) \<and> so_q (sockets t h) = so_q (sockets s h) @ [so] \<and>
    h \<in> set (accept_ready_socket_list_head t)"
proof -
  let ?s = "set_state (SS_ISCONNECTING OR SS_ISDISCONNECTING OR SS_ISCONFIRMING) SS_ISCONNECTED so s"
  have ok: "conn_ok s" using inv by (simp add: conn_inv_def)
  note hd = conn_ok_onq [OF ok onq]
  define s1 where "s1 = upd_so so (\<lambda>k. k\<lparr> so_onq := None, so_head := None \<rparr>)
    (upd_so h (\<lambda>h. h\<lparr> so_q0len := so_q0len h - 1, so_q0 := remove1 so (so_q0 h) \<rparr>) ?s)"
  define s2 where "s2 = soqinsque h so True s1"
  have rem: "soqremque so False ?s = Some (True, s1)"
    using onq hd(1) by (simp add: soqremque_def set_state_def s1_def)
  have h2: "sockets s2 h = (sockets s h)\<lparr> so_q0len := so_q0len (sockets s h) - 1, so_q0 := remove1 so (so_q0 (sockets s h)),
      so_q := so_q (sockets s h) @ [so], so_qlen := so_qlen (sockets s h) + 1 \<rparr>"
    and so2: "so_state (sockets s2 so) = so_state (sockets ?s so)"
    using hd(2) by (simp_all add: s2_def soqinsque_view [OF hd(2)] s1_def set_state_def)
  have rest: "t_state s2 = t_state s" "accept_ready_socket_list_head s2 = accept_ready_socket_list_head s"
    by (simp_all add: s2_def soqinsque_def s1_def set_state_def upd_so_def Let_def)
  let ?t = "app_glue_so_upcall2 h s2"
  have up: "?t = (if accept_queue_present (sockets s h) then s2
      else (upd_so h (\<lambda>k. k\<lparr> accept_queue_present := True \<rparr>) s2)\<lparr> accept_ready_socket_list_head := accept_ready_socket_list_head s @ [h] \<rparr>)"
    using upcall_listen [of s2 h] listen h2 rest by (simp add: so_is_def)
  have "sorwakeup h s2 = Some ?t"
    using opts h2 by (simp add: sorwakeup_def sowakeup_def sb_notify_def SB_NOTIFY_def SB_ASYNC_def SB_UPCALL_def SB_KNOTE_def)
  then have "soisconnected so s = Some ?t"
    using opts(1) onq hd(1) rem by (simp add: soisconnected_def Let_def s2_def set_state_def so_opt_def)
  moreover have "so_is SS_ISCONNECTED so ?t"
    using hd(2) so2 by (auto simp: up so_is_def set_state_def SS_ISCONNECTED_def)
  moreover have "so_q0 (sockets ?t h) = remove1 so (so_q0 (sockets s h))" "so_q (sockets ?t h) = so_q (sockets s h) @ [so]"
    using h2 by (simp_all add: up)
  moreover have "h \<in> set (accept_ready_socket_list_head ?t)" using present rest by (simp add: up)
  ultimately show ?thesis by blast
qed


section \<open>Concrete states\<close>

text \<open>Connection 60 of the listening socket 50 is being set up.\<close>

definition pending_sostate :: sostate where
  "pending_sostate =
     upd_so 50 (\<lambda>k. k\<lparr> so_q0 := [60], so_q0len := 1, so_qlimit := 5, so_upcall2 := True,
         so_rcv := (so_rcv k)\<lparr> sb_flags := SB_NOTIFY \<rparr> \<rparr>)
       (upd_so 60 (\<lambda>k. k\<lparr> so_head := Some 50, so_onq := Some (50, False), so_state := SS_ISCONNECTING \<rparr>) (idle_sostate two_bufs))
     \<lparr> t_state := [50 \<mapsto> TCPS_LISTEN] \<rparr>"

lemma pending_sostate_facts:
  "conn_inv {5, 6} {} pending_sostate" "so_onq (sockets pending_sostate 60) = Some (50, False)"
  "\<not> so_opt SO_ACCEPTFILTER 60 pending_sostate" "sb_flags (so_rcv (sockets pending_sostate 50)) = SB_NOTIFY"
  "so_upcall2 (sockets pending_sostate 50)" "so_type (sockets pending_sostate 50) = SOCK_STREAM"
  "t_state pending_sostate 50 = Some TCPS_LISTEN" "\<not> so_is SS_ISDISCONNECTED 50 pending_sostate"
  "\<not> accept_queue_present (sockets pending_sostate 50)" "so_q0 (sockets pending_sostate 50) = [60]" "so_q (sockets pending_sostate 50) = []"
proof -
  note defs = pending_sostate_def idle_sostate_def idle_socket_def
  show "so_onq (sockets pending_sostate 60) = Some (50, False)"
    "\<not> so_opt SO_ACCEPTFILTER 60 pending_sostate" "sb_flags (so_rcv (sockets pending_sostate 50)) = SB_NOTIFY"
    "so_upcall2 (sockets pending_sostate 50)" "so_type (sockets pending_sostate 50) = SOCK_STREAM"
    "t_state pending_sostate 50 = Some TCPS_LISTEN" "\<not> so_is SS_ISDISCONNECTED 50 pending_sostate"
    "\<not> accept_queue_present (sockets pending_sostate 50)" "so_q0 (sockets pending_sostate 50) = [60]" "so_q (sockets pending_sostate 50) = []"
    by (simp_all add: defs so_opt_def so_is_def SS_ISCONNECTED_def SS_ISDISCONNECTED_def)
  have "conn_ok pending_sostate" by (auto simp: conn_ok_def defs)
  moreover have "socket_cache pending_sostate = small_pool" by (simp add: defs)
  ultimately show "conn_inv {5, 6} {} pending_sostate"
    by (simp add: conn_inv_def small_pool_facts) (simp add: defs)
qed


theorem connection_queues_consistent_witness:
  "\<exists>t. soisconnected 60 pending_sostate = Some t \<and> so_qlen (sockets t 50) = 1 \<and> so_q0len (sockets t 50) = 0 \<and>
     so_onq (sockets t 60) = Some (50, True)"
proof -
  obtain t where t: "soisconnected 60 pending_sostate = Some t" "so_q0 (sockets t 50) = []" "so_q (sockets t 50) = [60]"
    using soisconnected_pending [OF pending_sostate_facts(1-8)] pending_sostate_facts(9-11) by auto
  have "(conn_step silent_calls)\<^sup>*\<^sup>* ({}, pending_sostate) ({}, t)"
    using conn_step.connected [OF t(1)] by (rule r_into_rtranclp)
  moreover have "attach_keeps_queues silent_calls" by (simp add: attach_keeps_queues_def silent_calls_def)
  ultimately show ?thesis
    using connection_queues_consistent [OF pending_sostate_facts(1), of silent_calls "{}" t 50] t by auto
qed

end
