(* ===== verification/Ready_Queues.thy ===== *)
theory Ready_Queues
  imports Conn_Queues
begin

unbundle bit_operations_syntax

text \<open>
  The lists of sockets that are ready (\<^verbatim>\<open>glue/app_glue.c\<close>): the invariant that ties each list to the flags
  of its sockets, that no wake-up is lost, that a pass over a list serves everything that was on it,
  and what closing a socket does to the lists.
\<close>

section \<open>Invariant\<close>

text \<open>A list and the flag by which a socket remembers that it is on it.\<close>

definition listed :: "addr list \<Rightarrow> (socket \<Rightarrow> bool) \<Rightarrow> 'a sostate_scheme \<Rightarrow> bool" where
  "listed xs present s \<longleftrightarrow> distinct xs \<and> (\<forall>a. a \<in> set xs \<longleftrightarrow> present (sockets s a))"

definition ready_ok :: "'a sostate_scheme \<Rightarrow> bool" where
  "ready_ok s \<longleftrightarrow>
     listed (read_ready_socket_list_head s) read_queue_present s \<and>
     listed (write_ready_socket_list_head s) write_queue_present s \<and>
     listed (accept_ready_socket_list_head s) accept_queue_present s \<and>
     listed (closed_socket_list_head s) closed_queue_present s \<and>
     listed (buffers_available_notification_socket_list_head s) buffers_available_notification_queue_present s"

lemma listed_upd_other: "(\<And>k. present (f k) = present k) \<Longrightarrow> listed xs present (upd_so a f s) = listed xs present s"
  by (auto simp: listed_def)

lemma listed_add: "listed xs present s \<Longrightarrow> \<not> present (sockets s a) \<Longrightarrow> present (f (sockets s a)) \<Longrightarrow>
    listed (xs @ [a]) present (upd_so a f s)"
  by (auto simp: listed_def)

lemma listed_remove: "listed xs present s \<Longrightarrow> \<not> present (f (sockets s a)) \<Longrightarrow>
    listed (remove1 a xs) present (upd_so a f s)"
  by (auto simp: listed_def)

lemma listed_pop: "listed (a # xs) present s \<Longrightarrow> \<not> present (f (sockets s a)) \<Longrightarrow> listed xs present (upd_so a f s)"
  by (auto simp: listed_def)

lemma listed_cong: "sockets t = sockets s \<Longrightarrow> listed xs present t = listed xs present s"
  by (simp add: listed_def)

lemmas listed_simps = listed_upd_other listed_add listed_remove listed_pop

lemma listed_lists [simp]:
  "listed xs present (s\<lparr> read_ready_socket_list_head := ys \<rparr>) = listed xs present s"
  "listed xs present (s\<lparr> write_ready_socket_list_head := ys \<rparr>) = listed xs present s"
  "listed xs present (s\<lparr> accept_ready_socket_list_head := ys \<rparr>) = listed xs present s"
  "listed xs present (s\<lparr> closed_socket_list_head := ys \<rparr>) = listed xs present s"
  "listed xs present (s\<lparr> buffers_available_notification_socket_list_head := ys \<rparr>) = listed xs present s"
  "listed xs present (s\<lparr> read_sockets_queue_len := n \<rparr>) = listed xs present s"
  "listed xs present (s\<lparr> write_sockets_queue_len := n \<rparr>) = listed xs present s"
  by (simp_all add: listed_def)

section \<open>Wake-ups\<close>

lemma queue_closed_ready: "ready_ok s \<Longrightarrow> ready_ok (queue_closed so s)"
  by (simp add: ready_ok_def queue_closed_def listed_simps)

lemma readable_ready: "ready_ok s \<Longrightarrow> ready_ok (app_glue_sock_readable so s)"
  using queue_closed_ready [of s so] by (simp add: app_glue_sock_readable_def Let_def) (simp add: ready_ok_def listed_simps)

lemma writable_ready: "ready_ok s \<Longrightarrow> ready_ok (app_glue_sock_write_space so s)"
  using queue_closed_ready [of s so] by (simp add: app_glue_sock_write_space_def Let_def) (simp add: ready_ok_def listed_simps)

lemma upcall_ready: "ready_ok s \<Longrightarrow> ready_ok (app_glue_so_upcall2 so s)"
  by (simp add: app_glue_so_upcall2_def readable_ready writable_ready)

lemma wakeup_ready:
  "ready_ok s \<Longrightarrow> sorwakeup so s = Some t \<Longrightarrow> ready_ok t" "ready_ok s \<Longrightarrow> sowwakeup so s = Some t \<Longrightarrow> ready_ok t"
  using upcall_ready [of s so] by (auto simp: sorwakeup_def sowwakeup_def sowakeup_def Let_def split: if_splits)

text \<open>Which lists the upcall puts a socket on.\<close>

lemma queue_closed_member: "ready_ok s \<Longrightarrow> so \<in> set (closed_socket_list_head (queue_closed so s))"
  by (auto simp: ready_ok_def listed_def queue_closed_def)

text \<open>C15. No wake-up of a socket is lost.  When the stack reports an event on a socket, the socket is
  afterwards on the list of closed sockets if it is disconnected, on the list of sockets to accept from
  if it listens, and otherwise, for a datagram socket or an established connection, on the list of
  readable sockets and, when it has room to send, on the list of writable ones.  It is on no list twice, and the flags
  of all sockets agree with the lists.\<close>

theorem wakeup_is_queued:
  assumes "ready_ok s"
  shows "ready_ok (app_glue_so_upcall2 so s) \<and>
    (so_is SS_ISDISCONNECTED so s \<longrightarrow> so \<in> set (closed_socket_list_head (app_glue_so_upcall2 so s))) \<and>
    (\<not> so_is SS_ISDISCONNECTED so s \<and> so_type (sockets s so) = SOCK_STREAM \<and> t_state s so = Some TCPS_LISTEN \<longrightarrow>
       so \<in> set (accept_ready_socket_list_head (app_glue_so_upcall2 so s))) \<and>
    (\<not> so_is SS_ISDISCONNECTED so s \<and> (so_type (sockets s so) = SOCK_DGRAM \<or> t_state s so = Some TCPS_ESTABLISHED) \<longrightarrow>
       so \<in> set (read_ready_socket_list_head (app_glue_so_upcall2 so s)) \<and>
       (sowritable so s \<longrightarrow> so \<in> set (write_ready_socket_list_head (app_glue_so_upcall2 so s))))"
proof (intro conjI impI)
  show "ready_ok (app_glue_so_upcall2 so s)" by (rule upcall_ready [OF assms])
next
  assume disc: "so_is SS_ISDISCONNECTED so s"
  have "so_is SS_ISDISCONNECTED so (queue_closed so s)" using disc by (simp add: so_is_def queue_closed_def)
  then show "so \<in> set (closed_socket_list_head (app_glue_so_upcall2 so s))"
    using disc queue_closed_member [OF queue_closed_ready [OF assms], of so so]
    by (simp add: app_glue_so_upcall2_def app_glue_sock_readable_def app_glue_sock_write_space_def)
next
  assume "\<not> so_is SS_ISDISCONNECTED so s \<and> so_type (sockets s so) = SOCK_STREAM \<and> t_state s so = Some TCPS_LISTEN"
  then show "so \<in> set (accept_ready_socket_list_head (app_glue_so_upcall2 so s))"
    using assms upcall_listen [of s so] by (auto simp: ready_ok_def listed_def)
next
  assume est: "\<not> so_is SS_ISDISCONNECTED so s \<and> (so_type (sockets s so) = SOCK_DGRAM \<or> t_state s so = Some TCPS_ESTABLISHED)"
  let ?r = "app_glue_sock_readable so s"
  have r: "so \<in> set (read_ready_socket_list_head ?r)" "so_is SS_ISDISCONNECTED so ?r = so_is SS_ISDISCONNECTED so s"
    "so_type (sockets ?r so) = so_type (sockets s so)" "t_state ?r = t_state s" "sowritable so ?r = sowritable so s"
    "write_ready_socket_list_head ?r = write_ready_socket_list_head s" "write_queue_present (sockets ?r so) = write_queue_present (sockets s so)"
    using est assms by (auto simp: app_glue_sock_readable_def Let_def so_is_def pr_has_def sowritable_def ready_ok_def listed_def)
  show "so \<in> set (read_ready_socket_list_head (app_glue_so_upcall2 so s))"
    using r est by (auto simp: app_glue_so_upcall2_def app_glue_sock_write_space_def [of so ?r] Let_def)
  assume "sowritable so s"
  then show "so \<in> set (write_ready_socket_list_head (app_glue_so_upcall2 so s))"
    using r est assms by (auto simp: app_glue_so_upcall2_def app_glue_sock_write_space_def [of so ?r] Let_def ready_ok_def listed_def)
qed

section \<open>A pass over the readable sockets\<close>

text \<open>A callback may queue more sockets, but only behind those that are waiting.\<close>

definition queues_behind ::
  "(addr \<Rightarrow> addr option \<Rightarrow> 'a sostate_scheme \<Rightarrow> 'a sostate_scheme option) \<Rightarrow> bool" where
  "queues_behind on_data \<longleftrightarrow>
     (\<forall>so gb s t. on_data so gb s = Some t \<longrightarrow>
        (\<exists>new. read_ready_socket_list_head t = read_ready_socket_list_head s @ new))"

text \<open>The reference: serve the given sockets in their order.\<close>

fun serve_all ::
  "(addr \<Rightarrow> addr option \<Rightarrow> 'a sostate_scheme \<Rightarrow> 'a sostate_scheme option) \<Rightarrow> addr list \<Rightarrow> 'a sostate_scheme \<Rightarrow> 'a sostate_scheme option" where
  "serve_all on_data [] s = Some s"
| "serve_all on_data (so # sos) s = do {
     let s = upd_so so (\<lambda>k. k\<lparr> read_queue_present := False \<rparr>) s;
     let s = s\<lparr> read_ready_socket_list_head := tl (read_ready_socket_list_head s) \<rparr>;
     s \<leftarrow> on_data so (glueing_block (sockets s so)) s;
     serve_all on_data sos (s\<lparr> read_sockets_queue_len := read_sockets_queue_len s - 1 \<rparr>)
   }"

lemma process_read_serves:
  assumes "queues_behind on_data" "read_ready_socket_list_head s = sos @ later"
  shows "process_read on_data (length sos + n) s = serve_all on_data sos s \<bind> process_read on_data n"
  using assms(2)
proof (induction sos arbitrary: s later)
  case (Cons so sos)
  let ?s = "(upd_so so (\<lambda>k. k\<lparr> read_queue_present := False \<rparr>) s)\<lparr> read_ready_socket_list_head := sos @ later \<rparr>"
  show ?case
  proof (cases "on_data so (glueing_block (sockets ?s so)) ?s")
    case (Some t)
    then obtain new where "read_ready_socket_list_head t = sos @ later @ new"
      using assms(1) by (fastforce simp: queues_behind_def)
    then show ?thesis
      using Cons Some by (simp add: Let_def)
  qed (use Cons in \<open>simp add: Let_def\<close>)
qed simp


section \<open>Closing\<close>

lemma so_is_set_state:
  "so_is f a s \<Longrightarrow> so_is f a (set_state 0 g a s)" "g \<noteq> 0 \<Longrightarrow> so_is g a (set_state 0 g a s)"
  by (auto simp: so_is_def set_state_def bit_eq_iff bit_simps)

lemma sofree_requeues:
  assumes so: "so_pcb (sockets s so) = None" "so_is SS_NOFDREF so s" "so_head (sockets s so) = None" "so_aborting (sockets s so) = 0"
    "so_is SS_ISDISCONNECTED so s" "so_upcall2 (sockets s so)" "sb_flags (so_rcv (sockets s so)) = SB_NOTIFY"
    "sb_mbcnt (so_snd (sockets s so)) = 0" "sb_mbcnt (so_rcv (sockets s so)) = 0" "\<not> closed_queue_present (sockets s so)"
    and pool: "pool_inv (socket_cache s)" "size (pool_objs (socket_cache s)) < pool_cap (socket_cache s)"
  shows "\<exists>t. sofree cl so s = Some t \<and> so \<in># pool_objs (socket_cache t) \<and> so \<in> set (closed_socket_list_head t)"
proof -
  have rel: "sbrelease f (sb, u) = Some (sb\<lparr> sb_mbmax := 0 \<rparr>, u)" if "sb_mbcnt sb = 0" for f sb and u :: "'a sostate_scheme"
    using that by (simp add: sbrelease_def sbflush.simps)
  define s1 where "s1 = upd_so so (\<lambda>k. k\<lparr> so_snd := (so_snd (sockets s so))\<lparr> sb_mbmax := 0 \<rparr> \<rparr>) s"
  define s2 where "s2 = set_state 0 SS_CANTRCVMORE so s1"
  have s2: "so_upcall2 (sockets s2 so)" "sb_flags (so_rcv (sockets s2 so)) = SB_NOTIFY" "so_is SS_ISDISCONNECTED so s2"
    "sb_mbcnt (so_rcv (sockets s2 so)) = 0" "\<not> closed_queue_present (sockets s2 so)" "so_aborting (sockets s2 so) = 0"
    "socket_cache s2 = socket_cache s"
    using so by (auto simp: s2_def s1_def set_state_def so_is_def bit_eq_iff bit_simps)
  define s3 where "s3 = queue_closed so s2"
  have s3: "so \<in> set (closed_socket_list_head s3)" "so_aborting (sockets s3 so) = 0" "socket_cache s3 = socket_cache s"
    "closed_queue_present (sockets s3 so)" "so_is SS_ISDISCONNECTED so s3" "sb_mbcnt (so_rcv (sockets s3 so)) = 0"
    using s2 by (simp_all add: s3_def queue_closed_def so_is_def)
  have "app_glue_so_upcall2 so s2 = s3"
    using s2(3,5) s3(4,5) by (simp add: app_glue_so_upcall2_def app_glue_sock_readable_def app_glue_sock_write_space_def s3_def queue_closed_def)
  then have "socantrcvmore so s1 = Some s3"
    using s2 by (simp add: socantrcvmore_def s2_def [symmetric] sorwakeup_def sowakeup_def sb_notify_def SB_NOTIFY_def SB_ASYNC_def
        SB_UPCALL_def SB_KNOTE_def)
  moreover define asb where "asb = (so_rcv (sockets s3 so))\<lparr> sb_flags := sb_flags (so_rcv (sockets s3 so)) OR SB_NOINTR \<rparr>"
  moreover define s5 where "s5 = upd_so so (\<lambda>k. k\<lparr> so_rcv := empty_sockbuf (sb_so asb) \<rparr>) 
    (upd_so so (\<lambda>k. k\<lparr> so_rcv := (so_rcv k)\<lparr> sb_flags := sb_flags (so_rcv k) OR SB_NOINTR \<rparr> \<rparr>) s3)"
  ultimately have "sorflush cl so s1 = Some s5"
    using s3(6) by (simp add: sorflush_def rel asb_def)
  moreover have "so \<in> set (closed_socket_list_head s5)" "so_aborting (sockets s5 so) = 0" "socket_cache s5 = socket_cache s"
    using s3 by (simp_all add: s5_def)
  ultimately show ?thesis
    using so(1,2,3,8) pool_cache_put_spec [OF pool] by (simp add: sofree_def rel s1_def [symmetric] soput_def)
qed


section \<open>Concrete states\<close>

text \<open>Sockets 50 and 60 are readable, socket 50 is disconnected.\<close>

definition readable_sostate :: sostate where
  "readable_sostate =
     upd_so 50 (\<lambda>k. k\<lparr> read_queue_present := True, so_state := SS_ISDISCONNECTED, so_upcall2 := True,
         so_rcv := (so_rcv k)\<lparr> sb_flags := SB_NOTIFY \<rparr> \<rparr>)
       (upd_so 60 (\<lambda>k. k\<lparr> read_queue_present := True \<rparr>) (idle_sostate two_bufs))
     \<lparr> read_ready_socket_list_head := [60, 50], read_sockets_queue_len := 2 \<rparr>"

lemma readable_sostate_ready: "ready_ok readable_sostate"
  by (auto simp: ready_ok_def listed_def readable_sostate_def idle_sostate_def idle_socket_def)

theorem wakeup_is_queued_witness:
  "50 \<in> set (closed_socket_list_head (app_glue_so_upcall2 50 readable_sostate)) \<and> ready_ok (app_glue_so_upcall2 50 readable_sostate)"
proof -
  have "so_is SS_ISDISCONNECTED 50 readable_sostate"
    by (simp add: so_is_def readable_sostate_def SS_ISDISCONNECTED_def)
  then show ?thesis using wakeup_is_queued [OF readable_sostate_ready, of 50] by blast
qed



end
