(* ===== verification/Socket_Errors.thy ===== *)
theory Socket_Errors
  imports Conn_Queues
begin

unbundle bit_operations_syntax

text \<open>
  Limits and error paths of the socket layer: what a send that is refused does with its data, the bounds that
  a reservation establishes, and closing a socket that lingers.
\<close>

section \<open>Refused sends\<close>

text \<open>The errors of \<^verbatim>\<open>sosend\<close> before the protocol is called.\<close>

definition send_refusal :: "addr \<Rightarrow> addr option \<Rightarrow> addr \<Rightarrow> u32 \<Rightarrow> 'a sostate_scheme \<Rightarrow> int" where
  "send_refusal so ad m0 flags s =
     (if ph_len (m_pkthdr (mbufs s m0)) < 0 then EINVAL
      else sosend_error so (ad \<noteq> None) (ph_len (m_pkthdr (mbufs s m0))) 0 flags s)"

lemma mstate_upd_so [simp]: "m_nexts (upd_so a f s) = m_nexts s"
  by (simp add: upd_so_def)

text \<open>C20. A send that is refused reports why, frees its data and never reaches the protocol.  The reason is the first
  that applies: a packet of negative length, a socket that cannot send any more, a pending error (which is cleared), a
  connection that does not exist, a missing address, data larger than the buffer can ever hold, or
  a buffer that is too full now.  The whole chain goes back to the pools, whatever the protocol.\<close>

theorem refused_send_frees_data:
  assumes ch: "mchain s (Some m0) as" "set as \<subseteq> used" and inv: "mbuf_inv M U used e s"
    and refused: "send_refusal so ad m0 flags s \<noteq> 0"
  shows "\<exists>t. (\<forall>cl. sosend cl so ad m0 None flags s = Some (send_refusal so ad m0 flags s, t)) \<and>
    mbuf_inv M U (used - set as) e t \<and> (\<forall>a. a \<notin> set as \<longrightarrow> mbufs t a = mbufs s a) \<and>
    (let n = ph_len (m_pkthdr (mbufs s m0)); k = sockets s so in
      (n < 0 \<longrightarrow> send_refusal so ad m0 flags s = EINVAL) \<and>
      (0 \<le> n \<and> so_is SS_CANTSENDMORE so s \<longrightarrow> send_refusal so ad m0 flags s = EPIPE) \<and>
      (0 \<le> n \<and> \<not> so_is SS_CANTSENDMORE so s \<and> so_error k \<noteq> 0 \<longrightarrow> send_refusal so ad m0 flags s = so_error k) \<and>
      (0 \<le> n \<and> \<not> so_is SS_CANTSENDMORE so s \<and> so_error k = 0 \<longrightarrow>
        send_refusal so ad m0 flags s \<in> {ENOTCONN, EDESTADDRREQ, EMSGSIZE, EWOULDBLOCK}))"
proof -
  define s1 where "s1 = (if ph_len (m_pkthdr (mbufs s m0)) \<ge> 0 \<and> \<not> so_is SS_CANTSENDMORE so s
    then upd_so so (\<lambda>k. k\<lparr> so_error := 0 \<rparr>) s else s)"
  have "linked (m_nexts s1) (Some m0) as" using ch(1) by (simp add: s1_def mchain_def)
  moreover have "mbuf_inv M U used e s1" using inv by (simp add: s1_def)
  ultimately obtain t where t: "m_freem (Some m0) s1 = Some t" "mbuf_inv M U (used - set as) e t"
    "\<forall>a. a \<notin> set as \<longrightarrow> mbufs t a = mbufs s1 a"
    using m_freem_inv [of s1 "Some m0" as used M U e] ch(2) by blast
  have "sosend cl so ad m0 None flags s = Some (send_refusal so ad m0 flags s, t)" for cl
    using refused t(1) by (simp add: sosend_def Let_def send_refusal_def s1_def [symmetric] m_freem.simps [of None])
  moreover have "mbufs s1 = mbufs s" by (simp add: s1_def)
  ultimately show ?thesis using t refused by (auto simp: send_refusal_def sosend_error_def Let_def)
qed

section \<open>Reservations\<close>

lemma sbreserve_ok:
  assumes "0 < cc" "cc \<le> sb_max_adj s"
  shows "\<exists>sb'. sbreserve sb cc s = (True, sb') \<and> sb_hiwat sb' = cc \<and> sb_lowat sb' = min (sb_lowat sb) cc \<and>
    (sb_max s < 2 ^ 32 \<longrightarrow> sb_mbmax sb' \<le> sb_max s)"
proof -
  let ?m = "umin (uint (cc * 2)) (uint (sb_max s))"
  have "0 \<le> ?m \<and> ?m \<le> uint (sb_max s)" if "sb_max s < 2 ^ 32"
    using that by (simp add: umin_def u_int_def word_less_def)
  then have "word_of_int ?m \<le> sb_max s" if "sb_max s < 2 ^ 32"
    using that by (simp add: word_le_def uint_word_of_int) (meson order_trans zmod_le_nonneg_dividend)
  then show ?thesis using assms by (auto simp: sbreserve_def Let_def min_def)
qed

text \<open>C22. A successful reservation leaves both buffers within the limits of the system.  The send buffer gets
  what was asked for but at least 4608 bytes, both sizes are at most \<^verbatim>\<open>sb_max_adj\<close>, the space for
  mbufs is at most \<^verbatim>\<open>sb_max\<close>, and the low-water marks are positive and do not exceed the sizes.  A request that is
  zero or too large is refused with \<^verbatim>\<open>ENOBUFS\<close>.\<close>

theorem soreserve_bounds:
  assumes "soreserve cl so sndcc rcvcc s = Some (e, t)" "sb_max s < 2 ^ 32"
  shows "(e = 0 \<longrightarrow> (let sn = so_snd (sockets t so); rcv = so_rcv (sockets t so) in
      sb_hiwat sn = (if sndcc < 4608 then 4608 else sndcc) \<and> sb_hiwat rcv = rcvcc \<and>
      sb_hiwat sn \<le> sb_max_adj s \<and> sb_hiwat rcv \<le> sb_max_adj s \<and> 0 < sb_hiwat rcv \<and>
      sb_mbmax sn \<le> sb_max s \<and> sb_mbmax rcv \<le> sb_max s \<and>
      0 < sb_lowat sn \<and> sb_lowat sn \<le> sb_hiwat sn \<and> 0 < sb_lowat rcv \<and> sb_lowat rcv \<le> sb_hiwat rcv)) \<and>
    (rcvcc = 0 \<or> sb_max_adj s < rcvcc \<or> sb_max_adj s < (if sndcc < 4608 then 4608 else sndcc) \<longrightarrow> e = ENOBUFS_BSD)"
proof -
  let ?sn = "if sndcc < 4608 then 4608 else sndcc"
  have low: "0 < x \<Longrightarrow> 0 < min (y :: u64) x \<longleftrightarrow> 0 < y" for x y by (auto simp: min_def not_le intro: less_trans)
  show ?thesis
  proof (cases "?sn \<le> sb_max_adj s \<and> 0 < rcvcc \<and> rcvcc \<le> sb_max_adj s")
    case True
    have pos: "0 < ?sn" by (simp add: word_gt_0) (auto simp: word_less_nat_alt)
    obtain sn where sn: "sbreserve (so_snd (sockets s so)) ?sn s = (True, sn)" "sb_hiwat sn = ?sn"
      "sb_lowat sn = min (sb_lowat (so_snd (sockets s so))) ?sn" "sb_mbmax sn \<le> sb_max s"
      using sbreserve_ok [of ?sn s "so_snd (sockets s so)"] pos True assms(2) by blast
    let ?s = "upd_so so (\<lambda>k. k\<lparr> so_snd := sn \<rparr>) s"
    have "sb_max_adj ?s = sb_max_adj s" "sb_max ?s = sb_max s" by (simp_all add: upd_so_def)
    then obtain rcv where rcv: "sbreserve (so_rcv (sockets s so)) rcvcc ?s = (True, rcv)" "sb_hiwat rcv = rcvcc"
      "sb_lowat rcv = min (sb_lowat (so_rcv (sockets s so))) rcvcc" "sb_mbmax rcv \<le> sb_max s"
      using sbreserve_ok [of rcvcc ?s "so_rcv (sockets s so)"] True assms(2) by auto
    define sn' where "sn' = (if sb_lowat sn = 0 then sn\<lparr> sb_lowat := 4096 \<rparr> else sn)"
    have t: "e = 0" "so_rcv (sockets t so) = (if sb_lowat rcv = 0 then rcv\<lparr> sb_lowat := 1 \<rparr> else rcv)"
      "so_snd (sockets t so) = (if sb_lowat sn' > sb_hiwat sn' then sn'\<lparr> sb_lowat := sb_hiwat sn' \<rparr> else sn')"
      using assms(1) sn(1) rcv(1) by (auto simp: soreserve_def Let_def sn'_def cong: if_cong)
    have sn': "sb_hiwat sn' = ?sn" "sb_mbmax sn' = sb_mbmax sn" "0 < sb_lowat sn'"
      using sn(2) by (auto simp: sn'_def word_gt_0)
    have "sb_lowat rcv \<le> rcvcc" using rcv(3) by simp
    moreover have "1 \<le> rcvcc" using True by (simp add: word_le_nat_alt Suc_le_eq unat_gt_0 word_gt_0)
    moreover define n where "n = ?sn"
    note t sn' sn(4) rcv(2,4) pos True
    ultimately show ?thesis unfolding n_def [symmetric] by (simp add: Let_def word_gt_0 not_less)
  next
    case False
    then have "e = ENOBUFS_BSD"
      using assms(1)
      by (auto simp: soreserve_def Let_def sbreserve_def upd_so_def bind_eq_Some_conv not_le not_less word_gt_0 split: if_splits)
    then show ?thesis by simp
  qed
qed

section \<open>Lingering\<close>

lemma linger_wait_returns: "linger_wait so s = Some t \<Longrightarrow> \<not> so_is SS_ISCONNECTED so s"
  by (erule linger_wait.raw_induct [where P = "\<lambda>so s t. \<not> so_is SS_ISCONNECTED so s", rotated]) (auto split: if_splits)

text \<open>C34. Closing a connected socket with the option to linger never returns while the connection stays up: \<^verbatim>\<open>sowait\<close> returns at once
  without an error, and nothing else runs in the loop around it.  The protocol here is one that answers the
  disconnect request by sending what is left, with the connection still marked as connected.\<close>

theorem linger_close_hangs:
  assumes "so_pcb (sockets s so) \<noteq> None" "so_is SS_ISCONNECTED so s" "\<not> so_is SS_ISDISCONNECTING so s"
    and "so_opt SO_LINGER so s" "\<not> so_opt SO_ACCEPTCONN so s" "\<not> so_is SS_NBIO so s"
    and "pr_usrreq cl so PRU_DISCONNECT None None None s = Some (0, t)" "so_is SS_ISCONNECTED so t" "so_opt SO_LINGER so t"
      "\<not> so_is SS_NBIO so t"
  shows "soclose cl so s = None"
proof -
  have "linger_wait so t = None" using linger_wait_returns [of so t] assms(8) by fastforce
  then have "close_connected cl so s = None"
    using assms by (simp add: close_connected_def sodisconnect_def)
  then show ?thesis using assms by (auto simp: soclose_def)
qed

section \<open>Concrete states\<close>

text \<open>The mbuf 10 is to be sent on socket 50, which cannot send any more.\<close>

definition shut_sostate :: sostate where
  "shut_sostate =
     set_state 0 SS_CANTSENDMORE 50 (upd_m 10 (\<lambda>b. b\<lparr> m_len := 3, m_flags := M_PKTHDR, m_pkthdr := (m_pkthdr b)\<lparr> ph_len := 3 \<rparr> \<rparr>)
       ((idle_sostate two_bufs)\<lparr> mb_cache := rpool (bufs_pooled []) 0 \<rparr>))"

theorem refused_send_frees_data_witness:
  "\<exists>t. sosend silent_calls 50 None 10 None 0 shut_sostate = Some (EPIPE, t) \<and> pool_objs (mb_cache t) = {#10#}"
proof -
  note defs = shut_sostate_def idle_sostate_def idle_socket_def blank_mbuf_def upd_m_def set_state_def
  have ch: "mchain shut_sostate (Some 10) [10]" by (simp add: mchain_def defs)
  have "rmb_inv {1000, 4000} (\<lambda>_. 0) shut_sostate"
    by (rule rmb_inv_cong [OF two_bufs_facts(1)]) (simp_all add: defs)
  moreover have "holders {10} shut_sostate p = {}" for p by (auto simp: holders_def defs)
  moreover have "mb_cache shut_sostate = rpool (bufs_pooled []) 0" by (simp add: defs)
  moreover have "m_paddr (mbufs shut_sostate 10) = None" by (simp add: defs)
  ultimately have inv: "mbuf_inv {10} {1000, 4000} {10} (\<lambda>_. 0) shut_sostate"
    by (simp add: mbuf_inv_def bufs_pooled_pool)
  have ref: "send_refusal 50 None 10 0 shut_sostate = EPIPE"
    by (simp add: send_refusal_def sosend_error_def so_is_def defs SS_CANTSENDMORE_def SS_ISCONNECTED_def)
  obtain t where "\<forall>cl. sosend cl 50 None 10 None 0 shut_sostate = Some (EPIPE, t)" "mbuf_inv {10} {1000, 4000} {} (\<lambda>_. 0) t"
    using refused_send_frees_data [OF ch _ inv, of 50 None 0] unfolding ref by auto
  then show ?thesis by (auto simp: mbuf_inv_def)
qed

theorem soreserve_bounds_witness:
  "\<exists>t. soreserve silent_calls 50 100 70000 (idle_sostate two_bufs) = Some (0, t) \<and>
     sb_hiwat (so_snd (sockets t 50)) = 4608 \<and> sb_lowat (so_rcv (sockets t 50)) \<le> 70000"
proof -
  obtain t where "soreserve silent_calls 50 100 70000 (idle_sostate two_bufs) = Some (0, t)"
    by (simp add: soreserve_def sbreserve_def idle_sostate_def idle_socket_def empty_sockbuf_def Let_def upd_so_def)
  moreover have "sb_max (idle_sostate two_bufs) < 2 ^ 32" by (simp add: idle_sostate_def)
  ultimately show ?thesis using soreserve_bounds [of silent_calls 50 100 70000 "idle_sostate two_bufs" 0 t] by (auto simp: Let_def)
qed

text \<open>Socket 50 is connected and lingers; the protocol accepts every request and lets the connection stay.\<close>

definition lingering_sostate :: sostate where
  "lingering_sostate = upd_so 50 (\<lambda>k. k\<lparr> so_options := SO_LINGER, so_pcb := Some 900 \<rparr>) (idle_sostate two_bufs)"

theorem linger_close_hangs_witness: "soclose silent_calls 50 lingering_sostate = None"
  by (rule linger_close_hangs [where t = lingering_sostate])
    (simp_all add: lingering_sostate_def idle_sostate_def idle_socket_def so_is_def so_opt_def silent_calls_def
      SS_ISCONNECTED_def SS_ISDISCONNECTING_def SS_NBIO_def SO_LINGER_def SO_ACCEPTCONN_def)

end
