(* ===== verification/Service_Server.thy ===== *)
theory Service_Server
  imports App_Glue
begin

unbundle bit_operations_syntax

text \<open>
  The memory that the service shares with the applications, and the service's operations on it
  (\<^verbatim>\<open>service/service_common.h\<close>, \<^verbatim>\<open>service/service_server_side.h\<close>): the command buffers, the
  descriptors of the connections, the rings of received and of transmitted packets,
  and the rings on which a selector hears about ready connections.  An index outside of an array
  names a cell of its own, so the model keeps the effect of a wrong index
  visible.
\<close>

section \<open>Shared data\<close>

text \<open>A command and the member of the union that belongs to it.\<close>

datatype service_command =
    SERVICE_DUMMY_COMMAND
  | SERVICE_OPEN_SOCKET_COMMAND int int int
  | SERVICE_SOCKET_CONNECT_BIND_COMMAND u32 u16 bool
  | SERVICE_LISTEN_SOCKET_COMMAND
  | SERVICE_SETSOCKOPT_COMMAND int int int "8 word list"
  | SERVICE_OPEN_SOCKET_FEEDBACK
  | SERVICE_SOCKET_TX_KICK_COMMAND
  | SERVICE_SOCKET_RX_KICK_COMMAND
  | SERVICE_SOCKET_ACCEPTED_COMMAND "addr option" u32 u16
  | SERVICE_SET_SOCKET_RING_COMMAND "addr option" int
  | SERVICE_SET_SOCKET_SELECT_COMMAND int int
  | SERVICE_SOCKET_READY_FEEDBACK u32
  | SERVICE_SOCKET_CLOSE_COMMAND
  | SERVICE_SOCKET_TX_POOL_EMPTY_COMMAND
  | SERVICE_ROUTE_ADD_COMMAND u32 u32 u32 int
  | SERVICE_ROUTE_DEL_COMMAND u32 u32 u32 int
  | SERVICE_CONNECT_CLIENT
  | SERVICE_DISCONNECT_CLIENT
  | SERVICE_NEW_IFACES
  | SERVICE_NEW_ADDRESSES
  | SERVICE_END_OF_RECORD
  | SERVICE_SOCKET_SHUTDOWN_COMMAND int
  | SERVICE_SOCKET_DECLINE_COMMAND "addr option"

record service_cmd =
  cmd :: service_command
  ringset_idx :: u32
  parent_idx :: int

record service_socket =
  connection_idx :: nat
  read_ready_to_app :: u16
  write_ready_to_app :: u16
  write_done_from_app :: u16
  local_ipaddr :: u32
  local_port :: u16
  tx_space :: u32

record satelite =
  sat_socket :: "addr option"
  sat_ringset_idx :: int
  sat_parent_idx :: int
  tx_ring :: "addr rte_ring"
  rx_ring :: "addr rte_ring"
  apppid :: int

abbreviation (input) SERVICE_CONNECTION_POOL_SIZE :: nat where "SERVICE_CONNECTION_POOL_SIZE \<equiv> 16"
abbreviation (input) SERVICE_CLIENTS_POOL_SIZE :: nat where "SERVICE_CLIENTS_POOL_SIZE \<equiv> 64"
abbreviation (input) SERVICE_SELECTOR_POOL_SIZE :: nat where "SERVICE_SELECTOR_POOL_SIZE \<equiv> 64"

definition SOCKET_READABLE_BIT :: u32 where "SOCKET_READABLE_BIT = 1"
definition SOCKET_WRITABLE_BIT :: u32 where "SOCKET_WRITABLE_BIT = 2"
definition SOCKET_CLOSED_BIT :: u32 where "SOCKET_CLOSED_BIT = 4"

abbreviation (input) SOCKET_READY_SHIFT :: nat where "SOCKET_READY_SHIFT \<equiv> 16"

record user_stats =
  user_on_tx_opportunity_called :: u64
  user_on_tx_opportunity_api_nothing_to_tx :: u64
  user_on_tx_opportunity_api_failed :: u64
  user_on_tx_opportunity_mbufs_sent :: u64
  user_on_rx_opportunity_called_exhausted :: u64
  user_rx_mbufs :: u64
  user_kick_tx :: u64
  user_kick_rx :: u64
  user_kick_select_rx :: u64
  user_kick_select_tx :: u64
  user_client_app_accepted :: u64
  user_pending_accept :: u64
  user_sockets_closed :: u64
  user_sockets_shutdown :: u64

text \<open>A descriptor of the service is the number of its entry in \<^verbatim>\<open>socket_satelite_data\<close>; \<^term>\<open>kills\<close> are the
  processes that were sent a signal, in order.\<close>

record svstate = glstate +
  socket_satelite_data :: "nat \<Rightarrow> satelite"
  g_service_sockets :: "int \<Rightarrow> service_socket"
  g_service_selectors :: "int \<Rightarrow> u32 rte_ring"
  command_ring :: "addr rte_ring"
  commands :: "addr \<Rightarrow> service_cmd"
  free_command_pool :: "addr rte_mempool"
  free_connections_ring :: "nat rte_ring"
  free_clients_ring :: "nat rte_ring"
  selectors_ring :: "nat rte_ring"
  client_busy :: "nat \<Rightarrow> bool"
  service_clients_list_head :: "nat list"
  kills :: "int list"
  stats :: user_stats

definition upd_sat :: "nat \<Rightarrow> (satelite \<Rightarrow> satelite) \<Rightarrow> 'a svstate_scheme \<Rightarrow> 'a svstate_scheme" where
  "upd_sat i f s = s\<lparr> socket_satelite_data := (socket_satelite_data s)(i := f (socket_satelite_data s i)) \<rparr>"

definition upd_gs :: "int \<Rightarrow> (service_socket \<Rightarrow> service_socket) \<Rightarrow> 'a svstate_scheme \<Rightarrow> 'a svstate_scheme" where
  "upd_gs i f s = s\<lparr> g_service_sockets := (g_service_sockets s)(i := f (g_service_sockets s i)) \<rparr>"

definition tally :: "(user_stats \<Rightarrow> user_stats) \<Rightarrow> 'a svstate_scheme \<Rightarrow> 'a svstate_scheme" where
  "tally f s = s\<lparr> stats := f (stats s) \<rparr>"

section \<open>Command buffers\<close>

definition service_get_free_command_buf :: "'a svstate_scheme \<Rightarrow> addr option \<times> 'a svstate_scheme" where
  "service_get_free_command_buf s =
     (let (rc, c, mp) = rte_mempool_get (rlcore s) (free_command_pool s)
      in (if rc \<noteq> 0 then None else c, s\<lparr> free_command_pool := mp \<rparr>))"

definition service_free_command_buf :: "addr \<Rightarrow> 'a svstate_scheme \<Rightarrow> 'a svstate_scheme" where
  "service_free_command_buf c s = s\<lparr> free_command_pool := rte_mempool_put (rlcore s) (free_command_pool s) c \<rparr>"

definition service_dequeue_command_buf :: "'a svstate_scheme \<Rightarrow> addr option \<times> 'a svstate_scheme" where
  "service_dequeue_command_buf s =
     (if rte_ring_count (command_ring s) = 0 then (None, s)
      else let (rc, cs, r) = rte_ring_sc_dequeue_bulk (command_ring s) 1;
               s = s\<lparr> command_ring := r \<rparr>
           in (if rc \<noteq> 0 then None else case cs of [] \<Rightarrow> None | c # _ \<Rightarrow> Some c, s))"

section \<open>Ready connections\<close>

text \<open>The signal to the application, and an entry in the ring of a selector: the connection
  in the low half and the event above it.\<close>

definition signal_app :: "nat \<Rightarrow> 'a svstate_scheme \<Rightarrow> 'a svstate_scheme" where
  "signal_app i s =
     (let p = apppid (socket_satelite_data s i) in if p \<noteq> 0 then s\<lparr> kills := kills s @ [p] \<rparr> else s)"

definition post_ready :: "nat \<Rightarrow> u32 \<Rightarrow> 'a svstate_scheme \<Rightarrow> int \<times> 'a svstate_scheme" where
  "post_ready i ev s =
     (let d = socket_satelite_data s i;
          mask = of_int (sat_ringset_idx d) OR push_bit SOCKET_READY_SHIFT ev;
          (rc, r) = rte_ring_enqueue (g_service_selectors s (sat_parent_idx d)) mask
      in (rc, s\<lparr> g_service_selectors := (g_service_selectors s)(sat_parent_idx d := r) \<rparr>))"

definition service_mark_readable :: "nat \<Rightarrow> 'a svstate_scheme \<Rightarrow> 'a svstate_scheme" where
  "service_mark_readable i s =
     (let d = socket_satelite_data s i
      in if sat_parent_idx d = -1 then s
         else if read_ready_to_app (g_service_sockets s (sat_ringset_idx d)) \<noteq> 0 then signal_app i s
         else let s = upd_gs (sat_ringset_idx d) (\<lambda>k. k\<lparr> read_ready_to_app := 1 \<rparr>) s;
                  (_, s) = post_ready i SOCKET_READABLE_BIT s
              in tally (\<lambda>u. u\<lparr> user_kick_select_rx := user_kick_select_rx u + 1 \<rparr>) (signal_app i s))"

text \<open>The result is nonzero when the caller has to try again.  One path returns without a value;
  \<^term>\<open>junk\<close> is what the caller then sees.\<close>

definition service_mark_writable :: "bool \<Rightarrow> nat \<Rightarrow> 'a svstate_scheme \<Rightarrow> bool \<times> 'a svstate_scheme" where
  "service_mark_writable junk i s =
     (let d = socket_satelite_data s i
      in if sat_parent_idx d = -1 then (True, s)
         else if write_ready_to_app (g_service_sockets s (sat_ringset_idx d)) \<noteq> 0 then (junk, signal_app i s)
         else let s = upd_gs (sat_ringset_idx d) (\<lambda>k. k\<lparr> write_ready_to_app := 1 \<rparr>) s;
                  (rc, s) = post_ready i SOCKET_WRITABLE_BIT s;
                  s = tally (\<lambda>u. u\<lparr> user_kick_select_tx := user_kick_select_tx u + 1 \<rparr>) s
              in (rc = - ENOBUFS, signal_app i s))"

definition service_mark_closed :: "nat \<Rightarrow> 'a svstate_scheme \<Rightarrow> bool \<times> 'a svstate_scheme" where
  "service_mark_closed i s =
     (if sat_parent_idx (socket_satelite_data s i) = -1 then (True, s)
      else let (rc, s) = post_ready i SOCKET_CLOSED_BIT s in (rc = - ENOBUFS, signal_app i s))"

section \<open>Rings of a connection\<close>

definition service_post_accepted :: "addr \<Rightarrow> nat \<Rightarrow> 'a svstate_scheme \<Rightarrow> 'a svstate_scheme" where
  "service_post_accepted c i s =
     (let (rc, r) = rte_ring_enqueue (rx_ring (socket_satelite_data s i)) c;
          s = upd_sat i (\<lambda>d. d\<lparr> rx_ring := r \<rparr>) s;
          s = (if rc = - ENOBUFS then service_free_command_buf c s else service_mark_readable i s)
      in tally (\<lambda>u. u\<lparr> user_pending_accept := user_pending_accept u + 1 \<rparr>) s)"

definition service_dequeue_tx_buf :: "nat \<Rightarrow> 'a svstate_scheme \<Rightarrow> addr option \<times> 'a svstate_scheme" where
  "service_dequeue_tx_buf i s =
     (let (rc, ms, r) = rte_ring_sc_dequeue_bulk (tx_ring (socket_satelite_data s i)) 1;
          s = upd_sat i (\<lambda>d. d\<lparr> tx_ring := r \<rparr>) s
      in (if rc \<noteq> 0 then None else case ms of [] \<Rightarrow> None | m # _ \<Rightarrow> Some m, s))"

definition service_dequeue_tx_buf_burst :: "nat \<Rightarrow> u32 \<Rightarrow> 'a svstate_scheme \<Rightarrow> addr list \<times> 'a svstate_scheme" where
  "service_dequeue_tx_buf_burst i max_count s =
     (let (rc, ms, r) = sc_do_dequeue (tx_ring (socket_satelite_data s i)) max_count RTE_RING_QUEUE_VARIABLE
      in (take (nat rc) ms, upd_sat i (\<lambda>d. d\<lparr> tx_ring := r \<rparr>) s))"

definition service_tx_buf_count :: "nat \<Rightarrow> 'a svstate_scheme \<Rightarrow> u32 \<times> 'a svstate_scheme" where
  "service_tx_buf_count i s =
     (let d = socket_satelite_data s i
      in (rte_ring_count (tx_ring d), upd_gs (sat_ringset_idx d) (\<lambda>k. k\<lparr> write_done_from_app := 0 \<rparr>) s))"

definition service_rx_buf_free_count :: "nat \<Rightarrow> 'a svstate_scheme \<Rightarrow> u32" where
  "service_rx_buf_free_count i s = rte_ring_free_count (rx_ring (socket_satelite_data s i))"

definition service_submit_rx_buf :: "addr \<Rightarrow> nat \<Rightarrow> 'a svstate_scheme \<Rightarrow> bool \<times> 'a svstate_scheme" where
  "service_submit_rx_buf m i s =
     (let (rc, r) = rte_ring_sp_enqueue_bulk (rx_ring (socket_satelite_data s i)) [m] 1;
          s = upd_sat i (\<lambda>d. d\<lparr> rx_ring := r \<rparr>) s
      in (rc = - ENOBUFS, if rc \<noteq> 0 then service_mark_readable i s else s))"

definition service_free_socket :: "nat \<Rightarrow> 'a svstate_scheme \<Rightarrow> 'a svstate_scheme" where
  "service_free_socket connidx s =
     s\<lparr> free_connections_ring := snd (rte_ring_enqueue (free_connections_ring s) connidx) \<rparr>"

section \<open>Initialisation\<close>

text \<open>\<^term>\<open>mk\<close> and \<^term>\<open>mkw\<close> create the rings, \<^term>\<open>pool\<close> the pool of command buffers.  The pools that hold the two shared
  arrays serve one allocation each and are left out, and so is the ring \<^verbatim>\<open>rx_mbufs_ring\<close>,
  which nothing uses.  A failure ends the process.\<close>

fun init_clients :: "(u32 \<Rightarrow> u32 \<Rightarrow> nat rte_ring option) \<Rightarrow> nat list \<Rightarrow> 'a svstate_scheme \<Rightarrow> 'a svstate_scheme option" where
  "init_clients mk [] s = Some s"
| "init_clients mk (i # js) s = do {
     let s = s\<lparr> free_clients_ring := snd (rte_ring_enqueue (free_clients_ring s) i) \<rparr>;
     _ \<leftarrow> mk 64 (RING_F_SP_ENQ OR RING_F_SC_DEQ);
     init_clients mk js s
   }"

fun init_connections ::
  "(u32 \<Rightarrow> u32 \<Rightarrow> nat rte_ring option) \<Rightarrow> u32 \<Rightarrow> u32 \<Rightarrow> nat list \<Rightarrow> 'a svstate_scheme \<Rightarrow> 'a svstate_scheme option" where
  "init_connections mk rx_bufs_count tx_bufs_count [] s = Some s"
| "init_connections mk rx_bufs_count tx_bufs_count (i # js) s = do {
     let s = upd_gs (int i) (\<lambda>_. \<lparr> connection_idx = i, read_ready_to_app = 0, write_ready_to_app = 0,
       write_done_from_app = 0, local_ipaddr = 0, local_port = 0, tx_space = 0 \<rparr>) s;
     let s = s\<lparr> free_connections_ring := snd (rte_ring_enqueue (free_connections_ring s) i) \<rparr>;
     tx \<leftarrow> mk tx_bufs_count (RING_F_SP_ENQ OR RING_F_SC_DEQ);
     let (_, tx) = rte_ring_set_water_mark tx 1;
     rx \<leftarrow> mk rx_bufs_count (RING_F_SP_ENQ OR RING_F_SC_DEQ);
     let (_, rx) = rte_ring_set_water_mark rx 1;
     let s = upd_sat i (\<lambda>_. \<lparr> sat_socket = None, sat_ringset_idx = -1, sat_parent_idx = -1, tx_ring = tx, rx_ring = rx,
       apppid = 0 \<rparr>) s;
     init_connections mk rx_bufs_count tx_bufs_count js s
   }"

fun init_selectors ::
  "(u32 \<Rightarrow> u32 \<Rightarrow> u32 rte_ring option) \<Rightarrow> u32 \<Rightarrow> nat list \<Rightarrow> 'a svstate_scheme \<Rightarrow> 'a svstate_scheme option" where
  "init_selectors mkw tx_bufs_count [] s = Some s"
| "init_selectors mkw tx_bufs_count (i # js) s = do {
     r \<leftarrow> mkw tx_bufs_count (RING_F_SP_ENQ OR RING_F_SC_DEQ);
     let s = s\<lparr> g_service_selectors := (g_service_selectors s)(int i := r) \<rparr>;
     let s = s\<lparr> selectors_ring := snd (rte_ring_enqueue (selectors_ring s) i) \<rparr>;
     init_selectors mkw tx_bufs_count js s
   }"

definition service_api_init ::
  "(u32 \<Rightarrow> u32 \<Rightarrow> nat rte_ring option) \<Rightarrow> (u32 \<Rightarrow> u32 \<Rightarrow> u32 rte_ring option) \<Rightarrow> addr rte_mempool option \<Rightarrow>
   u32 \<Rightarrow> u32 \<Rightarrow> u32 \<Rightarrow> 'a svstate_scheme \<Rightarrow> 'a svstate_scheme option" where
  "service_api_init mk mkw pool command_bufs_count rx_bufs_count tx_bufs_count s = do {
     let s = s\<lparr> client_busy := \<lambda>_. False \<rparr>;
     r \<leftarrow> mk (of_nat SERVICE_CLIENTS_POOL_SIZE) 0;
     s \<leftarrow> init_clients mk [0..<SERVICE_CLIENTS_POOL_SIZE] (s\<lparr> free_clients_ring := r \<rparr>);
     r \<leftarrow> mk command_bufs_count RING_F_SC_DEQ;
     let s = s\<lparr> command_ring := r \<rparr>;
     mp \<leftarrow> pool;
     let s = s\<lparr> free_command_pool := mp \<rparr>;
     r \<leftarrow> mk (of_nat SERVICE_CONNECTION_POOL_SIZE) 0;
     s \<leftarrow> init_connections mk rx_bufs_count tx_bufs_count [0..<SERVICE_CONNECTION_POOL_SIZE]
            (s\<lparr> free_connections_ring := r \<rparr>);
     r \<leftarrow> mk (of_nat SERVICE_SELECTOR_POOL_SIZE) 0;
     init_selectors mkw tx_bufs_count [0..<SERVICE_SELECTOR_POOL_SIZE] (s\<lparr> selectors_ring := r \<rparr>)
   }"

end
