(* ===== verification/Service_Loop.thy ===== *)
theory Service_Loop
  imports Service_Server
begin

unbundle bit_operations_syntax

text \<open>
  The loop of the service (\<^verbatim>\<open>service/service_loop.c\<close>): what happens when a socket can send, has data, or is
  closed, the commands of the applications, and one round of the main loop.  The protocols are the
  functions of \<^typ>\<open>'s so_calls\<close>; the space of a send buffer is always reported through
  \<^verbatim>\<open>service_reflect_tx_socket_buf\<close>.
\<close>

section \<open>Transmit space\<close>

definition user_on_closure :: "addr option \<Rightarrow> 'a svstate_scheme \<Rightarrow> 'a svstate_scheme option" where
  "user_on_closure data s = Some (case data of None \<Rightarrow> s | Some i \<Rightarrow> snd (service_mark_closed i s))"

definition user_set_socket_tx_space :: "nat \<Rightarrow> int \<Rightarrow> 'a svstate_scheme \<Rightarrow> 'a svstate_scheme" where
  "user_set_socket_tx_space i cnt s =
     upd_gs (sat_ringset_idx (socket_satelite_data s i)) (\<lambda>k. k\<lparr> tx_space := of_int cnt \<rparr>) s"

definition service_reflect_tx_socket_buf :: "bool \<Rightarrow> addr \<Rightarrow> int \<Rightarrow> 'a svstate_scheme \<Rightarrow> 'a svstate_scheme" where
  "service_reflect_tx_socket_buf junk so cnt s =
     (case app_glue_get_glueing_block (Some so) s of
        None \<Rightarrow> s
      | Some i \<Rightarrow>
          let r = sat_ringset_idx (socket_satelite_data s i);
              before = tx_space (g_service_sockets s r);
              s = upd_gs r (\<lambda>k. k\<lparr> tx_space := tx_space k + of_int cnt \<rparr>) s
          in if before = 0 \<and> cnt > 0 then snd (service_mark_writable junk i s) else s)"

definition service_calls :: "bool \<Rightarrow> 'a svstate_scheme so_calls \<Rightarrow> 'a svstate_scheme so_calls" where
  "service_calls junk cl = cl\<lparr> reflect_tx := service_reflect_tx_socket_buf junk \<rparr>"

section \<open>Sending\<close>

text \<open>The packet buffers of one burst on a stream socket: each is handed to the socket, whatever
  becomes of the one before.\<close>

fun tx_stream :: "'a svstate_scheme so_calls \<Rightarrow> addr \<Rightarrow> addr list \<Rightarrow> 'a svstate_scheme \<Rightarrow> 'a svstate_scheme option" where
  "tx_stream cl so [] s = Some s"
| "tx_stream cl so (m # ms) s = do {
     (rc, s) \<leftarrow> app_glue_send cl so (rte_pktmbuf_mtod (rmb s m)) (uint (data_len (rmb s m))) m s;
     let s = (if rc \<noteq> 0
       then tally (\<lambda>u. u\<lparr> user_on_tx_opportunity_api_failed := user_on_tx_opportunity_api_failed u + 1 \<rparr>) s
       else tally (\<lambda>u. u\<lparr> user_on_tx_opportunity_mbufs_sent := user_on_tx_opportunity_mbufs_sent u + 1 \<rparr>) s);
     tx_stream cl so ms s
   }"

fun free_bufs :: "addr list \<Rightarrow> 'a rte_state_scheme \<Rightarrow> 'a rte_state_scheme option" where
  "free_bufs [] s = Some s"
| "free_bufs (m # ms) s = do { s \<leftarrow> rte_pktmbuf_free (Some m) s; free_bufs ms s }"

text \<open>On a datagram socket the first failure frees the packet buffers that are left; the result is
  whether there was none.\<close>

fun tx_dgram :: "'a svstate_scheme so_calls \<Rightarrow> addr \<Rightarrow> addr list \<Rightarrow> 'a svstate_scheme \<Rightarrow> (bool \<times> 'a svstate_scheme) option" where
  "tx_dgram cl so [] s = Some (True, s)"
| "tx_dgram cl so (m # ms) s = do {
     (rc, s) \<leftarrow> app_glue_sendto cl so (rte_pktmbuf_mtod (rmb s m)) (uint (data_len (rmb s m))) m s;
     if rc < 0
     then do {
       let s = tally (\<lambda>u. u\<lparr> user_on_tx_opportunity_api_failed :=
         user_on_tx_opportunity_api_failed u + of_nat (length (m # ms)) \<rparr>) s;
       s \<leftarrow> free_bufs (m # ms) s;
       Some (False, s)
     }
     else tx_dgram cl so ms (tally (\<lambda>u. u\<lparr> user_on_tx_opportunity_mbufs_sent := user_on_tx_opportunity_mbufs_sent u + 1 \<rparr>) s)
   }"

definition nothing_to_tx :: "bool \<Rightarrow> nat \<Rightarrow> 'a svstate_scheme \<Rightarrow> 'a svstate_scheme" where
  "nothing_to_tx junk i s =
     tally (\<lambda>u. u\<lparr> user_on_tx_opportunity_api_nothing_to_tx := user_on_tx_opportunity_api_nothing_to_tx u + 1 \<rparr>)
       (snd (service_mark_writable junk i s))"

partial_function (option) tx_loop_stream ::
  "bool \<Rightarrow> 'a svstate_scheme so_calls \<Rightarrow> addr \<Rightarrow> nat \<Rightarrow> 'a svstate_scheme \<Rightarrow> 'a svstate_scheme option" where
  "tx_loop_stream junk cl so i s = do {
     let (ring_entries, s) = service_tx_buf_count i s;
     if ring_entries = 0 then Some (nothing_to_tx junk i s)
     else do {
       let (ms, s) = service_dequeue_tx_buf_burst i ring_entries s;
       s \<leftarrow> tx_stream cl so ms s;
       tx_loop_stream junk cl so i s
     }
   }"

partial_function (option) tx_loop_dgram ::
  "bool \<Rightarrow> 'a svstate_scheme so_calls \<Rightarrow> addr \<Rightarrow> nat \<Rightarrow> 'a svstate_scheme \<Rightarrow> 'a svstate_scheme option" where
  "tx_loop_dgram junk cl so i s = do {
     let (ring_entries, s) = service_tx_buf_count i s;
     if ring_entries = 0 then Some (nothing_to_tx junk i s)
     else do {
       let (ms, s) = service_dequeue_tx_buf_burst i ring_entries s;
       (ok, s) \<leftarrow> tx_dgram cl so ms s;
       if ok then tx_loop_dgram junk cl so i s else Some s
     }
   }"

definition service_on_transmission_opportunity ::
  "bool \<Rightarrow> 'a svstate_scheme so_calls \<Rightarrow> addr \<Rightarrow> nat option \<Rightarrow> 'a svstate_scheme \<Rightarrow> 'a svstate_scheme option" where
  "service_on_transmission_opportunity junk cl so gb s = do {
     let s = tally (\<lambda>u. u\<lparr> user_on_tx_opportunity_called := user_on_tx_opportunity_called u + 1 \<rparr>) s;
     case gb of
       None \<Rightarrow> Some s
     | Some i \<Rightarrow>
         if app_glue_get_socket_type so s = SOCK_STREAM then tx_loop_stream junk cl so i s
         else if app_glue_get_socket_type so s = SOCK_DGRAM then tx_loop_dgram junk cl so i s
         else Some s
   }"

section \<open>Receiving\<close>

text \<open>The loop that moves packets from the socket to the ring of the connection.  The result is
  whether the socket had nothing more and the room that is left on the ring.  Looking
  at the segments of a missing packet follows a null pointer.\<close>

fun rx_loop ::
  "('a svstate_scheme \<Rightarrow> (int \<times> addr option \<times> 'a svstate_scheme) option) \<Rightarrow> nat \<Rightarrow> nat \<Rightarrow> 'a svstate_scheme \<Rightarrow>
   (bool \<times> nat \<times> 'a svstate_scheme) option" where
  "rx_loop receive i 0 s = Some (False, 0, s)"
| "rx_loop receive i (Suc ring_free) s = do {
     (rc, buf, s) \<leftarrow> receive s;
     if rc \<noteq> 0 then Some (True, Suc ring_free, s)
     else do {
       m \<leftarrow> buf;
       let segs = ucast (nb_segs (rmb s m));
       let (full, s) = service_submit_rx_buf m i s;
       if full then do { s \<leftarrow> rte_pktmbuf_free (Some m) s; Some (False, ring_free, s) }
       else rx_loop receive i ring_free (tally (\<lambda>u. u\<lparr> user_rx_mbufs := user_rx_mbufs u + segs \<rparr>) s)
     }
   }"

text \<open>A null socket is followed, and for a socket of another type the room on the ring is an
  uninitialised variable.\<close>

definition user_data_available_cbk ::
  "'a svstate_scheme so_calls \<Rightarrow> addr option \<Rightarrow> nat option \<Rightarrow> 'a svstate_scheme \<Rightarrow> 'a svstate_scheme option" where
  "user_data_available_cbk cl so gb s =
     (case gb of
        None \<Rightarrow> Some s
      | Some i \<Rightarrow> do {
          so \<leftarrow> so;
          receive \<leftarrow> (if app_glue_get_socket_type so s = SOCK_STREAM then Some (app_glue_receive cl so)
                     else if app_glue_get_socket_type so s = SOCK_DGRAM then Some (app_glue_receivefrom cl so)
                     else None);
          (exhausted, ring_free, s) \<leftarrow> rx_loop receive i (unat (service_rx_buf_free_count i s)) s;
          let s = (if exhausted
            then tally (\<lambda>u. u\<lparr> user_on_rx_opportunity_called_exhausted := user_on_rx_opportunity_called_exhausted u + 1 \<rparr>) s
            else s);
          Some (if \<not> exhausted \<and> ring_free = 0 then service_mark_readable i s else s)
        })"

text \<open>An accepted connection is posted to the descriptor of the listening socket; \<^term>\<open>peer\<close> gives the
  address of the other side.\<close>

definition notify_app_about_accepted_sock ::
  "(addr \<Rightarrow> u32 \<times> u16) \<Rightarrow> addr \<Rightarrow> nat option \<Rightarrow> 'a svstate_scheme \<Rightarrow> 'a svstate_scheme option" where
  "notify_app_about_accepted_sock peer so2 parent_descriptor s =
     (case service_get_free_command_buf s of
        (None, s) \<Rightarrow> Some s
      | (Some c, s) \<Rightarrow> do {
          let s = s\<lparr> commands := (commands s)(c := (commands s c)
            \<lparr> cmd := SERVICE_SOCKET_ACCEPTED_COMMAND (Some so2) (fst (peer so2)) (snd (peer so2)) \<rparr>) \<rparr>;
          i \<leftarrow> parent_descriptor;
          Some (service_post_accepted c i s)
        })"

section \<open>Commands\<close>

definition cmd_open_socket ::
  "'a svstate_scheme so_calls \<Rightarrow> service_cmd \<Rightarrow> int \<Rightarrow> int \<Rightarrow> int \<Rightarrow> 'a svstate_scheme \<Rightarrow> 'a svstate_scheme option" where
  "cmd_open_socket cl c family type pid s = do {
     (sock, s) \<leftarrow> app_glue_create_socket cl family type s;
     case sock of
       None \<Rightarrow> Some s
     | Some so \<Rightarrow> do {
         let i = unat (ringset_idx c);
         let s = upd_sat i (\<lambda>d. d\<lparr> sat_ringset_idx := uint (ringset_idx c), sat_parent_idx := parent_idx c, apppid := pid \<rparr>) s;
         let s = app_glue_set_glueing_block (Some so) (Some i) s;
         let s = upd_sat i (\<lambda>d. d\<lparr> sat_socket := Some so \<rparr>) s;
         Some (user_set_socket_tx_space i (app_glue_get_sock_snd_buf_space so s) s)
       }
   }"

definition cmd_close :: "'a svstate_scheme so_calls \<Rightarrow> service_cmd \<Rightarrow> 'a svstate_scheme \<Rightarrow> 'a svstate_scheme option" where
  "cmd_close cl c s =
     (let i = unat (ringset_idx c)
      in case sat_socket (socket_satelite_data s i) of
           None \<Rightarrow> Some s
         | Some so \<Rightarrow> do {
             s \<leftarrow> app_glue_close_socket cl so s;
             let s = upd_sat i (\<lambda>d. d\<lparr> sat_socket := None, sat_ringset_idx := -1, sat_parent_idx := -1 \<rparr>) s;
             let s = service_free_socket i s;
             Some (tally (\<lambda>u. u\<lparr> user_sockets_closed := user_sockets_closed u + 1 \<rparr>) s)
           })"

definition cmd_set_ring ::
  "bool \<Rightarrow> 'a svstate_scheme so_calls \<Rightarrow> service_cmd \<Rightarrow> addr option \<Rightarrow> int \<Rightarrow> 'a svstate_scheme \<Rightarrow> 'a svstate_scheme option" where
  "cmd_set_ring junk cl c descr pid s = do {
     let i = unat (ringset_idx c);
     let s = upd_sat i (\<lambda>d. d\<lparr> sat_ringset_idx := uint (ringset_idx c) \<rparr>) s;
     let s = (if parent_idx c \<noteq> -1 then upd_sat i (\<lambda>d. d\<lparr> sat_parent_idx := parent_idx c \<rparr>) s else s);
     let s = upd_sat i (\<lambda>d. d\<lparr> apppid := pid \<rparr>) s;
     let s = app_glue_set_glueing_block descr (Some i) s;
     let s = upd_sat i (\<lambda>d. d\<lparr> sat_socket := descr \<rparr>) s;
     so \<leftarrow> descr;
     let s = user_set_socket_tx_space i (app_glue_get_sock_snd_buf_space so s) s;
     s \<leftarrow> user_data_available_cbk cl (Some so) (Some i) s;
     let s = snd (service_mark_writable junk i s);
     let s = service_mark_readable i s;
     Some (tally (\<lambda>u. u\<lparr> user_client_app_accepted := user_client_app_accepted u + 1 \<rparr>) s)
   }"

definition cmd_set_select ::
  "bool \<Rightarrow> 'a svstate_scheme so_calls \<Rightarrow> service_cmd \<Rightarrow> int \<Rightarrow> int \<Rightarrow> 'a svstate_scheme \<Rightarrow> 'a svstate_scheme option" where
  "cmd_set_select junk cl c sel pid s = do {
     let i = unat (ringset_idx c);
     let s = upd_sat i (\<lambda>d. d\<lparr> sat_parent_idx := sel, apppid := pid \<rparr>) s;
     s \<leftarrow> user_data_available_cbk cl (sat_socket (socket_satelite_data s i)) (Some i) s;
     let s = snd (service_mark_writable junk i s);
     Some (service_mark_readable i s)
   }"

definition cmd_connect_client :: "service_cmd \<Rightarrow> 'a svstate_scheme \<Rightarrow> 'a svstate_scheme" where
  "cmd_connect_client c s =
     (let i = unat (ringset_idx c)
      in if SERVICE_CLIENTS_POOL_SIZE \<le> i \<or> client_busy s i then s
         else s\<lparr> service_clients_list_head := service_clients_list_head s @ [i], client_busy := (client_busy s)(i := True) \<rparr>)"

definition cmd_disconnect_client :: "service_cmd \<Rightarrow> 'a svstate_scheme \<Rightarrow> 'a svstate_scheme" where
  "cmd_disconnect_client c s =
     (let i = unat (ringset_idx c)
      in if SERVICE_CLIENTS_POOL_SIZE \<le> i \<or> \<not> client_busy s i then s
         else s\<lparr> service_clients_list_head := remove1 i (service_clients_list_head s), client_busy := (client_busy s)(i := False) \<rparr>)"

text \<open>What the commands need from outside: the protocols, \<^verbatim>\<open>sosetopt\<close>, and what \<^verbatim>\<open>app_glue_v4_connect\<close> reads of an
  uninitialised port and of the random numbers.\<close>

record 's service_env =
  env_calls :: "'s so_calls"
  env_setopt :: "addr \<Rightarrow> int \<Rightarrow> int \<Rightarrow> int \<Rightarrow> 8 word list \<Rightarrow> 's \<Rightarrow> 's"
  env_my_port :: u16
  env_random :: "nat \<Rightarrow> u16"
  env_junk :: bool

definition run_command ::
  "'a svstate_scheme service_env \<Rightarrow> service_cmd \<Rightarrow> 'a svstate_scheme \<Rightarrow> 'a svstate_scheme option" where
  "run_command env c s =
     (let cl = service_calls (env_junk env) (env_calls env);
          i = unat (ringset_idx c);
          socket = sat_socket (socket_satelite_data s i)
      in case cmd c of
           SERVICE_OPEN_SOCKET_COMMAND family type pid \<Rightarrow> cmd_open_socket cl c family type pid s
         | SERVICE_SOCKET_CONNECT_BIND_COMMAND ipaddr prt is_connect \<Rightarrow>
             (case socket of
                None \<Rightarrow> Some s
              | Some so \<Rightarrow>
                  if is_connect
                  then map_option snd (app_glue_v4_connect cl (env_my_port env) (env_random env) so ipaddr prt s)
                  else map_option snd (app_glue_v4_bind cl so ipaddr prt s))
         | SERVICE_LISTEN_SOCKET_COMMAND \<Rightarrow> do { so \<leftarrow> socket; map_option snd (app_glue_v4_listen cl so s) }
         | SERVICE_SOCKET_CLOSE_COMMAND \<Rightarrow> cmd_close cl c s
         | SERVICE_SOCKET_TX_KICK_COMMAND \<Rightarrow>
             (case socket of
                None \<Rightarrow> Some s
              | Some so \<Rightarrow>
                  let s = tally (\<lambda>u. u\<lparr> user_kick_tx := user_kick_tx u + 1 \<rparr>) s
                  in service_on_transmission_opportunity (env_junk env) cl so (app_glue_get_glueing_block (Some so) s) s)
         | SERVICE_SOCKET_RX_KICK_COMMAND \<Rightarrow>
             (case socket of
                None \<Rightarrow> Some s
              | Some so \<Rightarrow>
                  user_data_available_cbk cl (Some so) (Some i) (tally (\<lambda>u. u\<lparr> user_kick_rx := user_kick_rx u + 1 \<rparr>) s))
         | SERVICE_SET_SOCKET_RING_COMMAND descr pid \<Rightarrow> cmd_set_ring (env_junk env) cl c descr pid s
         | SERVICE_SET_SOCKET_SELECT_COMMAND sel pid \<Rightarrow> cmd_set_select (env_junk env) cl c sel pid s
         | SERVICE_SOCKET_TX_POOL_EMPTY_COMMAND \<Rightarrow>
             app_glue_process_tx_empty (\<lambda>d n s. do { d \<leftarrow> d; Some (user_set_socket_tx_space d n s) }) socket s
         | SERVICE_CONNECT_CLIENT \<Rightarrow> Some (cmd_connect_client c s)
         | SERVICE_DISCONNECT_CLIENT \<Rightarrow> Some (cmd_disconnect_client c s)
         | SERVICE_SETSOCKOPT_COMMAND level optname optlen optval \<Rightarrow>
             Some (case socket of None \<Rightarrow> s | Some so \<Rightarrow> env_setopt env so level optname optlen optval s)
         | SERVICE_SOCKET_SHUTDOWN_COMMAND how \<Rightarrow>
             (case socket of
                None \<Rightarrow> Some s
              | Some so \<Rightarrow> do {
                  (_, s) \<leftarrow> soshutdown cl so how s;
                  Some (tally (\<lambda>u. u\<lparr> user_sockets_shutdown := user_sockets_shutdown u + 1 \<rparr>) s)
                })
         | SERVICE_SOCKET_DECLINE_COMMAND descr \<Rightarrow> do {
             so \<leftarrow> descr;
             s \<leftarrow> app_glue_close_socket cl so s;
             Some (tally (\<lambda>u. u\<lparr> user_sockets_closed := user_sockets_closed u + 1 \<rparr>) s)
           }
         | _ \<Rightarrow> Some s)"

definition process_commands :: "'a svstate_scheme service_env \<Rightarrow> 'a svstate_scheme \<Rightarrow> 'a svstate_scheme option" where
  "process_commands env s =
     (case service_dequeue_command_buf s of
        (None, s) \<Rightarrow> Some s
      | (Some c, s) \<Rightarrow> do {
          s \<leftarrow> run_command env (commands s c) s;
          Some (service_free_command_buf c s)
        })"

section \<open>The main loop\<close>

text \<open>The sockets that wait for transmit buffers; \<^term>\<open>buffer_count\<close> is the number of free buffers.\<close>

partial_function (option) serve_waiters ::
  "bool \<Rightarrow> ('a svstate_scheme \<Rightarrow> int) \<Rightarrow> 'a svstate_scheme \<Rightarrow> 'a svstate_scheme option" where
  "serve_waiters junk buffer_count s =
     (if app_glue_is_buffers_available_waiters_empty s \<or> buffer_count s \<le> 0 then Some s
      else do {
        d \<leftarrow> app_glue_get_first_buffers_available_waiter s;
        i \<leftarrow> d;
        so \<leftarrow> sat_socket (socket_satelite_data s i);
        let s = (if app_glue_get_socket_type so s = SOCK_DGRAM
          then user_set_socket_tx_space i (app_glue_get_sock_snd_buf_space so s) s else s);
        let (again, s) = service_mark_writable junk i s;
        if again then Some s
        else serve_waiters junk buffer_count (app_glue_remove_first_buffer_available_waiter so s)
      })"

text \<open>One round; \<^term>\<open>periodic\<close> is \<^verbatim>\<open>app_glue_periodic\<close> with the port that is polled.\<close>

definition service_round ::
  "'a svstate_scheme service_env \<Rightarrow> ('a svstate_scheme \<Rightarrow> 'a svstate_scheme option) \<Rightarrow> ('a svstate_scheme \<Rightarrow> int) \<Rightarrow>
   'a svstate_scheme \<Rightarrow> 'a svstate_scheme option" where
  "service_round env periodic buffer_count s = do {
     s \<leftarrow> process_commands env s;
     s \<leftarrow> periodic s;
     serve_waiters (env_junk env) buffer_count s
   }"

section \<open>The send buffer as a byte stream\<close>

text \<open>Reporting transmit space touches the shared memory only.\<close>

lemma shared_only:
  "mbufs (upd_gs r f s) = mbufs s" "mbufs (tally g s) = mbufs s" "mbufs (signal_app i s) = mbufs s"
  "mbufs (snd (post_ready i ev s)) = mbufs s"
  "dmem (upd_gs r f s) = dmem s" "dmem (tally g s) = dmem s" "dmem (signal_app i s) = dmem s"
  "dmem (snd (post_ready i ev s)) = dmem s"
  "mbuf_inv M U used e (upd_gs r f s) = mbuf_inv M U used e s" "mbuf_inv M U used e (tally g s) = mbuf_inv M U used e s"
  "mbuf_inv M U used e (signal_app i s) = mbuf_inv M U used e s"
  "mbuf_inv M U used e (snd (post_ready i ev s)) = mbuf_inv M U used e s"
  by (simp_all add: upd_gs_def tally_def signal_app_def post_ready_def Let_def mbuf_inv_def holders_def rmb_inv_def
      pools_ok_def split: prod.splits)

lemma reflect_shared_only:
  "mbufs (service_reflect_tx_socket_buf junk so n s) = mbufs s"
  "dmem (service_reflect_tx_socket_buf junk so n s) = dmem s"
  "mbuf_inv M U used e (service_reflect_tx_socket_buf junk so n s) = mbuf_inv M U used e s"
  by (simp_all add: service_reflect_tx_socket_buf_def service_mark_writable_def Let_def case_prod_beta shared_only
      split: option.splits)

interpretation snd_buf: tx_reflection "service_reflect_tx_socket_buf junk"
  by unfold_locales (simp_all add: reflect_shared_only)

lemma stream_of_record:
  assumes "sbq sb rs s" "length rs \<le> 1"
  shows "rs = stream_of (concat rs)"
  using assms by (cases rs) (auto simp: stream_of_def sbq_def records_def)

text \<open>C4. The send buffer of a stream socket is a queue of bytes.  Appending an mbuf chain puts its
  bytes behind those of the buffer, dropping takes bytes off the front, and
  dropping more than there are is the panic of the source.  Each operation keeps the buffer
  well formed with counters that match, frees exactly the mbufs that leave
  the buffer, and returns.\<close>

theorem send_buffer_refines_stream:
  assumes q: "sbq sb (stream_of bs) s" "set bs \<subseteq> used" "mbuf_inv M U used e s"
  shows "(mchain s (Some m) as \<and> distinct (bs @ as) \<and> set as \<subseteq> used \<and>
      (\<forall>a\<in>set as. \<not> has_flag M_EXT (mbufs s a) \<and> \<not> has_flag M_EOR (mbufs s a) \<and> m_nextpkt (mbufs s a) = None) \<longrightarrow>
      (\<exists>sb' t bs'. sbappendstream (service_reflect_tx_socket_buf junk) m (sb, s) = Some (sb', t) \<and>
         sbq sb' (stream_of bs') t \<and> same_limits sb sb' \<and> cbytes t bs' = cbytes s bs @ cbytes s as \<and>
         mbuf_inv M U (used - (set as - set bs')) e t)) \<and>
    (0 \<le> len \<and> len \<le> clen s bs \<longrightarrow>
      (\<exists>sb' t bs'. sbdrop (service_reflect_tx_socket_buf junk) len (sb, s) = Some (sb', t) \<and>
         sbq sb' (stream_of bs') t \<and> same_limits sb sb' \<and> cbytes t bs' = drop (nat len) (cbytes s bs) \<and>
         mbuf_inv M U (used - (set bs - set bs')) e t)) \<and>
    (clen s bs < len \<longrightarrow> sbdrop (service_reflect_tx_socket_buf junk) len (sb, s) = None)"
proof (intro conjI impI)
  assume new: "mchain s (Some m) as \<and> distinct (bs @ as) \<and> set as \<subseteq> used \<and>
      (\<forall>a\<in>set as. \<not> has_flag M_EXT (mbufs s a) \<and> \<not> has_flag M_EOR (mbufs s a) \<and> m_nextpkt (mbufs s a) = None)"
  then obtain sb' t where t: "sbappendstream (service_reflect_tx_socket_buf junk) m (sb, s) = Some (sb', t)"
    "sbq sb' (stream_of (bs @ nonempty s as)) t" "same_limits sb sb'" "mbuf_inv M U (used - empties s as) e t"
    "cbytes t (bs @ nonempty s as) = cbytes s bs @ cbytes s as"
    using snd_buf.sbappendstream_spec [OF q(1), of m as used M U e junk] q(3) by blast
  have "set as - set (bs @ nonempty s as) = empties s as" using new by auto
  then show "\<exists>sb' t bs'. sbappendstream (service_reflect_tx_socket_buf junk) m (sb, s) = Some (sb', t) \<and>
         sbq sb' (stream_of bs') t \<and> same_limits sb sb' \<and> cbytes t bs' = cbytes s bs @ cbytes s as \<and>
         mbuf_inv M U (used - (set as - set bs')) e t"
    using t by (intro exI [of _ sb'] exI [of _ t] exI [of _ "bs @ nonempty s as"]) simp
next
  assume len: "0 \<le> len \<and> len \<le> clen s bs"
  obtain sb' t rs' gone where d: "sbdrop (service_reflect_tx_socket_buf junk) len (sb, s) = Some (sb', t)"
    "bs = gone @ concat rs'" "length rs' \<le> length (stream_of bs)" "sbq sb' rs' t" "same_limits sb sb'"
    "mbuf_inv M U (used - set gone) e t" "sbytes t rs' = drop (nat len) (sbytes s (stream_of bs))"
    using snd_buf.sbdrop_spec [OF q(1) _ q(3), of len junk] q(2) len by auto
  have "distinct bs" using q(1) by (simp add: sbq_def records_def)
  then have "set bs - set (concat rs') = set gone" using d(2) by auto
  moreover have "rs' = stream_of (concat rs')" using d(3) by (intro stream_of_record [OF d(4)]) (simp add: stream_of_def split: if_splits)
  ultimately show "\<exists>sb' t bs'. sbdrop (service_reflect_tx_socket_buf junk) len (sb, s) = Some (sb', t) \<and>
         sbq sb' (stream_of bs') t \<and> same_limits sb sb' \<and> cbytes t bs' = drop (nat len) (cbytes s bs) \<and>
         mbuf_inv M U (used - (set bs - set bs')) e t"
    using d by (metis concat_stream_of sbytes_def)
next
  assume "clen s bs < len"
  then show "sbdrop (service_reflect_tx_socket_buf junk) len (sb, s) = None"
    using snd_buf.sbdrop_panic [OF q(1)] by simp
qed

text \<open>Flushing a send buffer frees every mbuf that is queued in it, whatever the number of records,
  and leaves an empty buffer with the same limits.\<close>

theorem flush_frees_everything:
  assumes "sbq sb rs s" "set (concat rs) \<subseteq> used" "mbuf_inv M U used e s"
    and "clen s (concat rs) < 2 ^ 31" "length (concat rs) < 2 ^ 52"
  shows "\<exists>sb' t. sbflush (service_reflect_tx_socket_buf junk) (sb, s) = Some (sb', t) \<and> sbq sb' [] t \<and>
    same_limits sb sb' \<and> mbuf_inv M U (used - set (concat rs)) e t"
  using snd_buf.sbflush_spec [OF assms] by blast

section \<open>Concrete states\<close>

definition empty_ring :: "'a \<Rightarrow> 'a rte_ring" where
  "empty_ring x = \<lparr> r_flags = RING_F_SP_ENQ OR RING_F_SC_DEQ,
     r_prod = \<lparr> p_watermark = 1, p_sp_enqueue = 1, p_size = 4, p_mask = 3, p_head = 0, p_tail = 0 \<rparr>,
     r_cons = \<lparr> c_sc_dequeue = 2, c_size = 4, c_mask = 3, c_head = 0, c_tail = 0 \<rparr>, r_ring = replicate 4 x \<rparr>"

definition idle_svstate :: "rte_state \<Rightarrow> svstate" where
  "idle_svstate rs = \<lparr> rmb = rmb rs, rpool = rpool rs, elt_size = elt_size rs, virt2phy = virt2phy rs, rlcore = 0,
     mbufs = (\<lambda>_. blank_mbuf), dmem = of_nat, mb_cache = rpool (bufs_pooled []) 0, mb_data = 0, mcl_cache = 0,
     get_mbuf_called = 0, get_mbuf_failed = 0, mbuf_free_called = 0, max_protohdr = 40,
     MCFail = 0, MPFail = 0, MSFail = 0, sb_max = 262144, sb_max_adj = 200000,
     sockets = (\<lambda>_. idle_socket), socket_cache = small_pool, protosws = (\<lambda>_. \<lparr> pr_type = 1, pr_flags = 0 \<rparr>),
     t_state = Map.empty, somaxconn = 128, read_ready_socket_list_head = [], read_sockets_queue_len = 0,
     closed_socket_list_head = [], write_ready_socket_list_head = [], write_sockets_queue_len = 0,
     accept_ready_socket_list_head = [], buffers_available_notification_socket_list_head = [],
     mbufs_allocated_for_tx = 0, mbufs_freed_for_rx = 0,
     socket_satelite_data = (\<lambda>_. \<lparr> sat_socket = None, sat_ringset_idx = -1, sat_parent_idx = -1,
       tx_ring = empty_ring 0, rx_ring = empty_ring 0, apppid = 0 \<rparr>),
     g_service_sockets = (\<lambda>i. \<lparr> connection_idx = nat i, read_ready_to_app = 0, write_ready_to_app = 0,
       write_done_from_app = 0, local_ipaddr = 0, local_port = 0, tx_space = 0 \<rparr>),
     g_service_selectors = (\<lambda>_. empty_ring 0), command_ring = empty_ring 0,
     commands = (\<lambda>_. \<lparr> cmd = SERVICE_DUMMY_COMMAND, ringset_idx = 0, parent_idx = -1 \<rparr>), free_command_pool = small_pool,
     free_connections_ring = empty_ring 0, free_clients_ring = empty_ring 0, selectors_ring = empty_ring 0,
     client_busy = (\<lambda>_. False), service_clients_list_head = [], kills = [],
     stats = \<lparr> user_on_tx_opportunity_called = 0, user_on_tx_opportunity_api_nothing_to_tx = 0,
       user_on_tx_opportunity_api_failed = 0, user_on_tx_opportunity_mbufs_sent = 0,
       user_on_rx_opportunity_called_exhausted = 0, user_rx_mbufs = 0, user_kick_tx = 0, user_kick_rx = 0,
       user_kick_select_rx = 0, user_kick_select_tx = 0, user_client_app_accepted = 0, user_pending_accept = 0,
       user_sockets_closed = 0, user_sockets_shutdown = 0 \<rparr> \<rparr>"

text \<open>A send buffer with an mbuf of three bytes, and an mbuf of five bytes that is not in it.\<close>

definition three_bytes :: svstate where
  "three_bytes =
     upd_m 10 (\<lambda>b. b\<lparr> m_data := 100, m_len := 3 \<rparr>) (upd_m 20 (\<lambda>b. b\<lparr> m_data := 200, m_len := 5 \<rparr>) (idle_svstate two_bufs))"

definition three_bytes_buf :: sockbuf where
  "three_bytes_buf = (empty_sockbuf 50)\<lparr> sb_cc := 3, sb_mbcnt := of_int MSIZE, sb_mb := Some 10, sb_mbtail := Some 10,
     sb_lastrecord := Some 10 \<rparr>"

lemma three_bytes_facts:
  "sbq three_bytes_buf [[10]] three_bytes" "mbuf_inv {10, 20} {1000, 4000} {10, 20} (\<lambda>_. 0) three_bytes"
  "mchain three_bytes (Some 20) [20]" "cbytes three_bytes [10] = [100, 101, 102]" "clen three_bytes [10] = 3"
  "cbytes three_bytes [20] = [200, 201, 202, 203, 204]"
proof -
  note defs = three_bytes_def three_bytes_buf_def idle_svstate_def empty_sockbuf_def blank_mbuf_def upd_m_def
  show "sbq three_bytes_buf [[10]] three_bytes" "mchain three_bytes (Some 20) [20]"
    "cbytes three_bytes [10] = [100, 101, 102]" "clen three_bytes [10] = 3"
    "cbytes three_bytes [20] = [200, 201, 202, 203, 204]"
    by (simp_all add: defs sbq_def records_def counted_def mchain_def clen_def cbytes_def mbytes_def mem_read_def
        has_flag_def upt_rec)
  have "rmb_inv {1000, 4000} (\<lambda>_. 0) three_bytes"
    by (rule rmb_inv_cong [OF two_bufs_facts(1)]) (simp_all add: defs)
  moreover have "holders {10, 20} three_bytes p = {}" for p by (auto simp: holders_def defs)
  ultimately show "mbuf_inv {10, 20} {1000, 4000} {10, 20} (\<lambda>_. 0) three_bytes"
    by (auto simp: mbuf_inv_def bufs_pooled_pool) (simp_all add: defs bufs_pooled_pool)
qed

theorem send_buffer_refines_stream_witness:
  "(\<exists>sb t bs. sbappendstream (service_reflect_tx_socket_buf False) 20 (three_bytes_buf, three_bytes) = Some (sb, t) \<and>
      cbytes t bs = [100, 101, 102, 200, 201, 202, 203, 204]) \<and>
   (\<exists>sb t bs. sbdrop (service_reflect_tx_socket_buf False) 2 (three_bytes_buf, three_bytes) = Some (sb, t) \<and>
      cbytes t bs = [102]) \<and>
   sbdrop (service_reflect_tx_socket_buf False) 4 (three_bytes_buf, three_bytes) = None"
proof -
  note w = three_bytes_facts
  have q: "sbq three_bytes_buf (stream_of [10]) three_bytes" using w(1) by (simp add: stream_of_def)
  have new: "\<not> has_flag M_EXT (mbufs three_bytes 20) \<and> \<not> has_flag M_EOR (mbufs three_bytes 20) \<and>
      m_nextpkt (mbufs three_bytes 20) = None"
    by (simp add: three_bytes_def has_flag_def idle_svstate_def blank_mbuf_def)
  note main = send_buffer_refines_stream [OF q _ w(2), where junk = False]
  show ?thesis
    using main [of 20 "[20]" 2] main [of 20 "[20]" 4] new w by (auto simp del: cbytes_Cons clen_Cons)
qed

theorem flush_frees_everything_witness:
  "\<exists>sb t. sbflush (service_reflect_tx_socket_buf False) (three_bytes_buf, three_bytes) = Some (sb, t) \<and> sbq sb [] t"
  using flush_frees_everything [OF three_bytes_facts(1) _ three_bytes_facts(2)] three_bytes_facts(5) by fastforce

end
