(* ===== verification/Service_Rings.thy ===== *)
theory Service_Rings
  imports Service_Loop
begin

unbundle bit_operations_syntax

text \<open>
  What the service and the applications can rely on when they talk through the rings: a packet that is
  handed over is announced, a transmission opportunity empties the ring of a connection in order, the
  initialisation of the shared memory, and what is left of a connection after it is closed.
\<close>

section \<open>Single producers and consumers\<close>

lemma rte_ring_sp_enqueue_bulk_eq: "rte_ring_sp_enqueue_bulk r tbl n = rte_ring_enqueue_bulk r tbl n"
  by (simp add: rte_ring_sp_enqueue_bulk_def rte_ring_enqueue_bulk_def rte_ring_mp_enqueue_bulk_def mp_do_enqueue_alone)

lemma rte_ring_sc_dequeue_bulk_eq: "rte_ring_sc_dequeue_bulk r n = rte_ring_dequeue_bulk r n"
  by (simp add: rte_ring_sc_dequeue_bulk_def rte_ring_dequeue_bulk_def rte_ring_mc_dequeue_bulk_def mc_do_dequeue_alone)

section \<open>Handing over a received packet\<close>

lemma gs_simps [simp]:
  "socket_satelite_data (upd_sat i f s) = (socket_satelite_data s)(i := f (socket_satelite_data s i))"
  "g_service_sockets (upd_sat i f s) = g_service_sockets s" "g_service_selectors (upd_sat i f s) = g_service_selectors s"
  "socket_satelite_data (upd_gs r g s) = socket_satelite_data s"
  "g_service_sockets (upd_gs r g s) = (g_service_sockets s)(r := g (g_service_sockets s r))"
  "g_service_selectors (upd_gs r g s) = g_service_selectors s"
  "socket_satelite_data (tally h s) = socket_satelite_data s" "g_service_sockets (tally h s) = g_service_sockets s"
  "g_service_selectors (tally h s) = g_service_selectors s"
  "socket_satelite_data (signal_app i s) = socket_satelite_data s" "g_service_sockets (signal_app i s) = g_service_sockets s"
  "g_service_selectors (signal_app i s) = g_service_selectors s"
  "socket_satelite_data (snd (post_ready i ev s)) = socket_satelite_data s"
  "g_service_sockets (snd (post_ready i ev s)) = g_service_sockets s"
  by (simp_all add: upd_sat_def upd_gs_def tally_def signal_app_def post_ready_def Let_def split: prod.splits)

text \<open>The entry that announces an event of connection \<^term>\<open>r\<close>.\<close>

definition ready_entry :: "int \<Rightarrow> u32 \<Rightarrow> u32" where
  "ready_entry r ev = of_int r OR push_bit SOCKET_READY_SHIFT ev"

lemma post_ready_contents:
  assumes "ring_inv (g_service_selectors s (sat_parent_idx (socket_satelite_data s i)))"
    and "ring_used (g_service_selectors s (sat_parent_idx (socket_satelite_data s i))) <
      ring_capacity (g_service_selectors s (sat_parent_idx (socket_satelite_data s i)))"
  shows "ring_contents (g_service_selectors (snd (post_ready i ev s)) (sat_parent_idx (socket_satelite_data s i))) =
    ring_contents (g_service_selectors s (sat_parent_idx (socket_satelite_data s i))) @
      [ready_entry (sat_ringset_idx (socket_satelite_data s i)) ev]"
  using assms by (simp add: post_ready_def Let_def rte_ring_enqueue_room ready_entry_def ring_push_contents)

lemma mark_readable_flag:
  assumes "sat_parent_idx (socket_satelite_data s i) \<noteq> -1"
  shows "read_ready_to_app (g_service_sockets (service_mark_readable i s) (sat_ringset_idx (socket_satelite_data s i))) \<noteq> 0"
    "socket_satelite_data (service_mark_readable i s) = socket_satelite_data s"
  using assms by (simp_all add: service_mark_readable_def Let_def case_prod_beta)

lemma mark_readable_posts:
  assumes "sat_parent_idx (socket_satelite_data s i) = p" "sat_ringset_idx (socket_satelite_data s i) = r" "p \<noteq> -1"
    "read_ready_to_app (g_service_sockets s r) = 0" "ring_inv (g_service_selectors s p)"
    "ring_used (g_service_selectors s p) < ring_capacity (g_service_selectors s p)"
  shows "ring_contents (g_service_selectors (service_mark_readable i s) p) =
    ring_contents (g_service_selectors s p) @ [ready_entry r SOCKET_READABLE_BIT]"
  using assms post_ready_contents [of "upd_gs r (\<lambda>k. k\<lparr> read_ready_to_app := 1 \<rparr>) s" i SOCKET_READABLE_BIT]
  by (simp add: service_mark_readable_def Let_def case_prod_beta)

text \<open>A packet that the service hands to an application is never forgotten.  The receive ring of a connection has the water mark
  1, so the enqueue always reports that the mark is exceeded and the service marks the connection readable: with
  room on the ring the packet is appended, on a full ring the caller gets it back, and in
  both cases the readable flag of the connection is set.  When the flag was clear, the selector of the connection gets
  one entry that names the connection and the event.\<close>

theorem received_packet_announced:
  assumes d: "socket_satelite_data s i = d" "sat_parent_idx d = p" "sat_ringset_idx d = r" "p \<noteq> -1"
    and rx: "ring_inv (rx_ring d)" "ring_watermark (rx_ring d) = 1"
  shows "\<exists>t. service_submit_rx_buf m i s = (ring_used (rx_ring d) = ring_capacity (rx_ring d), t) \<and>
    ring_contents (rx_ring (socket_satelite_data t i)) =
      ring_contents (rx_ring d) @ (if ring_used (rx_ring d) = ring_capacity (rx_ring d) then [] else [m]) \<and>
    read_ready_to_app (g_service_sockets t r) \<noteq> 0 \<and>
    (read_ready_to_app (g_service_sockets s r) = 0 \<and> ring_inv (g_service_selectors s p) \<and>
      ring_used (g_service_selectors s p) < ring_capacity (g_service_selectors s p) \<longrightarrow>
      ring_contents (g_service_selectors t p) = ring_contents (g_service_selectors s p) @ [ready_entry r SOCKET_READABLE_BIT])"
proof -
  let ?full = "ring_used (rx_ring d) = ring_capacity (rx_ring d)"
  define rx' where "rx' = (if ?full then rx_ring d else ring_push (rx_ring d) [m])"
  define rc where "rc = (if ?full then - ENOBUFS else - EDQUOT)"
  define u where "u = upd_sat i (\<lambda>d. d\<lparr> rx_ring := rx' \<rparr>) s"
  have used: "ring_used (rx_ring d) \<le> ring_capacity (rx_ring d)" using rx(1) by (rule ring_inv_used)
  then have enq: "rte_ring_sp_enqueue_bulk (rx_ring d) [m] 1 = (rc, rx')"
    using rx rte_ring_enqueue_full [OF rx(1), of m] rte_ring_enqueue_room [OF rx(1), of m]
    unfolding rte_ring_sp_enqueue_bulk_eq rte_ring_enqueue_bulk_one [symmetric] rc_def rx'_def by auto
  have "service_submit_rx_buf m i s = (?full, service_mark_readable i u)"
    using enq d(1) by (simp add: service_submit_rx_buf_def u_def rc_def Let_def)
  moreover have u: "sat_parent_idx (socket_satelite_data u i) = p" "sat_ringset_idx (socket_satelite_data u i) = r"
    "rx_ring (socket_satelite_data u i) = rx'" "g_service_sockets u = g_service_sockets s" "g_service_selectors u = g_service_selectors s"
    using d by (simp_all add: u_def)
  moreover have "ring_contents rx' = ring_contents (rx_ring d) @ (if ?full then [] else [m])"
    using used rx(1) by (auto simp: rx'_def ring_push_contents)
  ultimately show ?thesis
    using mark_readable_flag [of u i] mark_readable_posts [of u i p r] d(4) by auto
qed

section \<open>Transmission\<close>

text \<open>The mbuf layer leaves the sockets and the shared memory alone.\<close>

lemma mstate_more_svstate:
  fixes s t :: "'a svstate_scheme"
  assumes "mstate.more t = mstate.more s"
  shows "socket_satelite_data t = socket_satelite_data s" "g_service_sockets t = g_service_sockets s"
    "g_service_selectors t = g_service_selectors s" "sockets t = sockets s"
  using assms by (cases s; cases t; simp)+

lemma more_m_devget: "mstate.more (snd (m_devget buf n off ifp d s)) = mstate.more s"
  by (simp add: m_devget_def mbuf_take_def Let_def split: prod.splits option.splits)

text \<open>A protocol does not touch the rings between the service and the applications.\<close>

definition protocol_keeps_rings :: "'a svstate_scheme so_calls \<Rightarrow> bool" where
  "protocol_keeps_rings cl \<longleftrightarrow>
     (\<forall>so req m nam ctl s e t. pr_usrreq cl so req m nam ctl s = Some (e, t) \<longrightarrow> socket_satelite_data t = socket_satelite_data s)"

lemma sat_upd_so [simp]: "socket_satelite_data (upd_so a f s) = socket_satelite_data s" "socket_satelite_data (set_state c g a s) = socket_satelite_data s"
  by (simp_all add: upd_so_def set_state_def)

lemma sat_m_freem: "m_freem p s = Some t \<Longrightarrow> socket_satelite_data t = socket_satelite_data s"
  for s t :: "'a svstate_scheme"
  using mstate_more_svstate(1) [OF more_m_freem] .

lemma sat_sosend:
  assumes "protocol_keeps_rings cl" "sosend cl so ad m c flags s = Some (e, t)"
  shows "socket_satelite_data t = socket_satelite_data s"
  using assms(2) by (auto simp: sosend_def Let_def bind_eq_Some_conv split: if_splits
      dest!: sat_m_freem assms(1) [unfolded protocol_keeps_rings_def, rule_format])

lemma sat_app_glue_send:
  assumes "protocol_keeps_rings cl" "app_glue_send cl so data n d s = Some (e, t)"
  shows "socket_satelite_data t = socket_satelite_data s"
proof -
  obtain m u where get: "m_devget data n 0 0 d s = (m, u)" by fastforce
  then have u: "socket_satelite_data u = socket_satelite_data s"
    using mstate_more_svstate(1) [OF more_m_devget, of data n 0 0 d s] by simp
  show ?thesis
  proof (cases m)
    case None
    then show ?thesis using assms(2) get u by (simp add: app_glue_send_def)
  next
    case (Some m0)
    then obtain v where "sosend cl so None m0 None 0 u = Some (e, v)" "socket_satelite_data t = socket_satelite_data v"
      using assms(2) get by (auto simp: app_glue_send_def bind_eq_Some_conv split: if_splits)
    then show ?thesis using sat_sosend [OF assms(1)] u by metis
  qed
qed

lemma sat_tx_stream:
  assumes "protocol_keeps_rings cl"
  shows "tx_stream cl so ms s = Some t \<Longrightarrow> socket_satelite_data t = socket_satelite_data s"
proof (induction ms arbitrary: s)
  case (Cons m ms)
  then obtain rc u where send: "app_glue_send cl so (rte_pktmbuf_mtod (rmb s m)) (uint (data_len (rmb s m))) m s = Some (rc, u)"
    and rest: "tx_stream cl so ms (if rc \<noteq> 0
       then tally (\<lambda>u. u\<lparr> user_on_tx_opportunity_api_failed := user_on_tx_opportunity_api_failed u + 1 \<rparr>) u
       else tally (\<lambda>u. u\<lparr> user_on_tx_opportunity_mbufs_sent := user_on_tx_opportunity_mbufs_sent u + 1 \<rparr>) u) = Some t"
    by (auto simp: bind_eq_Some_conv split: if_splits)
  show ?case using Cons.IH [OF rest] sat_app_glue_send [OF assms send] by (simp split: if_splits)
qed simp

lemma dequeue_tx_all:
  assumes r: "tx_ring (socket_satelite_data s i) = r" "ring_inv r" "ring_contents r \<noteq> []"
  shows "service_dequeue_tx_buf_burst i (rte_ring_count r) s =
    (ring_contents r, upd_sat i (\<lambda>d. d\<lparr> tx_ring := ring_pop r (ring_used r) \<rparr>) s)"
proof -
  let ?n = "rte_ring_count r"
  have n: "unat ?n = ring_used r" using r(2) by (rule rte_ring_count_used)
  have e: "unat (p_tail (r_prod r) - c_head (r_cons r)) = ring_used r" by (rule ring_used_word [OF r(2)])
  have lim: "ring_limit RTE_RING_QUEUE_VARIABLE ?n (p_tail (r_prod r) - c_head (r_cons r)) = Some ?n"
    using n e by (simp add: ring_limit_def word_less_nat_alt)
  have small: "ring_used r < 2 ^ 28"
    using ring_inv_used [OF r(2)] ring_capacity_bound [OF r(2)] by simp
  then have "sint ?n = int (ring_used r)"
    using n sint_small32 [of ?n] by simp
  then show ?thesis
    using sc_do_dequeue_some(3) [OF r(2) lim] r(1) n by (simp add: service_dequeue_tx_buf_burst_def)
qed

lemma sat_mark_writable [simp]: "socket_satelite_data (snd (service_mark_writable junk i s)) = socket_satelite_data s"
  by (simp add: service_mark_writable_def Let_def case_prod_beta)

lemma mark_writable_flag:
  "sat_parent_idx (socket_satelite_data s i) \<noteq> -1 \<Longrightarrow>
   write_ready_to_app (g_service_sockets (snd (service_mark_writable junk i s)) (sat_ringset_idx (socket_satelite_data s i))) \<noteq> 0"
  by (simp add: service_mark_writable_def Let_def case_prod_beta)

lemma tx_count_facts:
  "fst (service_tx_buf_count i s) = rte_ring_count (tx_ring (socket_satelite_data s i))"
  "socket_satelite_data (snd (service_tx_buf_count i s)) = socket_satelite_data s"
  by (simp_all add: service_tx_buf_count_def Let_def)

lemma nothing_to_tx_facts:
  "socket_satelite_data (nothing_to_tx junk i s) = socket_satelite_data s"
  "sat_parent_idx (socket_satelite_data s i) \<noteq> -1 \<Longrightarrow>
   write_ready_to_app (g_service_sockets (nothing_to_tx junk i s) (sat_ringset_idx (socket_satelite_data s i))) \<noteq> 0"
  using mark_writable_flag [of s i junk] by (simp_all add: nothing_to_tx_def)

text \<open>C14. A transmission opportunity on a stream connection sends everything that the application has queued, in the
  order in which it was queued, and then stops.  One turn of the outer loop takes all packet buffers off the transmit
  ring and hands each of them to the socket whether or not the one before was accepted; the second
  turn finds the ring empty and marks the connection writable, so the loop that is written without an exit condition
  always ends when the sends return.\<close>

theorem tx_opportunity_sends_all:
  assumes cl: "protocol_keeps_rings cl" and type: "so_type (sockets s so) = SOCK_STREAM"
    and r: "tx_ring (socket_satelite_data s i) = r" "ring_inv r" "ring_contents r \<noteq> []"
  shows "\<exists>s1. socket_satelite_data s1 = (socket_satelite_data s)(i := (socket_satelite_data s i)\<lparr> tx_ring := ring_pop r (ring_used r) \<rparr>) \<and>
    mstate.truncate s1 = mstate.truncate s \<and> sockets s1 = sockets s \<and>
    service_on_transmission_opportunity junk cl so (Some i) s =
      tx_stream cl so (ring_contents r) s1 \<bind> (\<lambda>t. Some (nothing_to_tx junk i (snd (service_tx_buf_count i t)))) \<and>
    (\<forall>t u. tx_stream cl so (ring_contents r) s1 = Some t \<and> service_on_transmission_opportunity junk cl so (Some i) s = Some u \<longrightarrow>
       ring_contents (tx_ring (socket_satelite_data u i)) = [] \<and>
       (sat_parent_idx (socket_satelite_data s i) \<noteq> -1 \<longrightarrow>
          write_ready_to_app (g_service_sockets u (sat_ringset_idx (socket_satelite_data s i))) \<noteq> 0))"
proof -
  define s0 where "s0 = snd (service_tx_buf_count i (tally (\<lambda>u. u\<lparr> user_on_tx_opportunity_called := user_on_tx_opportunity_called u + 1 \<rparr>) s))"
  define s1 where "s1 = upd_sat i (\<lambda>d. d\<lparr> tx_ring := ring_pop r (ring_used r) \<rparr>) s0"
  have s0: "socket_satelite_data s0 = socket_satelite_data s" "sockets s0 = sockets s" "mstate.truncate s0 = mstate.truncate s"
    by (simp_all add: s0_def tx_count_facts) (simp_all add: service_tx_buf_count_def Let_def tally_def upd_gs_def mstate.truncate_def)
  have s1: "socket_satelite_data s1 = (socket_satelite_data s)(i := (socket_satelite_data s i)\<lparr> tx_ring := ring_pop r (ring_used r) \<rparr>)"
    "sockets s1 = sockets s" "mstate.truncate s1 = mstate.truncate s"
    using s0 by (simp_all add: s1_def) (simp_all add: upd_sat_def mstate.truncate_def)
  have used: "ring_used r \<noteq> 0" using r(3) by (metis length_0_conv ring_contents_length)
  have popped: "ring_contents (ring_pop r (ring_used r)) = []" "ring_inv (ring_pop r (ring_used r))"
    using r(2) by (simp_all add: ring_pop_contents ring_pop_inv)
  have "rte_ring_count r \<noteq> 0" using rte_ring_count_used [OF r(2)] used by auto
  then have "service_on_transmission_opportunity junk cl so (Some i) s = tx_stream cl so (ring_contents r) s1 \<bind> tx_loop_stream junk cl so i"
    using type r(1) dequeue_tx_all [of s0 i r] r(2,3) s0(1)
    by (simp add: service_on_transmission_opportunity_def app_glue_get_socket_type_def tx_loop_stream.simps [of _ _ _ _ "tally _ _"]
        case_prod_beta tx_count_facts s0_def [symmetric] s1_def [symmetric] Let_def) (simp add: tally_def)
  moreover have "rte_ring_count (ring_pop r (ring_used r)) = 0"
    using rte_ring_count_used [OF popped(2)] ring_contents_length [of "ring_pop r (ring_used r)"] popped(1) by (simp add: unat_eq_0)
  then have last: "tx_loop_stream junk cl so i t = Some (nothing_to_tx junk i (snd (service_tx_buf_count i t)))"
    and sat: "socket_satelite_data t = socket_satelite_data s1"
    if "tx_stream cl so (ring_contents r) s1 = Some t" for t
    using sat_tx_stream [OF cl that] s1(1) by (simp_all add: tx_loop_stream.simps [of _ _ _ _ t] case_prod_beta tx_count_facts Let_def)
  ultimately have "service_on_transmission_opportunity junk cl so (Some i) s =
      tx_stream cl so (ring_contents r) s1 \<bind> (\<lambda>t. Some (nothing_to_tx junk i (snd (service_tx_buf_count i t))))"
    by (cases "tx_stream cl so (ring_contents r) s1") simp_all
  moreover have "ring_contents (tx_ring (socket_satelite_data u i)) = [] \<and>
      (sat_parent_idx (socket_satelite_data s i) \<noteq> -1 \<longrightarrow>
        write_ready_to_app (g_service_sockets u (sat_ringset_idx (socket_satelite_data s i))) \<noteq> 0)"
    if "tx_stream cl so (ring_contents r) s1 = Some t" "u = nothing_to_tx junk i (snd (service_tx_buf_count i t))" for t u
    using nothing_to_tx_facts(2) [of "snd (service_tx_buf_count i t)" i junk] sat [OF that(1)] s1(1) popped(1)
    by (simp add: that(2) nothing_to_tx_facts(1) tx_count_facts(2))
  ultimately show ?thesis using s1 by (intro exI [of _ s1]) auto
qed

section \<open>Initialisation\<close>

text \<open>Rings created by \<^verbatim>\<open>rte_ring_create\<close> in a memory zone with a slot for each object.\<close>

definition ring_maker :: "(u32 \<Rightarrow> 'a rte_ring) \<Rightarrow> u32 \<Rightarrow> u32 \<Rightarrow> 'a rte_ring option" where
  "ring_maker zone n flags = rte_ring_create 384 64 True (\<lambda>_. Some (zone n)) n flags"

definition empty_of :: "nat \<Rightarrow> 'a rte_ring \<Rightarrow> bool" where
  "empty_of n r \<longleftrightarrow> ring_inv r \<and> ring_contents r = [] \<and> ring_capacity r = n"

lemma ring_maker_makes:
  assumes "\<And>n. length (r_ring (zone n)) = unat n" "n \<in> {16, 64, 1024, 8192}"
  shows "\<exists>r. ring_maker zone n flags = Some r \<and> empty_of (unat n - 1) r \<and> p_size (r_prod r) = n"
proof -
  have n: "POWEROF2 n" "n \<noteq> 0" "n \<le> RTE_RING_SZ_MASK" using assms(2) by (auto simp: POWEROF2_def)
  have mem: "0 \<le> rte_ring_get_memsize 384 64 n"
    using n uint_ge_0 [of n] by (simp add: rte_ring_get_memsize_def Let_def pos_imp_zdiv_nonneg_iff)
  have "p_size (r_prod (rte_ring_init (zone n) n flags)) = n" by (simp add: rte_ring_init_def Let_def)
  with mem rte_ring_init_inv(1-3) [OF n assms(1), of flags] show ?thesis
    by (simp add: ring_maker_def rte_ring_create_def Let_def empty_of_def)
qed

lemma water_mark_one:
  assumes "empty_of n r" "1 < p_size (r_prod r)"
  shows "empty_of n (snd (rte_ring_set_water_mark r 1))" "ring_watermark (snd (rte_ring_set_water_mark r 1)) = 1"
proof -
  have w: "rte_ring_set_water_mark r 1 = (0, r\<lparr> r_prod := (r_prod r)\<lparr> p_watermark := 1 \<rparr> \<rparr>)"
    using assms(2) by (simp add: rte_ring_set_water_mark_def)
  show "empty_of n (snd (rte_ring_set_water_mark r 1))"
    using assms(1) rte_ring_set_water_mark_keeps [OF _ w] w by (simp add: empty_of_def)
  show "ring_watermark (snd (rte_ring_set_water_mark r 1)) = 1"
    using w by (simp add: ring_watermark_def)
qed

text \<open>Enqueueing one by one fills a ring up to its capacity; what does not fit is dropped.\<close>

lemma enqueue_fills:
  assumes "ring_inv r"
  shows "ring_inv (snd (rte_ring_enqueue r x)) \<and> ring_capacity (snd (rte_ring_enqueue r x)) = ring_capacity r \<and>
    ring_contents (snd (rte_ring_enqueue r x)) = take (ring_capacity r) (ring_contents r @ [x])"
proof (cases "ring_used r = ring_capacity r")
  case True
  then show ?thesis using assms by (simp add: rte_ring_enqueue_full)
next
  case False
  then have "ring_used r < ring_capacity r" using ring_inv_used [OF assms] by simp
  then show ?thesis using assms by (simp add: rte_ring_enqueue_room ring_push_contents ring_push_inv)
qed

definition filled :: "nat \<Rightarrow> 'a list \<Rightarrow> 'a rte_ring \<Rightarrow> bool" where
  "filled n xs r \<longleftrightarrow> ring_inv r \<and> ring_capacity r = n \<and> ring_contents r = take n xs"

lemma filled_enqueue: "filled n xs r \<Longrightarrow> filled n (xs @ [x]) (snd (rte_ring_enqueue r x))"
  using enqueue_fills [of r x] by (auto simp: filled_def min_def)

text \<open>What the initialisation makes of each connection and selector.\<close>

definition fresh_satelite :: "satelite \<Rightarrow> bool" where
  "fresh_satelite d \<longleftrightarrow> sat_socket d = None \<and> sat_ringset_idx d = -1 \<and> sat_parent_idx d = -1 \<and>
     empty_of 1023 (tx_ring d) \<and> empty_of 1023 (rx_ring d) \<and> ring_watermark (rx_ring d) = 1"

lemma ring_maker_1024:
  assumes "\<And>n. length (r_ring (zone n)) = unat n"
  obtains r where "ring_maker zone 1024 flags = Some r" "empty_of 1023 r" "p_size (r_prod r) = 1024"
  using ring_maker_makes [OF assms, where n=1024 and flags=flags] by auto

lemma init_clients_fills:
  assumes z: "\<And>n. length (r_ring (zone n)) = unat n"
  shows "filled 63 c (free_clients_ring s) \<Longrightarrow>
    \<exists>q. init_clients (ring_maker zone) js s = Some (s\<lparr> free_clients_ring := q \<rparr>) \<and> filled 63 (c @ js) q"
proof (induction js arbitrary: s c)
  case Nil
  then show ?case by (intro exI [of _ "free_clients_ring s"]) simp
next
  case (Cons i js)
  obtain r where "ring_maker zone 64 (RING_F_SP_ENQ OR RING_F_SC_DEQ) = Some r"
    using ring_maker_makes [OF z, where n=64] by auto
  then show ?case
    using Cons.IH [of "c @ [i]" "s\<lparr> free_clients_ring := snd (rte_ring_enqueue (free_clients_ring s) i) \<rparr>"]
      filled_enqueue [OF Cons.prems, of i] by simp
qed

lemma init_connections_fresh:
  assumes z: "\<And>n. length (r_ring (zone n)) = unat n"
  shows "filled 15 c (free_connections_ring s) \<Longrightarrow> \<forall>i \<in> set c. fresh_satelite (socket_satelite_data s i) \<Longrightarrow>
    \<exists>t. init_connections (ring_maker zone) 1024 1024 js s = Some t \<and> filled 15 (c @ js) (free_connections_ring t) \<and>
      (\<forall>i \<in> set (c @ js). fresh_satelite (socket_satelite_data t i)) \<and>
      free_clients_ring t = free_clients_ring s \<and> command_ring t = command_ring s"
proof (induction js arbitrary: s c)
  case Nil
  then show ?case by simp
next
  case (Cons i js)
  obtain r where r: "ring_maker zone 1024 (RING_F_SP_ENQ OR RING_F_SC_DEQ) = Some r" "empty_of 1023 r"
    "p_size (r_prod r) = 1024" by (rule ring_maker_1024 [OF z])
  define r' where "r' = snd (rte_ring_set_water_mark r 1)"
  have r': "empty_of 1023 r'" "ring_watermark r' = 1" using water_mark_one [OF r(2)] r(3) by (simp_all add: r'_def)
  define s1 where "s1 = upd_gs (int i) (\<lambda>_. \<lparr> connection_idx = i, read_ready_to_app = 0, write_ready_to_app = 0,
       write_done_from_app = 0, local_ipaddr = 0, local_port = 0, tx_space = 0 \<rparr>) s"
  define s2 where "s2 = s1\<lparr> free_connections_ring := snd (rte_ring_enqueue (free_connections_ring s1) i) \<rparr>"
  define s3 where "s3 = upd_sat i (\<lambda>_. \<lparr> sat_socket = None, sat_ringset_idx = -1, sat_parent_idx = -1,
    tx_ring = r', rx_ring = r', apppid = 0 \<rparr>) s2"
  have step: "init_connections (ring_maker zone) 1024 1024 (i # js) s = init_connections (ring_maker zone) 1024 1024 js s3"
    using r(1) by (simp add: s3_def s2_def s1_def r'_def case_prod_beta Let_def)
  have rest: "free_clients_ring s3 = free_clients_ring s" "command_ring s3 = command_ring s"
    "free_connections_ring s3 = snd (rte_ring_enqueue (free_connections_ring s) i)"
    by (simp_all add: s3_def s2_def s1_def upd_gs_def upd_sat_def)
  have "\<forall>j \<in> set (c @ [i]). fresh_satelite (socket_satelite_data s3 j)"
    using Cons.prems(2) r' by (auto simp: s3_def s2_def s1_def upd_gs_def upd_sat_def fresh_satelite_def)
  then show ?case
    using Cons.IH [of "c @ [i]" s3] filled_enqueue [OF Cons.prems(1), of i]
    by (simp add: step rest del: init_connections.simps)
qed

lemma init_selectors_empty:
  assumes z: "\<And>n. length (r_ring (zone n)) = unat n"
  shows "filled 63 c (selectors_ring s) \<Longrightarrow> \<forall>i \<in> set c. empty_of 1023 (g_service_selectors s (int i)) \<Longrightarrow>
    \<exists>t. init_selectors (ring_maker zone) 1024 js s = Some t \<and> filled 63 (c @ js) (selectors_ring t) \<and>
      (\<forall>i \<in> set (c @ js). empty_of 1023 (g_service_selectors t (int i))) \<and>
      free_clients_ring t = free_clients_ring s \<and> command_ring t = command_ring s \<and>
      free_connections_ring t = free_connections_ring s \<and> socket_satelite_data t = socket_satelite_data s"
proof (induction js arbitrary: s c)
  case Nil
  then show ?case by simp
next
  case (Cons i js)
  obtain r where r: "ring_maker zone 1024 (RING_F_SP_ENQ OR RING_F_SC_DEQ) = Some r" "empty_of 1023 r"
    by (rule ring_maker_1024 [OF z])
  define s1 where "s1 = s\<lparr> g_service_selectors := (g_service_selectors s)(int i := r),
    selectors_ring := snd (rte_ring_enqueue (selectors_ring s) i) \<rparr>"
  have "\<forall>j \<in> set (c @ [i]). empty_of 1023 (g_service_selectors s1 (int j))"
    using Cons.prems(2) r(2) by (simp add: s1_def)
  then show ?case
    using Cons.IH [of "c @ [i]" s1] filled_enqueue [OF Cons.prems(1), of i] r(1) by (simp add: s1_def)
qed

text \<open>Initialisation of the shared memory. With the sizes the service uses (1024 slots per data ring) and rings from
  \<^verbatim>\<open>rte_ring_create\<close>, \<^verbatim>\<open>service_api_init\<close> succeeds and leaves every one of the 16
  connections unused, with two empty data rings whose receive water mark is 1, every selector with an empty ring,
  and an empty command ring. But a ring of \<^term>\<open>n\<close> slots holds \<^term>\<open>n - 1\<close> objects and the code
  ignores the result of the last enqueue, so of the 16 connections only the first 15 can ever be handed out, and of
  the 64 clients and 64 selectors only 63.\<close>

theorem service_init_offers_one_less:
  assumes "\<And>n. length (r_ring (zone n)) = unat n" "\<And>n. length (r_ring (zonew n)) = unat n"
  shows "\<exists>t. service_api_init (ring_maker zone) (ring_maker zonew) (Some pool) 8192 1024 1024 s = Some t \<and>
    (\<forall>i < 16. fresh_satelite (socket_satelite_data t i)) \<and>
    (\<forall>i < 64. empty_of 1023 (g_service_selectors t (int i))) \<and> empty_of 8191 (command_ring t) \<and>
    ring_contents (free_connections_ring t) = [0..<15] \<and>
    ring_contents (free_clients_ring t) = [0..<63] \<and> ring_contents (selectors_ring t) = [0..<63]"
proof -
  obtain a where a: "ring_maker zone 64 0 = Some a" "filled 63 [] a"
    using ring_maker_makes [OF assms(1), where n=64 and flags=0] by (auto simp: empty_of_def filled_def)
  obtain b where b: "ring_maker zone 16 0 = Some b" "filled 15 [] b"
    using ring_maker_makes [OF assms(1), where n=16 and flags=0] by (auto simp: empty_of_def filled_def)
  obtain c where c: "ring_maker zone 8192 RING_F_SC_DEQ = Some c" "empty_of 8191 c"
    using ring_maker_makes [OF assms(1), where n=8192 and flags=RING_F_SC_DEQ] by auto
  define s0 where "s0 = s\<lparr> client_busy := \<lambda>_. False, free_clients_ring := a \<rparr>"
  obtain q where q: "init_clients (ring_maker zone) [0..<64] s0 = Some (s0\<lparr> free_clients_ring := q \<rparr>)"
    "filled 63 [0..<64] q"
    using init_clients_fills [OF assms(1), of "[]" s0 "[0..<64]"] a(2) by (auto simp: s0_def)
  define s1 where "s1 = s0\<lparr> free_clients_ring := q, command_ring := c, free_command_pool := pool, free_connections_ring := b \<rparr>"
  obtain u where u: "init_connections (ring_maker zone) 1024 1024 [0..<16] s1 = Some u"
    "filled 15 [0..<16] (free_connections_ring u)" "\<forall>i < 16. fresh_satelite (socket_satelite_data u i)"
    "free_clients_ring u = q" "command_ring u = c"
    using init_connections_fresh [OF assms(1), of "[]" s1 "[0..<16]"] b(2) by (auto simp: s1_def)
  obtain v where v: "init_selectors (ring_maker zonew) 1024 [0..<64] (u\<lparr> selectors_ring := a \<rparr>) = Some v"
    "filled 63 [0..<64] (selectors_ring v)" "\<forall>i < 64. empty_of 1023 (g_service_selectors v (int i))"
    "free_clients_ring v = q" "command_ring v = c" "free_connections_ring v = free_connections_ring u"
    "socket_satelite_data v = socket_satelite_data u"
    using init_selectors_empty [OF assms(2), of "[]" "u\<lparr> selectors_ring := a \<rparr>" "[0..<64]"] a(2) u(4,5) by auto
  have "service_api_init (ring_maker zone) (ring_maker zonew) (Some pool) 8192 1024 1024 s = Some v"
    using a(1) b(1) c(1) q(1) u(1) v(1)
    by (simp add: service_api_init_def Let_def s0_def s1_def)
  then show ?thesis using q(2) u(2,3) v c(2) by (simp add: filled_def)
qed

section \<open>Closing a connection\<close>

text \<open>C33. A closed connection is written through a stale pointer.  The close command resets the descriptor of the
  connection to \<^term>\<open>- 1 :: int\<close> and puts the connection back on the free ring, but leaves the pointer from the socket to the
  descriptor.  A socket that the protocol keeps after the close (data not yet acknowledged) still reports the space of its send
  buffer through that pointer, so the next acknowledgement adds to \<^verbatim>\<open>g_service_sockets[-1]\<close>, a cell before the
  array, and to no other.\<close>

theorem closed_connection_writes_before_array:
  assumes i: "i = unat (ringset_idx c)" "sat_socket (socket_satelite_data s i) = Some so"
    and u: "app_glue_close_socket cl so s = Some u" "glueing_block (sockets u so) = Some i"
    and free: "ring_inv (free_connections_ring u)" "ring_used (free_connections_ring u) < ring_capacity (free_connections_ring u)"
  shows "\<exists>t. cmd_close cl c s = Some t \<and>
    ring_contents (free_connections_ring t) = ring_contents (free_connections_ring u) @ [i] \<and>
    g_service_sockets (service_reflect_tx_socket_buf junk so n t) =
      (g_service_sockets u)(-1 := (g_service_sockets u (-1))\<lparr> tx_space := tx_space (g_service_sockets u (-1)) + of_int n \<rparr>)"
proof -
  define v where "v = service_free_socket i (upd_sat i (\<lambda>d. d\<lparr> sat_socket := None, sat_ringset_idx := -1, sat_parent_idx := -1 \<rparr>) u)"
  define t where "t = tally (\<lambda>u. u\<lparr> user_sockets_closed := user_sockets_closed u + 1 \<rparr>) v"
  have t: "socket_satelite_data t i = (socket_satelite_data u i)\<lparr> sat_socket := None, sat_ringset_idx := -1, sat_parent_idx := -1 \<rparr>"
    "g_service_sockets t = g_service_sockets u" "sockets t = sockets u"
    "ring_contents (free_connections_ring t) = ring_contents (free_connections_ring u) @ [i]"
    using free by (simp_all add: t_def v_def service_free_socket_def tally_def upd_sat_def rte_ring_enqueue_room ring_push_contents)
  have "cmd_close cl c s = Some t"
    using i u(1) by (simp add: cmd_close_def Let_def t_def v_def)
  moreover have "g_service_sockets (service_reflect_tx_socket_buf junk so n t) =
      (g_service_sockets u)(-1 := (g_service_sockets u (-1))\<lparr> tx_space := tx_space (g_service_sockets u (-1)) + of_int n \<rparr>)"
    using u(2) t(1-3) by (simp add: service_reflect_tx_socket_buf_def app_glue_get_glueing_block_def Let_def service_mark_writable_def)
  ultimately show ?thesis using t(4) by blast
qed

section \<open>Concrete states\<close>

text \<open>Connection 3 of selector 0 belongs to socket 50, which the protocol keeps; the application has queued one packet.\<close>

definition served_svstate :: svstate where
  "served_svstate =
     upd_sat 3 (\<lambda>d. d\<lparr> sat_socket := Some 50, sat_ringset_idx := 3, sat_parent_idx := 0, tx_ring := ring_push (empty_ring 0) [1000] \<rparr>)
       (upd_so 50 (\<lambda>k. k\<lparr> so_pcb := Some 90, so_state := 0, glueing_block := Some 3 \<rparr>) (idle_svstate two_bufs))"

lemma empty_ring_facts: "ring_inv (empty_ring x)" "ring_contents (empty_ring x) = []" "ring_used (empty_ring x) = 0"
  "ring_capacity (empty_ring x) = 3" "ring_watermark (empty_ring x) = 1"
  by (simp_all add: empty_ring_def ring_inv_def ring_contents_def ring_used_def ring_capacity_def ring_watermark_def POWEROF2_def ring_read_def)

lemma served_facts:
  "socket_satelite_data served_svstate 3 = \<lparr> sat_socket = Some 50, sat_ringset_idx = 3, sat_parent_idx = 0,
     tx_ring = ring_push (empty_ring 0) [1000], rx_ring = empty_ring 0, apppid = 0 \<rparr>"
  "g_service_selectors served_svstate = (\<lambda>_. empty_ring 0)" "read_ready_to_app (g_service_sockets served_svstate 3) = 0"
  "so_type (sockets served_svstate 50) = SOCK_STREAM" "free_connections_ring served_svstate = empty_ring 0"
  by (simp_all add: served_svstate_def upd_sat_def upd_so_def idle_svstate_def idle_socket_def)

lemma served_closes:
  "\<exists>u. app_glue_close_socket silent_calls 50 served_svstate = Some u \<and> glueing_block (sockets u 50) = Some 3 \<and>
    free_connections_ring u = empty_ring 0"
  by (simp add: served_svstate_def app_glue_close_socket_def soclose_def close_connected_def sofree_def silent_calls_def
      idle_svstate_def idle_socket_def so_opt_def so_is_def set_state_def upd_sat_def upd_so_def SS_NOFDREF_def)

theorem received_packet_announced_witness:
  "\<exists>t. service_submit_rx_buf 4000 3 served_svstate = (False, t) \<and>
     ring_contents (rx_ring (socket_satelite_data t 3)) = [4000] \<and>
     ring_contents (g_service_selectors t 0) = [ready_entry 3 SOCKET_READABLE_BIT]"
  using received_packet_announced [OF served_facts(1), of 0 3 4000]
  by (auto simp: empty_ring_facts served_facts)

theorem tx_opportunity_sends_all_witness:
  "\<exists>s1. service_on_transmission_opportunity False silent_calls 50 (Some 3) served_svstate =
     tx_stream silent_calls 50 [1000] s1 \<bind> (\<lambda>t. Some (nothing_to_tx False 3 (snd (service_tx_buf_count 3 t))))"
proof -
  have "ring_inv (ring_push (empty_ring 0) [1000::nat])" "ring_contents (ring_push (empty_ring 0) [1000::nat]) = [1000]"
    by (simp_all add: ring_push_inv ring_push_contents empty_ring_facts)
  moreover have "protocol_keeps_rings silent_calls" by (simp add: protocol_keeps_rings_def silent_calls_def)
  ultimately show ?thesis
    using tx_opportunity_sends_all [of silent_calls served_svstate 50 3 "ring_push (empty_ring 0) [1000]" False] served_facts(1,4)
    by auto
qed

theorem service_init_offers_one_less_witness:
  "\<exists>t. service_api_init (ring_maker (\<lambda>n. (empty_ring 0)\<lparr> r_ring := replicate (unat n) 0 \<rparr>))
       (ring_maker (\<lambda>n. (empty_ring 0)\<lparr> r_ring := replicate (unat n) 0 \<rparr>)) (Some small_pool) 8192 1024 1024
       (idle_svstate two_bufs) = Some t \<and> ring_contents (free_connections_ring t) = [0..<15]"
  using service_init_offers_one_less [of "\<lambda>n. (empty_ring 0)\<lparr> r_ring := replicate (unat n) 0 \<rparr>"
      "\<lambda>n. (empty_ring 0)\<lparr> r_ring := replicate (unat n) 0 \<rparr>" small_pool "idle_svstate two_bufs"]
  by fastforce

theorem closed_connection_writes_before_array_witness:
  "\<exists>t. cmd_close silent_calls \<lparr> cmd = SERVICE_SOCKET_CLOSE_COMMAND, ringset_idx = 3, parent_idx = -1 \<rparr> served_svstate = Some t \<and>
     ring_contents (free_connections_ring t) = [3]"
proof -
  obtain u where "app_glue_close_socket silent_calls 50 served_svstate = Some u" "glueing_block (sockets u 50) = Some 3"
    "free_connections_ring u = empty_ring 0" using served_closes by blast
  then show ?thesis
    using closed_connection_writes_before_array [of 3 "\<lparr> cmd = SERVICE_SOCKET_CLOSE_COMMAND, ringset_idx = 3, parent_idx = -1 \<rparr>"
        served_svstate 50 silent_calls u False 0] served_facts(1) by (auto simp: empty_ring_facts)
qed

end
