(* ===== verification/App_Api.thy ===== *)
theory App_Api
  imports Service_Rings
begin

unbundle bit_operations_syntax

text \<open>
  The library that an application links to talk to the service (\<^verbatim>\<open>service/app_api/ring_ops.h\<close>,
  \<^verbatim>\<open>api.c\<close>, \<^verbatim>\<open>api.h\<close>), as its makefile compiles it: without the local cache of ready sockets.  The state of the
  application extends the memory that it shares with the service: the rings of connection \<^term>\<open>i\<close> are those
  of entry \<^term>\<open>i\<close> of the service's descriptors, because both sides find them under the same name.
\<close>

section \<open>Data of the application\<close>

record local_socket_descriptor =
  lsocket :: "nat option"
  select :: int
  local_cache :: "addr rte_ring"
  any_event_received :: bool
  shadow :: "addr option"
  shadow_next :: "addr option"
  shadow_len_remainder :: int
  shadow_len_delievered :: int
  lsd_local_ipaddr :: u32
  lsd_local_port :: u32
  remote_ipaddr :: u32
  remote_port :: u32

record app_stats =
  service_stats_receive_called :: u64
  service_stats_send_called :: u64
  service_stats_rx_kicks_sent :: u64
  service_stats_tx_kicks_sent :: u64
  service_stats_rx_dequeued :: u64
  service_stats_rx_dequeued_local :: u64
  service_stats_select_called :: u64
  service_stats_select_returned :: u64
  service_stats_tx_buf_allocation_failure :: u64
  service_stats_send_failure :: u64
  service_stats_recv_failure :: u64
  service_stats_buffers_sent :: u64
  service_stats_buffers_allocated :: u64
  service_stats_cannot_allocate_cmd :: u64
  service_stats_rx_returned :: u64
  service_stats_accepted :: u64
  service_stats_flush_local :: u64
  service_stats_flush :: u64

text \<open>\<^term>\<open>client_rings\<close> are the rings for updates of the clients, by number; \<^term>\<open>getpid\<close> is the process.\<close>

record appstate = svstate +
  local_socket_descriptors :: "nat \<Rightarrow> local_socket_descriptor"
  client_rings :: "nat \<Rightarrow> addr rte_ring option"
  client_ring :: "nat option"
  g_client_ringset_idx :: u32
  service_update_cbk :: bool
  tx_bufs_pool :: nat
  getpid :: int
  astats :: app_stats

definition upd_lsd ::
  "nat \<Rightarrow> (local_socket_descriptor \<Rightarrow> local_socket_descriptor) \<Rightarrow> 'a appstate_scheme \<Rightarrow> 'a appstate_scheme" where
  "upd_lsd i f s = s\<lparr> local_socket_descriptors := (local_socket_descriptors s)(i := f (local_socket_descriptors s i)) \<rparr>"

definition app_tally :: "(app_stats \<Rightarrow> app_stats) \<Rightarrow> 'a appstate_scheme \<Rightarrow> 'a appstate_scheme" where
  "app_tally f s = s\<lparr> astats := f (astats s) \<rparr>"

text \<open>An access through the pointer to the shared part of a connection; there is none before the socket is opened.\<close>

definition upd_shared ::
  "nat \<Rightarrow> (service_socket \<Rightarrow> service_socket) \<Rightarrow> 'a appstate_scheme \<Rightarrow> 'a appstate_scheme option" where
  "upd_shared i f s = do { r \<leftarrow> lsocket (local_socket_descriptors s i); Some (upd_gs (int r) f s) }"

definition SOCKET_READY_MASK :: nat where "SOCKET_READY_MASK = 0xFFFF"

abbreviation (input) MAX_PKT_BURST :: u32 where "MAX_PKT_BURST \<equiv> 32"

section \<open>Ring operations\<close>

definition rte_ring_sp_enqueue_burst :: "'a rte_ring \<Rightarrow> 'a list \<Rightarrow> u32 \<Rightarrow> int \<times> 'a rte_ring" where
  "rte_ring_sp_enqueue_burst r obj_table n = sp_do_enqueue r obj_table n RTE_RING_QUEUE_VARIABLE"

definition rte_ring_sc_dequeue_burst :: "'a rte_ring \<Rightarrow> u32 \<Rightarrow> int \<times> 'a list \<times> 'a rte_ring" where
  "rte_ring_sc_dequeue_burst r n = sc_do_dequeue r n RTE_RING_QUEUE_VARIABLE"

definition service_enqueue_command_buf :: "addr \<Rightarrow> 'a svstate_scheme \<Rightarrow> bool \<times> 'a svstate_scheme" where
  "service_enqueue_command_buf c s =
     (let (rc, r) = rte_ring_enqueue (command_ring s) c in (rc = - ENOBUFS, s\<lparr> command_ring := r \<rparr>))"

definition service_enqueue_tx_bufs_bulk :: "nat \<Rightarrow> addr list \<Rightarrow> 'a svstate_scheme \<Rightarrow> bool \<times> 'a svstate_scheme" where
  "service_enqueue_tx_bufs_bulk i ms s =
     (let (rc, r) = rte_ring_sp_enqueue_bulk (tx_ring (socket_satelite_data s i)) ms (of_nat (length ms))
      in (rc = - ENOBUFS, upd_sat i (\<lambda>d. d\<lparr> tx_ring := r \<rparr>) s))"

definition service_enqueue_tx_buf :: "nat \<Rightarrow> addr \<Rightarrow> 'a svstate_scheme \<Rightarrow> bool \<times> 'a svstate_scheme" where
  "service_enqueue_tx_buf i m s =
     (let (rc, r) = rte_ring_sp_enqueue_bulk (tx_ring (socket_satelite_data s i)) [m] 1
      in (rc = - ENOBUFS, upd_sat i (\<lambda>d. d\<lparr> tx_ring := r \<rparr>) s))"

definition service_socket_tx_space :: "nat \<Rightarrow> 'a svstate_scheme \<Rightarrow> int" where
  "service_socket_tx_space i s = sint (rte_ring_free_count (tx_ring (socket_satelite_data s i)))"

text \<open>Refilling the local cache from the receive ring, as far as it has room.\<close>

definition refill_local_cache :: "nat \<Rightarrow> 'a appstate_scheme \<Rightarrow> 'a appstate_scheme" where
  "refill_local_cache i s =
     (if rte_ring_count (rx_ring (socket_satelite_data s i)) = 0 then s
      else let free = rte_ring_free_count (local_cache (local_socket_descriptors s i));
               n = (if free > MAX_PKT_BURST then MAX_PKT_BURST else free)
           in if n = 0 then s
              else let (got, ms, r) = rte_ring_sc_dequeue_burst (rx_ring (socket_satelite_data s i)) n;
                       s = upd_sat i (\<lambda>d. d\<lparr> rx_ring := r \<rparr>) s
                   in if got > 0
                      then upd_lsd i (\<lambda>d. d\<lparr> local_cache := snd (rte_ring_sp_enqueue_burst (local_cache d) ms (of_int got)) \<rparr>)
                             (app_tally (\<lambda>u. u\<lparr> service_stats_rx_dequeued := service_stats_rx_dequeued u + 1 \<rparr>) s)
                      else s)"

definition count_dequeued :: "addr \<Rightarrow> 'a appstate_scheme \<Rightarrow> 'a appstate_scheme" where
  "count_dequeued m s =
     app_tally (\<lambda>u. u\<lparr> service_stats_rx_dequeued_local := service_stats_rx_dequeued_local u + ucast (nb_segs (rmb s m)) \<rparr>) s"

text \<open>Taking a packet off the local cache.\<close>

definition take_cached :: "nat \<Rightarrow> 'a appstate_scheme \<Rightarrow> addr option \<times> 'a appstate_scheme" where
  "take_cached i s =
     (let (_, m, r) = rte_ring_sc_dequeue (local_cache (local_socket_descriptors s i))
      in (m, upd_lsd i (\<lambda>d. d\<lparr> local_cache := r \<rparr>) s))"

text \<open>The command that tells the service that there is room again; a command that does not fit on the ring is lost.\<close>

definition rx_kick :: "nat \<Rightarrow> 'a appstate_scheme \<Rightarrow> 'a appstate_scheme" where
  "rx_kick i s =
     (case service_get_free_command_buf s of
        (None, s) \<Rightarrow> s
      | (Some c, s) \<Rightarrow>
          let s = s\<lparr> commands := (commands s)(c := (commands s c)\<lparr> cmd := SERVICE_SOCKET_RX_KICK_COMMAND, ringset_idx := of_nat i \<rparr>) \<rparr>;
              s = snd (service_enqueue_command_buf c s)
          in app_tally (\<lambda>u. u\<lparr> service_stats_rx_kicks_sent := service_stats_rx_kicks_sent u + 1 \<rparr>) s)"

definition service_dequeue_rx_buf :: "nat \<Rightarrow> 'a appstate_scheme \<Rightarrow> (addr option \<times> 'a appstate_scheme) option" where
  "service_dequeue_rx_buf i s = do {
     let (m, s) = take_cached i s;
     s \<leftarrow> upd_shared (i mod (SOCKET_READY_MASK + 1)) (\<lambda>k. k\<lparr> read_ready_to_app := 0 \<rparr>) s;
     let s = refill_local_cache i s;
     let (m, s) = (if m = None then take_cached i s else (m, s));
     let s = (case m of None \<Rightarrow> s | Some m \<Rightarrow> count_dequeued m s);
     Some (m, rx_kick i s)
   }"

section \<open>Releasing what was received\<close>

partial_function (option) flush_cache :: "nat \<Rightarrow> 'a appstate_scheme \<Rightarrow> 'a appstate_scheme option" where
  "flush_cache i s =
     (case rte_ring_dequeue (local_cache (local_socket_descriptors s i)) of
        (_, None, r) \<Rightarrow> Some (upd_lsd i (\<lambda>d. d\<lparr> local_cache := r \<rparr>) s)
      | (_, Some m, r) \<Rightarrow> do {
          let s = upd_lsd i (\<lambda>d. d\<lparr> local_cache := r \<rparr>) s;
          s \<leftarrow> rte_pktmbuf_free (Some m)
                (app_tally (\<lambda>u. u\<lparr> service_stats_flush_local := service_stats_flush_local u + ucast (nb_segs (rmb s m)) \<rparr>) s);
          flush_cache i s
        })"

definition flush_buf :: "addr \<Rightarrow> 'a appstate_scheme \<Rightarrow> 'a appstate_scheme option" where
  "flush_buf m s =
     rte_pktmbuf_free (Some m)
       (app_tally (\<lambda>u. u\<lparr> service_stats_flush := service_stats_flush u + ucast (nb_segs (rmb s m)) \<rparr>) s)"

partial_function (option) flush_ring :: "nat \<Rightarrow> 'a appstate_scheme \<Rightarrow> 'a appstate_scheme option" where
  "flush_ring i s =
     (case rte_ring_sc_dequeue_burst (rx_ring (socket_satelite_data s i)) 1 of
        (_, [], r) \<Rightarrow> Some (upd_sat i (\<lambda>d. d\<lparr> rx_ring := r \<rparr>) s)
      | (_, m # _, r) \<Rightarrow> do {
          s \<leftarrow> flush_buf m (upd_sat i (\<lambda>d. d\<lparr> rx_ring := r \<rparr>) s);
          flush_ring i s
        })"

definition service_flush_rx :: "nat \<Rightarrow> 'a appstate_scheme \<Rightarrow> 'a appstate_scheme option" where
  "service_flush_rx i s = do {
     s \<leftarrow> flush_cache i s;
     s \<leftarrow> flush_ring i s;
     s \<leftarrow> (case shadow (local_socket_descriptors s i) of
             None \<Rightarrow> Some s
           | Some m \<Rightarrow> do { s \<leftarrow> flush_buf m s; Some (upd_lsd i (\<lambda>d. d\<lparr> shadow := None \<rparr>) s) });
     s \<leftarrow> (case shadow_next (local_socket_descriptors s i) of
             None \<Rightarrow> Some s
           | Some m \<Rightarrow> do { s \<leftarrow> flush_buf m s; Some (upd_lsd i (\<lambda>d. d\<lparr> shadow_next := None \<rparr>) s) });
     Some (upd_lsd i (\<lambda>d. d\<lparr> shadow_len_delievered := 0, shadow_len_remainder := 0 \<rparr>) s)
   }"

section \<open>Commands to the service\<close>

text \<open>Every request takes a command buffer, fills it and puts it on the command ring; a buffer that does
  not fit goes back to the pool.  \<^term>\<open>f\<close> fills the buffer and keeps the fields that the source does not set.\<close>

datatype posted = No_Buffer | No_Room | Posted

definition service_post :: "(service_cmd \<Rightarrow> service_cmd) \<Rightarrow> 'a appstate_scheme \<Rightarrow> posted \<times> 'a appstate_scheme" where
  "service_post f s =
     (case service_get_free_command_buf s of
        (None, s) \<Rightarrow>
          (No_Buffer, app_tally (\<lambda>u. u\<lparr> service_stats_cannot_allocate_cmd := service_stats_cannot_allocate_cmd u + 1 \<rparr>) s)
      | (Some c, s) \<Rightarrow>
          let (full, s) = service_enqueue_command_buf c (s\<lparr> commands := (commands s)(c := f (commands s c)) \<rparr>)
          in if full then (No_Room, service_free_command_buf c s) else (Posted, s))"

definition service_create_client :: "bool \<Rightarrow> 'a appstate_scheme \<Rightarrow> int \<times> 'a appstate_scheme" where
  "service_create_client update_cbk s =
     (case rte_ring_dequeue (free_clients_ring s) of
        (_, None, r) \<Rightarrow> (-1, s\<lparr> free_clients_ring := r \<rparr>)
      | (_, Some i, r) \<Rightarrow>
          let s = s\<lparr> free_clients_ring := r \<rparr>
          in if client_rings s i = None then (-2, s\<lparr> client_ring := None \<rparr>)
             else let (rc, s) = service_post (\<lambda>c. c\<lparr> cmd := SERVICE_CONNECT_CLIENT, ringset_idx := of_nat i \<rparr>)
                        (s\<lparr> client_ring := Some i \<rparr>)
                  in if rc \<noteq> Posted then (-3, s)
                     else (0, s\<lparr> g_client_ringset_idx := of_nat i, service_update_cbk := update_cbk \<rparr>))"

text \<open>Reading one update; the second component is the call of the application's function with the
  command and the bytes of the message, if there is one.\<close>

definition service_read_updates ::
  "'a appstate_scheme \<Rightarrow> (int \<times> (nat \<times> 8 word list) option \<times> 'a appstate_scheme) option" where
  "service_read_updates s = do {
     i \<leftarrow> client_ring s;
     r \<leftarrow> client_rings s i;
     (case rte_ring_dequeue r of
        (_, None, r) \<Rightarrow> Some (-1, None, s\<lparr> client_rings := (client_rings s)(i := Some r) \<rparr>)
      | (_, Some m, r) \<Rightarrow>
          let s = s\<lparr> client_rings := (client_rings s)(i := Some r) \<rparr>;
              p = rte_pktmbuf_mtod (rmb s m);
              rest = mem_read (dmem s) (p + 1) (unat (data_len (rmb s m)) - 1);
              code = unat (dmem s p)
          in Some (if code = 18 then (-1, if service_update_cbk s then Some (1, rest) else None, s)
                   else if code = 19 then (-1, if service_update_cbk s then Some (3, rest) else None, s)
                   else if code = 20 then (0, None, s)
                   else (-1, None, s)))
   }"

definition service_open_select :: "'a appstate_scheme \<Rightarrow> int \<times> 'a appstate_scheme" where
  "service_open_select s =
     (case rte_ring_dequeue (selectors_ring s) of
        (_, None, r) \<Rightarrow> (-1, s\<lparr> selectors_ring := r \<rparr>)
      | (_, Some i, r) \<Rightarrow> (int i, s\<lparr> selectors_ring := r \<rparr>))"

text \<open>The function has no return statement at its end: \<^term>\<open>junk\<close> is what the caller finds.\<close>

definition service_set_socket_select :: "int \<Rightarrow> int \<Rightarrow> int \<Rightarrow> 'a appstate_scheme \<Rightarrow> int \<times> 'a appstate_scheme" where
  "service_set_socket_select junk sock sel s =
     (if sock < 0 then (-1, s)
      else case service_post (\<lambda>c. c\<lparr> cmd := SERVICE_SET_SOCKET_SELECT_COMMAND sel (getpid s), ringset_idx := of_int sock \<rparr>) s of
             (No_Buffer, s) \<Rightarrow> (-2, s)
           | (No_Room, s) \<Rightarrow> (-3, s)
           | (Posted, s) \<Rightarrow> (junk, upd_lsd (nat sock) (\<lambda>d. d\<lparr> select := sel \<rparr>) s))"

definition service_reset_local_descriptor :: "nat \<Rightarrow> 'a appstate_scheme \<Rightarrow> 'a appstate_scheme" where
  "service_reset_local_descriptor i =
     upd_lsd i (\<lambda>d. d\<lparr> shadow_len_delievered := 0, shadow_len_remainder := 0, shadow := None, shadow_next := None \<rparr>)"

definition service_open_socket :: "int \<Rightarrow> int \<Rightarrow> int \<Rightarrow> 'a appstate_scheme \<Rightarrow> int \<times> 'a appstate_scheme" where
  "service_open_socket family type parent s =
     (case rte_ring_dequeue (free_connections_ring s) of
        (_, None, r) \<Rightarrow> (-1, s\<lparr> free_connections_ring := r \<rparr>)
      | (_, Some k, r) \<Rightarrow>
          let s = s\<lparr> free_connections_ring := r \<rparr>;
              i = connection_idx (g_service_sockets s (int k))
          in case service_post (\<lambda>c. c\<lparr> cmd := SERVICE_OPEN_SOCKET_COMMAND family type (getpid s), ringset_idx := of_nat i,
                    parent_idx := parent \<rparr>) s of
               (No_Buffer, s) \<Rightarrow> (-2, s)
             | (No_Room, s) \<Rightarrow> (-3, s)
             | (Posted, s) \<Rightarrow>
                 let s = upd_lsd i (\<lambda>d. d\<lparr> lsocket := Some k \<rparr>) (service_reset_local_descriptor i s);
                     s = (if parent \<noteq> -1 then upd_lsd i (\<lambda>d. d\<lparr> select := parent \<rparr>) s else s)
                 in (int i, s))"

definition service_bind :: "nat \<Rightarrow> u16 \<Rightarrow> u32 \<Rightarrow> u16 \<Rightarrow> 'a appstate_scheme \<Rightarrow> int \<times> 'a appstate_scheme" where
  "service_bind sock family ipaddr prt s =
     (if family \<noteq> ucast AF_INET then (-1, s)
      else case service_post (\<lambda>c. c\<lparr> cmd := SERVICE_SOCKET_CONNECT_BIND_COMMAND ipaddr prt False, ringset_idx := of_nat sock,
                  parent_idx := select (local_socket_descriptors s sock) \<rparr>) s of
             (No_Buffer, s) \<Rightarrow> (-1, s)
           | (No_Room, s) \<Rightarrow> (-2, s)
           | (Posted, s) \<Rightarrow> (0, upd_lsd sock (\<lambda>d. d\<lparr> lsd_local_ipaddr := ipaddr, lsd_local_port := ucast prt \<rparr>) s))"

definition service_connect :: "nat \<Rightarrow> u16 \<Rightarrow> u32 \<Rightarrow> u16 \<Rightarrow> 'a appstate_scheme \<Rightarrow> int \<times> 'a appstate_scheme" where
  "service_connect sock family ipaddr prt s =
     (if family \<noteq> ucast AF_INET then (-1, s)
      else case service_post (\<lambda>c. c\<lparr> cmd := SERVICE_SOCKET_CONNECT_BIND_COMMAND ipaddr prt True, ringset_idx := of_nat sock,
                  parent_idx := select (local_socket_descriptors s sock) \<rparr>) s of
             (No_Buffer, s) \<Rightarrow> (-2, s)
           | (No_Room, s) \<Rightarrow> (-2, s)
           | (Posted, s) \<Rightarrow> (0, upd_lsd sock (\<lambda>d. d\<lparr> remote_ipaddr := ipaddr, remote_port := ucast prt \<rparr>) s))"

definition service_listen_socket :: "nat \<Rightarrow> 'a appstate_scheme \<Rightarrow> int \<times> 'a appstate_scheme" where
  "service_listen_socket sock s =
     (case service_post (\<lambda>c. c\<lparr> cmd := SERVICE_LISTEN_SOCKET_COMMAND, ringset_idx := of_nat sock,
             parent_idx := select (local_socket_descriptors s sock) \<rparr>) s of
        (No_Buffer, s) \<Rightarrow> (-1, s)
      | (No_Room, s) \<Rightarrow> (-2, s)
      | (Posted, s) \<Rightarrow> (0, s))"

definition service_close :: "nat \<Rightarrow> 'a appstate_scheme \<Rightarrow> 'a appstate_scheme option" where
  "service_close sock s =
     (case service_post (\<lambda>c. c\<lparr> cmd := SERVICE_SOCKET_CLOSE_COMMAND, ringset_idx := of_nat sock,
             parent_idx := select (local_socket_descriptors s sock) \<rparr>) s of
        (No_Buffer, s) \<Rightarrow> Some s
      | (_, s) \<Rightarrow> service_flush_rx sock s)"

definition service_shutdown :: "nat \<Rightarrow> int \<Rightarrow> 'a appstate_scheme \<Rightarrow> int \<times> 'a appstate_scheme" where
  "service_shutdown sock how s =
     (case service_post (\<lambda>c. c\<lparr> cmd := SERVICE_SOCKET_SHUTDOWN_COMMAND how, ringset_idx := of_nat sock,
             parent_idx := select (local_socket_descriptors s sock) \<rparr>) s of
        (No_Buffer, s) \<Rightarrow> (-1, s)
      | (_, s) \<Rightarrow> (0, s))"

text \<open>The option goes into a field of 128 bytes whatever its length; a longer one overwrites memory.\<close>

definition service_setsockopt ::
  "nat \<Rightarrow> int \<Rightarrow> int \<Rightarrow> 8 word list \<Rightarrow> 'a appstate_scheme \<Rightarrow> (int \<times> 'a appstate_scheme) option" where
  "service_setsockopt sock level optname optval s =
     (case service_post (\<lambda>c. c\<lparr> cmd := SERVICE_SETSOCKOPT_COMMAND level optname (int (length optval)) optval,
             ringset_idx := of_nat sock, parent_idx := select (local_socket_descriptors s sock) \<rparr>) s of
        (No_Buffer, s) \<Rightarrow> Some (-1, s)
      | (rc, s) \<Rightarrow> if length optval > 128 then None else Some (if rc = No_Room then -2 else 0, s))"

definition service_route_command :: "service_command \<Rightarrow> 'a appstate_scheme \<Rightarrow> int \<times> 'a appstate_scheme" where
  "service_route_command rt s =
     (case service_post (\<lambda>c. c\<lparr> cmd := rt \<rparr>) s of
        (No_Buffer, s) \<Rightarrow> (-1, s)
      | (No_Room, s) \<Rightarrow> (-2, s)
      | (Posted, s) \<Rightarrow> (0, s))"

definition service_add_v4_route :: "u32 \<Rightarrow> u32 \<Rightarrow> u32 \<Rightarrow> int \<Rightarrow> 'a appstate_scheme \<Rightarrow> int \<times> 'a appstate_scheme" where
  "service_add_v4_route ipaddr netmask nexthop metric = service_route_command (SERVICE_ROUTE_ADD_COMMAND ipaddr netmask nexthop metric)"

definition service_del_v4_route :: "u32 \<Rightarrow> u32 \<Rightarrow> u32 \<Rightarrow> 'a appstate_scheme \<Rightarrow> int \<times> 'a appstate_scheme" where
  "service_del_v4_route ipaddr netmask nexthop = service_route_command (SERVICE_ROUTE_DEL_COMMAND ipaddr netmask nexthop 0)"

definition service_notify_empty_tx_buffers :: "int \<Rightarrow> 'a appstate_scheme \<Rightarrow> 'a appstate_scheme" where
  "service_notify_empty_tx_buffers sock s =
     (if sock = -1 then s
      else snd (service_post (\<lambda>c. c\<lparr> cmd := SERVICE_SOCKET_TX_POOL_EMPTY_COMMAND, ringset_idx := of_int sock \<rparr>) s))"

definition service_socket_kick :: "nat \<Rightarrow> 'a appstate_scheme \<Rightarrow> (int \<times> 'a appstate_scheme) option" where
  "service_socket_kick sock s = do {
     r \<leftarrow> lsocket (local_socket_descriptors s sock);
     if write_done_from_app (g_service_sockets s (int r)) \<noteq> 0 then Some (0, s)
     else case service_post (\<lambda>c. c\<lparr> cmd := SERVICE_SOCKET_TX_KICK_COMMAND, ringset_idx := of_nat sock \<rparr>)
                 (upd_gs (int r) (\<lambda>k. k\<lparr> write_done_from_app := 1 \<rparr>) s) of
            (No_Buffer, s) \<Rightarrow> Some (-1, s)
          | (No_Room, s) \<Rightarrow> Some (0, s)
          | (Posted, s) \<Rightarrow>
              Some (0, app_tally (\<lambda>u. u\<lparr> service_stats_tx_kicks_sent := service_stats_tx_kicks_sent u + 1 \<rparr>) s)
   }"

text \<open>On a signal to terminate, every open socket is closed and the client leaves; \<^term>\<open>close_open\<close> is the loop.\<close>

fun close_open :: "nat list \<Rightarrow> 'a appstate_scheme \<Rightarrow> 'a appstate_scheme option" where
  "close_open [] s = Some s"
| "close_open (i # js) s = do {
     s \<leftarrow> (case lsocket (local_socket_descriptors s i) of
             None \<Rightarrow> Some s
           | Some k \<Rightarrow> service_close (connection_idx (g_service_sockets s (int k))) s);
     close_open js s
   }"

definition sig_handler :: "bool \<Rightarrow> 'a appstate_scheme \<Rightarrow> 'a appstate_scheme option" where
  "sig_handler is_usr1 s =
     (if is_usr1 then Some s
      else do {
        s \<leftarrow> close_open [0..<SERVICE_CONNECTION_POOL_SIZE] s;
        (case service_get_free_command_buf s of
           (None, s) \<Rightarrow> Some s
         | (Some c, s) \<Rightarrow>
             let (full, s) = service_enqueue_command_buf c
                   (s\<lparr> commands := (commands s)(c := (commands s c)\<lparr> cmd := SERVICE_DISCONNECT_CLIENT, ringset_idx := g_client_ringset_idx s \<rparr>) \<rparr>)
             in Some (if full then service_free_command_buf c s else s))
      })"

section \<open>Sending\<close>

text \<open>How many packets may be sent: the room on the ring, the free buffers and the space in the send buffer in
  segments of 1448 bytes.  A signed division in C truncates.\<close>

definition shared_tx_space :: "nat \<Rightarrow> 'a appstate_scheme \<Rightarrow> int option" where
  "shared_tx_space sock s = do {
     r \<leftarrow> lsocket (local_socket_descriptors s (sock mod (SOCKET_READY_MASK + 1)));
     let space = sint (tx_space (g_service_sockets s (int r)));
     Some (sgn space * (\<bar>space\<bar> div 1448))
   }"

definition service_get_socket_tx_space :: "nat \<Rightarrow> 'a appstate_scheme \<Rightarrow> (int \<times> 'a appstate_scheme) option" where
  "service_get_socket_tx_space sock s = do {
     let ring_space = service_socket_tx_space sock s;
     let free_bufs_count = int (rte_mempool_count (rpool s (tx_bufs_pool s)));
     let rc = (if ring_space > free_bufs_count then (if free_bufs_count > 0 then free_bufs_count else 0) else ring_space);
     space \<leftarrow> shared_tx_space sock s;
     let rc = (if rc > space then space else rc);
     if rc < 10
     then do {
       s \<leftarrow> upd_shared (sock mod (SOCKET_READY_MASK + 1)) (\<lambda>k. k\<lparr> write_ready_to_app := 0 \<rparr>) s;
       Some (rc, service_notify_empty_tx_buffers (int sock) s)
     }
     else Some (rc, s)
   }"

definition service_get_socket_tx_space_own_buffer :: "nat \<Rightarrow> 'a appstate_scheme \<Rightarrow> (int \<times> 'a appstate_scheme) option" where
  "service_get_socket_tx_space_own_buffer sock s = do {
     let ring_space = service_socket_tx_space sock s;
     space \<leftarrow> shared_tx_space sock s;
     let rc = (if ring_space > space then space else ring_space);
     if rc = 0
     then do {
       s \<leftarrow> upd_shared (sock mod (SOCKET_READY_MASK + 1)) (\<lambda>k. k\<lparr> write_ready_to_app := 0 \<rparr>) s;
       Some (rc, service_notify_empty_tx_buffers (int sock) s)
     }
     else Some (rc, s)
   }"

definition count_send :: "nat \<Rightarrow> 'a appstate_scheme \<Rightarrow> 'a appstate_scheme" where
  "count_send n = app_tally (\<lambda>u. u\<lparr> service_stats_send_called := service_stats_send_called u + 1,
     service_stats_buffers_sent := service_stats_buffers_sent u + of_nat n \<rparr>)"

definition count_failure :: "bool \<Rightarrow> 'a appstate_scheme \<Rightarrow> 'a appstate_scheme" where
  "count_failure failed = app_tally (\<lambda>u. u\<lparr> service_stats_send_failure := service_stats_send_failure u + of_bool failed \<rparr>)"

definition service_send :: "nat \<Rightarrow> addr \<Rightarrow> int \<Rightarrow> 'a appstate_scheme \<Rightarrow> (bool \<times> 'a appstate_scheme) option" where
  "service_send sock m len s = do {
     let s = upd_rmb m (\<lambda>b. b\<lparr> data_len := of_int len, rm_next := None \<rparr>) (count_send 0 s);
     s \<leftarrow> upd_shared (sock mod (SOCKET_READY_MASK + 1)) (\<lambda>k. k\<lparr> write_ready_to_app := 0 \<rparr>) s;
     let (rc, s) = service_enqueue_tx_buf sock m s;
     Some (rc, count_failure rc s)
   }"

fun set_lengths :: "(addr \<times> int) list \<Rightarrow> 'a rte_state_scheme \<Rightarrow> 'a rte_state_scheme" where
  "set_lengths [] s = s"
| "set_lengths ((m, len) # ms) s = set_lengths ms (upd_rmb m (\<lambda>b. b\<lparr> data_len := of_int len \<rparr>) s)"

definition service_send_bulk :: "nat \<Rightarrow> (addr \<times> int) list \<Rightarrow> 'a appstate_scheme \<Rightarrow> (bool \<times> 'a appstate_scheme) option" where
  "service_send_bulk sock bufs s = do {
     let s = count_send (length bufs) (set_lengths bufs s);
     s \<leftarrow> upd_shared sock (\<lambda>k. k\<lparr> write_ready_to_app := 0 \<rparr>) s;
     let (rc, s) = service_enqueue_tx_bufs_bulk sock (map fst bufs) s;
     Some (rc, count_failure rc s)
   }"

text \<open>The destination of a datagram is stored in the 16 bytes in front of the data; \<^term>\<open>ad\<close> are the
  bytes of the application's \<^verbatim>\<open>sockaddr_in\<close>.\<close>

definition put_address :: "addr \<Rightarrow> 8 word list \<Rightarrow> 'a mstate_scheme \<Rightarrow> 'a mstate_scheme" where
  "put_address m ad s = write_bytes (rte_pktmbuf_mtod (rmb s m) - 16) ad s"

definition take_tx_space :: "nat \<Rightarrow> int \<Rightarrow> 'a appstate_scheme \<Rightarrow> 'a appstate_scheme option" where
  "take_tx_space sock n = upd_shared (sock mod (SOCKET_READY_MASK + 1)) (\<lambda>k. k\<lparr> tx_space := tx_space k - of_int n \<rparr>)"

definition service_sendto ::
  "nat \<Rightarrow> addr \<Rightarrow> int \<Rightarrow> 8 word list \<Rightarrow> 'a appstate_scheme \<Rightarrow> (bool \<times> 'a appstate_scheme) option" where
  "service_sendto sock m len ad s = do {
     let s = put_address m ad (upd_rmb m (\<lambda>b. b\<lparr> data_len := of_int len \<rparr>) (count_send 0 s));
     s \<leftarrow> upd_shared (sock mod (SOCKET_READY_MASK + 1)) (\<lambda>k. k\<lparr> write_ready_to_app := 0 \<rparr>) s;
     let (rc, s) = service_enqueue_tx_buf sock m s;
     s \<leftarrow> (if rc then Some s else take_tx_space sock len s);
     Some (rc, count_failure rc s)
   }"

fun address_bulk :: "(addr \<times> int \<times> 8 word list) list \<Rightarrow> 'a mstate_scheme \<Rightarrow> 'a mstate_scheme" where
  "address_bulk [] s = s"
| "address_bulk ((m, len, ad) # ms) s =
     address_bulk ms (put_address m ad (upd_rmb m (\<lambda>b. b\<lparr> data_len := of_int len \<rparr>) s))"

definition service_sendto_bulk ::
  "nat \<Rightarrow> (addr \<times> int \<times> 8 word list) list \<Rightarrow> 'a appstate_scheme \<Rightarrow> (bool \<times> 'a appstate_scheme) option" where
  "service_sendto_bulk sock bufs s = do {
     let s = count_send (length bufs) (address_bulk bufs s);
     s \<leftarrow> upd_shared (sock mod (SOCKET_READY_MASK + 1)) (\<lambda>k. k\<lparr> write_ready_to_app := 0 \<rparr>) s;
     let (rc, s) = service_enqueue_tx_bufs_bulk sock (map fst bufs) s;
     s \<leftarrow> (if rc then Some s else take_tx_space sock (sum_list (map (fst \<circ> snd) bufs)) s);
     Some (rc, count_failure rc s)
   }"

section \<open>Buffers\<close>

definition service_get_buffer :: "int \<Rightarrow> 'a appstate_scheme \<Rightarrow> (addr \<times> addr) option \<times> 'a appstate_scheme" where
  "service_get_buffer owner_sock s =
     (case rte_pktmbuf_alloc (tx_bufs_pool s) s of
        (None, s) \<Rightarrow>
          (None, app_tally (\<lambda>u. u\<lparr> service_stats_tx_buf_allocation_failure := service_stats_tx_buf_allocation_failure u + 1 \<rparr>)
                   (service_notify_empty_tx_buffers owner_sock s))
      | (Some m, s) \<Rightarrow>
          (Some (rte_pktmbuf_mtod (rmb s m), m),
           app_tally (\<lambda>u. u\<lparr> service_stats_buffers_allocated := service_stats_buffers_allocated u + 1 \<rparr>) s))"

fun reset_bulk :: "addr list \<Rightarrow> 'a rte_state_scheme \<Rightarrow> (addr \<times> addr) list \<times> 'a rte_state_scheme" where
  "reset_bulk [] s = ([], s)"
| "reset_bulk (m # ms) s =
     (let s = snd (rte_mbuf_refcnt_update m 1 (rte_pktmbuf_reset m s));
          p = rte_pktmbuf_mtod (rmb s m);
          (bufs, s) = reset_bulk ms s
      in ((p, m) # bufs, s))"

definition service_get_buffers_bulk :: "int \<Rightarrow> u32 \<Rightarrow> 'a appstate_scheme \<Rightarrow> (addr \<times> addr) list option \<times> 'a appstate_scheme" where
  "service_get_buffers_bulk owner_sock n s =
     (let (rc, ms, p) = rte_mempool_get_bulk (rlcore s) (rpool s (tx_bufs_pool s)) n;
          s = s\<lparr> rpool := (rpool s)(tx_bufs_pool s := p) \<rparr>
      in if rc \<noteq> 0
         then (None, app_tally (\<lambda>u. u\<lparr> service_stats_tx_buf_allocation_failure := service_stats_tx_buf_allocation_failure u + 1 \<rparr>)
                       (service_notify_empty_tx_buffers owner_sock s))
         else let (bufs, s) = reset_bulk ms s
              in (Some bufs, app_tally (\<lambda>u. u\<lparr> service_stats_buffers_allocated := service_stats_buffers_allocated u + ucast n \<rparr>) s))"

definition service_release_tx_buffer :: "addr \<Rightarrow> 'a rte_state_scheme \<Rightarrow> 'a rte_state_scheme" where
  "service_release_tx_buffer = rte_pktmbuf_free_seg"

text \<open>Releasing a received chain: up to 32 buffers are collected before they go to the pool of the first of
  them.  The chain ends early at the buffer that is kept as the shadow of the socket.  The first result is the rest
  of the chain.\<close>

partial_function (option) release_batch ::
  "addr option \<Rightarrow> addr list \<Rightarrow> addr option \<Rightarrow> 'a rte_state_scheme \<Rightarrow> (addr option \<times> addr list \<times> 'a rte_state_scheme) option" where
  "release_batch sh acc mo s =
     (case mo of
        None \<Rightarrow> Some (None, acc, s)
      | Some m \<Rightarrow>
          if length acc \<ge> unat MAX_PKT_BURST then Some (Some m, acc, s)
          else if sh = Some m then Some (None, acc, s)
          else let nxt = rm_next (rmb s m);
                   (r, s) = rte_pktmbuf_prefree_seg m s
               in if r \<noteq> None then release_batch sh (acc @ [m]) nxt (upd_rmb m (\<lambda>b. b\<lparr> rm_next := None \<rparr>) s)
                  else release_batch sh acc nxt s)"

partial_function (option) release_chain :: "addr option \<Rightarrow> addr option \<Rightarrow> 'a rte_state_scheme \<Rightarrow> 'a rte_state_scheme option" where
  "release_chain sh mo s =
     (if mo = None then Some s
      else do {
        (mo, ms, s) \<leftarrow> release_batch sh [] mo s;
        let s = (case ms of
                   [] \<Rightarrow> s
                 | m # _ \<Rightarrow>
                     let p = rm_pool (rmb s m)
                     in s\<lparr> rpool := (rpool s)(p := rte_mempool_put_bulk (rlcore s) (rpool s p) ms (of_nat (length ms))) \<rparr>);
        release_chain sh mo s
      })"

definition service_release_rx_buffer :: "addr \<Rightarrow> nat \<Rightarrow> 'a appstate_scheme \<Rightarrow> 'a appstate_scheme option" where
  "service_release_rx_buffer m sock s = release_chain (shadow (local_socket_descriptors s sock)) (Some m) s"

definition service_set_buffer_data_len :: "addr \<Rightarrow> int \<Rightarrow> 'a rte_state_scheme \<Rightarrow> 'a rte_state_scheme" where
  "service_set_buffer_data_len m len = upd_rmb m (\<lambda>b. b\<lparr> data_len := of_int len \<rparr>)"

definition service_get_buffer_data_len :: "addr \<Rightarrow> 'a rte_state_scheme \<Rightarrow> int" where
  "service_get_buffer_data_len m s = uint (data_len (rmb s m))"

definition service_get_data_ptr :: "addr \<Rightarrow> 'a rte_state_scheme \<Rightarrow> addr" where
  "service_get_data_ptr m s = rte_pktmbuf_mtod (rmb s m)"

definition service_update_rfc :: "addr \<Rightarrow> int \<Rightarrow> 'a rte_state_scheme \<Rightarrow> 'a rte_state_scheme" where
  "service_update_rfc m delta s = snd (rte_mbuf_refcnt_update m (of_int delta) s)"

text \<open>The next segment of a chain with its length; the second version also clears the link of the segment that it moved to.\<close>

definition service_get_next_buffer_segment :: "addr \<Rightarrow> 'a rte_state_scheme \<Rightarrow> (addr \<times> addr \<times> int) option" where
  "service_get_next_buffer_segment m s =
     (case rm_next (rmb s m) of
        None \<Rightarrow> None
      | Some n \<Rightarrow> Some (rte_pktmbuf_mtod (rmb s n), n, uint (data_len (rmb s n))))"

definition service_get_next_buffer_segment_and_detach_first ::
  "addr \<Rightarrow> 'a rte_state_scheme \<Rightarrow> (addr \<times> addr \<times> int) option \<times> 'a rte_state_scheme" where
  "service_get_next_buffer_segment_and_detach_first m s =
     (case rm_next (rmb s m) of
        None \<Rightarrow> (None, s)
      | Some n \<Rightarrow>
          let len = uint (data_len (rmb s n));
              s = upd_rmb n (\<lambda>b. b\<lparr> rm_next := None, nb_segs := 1 \<rparr>) s
          in (Some (rte_pktmbuf_mtod (rmb s n), n, len), s))"

section \<open>Receiving\<close>

text \<open>A packet that was read in part is kept as the shadow of the socket.\<close>

definition service_get_from_shadow :: "nat \<Rightarrow> 'a appstate_scheme \<Rightarrow> addr option \<times> 'a appstate_scheme" where
  "service_get_from_shadow sock s =
     (let d = local_socket_descriptors s sock
      in case shadow d of
           None \<Rightarrow> (None, s)
         | Some m \<Rightarrow>
             let s = upd_lsd sock (\<lambda>d. d\<lparr> shadow := None \<rparr>) s;
                 s = upd_rmb m (\<lambda>b. b\<lparr> data_len := of_int (shadow_len_remainder d),
                       data_off := data_off b + of_int (shadow_len_delievered d) \<rparr>) s;
                 s = upd_rmb m (\<lambda>b. b\<lparr> pkt_len := (case rm_next b of
                       None \<Rightarrow> ucast (data_len b)
                     | Some n \<Rightarrow> ucast (data_len b) + pkt_len (rmb s n)) \<rparr>) s;
                 s = upd_rmb m (\<lambda>b. b\<lparr> rm_next := shadow_next d \<rparr>) s
             in (Some m, upd_lsd sock (\<lambda>d. d\<lparr> shadow_next := None \<rparr>) s))"

text \<open>The segment in which a number of bytes ends, the segment before it, and the bytes in front of it.\<close>

partial_function (option) find_segment ::
  "int \<Rightarrow> int \<Rightarrow> addr option \<Rightarrow> addr option \<Rightarrow> 'a rte_state_scheme \<Rightarrow> (int \<times> addr option \<times> addr option) option" where
  "find_segment total_len curr_len prev tmp s =
     (case tmp of
        None \<Rightarrow> Some (curr_len, prev, None)
      | Some m \<Rightarrow>
          if uint (data_len (rmb s m)) + curr_len < total_len
          then find_segment total_len (curr_len + uint (data_len (rmb s m))) (Some m) (rm_next (rmb s m)) s
          else Some (curr_len, prev, Some m))"

definition keep_partial :: "nat \<Rightarrow> int \<Rightarrow> int \<Rightarrow> addr \<Rightarrow> 'a appstate_scheme \<Rightarrow> int \<times> 'a appstate_scheme" where
  "keep_partial sock total_len curr_len tmp s =
     (let remainder = curr_len + uint (data_len (rmb s tmp)) - total_len;
          delivered = uint (data_len (rmb s tmp)) - remainder;
          s = upd_lsd sock (\<lambda>d. d\<lparr> shadow := Some tmp, shadow_next := rm_next (rmb s tmp), shadow_len_remainder := remainder,
                shadow_len_delievered := delivered \<rparr>) s
      in (delivered, upd_rmb tmp (\<lambda>b. b\<lparr> data_len := of_int delivered \<rparr>) s))"

definition keep_next :: "nat \<Rightarrow> addr \<Rightarrow> 'a appstate_scheme \<Rightarrow> 'a appstate_scheme" where
  "keep_next sock tmp s =
     (case rm_next (rmb s tmp) of
        None \<Rightarrow> s
      | Some n \<Rightarrow>
          let s = upd_lsd sock (\<lambda>d. d\<lparr> shadow := Some n, shadow_next := rm_next (rmb s n) \<rparr>) s
          in case rm_next (rmb s n) of
               None \<Rightarrow> s
             | Some n2 \<Rightarrow>
                 upd_lsd sock (\<lambda>d. d\<lparr> shadow_len_remainder := uint (data_len (rmb s n2)), shadow_len_delievered := 0 \<rparr>) s)"

text \<open>The results are the number of bytes that are delivered and the length of the first segment.\<close>

definition service_try_read_exact_amount :: "addr \<Rightarrow> nat \<Rightarrow> int \<Rightarrow> 'a appstate_scheme \<Rightarrow> (int \<times> int \<times> 'a appstate_scheme) option" where
  "service_try_read_exact_amount m sock total_len s = do {
     (curr_len, prev, tmp) \<leftarrow> find_segment total_len 0 None (Some m) s;
     (case tmp of
        None \<Rightarrow> Some (curr_len, uint (data_len (rmb s m)), s)
      | Some t \<Rightarrow>
          let (first, s) = (if curr_len + uint (data_len (rmb s t)) > total_len then keep_partial sock total_len curr_len t s
                            else (uint (data_len (rmb s m)), keep_next sock t s));
              s = upd_rmb t (\<lambda>b. b\<lparr> rm_next := None \<rparr>) s;
              s = (case prev of Some p \<Rightarrow> if curr_len = total_len then upd_rmb p (\<lambda>b. b\<lparr> rm_next := None \<rparr>) s else s | None \<Rightarrow> s)
          in Some (total_len, first, s))
   }"

text \<open>A socket with more data in its shadow announces itself to its own selector.\<close>

definition announce_shadow :: "nat \<Rightarrow> 'a appstate_scheme \<Rightarrow> 'a appstate_scheme" where
  "announce_shadow sock s =
     (let d = local_socket_descriptors s sock
      in if shadow d \<noteq> None \<and> select d \<noteq> -1
         then s\<lparr> g_service_selectors := (g_service_selectors s)(select d :=
                snd (rte_ring_enqueue (g_service_selectors s (select d))
                  (of_nat sock OR push_bit SOCKET_READY_SHIFT SOCKET_READABLE_BIT))) \<rparr>
         else s)"

text \<open>The results of a successful call: the data, the number of bytes, the length of the first segment and the packet.\<close>

definition service_receive ::
  "nat \<Rightarrow> int \<Rightarrow> 'a appstate_scheme \<Rightarrow> ((addr \<times> int \<times> int \<times> addr) option \<times> 'a appstate_scheme) option" where
  "service_receive sock total_len s = do {
     let s = app_tally (\<lambda>u. u\<lparr> service_stats_receive_called := service_stats_receive_called u + 1 \<rparr>) s;
     let (mo, s) = service_get_from_shadow sock s;
     case mo of
       Some m \<Rightarrow>
         if total_len > 0
         then do {
           (len2, first, s) \<leftarrow> service_try_read_exact_amount m sock total_len s;
           let data = rte_pktmbuf_mtod (rmb s m);
           (len, s) \<leftarrow> (if len2 > 0 \<and> len2 < total_len
             then do {
               (mo2, s) \<leftarrow> service_dequeue_rx_buf sock s;
               case mo2 of
                 None \<Rightarrow> Some (len2, s)
               | Some m2 \<Rightarrow> do {
                   (len3, _, s) \<leftarrow> service_try_read_exact_amount m2 sock (total_len - len2) s;
                   l \<leftarrow> rte_pktmbuf_lastseg m s;
                   Some (len2 + len3, upd_rmb l (\<lambda>b. b\<lparr> rm_next := Some m2 \<rparr>) s)
                 }
             }
             else Some (total_len, s));
           Some (Some (data, len, first, m), announce_shadow sock s)
         }
         else do {
           (mo2, s) \<leftarrow> service_dequeue_rx_buf sock s;
           l \<leftarrow> rte_pktmbuf_lastseg m s;
           let s = upd_rmb l (\<lambda>b. b\<lparr> rm_next := mo2 \<rparr>) s;
           let s = (case mo2 of
                      None \<Rightarrow> s
                    | Some m2 \<Rightarrow> upd_rmb m (\<lambda>b. b\<lparr> pkt_len := pkt_len b + pkt_len (rmb s m2) \<rparr>) s);
           Some (Some (rte_pktmbuf_mtod (rmb s m), sint (pkt_len (rmb s m)), uint (data_len (rmb s m)), m), s)
         }
     | None \<Rightarrow> do {
         (mo, s) \<leftarrow> service_dequeue_rx_buf sock s;
         case mo of
           None \<Rightarrow> Some (None, app_tally (\<lambda>u. u\<lparr> service_stats_recv_failure := service_stats_recv_failure u + 1 \<rparr>) s)
         | Some m \<Rightarrow> do {
             (len, first, s) \<leftarrow> (if total_len > 0
               then do {
                 (len2, first, s) \<leftarrow> service_try_read_exact_amount m sock total_len s;
                 Some (len2, first, announce_shadow sock s)
               }
               else Some (sint (pkt_len (rmb s m)), uint (data_len (rmb s m)),
                 app_tally (\<lambda>u. u\<lparr> service_stats_rx_returned := service_stats_rx_returned u + ucast (nb_segs (rmb s m)) \<rparr>) s));
             Some (Some (rte_pktmbuf_mtod (rmb s m), len, first, m), s)
           }
       }
   }"

text \<open>A datagram with the 16 bytes in front of its data.\<close>

definition service_receivefrom ::
  "nat \<Rightarrow> 'a appstate_scheme \<Rightarrow> ((addr \<times> int \<times> 8 word list \<times> addr) option \<times> 'a appstate_scheme) option" where
  "service_receivefrom sock s = do {
     (mo, s) \<leftarrow> service_dequeue_rx_buf sock s;
     let s = app_tally (\<lambda>u. u\<lparr> service_stats_receive_called := service_stats_receive_called u + 1 \<rparr>) s;
     case mo of
       None \<Rightarrow> Some (None, app_tally (\<lambda>u. u\<lparr> service_stats_recv_failure := service_stats_recv_failure u + 1 \<rparr>) s)
     | Some m \<Rightarrow>
         let p = rte_pktmbuf_mtod (rmb s m)
         in Some (Some (p, sint (pkt_len (rmb s m)), mem_read (dmem s) (p - 16) 16, m), s)
   }"

section \<open>Accepting\<close>

text \<open>The member of the union that the service fills for an accepted connection.\<close>

definition accepted_socket :: "service_command \<Rightarrow> (addr option \<times> u32 \<times> u16) option" where
  "accepted_socket c = (case c of SERVICE_SOCKET_ACCEPTED_COMMAND d ip prt \<Rightarrow> Some (d, ip, prt) | _ \<Rightarrow> None)"

definition service_accept :: "nat \<Rightarrow> 'a appstate_scheme \<Rightarrow> (int \<times> 'a appstate_scheme) option" where
  "service_accept sock s = do {
     s \<leftarrow> upd_shared sock (\<lambda>k. k\<lparr> read_ready_to_app := 0 \<rparr>) s;
     (case rte_ring_dequeue (rx_ring (socket_satelite_data s sock)) of
        (_, None, r) \<Rightarrow> Some (-1, upd_sat sock (\<lambda>d. d\<lparr> rx_ring := r \<rparr>) s)
      | (_, Some c, r) \<Rightarrow> do {
          let s = upd_sat sock (\<lambda>d. d\<lparr> rx_ring := r \<rparr>) s;
          (descr, ipaddr, prt) \<leftarrow> accepted_socket (cmd (commands s c));
          case rte_ring_dequeue (free_connections_ring s) of
            (_, None, r) \<Rightarrow>
              let s = s\<lparr> free_connections_ring := r, commands := (commands s)(c := (commands s c)\<lparr> cmd := SERVICE_SOCKET_DECLINE_COMMAND descr \<rparr>) \<rparr>;
                  (full, s) = service_enqueue_command_buf c s
              in Some (if full then (-4, service_free_command_buf c s) else (-3, s))
          | (_, Some k, r) \<Rightarrow>
              let s = s\<lparr> free_connections_ring := r \<rparr>;
                  i = connection_idx (g_service_sockets s (int k));
                  s = service_reset_local_descriptor i s;
                  s = upd_lsd i (\<lambda>d. d\<lparr> remote_ipaddr := ipaddr, remote_port := ucast prt \<rparr>) s;
                  s = upd_lsd i (\<lambda>d. d\<lparr> lsd_local_ipaddr := lsd_local_ipaddr (local_socket_descriptors s sock) \<rparr>) s;
                  s = upd_lsd i (\<lambda>d. d\<lparr> lsd_local_port := lsd_local_port (local_socket_descriptors s sock), lsocket := Some k \<rparr>) s;
                  s = s\<lparr> commands := (commands s)(c := (commands s c)\<lparr> cmd := SERVICE_SET_SOCKET_RING_COMMAND descr (getpid s),
                        ringset_idx := of_nat i, parent_idx := -1 \<rparr>) \<rparr>;
                  (full, s) = service_enqueue_command_buf c s
              in Some (if full then (-2, service_free_command_buf c s)
                       else (int i, app_tally (\<lambda>u. u\<lparr> service_stats_accepted := service_stats_accepted u + 1 \<rparr>) s))
        })
   }"

definition service_getsockname :: "nat \<Rightarrow> bool \<Rightarrow> 'a appstate_scheme \<Rightarrow> (u32 \<times> u16) option" where
  "service_getsockname sock is_local s =
     (let d = local_socket_descriptors s sock
      in if is_local
         then do {
           k \<leftarrow> lsocket d;
           let g = g_service_sockets s (int k);
           Some (if local_ipaddr g \<noteq> 0 then (local_ipaddr g, local_port g) else (lsd_local_ipaddr d, ucast (lsd_local_port d)))
         }
         else Some (remote_ipaddr d, ucast (remote_port d)))"

definition service_is_connected :: "nat \<Rightarrow> 'a appstate_scheme \<Rightarrow> bool" where
  "service_is_connected sock s = any_event_received (local_socket_descriptors s sock)"

section \<open>Waiting for events\<close>

text \<open>The sets of sockets that a caller waits for: \<^term>\<open>returned_sockets\<close> is an array of which the first
  \<^term>\<open>returned_idx\<close> entries count.\<close>

record fdset =
  interested_flags :: "nat \<Rightarrow> bool"
  returned_flags :: "nat \<Rightarrow> bool"
  returned_sockets :: "nat \<Rightarrow> nat"
  returned_idx :: nat

definition service_fdset :: "nat \<Rightarrow> fdset \<Rightarrow> fdset" where
  "service_fdset sock fd = fd\<lparr> interested_flags := (interested_flags fd)(sock := True) \<rparr>"

definition service_fdclear :: "nat \<Rightarrow> fdset \<Rightarrow> fdset" where
  "service_fdclear sock fd = fd\<lparr> interested_flags := (interested_flags fd)(sock := False),
     returned_flags := (returned_flags fd)(sock := False) \<rparr>"

definition service_fdzero :: "fdset \<Rightarrow> fdset" where
  "service_fdzero fd = fd\<lparr> interested_flags := \<lambda>i. if i < 2048 then False else interested_flags fd i,
     returned_flags := \<lambda>i. if i < 2048 then False else returned_flags fd i,
     returned_sockets := \<lambda>i. if i < 2048 then 0 else returned_sockets fd i, returned_idx := 0 \<rparr>"

definition service_fdisset :: "nat \<Rightarrow> fdset \<Rightarrow> bool" where
  "service_fdisset sock fd = returned_flags fd sock"

definition service_fd_idx2sock :: "fdset \<Rightarrow> nat \<Rightarrow> nat" where
  "service_fd_idx2sock fd i = returned_sockets fd i"

definition service_update_fdset :: "nat \<Rightarrow> fdset \<Rightarrow> fdset" where
  "service_update_fdset i fd =
     (if interested_flags fd i \<and> \<not> returned_flags fd i
      then fd\<lparr> returned_sockets := (returned_sockets fd)(returned_idx fd := i), returned_flags := (returned_flags fd)(i := True),
             returned_idx := returned_idx fd + 1 \<rparr>
      else fd)"

text \<open>What a call forgets of the results of the call before.\<close>

fun clear_returned :: "nat \<Rightarrow> fdset \<Rightarrow> fdset" where
  "clear_returned 0 fd = fd\<lparr> returned_idx := 0 \<rparr>"
| "clear_returned (Suc n) fd =
     clear_returned n (fd\<lparr> returned_flags := (returned_flags fd)(returned_sockets fd n := False) \<rparr>)"

type_synonym fdsets = "fdset option \<times> fdset option \<times> fdset option"

definition entry_sock :: "u32 \<Rightarrow> nat" where
  "entry_sock e = unat (e AND of_nat SOCKET_READY_MASK)"

definition entry_has :: "u32 \<Rightarrow> u32 \<Rightarrow> bool" where
  "entry_has e ev \<longleftrightarrow> drop_bit SOCKET_READY_SHIFT e AND ev \<noteq> 0"

text \<open>One entry of the ring of the selector; an entry for a socket out of range ends the process.\<close>

definition select_entry :: "u32 \<Rightarrow> fdsets \<times> 'a appstate_scheme \<Rightarrow> (fdsets \<times> 'a appstate_scheme) option" where
  "select_entry e st =
     (case st of ((rd, wr, ex), s) \<Rightarrow>
        if entry_sock e \<ge> SERVICE_CONNECTION_POOL_SIZE then None
        else let i = entry_sock e;
                 s = upd_lsd i (\<lambda>d. d\<lparr> any_event_received := True \<rparr>) s;
                 rd = (if entry_has e SOCKET_READABLE_BIT then map_option (service_update_fdset i) rd else rd);
                 (ex, wr) = (if entry_has e SOCKET_CLOSED_BIT \<and> ex \<noteq> None then (map_option (service_update_fdset i) ex, wr)
                             else if entry_has e SOCKET_WRITABLE_BIT then (ex, map_option (service_update_fdset i) wr)
                             else (ex, wr))
             in Some ((rd, wr, ex), s))"

fun select_entries :: "u32 list \<Rightarrow> fdsets \<times> 'a appstate_scheme \<Rightarrow> (fdsets \<times> 'a appstate_scheme) option" where
  "select_entries [] st = Some st"
| "select_entries (e # es) st = do { st \<leftarrow> select_entry e st; select_entries es st }"

definition returned_count :: "fdsets \<Rightarrow> nat" where
  "returned_count fds =
     (case fds of (rd, wr, ex) \<Rightarrow>
        (case rd of None \<Rightarrow> 0 | Some fd \<Rightarrow> returned_idx fd) + (case wr of None \<Rightarrow> 0 | Some fd \<Rightarrow> returned_idx fd) +
        (case ex of None \<Rightarrow> 0 | Some fd \<Rightarrow> returned_idx fd))"

text \<open>The loop: \<^term>\<open>pselect\<close> is the wait for a signal, during which the service may run.  A call with a
  time-out waits once.\<close>

partial_function (option) select_loop ::
  "('a appstate_scheme \<Rightarrow> 'a appstate_scheme) \<Rightarrow> int \<Rightarrow> (int \<times> int) option \<Rightarrow> bool \<Rightarrow> fdsets \<Rightarrow> 'a appstate_scheme \<Rightarrow>
   (int \<times> fdsets \<times> 'a appstate_scheme) option" where
  "select_loop pselect selector timeout exit_after_check fds s =
     (if returned_count fds > 0 then Some (int (returned_count fds), fds, s)
      else let n = rte_ring_count (g_service_selectors s selector);
               (rc, es, r) = rte_ring_dequeue_bulk (g_service_selectors s selector) n
           in if n = 0 \<or> rc \<noteq> 0
              then if exit_after_check \<or> timeout = Some (0, 0) then Some (-1, fds, s)
                   else select_loop pselect selector timeout (timeout \<noteq> None) fds (pselect s)
              else do {
                let s = s\<lparr> g_service_selectors := (g_service_selectors s)(selector := r) \<rparr>;
                let s = app_tally (\<lambda>u. u\<lparr> service_stats_select_returned := service_stats_select_returned u + 1 \<rparr>) s;
                (fds, s) \<leftarrow> select_entries es (fds, s);
                select_loop pselect selector timeout exit_after_check fds s
              })"

definition service_select ::
  "('a appstate_scheme \<Rightarrow> 'a appstate_scheme) \<Rightarrow> int \<Rightarrow> fdsets \<Rightarrow> (int \<times> int) option \<Rightarrow> 'a appstate_scheme \<Rightarrow>
   (int \<times> fdsets \<times> 'a appstate_scheme) option" where
  "service_select pselect selector fds timeout s =
     (case fds of (rd, wr, ex) \<Rightarrow>
        let clear = map_option (\<lambda>fd. clear_returned (returned_idx fd) fd)
        in select_loop pselect selector timeout False (clear rd, clear wr, clear ex)
             (app_tally (\<lambda>u. u\<lparr> service_stats_select_called := service_stats_select_called u + 1 \<rparr>) s))"

section \<open>Initialisation\<close>

text \<open>The objects that the library looks up by name.\<close>

datatype shared_name =
    FREE_CLIENTS_RING | FREE_CONNECTIONS_RING | FREE_CONNECTIONS_POOL_NAME | RX_RING_NAME nat | TX_RING_NAME nat
  | MBUFS_MEMPOOL | FREE_COMMAND_POOL_NAME | COMMAND_RING_NAME | RX_MBUFS_RING | SELECTOR_RING_NAME nat

text \<open>The local descriptors; \<^term>\<open>mk\<close> creates the ring of the local cache and \<^term>\<open>old\<close> finds one of an earlier run.  A missing ring
  ends the process.\<close>

fun init_local ::
  "(shared_name \<Rightarrow> bool) \<Rightarrow> (nat \<Rightarrow> addr rte_ring option) \<Rightarrow> (nat \<Rightarrow> addr rte_ring option) \<Rightarrow> nat list \<Rightarrow>
   'a appstate_scheme \<Rightarrow> 'a appstate_scheme option" where
  "init_local found mk old [] s = Some s"
| "init_local found mk old (i # js) s = do {
     if \<not> found (RX_RING_NAME i) \<or> \<not> found (TX_RING_NAME i) then None
     else do {
       c \<leftarrow> (case mk i of None \<Rightarrow> old i | Some c \<Rightarrow> Some c);
       init_local found mk old js
         (upd_lsd i (\<lambda>_. \<lparr> lsocket = None, select = -1, local_cache = c, any_event_received = False, shadow = None,
            shadow_next = None, shadow_len_remainder = 0, shadow_len_delievered = 0, lsd_local_ipaddr = 0, lsd_local_port = 0,
            remote_ipaddr = 0, remote_port = 0 \<rparr>) s)
     }
   }"

text \<open>The signal handlers and the affinity of the thread are left out; \<^term>\<open>eal\<close> is the result of the DPDK initialisation.\<close>

definition service_app_init ::
  "int \<Rightarrow> (shared_name \<Rightarrow> bool) \<Rightarrow> (nat \<Rightarrow> addr rte_ring option) \<Rightarrow> (nat \<Rightarrow> addr rte_ring option) \<Rightarrow>
   'a appstate_scheme \<Rightarrow> (int \<times> 'a appstate_scheme) option" where
  "service_app_init eal found mk old s =
     (if eal < 0 then Some (-1, s)
      else if \<not> found FREE_CLIENTS_RING then None
      else if \<not> found FREE_CONNECTIONS_RING \<or> \<not> found FREE_CONNECTIONS_POOL_NAME then Some (-1, s)
      else do {
        s \<leftarrow> init_local found mk old [0..<SERVICE_CONNECTION_POOL_SIZE] s;
        if \<not> found MBUFS_MEMPOOL \<or> \<not> found FREE_COMMAND_POOL_NAME \<or> \<not> found COMMAND_RING_NAME \<or> \<not> found RX_MBUFS_RING
        then Some (-1, s)
        else if \<exists>i \<in> set [0..<SERVICE_SELECTOR_POOL_SIZE]. \<not> found (SELECTOR_RING_NAME i) then None
        else Some (0, s)
      })"

text \<open>Rings of the application's own.\<close>

definition service_create_ring :: "'a rte_ring option \<Rightarrow> (u32 \<Rightarrow> 'a rte_ring option) \<Rightarrow> u32 \<Rightarrow> 'a rte_ring option" where
  "service_create_ring existing mk n = (case existing of Some r \<Rightarrow> Some r | None \<Rightarrow> mk n)"

definition service_ring_get :: "'a rte_ring \<Rightarrow> 'a option \<times> 'a rte_ring" where
  "service_ring_get r = snd (rte_ring_dequeue r)"

definition service_ring_free :: "'a rte_ring \<Rightarrow> 'a \<Rightarrow> 'a rte_ring" where
  "service_ring_free r x = snd (rte_ring_enqueue r x)"

end
