(* ===== verification/App_Rings.thy ===== *)
theory App_Rings
  imports App_Api
begin

unbundle bit_operations_syntax

text \<open>
  What an application gets from the rings it shares with the service: packets arrive once and in order in both
  directions, whatever the order in which the two sides run, requests are carried out as they were
  written, and an event that the service announces is the one that the application is told.
\<close>

section \<open>A channel for packets\<close>

text \<open>The interface between the side that hands over packets and the side that takes them: \<^term>\<open>queue\<close> are the packets under way.
  A put appends a packet or refuses it, a get takes a prefix, and takes something when there is something.\<close>

locale packet_channel =
  fixes ok :: "'s \<Rightarrow> bool"
    and queue :: "'s \<Rightarrow> addr list"
    and put :: "addr \<Rightarrow> 's \<Rightarrow> (bool \<times> 's) option"
    and get :: "'s \<Rightarrow> (addr list \<times> 's) option"
  assumes put_spec: "ok s \<Longrightarrow> \<exists>full t. put m s = Some (full, t) \<and> ok t \<and> queue t = (if full then queue s else queue s @ [m])"
    and get_spec: "ok s \<Longrightarrow> \<exists>ms t. get s = Some (ms, t) \<and> ok t \<and> ms @ queue t = queue s \<and> (queue s \<noteq> [] \<longrightarrow> ms \<noteq> [])"

text \<open>An interleaving of puts and gets, with the packets that were accepted and those that were taken.\<close>

fun channel_run ::
  "(addr \<Rightarrow> 's \<Rightarrow> (bool \<times> 's) option) \<Rightarrow> ('s \<Rightarrow> (addr list \<times> 's) option) \<Rightarrow> addr option list \<Rightarrow> 's \<Rightarrow>
   (addr list \<times> addr list \<times> 's) option" where
  "channel_run put get [] s = Some ([], [], s)"
| "channel_run put get (Some m # ops) s = do {
     (full, s) \<leftarrow> put m s;
     (acc, got, s) \<leftarrow> channel_run put get ops s;
     Some (if full then acc else m # acc, got, s)
   }"
| "channel_run put get (None # ops) s = do {
     (ms, s) \<leftarrow> get s;
     (acc, got, s) \<leftarrow> channel_run put get ops s;
     Some (acc, ms @ got, s)
   }"

context packet_channel
begin

lemma run_keeps_order:
  "ok s \<Longrightarrow> \<exists>acc got t. channel_run put get ops s = Some (acc, got, t) \<and> ok t \<and> got @ queue t = queue s @ acc"
proof (induction ops arbitrary: s)
  case (Cons x ops)
  show ?case
  proof (cases x)
    case None
    obtain ms t where t: "get s = Some (ms, t)" "ok t" "ms @ queue t = queue s" using get_spec [OF Cons.prems] by blast
    with Cons.IH [OF t(2)] show ?thesis
      by (metis None append.assoc bind.bind_lunit case_prod_conv channel_run.simps(3))
  next
    case (Some m)
    obtain full t where t: "put m s = Some (full, t)" "ok t" "queue t = (if full then queue s else queue s @ [m])"
      using put_spec [OF Cons.prems] by blast
    with Cons.IH [OF t(2)] show ?thesis by (auto simp: Some)
  qed
qed simp

lemma gets_drain: "ok s \<Longrightarrow> length (queue s) \<le> n \<Longrightarrow>
  \<exists>t. channel_run put get (replicate n None) s = Some ([], queue s, t) \<and> ok t \<and> queue t = []"
proof (induction n arbitrary: s)
  case (Suc n)
  obtain ms t where t: "get s = Some (ms, t)" "ok t" "ms @ queue t = queue s" "queue s \<noteq> [] \<longrightarrow> ms \<noteq> []"
    using get_spec [OF Suc.prems(1)] by blast
  have "length (queue s) = length ms + length (queue t)" using arg_cong [OF t(3), of length] by simp
  moreover have "length (queue s) = 0 \<or> 0 < length ms" using t(4) by auto
  ultimately have "length (queue t) \<le> n" using Suc.prems(2) by linarith
  with Suc.IH [OF t(2)] t show ?case by auto
qed simp

end

section \<open>Received packets\<close>

lemma rte_ring_sc_dequeue_eq: "rte_ring_sc_dequeue r = rte_ring_dequeue r"
  by (simp add: rte_ring_sc_dequeue_def rte_ring_dequeue_bulk_one rte_ring_sc_dequeue_bulk_eq)

lemma sp_enqueue_burst_moves:
  assumes "ring_inv r" "unat n \<le> length tbl"
  shows "snd (rte_ring_sp_enqueue_burst r tbl n) = ring_push r (take (min (unat n) (ring_capacity r - ring_used r)) tbl)"
  using rte_ring_enqueue_burst_moves [OF assms]
  by (simp add: rte_ring_sp_enqueue_burst_def rte_ring_enqueue_burst_def mp_do_enqueue_alone split: if_splits)

lemma sc_dequeue_burst_moves:
  assumes "ring_inv r"
  shows "snd (rte_ring_sc_dequeue_burst r n) = (take (unat n) (ring_contents r), ring_pop r (min (unat n) (ring_used r)))"
  using rte_ring_dequeue_burst_moves [OF assms, of n]
  by (simp add: rte_ring_sc_dequeue_burst_def rte_ring_dequeue_burst_def mc_do_dequeue_alone split: if_splits)

lemma sc_dequeue_burst_count:
  assumes "ring_inv r"
  shows "fst (rte_ring_sc_dequeue_burst r n) = int (min (unat n) (ring_used r))"
proof -
  let ?e = "p_tail (r_prod r) - c_head (r_cons r)"
  have e: "unat ?e = ring_used r" by (rule ring_used_word [OF assms])
  have small: "ring_used r < 2 ^ 28" using ring_inv_used [OF assms] ring_capacity_bound [OF assms] by simp
  show ?thesis
  proof (cases "ring_limit RTE_RING_QUEUE_VARIABLE n ?e")
    case None
    then show ?thesis
      using e by (auto simp: rte_ring_sc_dequeue_burst_def sc_do_dequeue_def ring_limit_def split: if_splits)
  next
    case (Some m)
    then have "unat m = min (unat n) (ring_used r)"
      using e by (auto simp: ring_limit_def word_less_nat_alt split: if_splits)
    then show ?thesis
      using sc_do_dequeue_some(3) [OF assms Some] sint_small32 [of m] small by (simp add: rte_ring_sc_dequeue_burst_def)
  qed
qed

lemma sc_dequeue_burst_eq:
  assumes "ring_inv r"
  shows "rte_ring_sc_dequeue_burst r n =
    (int (min (unat n) (ring_used r)), take (unat n) (ring_contents r), ring_pop r (min (unat n) (ring_used r)))"
  using sc_dequeue_burst_count [OF assms, of n] sc_dequeue_burst_moves [OF assms, of n]
  by (metis prod.collapse)

text \<open>The packets on their way to the application: those in its local cache, then those on the ring.\<close>

definition rx_queue :: "nat \<Rightarrow> 'a appstate_scheme \<Rightarrow> addr list" where
  "rx_queue i s = ring_contents (local_cache (local_socket_descriptors s i)) @ ring_contents (rx_ring (socket_satelite_data s i))"

definition rx_ok :: "nat \<Rightarrow> 'a appstate_scheme \<Rightarrow> bool" where
  "rx_ok i s \<longleftrightarrow> ring_inv (rx_ring (socket_satelite_data s i)) \<and> ring_inv (local_cache (local_socket_descriptors s i)) \<and>
     0 < ring_capacity (local_cache (local_socket_descriptors s i)) \<and>
     lsocket (local_socket_descriptors s (i mod (SOCKET_READY_MASK + 1))) \<noteq> None"

lemma lsd_simps [simp]:
  "local_socket_descriptors (upd_lsd i f s) = (local_socket_descriptors s)(i := f (local_socket_descriptors s i))"
  "socket_satelite_data (upd_lsd i f s) = socket_satelite_data s"
  "local_socket_descriptors (upd_sat j h s) = local_socket_descriptors s"
  "local_socket_descriptors (upd_gs r g s) = local_socket_descriptors s"
  "local_socket_descriptors (app_tally k s) = local_socket_descriptors s"
  "socket_satelite_data (app_tally k s) = socket_satelite_data s"
  by (simp_all add: upd_lsd_def upd_sat_def upd_gs_def app_tally_def)

lemma mark_readable_keeps [simp]:
  "local_socket_descriptors (service_mark_readable i s) = local_socket_descriptors s"
  "socket_satelite_data (service_mark_readable i s) = socket_satelite_data s"
  by (simp_all add: service_mark_readable_def post_ready_def tally_def signal_app_def upd_gs_def Let_def case_prod_beta)

lemma rx_kick_keeps [simp]:
  "local_socket_descriptors (rx_kick i s) = local_socket_descriptors s" "socket_satelite_data (rx_kick i s) = socket_satelite_data s"
  "g_service_sockets (rx_kick i s) = g_service_sockets s"
  by (simp_all add: rx_kick_def service_get_free_command_buf_def service_enqueue_command_buf_def app_tally_def Let_def
      split: prod.splits option.splits)

lemma upd_shared_some:
  "lsocket (local_socket_descriptors s i) = Some r \<Longrightarrow> upd_shared i f s = Some (upd_gs (int r) f s)"
  by (simp add: upd_shared_def)

lemma take_cached_spec:
  assumes "rx_ok i s"
  obtains t where "take_cached i s = (case ring_contents (local_cache (local_socket_descriptors s i)) of [] \<Rightarrow> None | m # _ \<Rightarrow> Some m, t)"
    "rx_ok i t" "ring_contents (local_cache (local_socket_descriptors t i)) = tl (ring_contents (local_cache (local_socket_descriptors s i)))"
    "rx_ring (socket_satelite_data t i) = rx_ring (socket_satelite_data s i)" "g_service_sockets t = g_service_sockets s"
    "\<forall>j. lsocket (local_socket_descriptors t j) = lsocket (local_socket_descriptors s j)"
proof -
  let ?c = "local_cache (local_socket_descriptors s i)"
  obtain ret ox c where d: "rte_ring_dequeue ?c = (ret, ox, c)" by (metis surj_pair)
  have "ring_inv ?c" using assms by (simp add: rx_ok_def)
  note c = rr.deq_spec [OF this d]
  define t where "t = upd_lsd i (\<lambda>d. d\<lparr> local_cache := c \<rparr>) s"
  have "take_cached i s = (ox, t)" by (simp add: take_cached_def rte_ring_sc_dequeue_eq d t_def)
  moreover have "ox = (case ring_contents ?c of [] \<Rightarrow> None | m # _ \<Rightarrow> Some m)" "ring_contents c = tl (ring_contents ?c)"
    using c(3,5) by (auto split: option.splits)
  moreover have "rx_ok i t" using assms c(1,2) by (auto simp: rx_ok_def t_def)
  ultimately show ?thesis
    using that [of t] by (simp add: t_def) (simp add: upd_lsd_def)
qed

lemma refill_spec:
  assumes "rx_ok i s"
  shows "rx_ok i (refill_local_cache i s)" "rx_queue i (refill_local_cache i s) = rx_queue i s"
    "rx_queue i s \<noteq> [] \<Longrightarrow> ring_contents (local_cache (local_socket_descriptors (refill_local_cache i s) i)) \<noteq> []"
    "g_service_sockets (refill_local_cache i s) = g_service_sockets s"
    "lsocket (local_socket_descriptors (refill_local_cache i s) j) = lsocket (local_socket_descriptors s j)"
proof -
  define c where "c = local_cache (local_socket_descriptors s i)"
  define r where "r = rx_ring (socket_satelite_data s i)"
  define n where "n = (if rte_ring_free_count c > MAX_PKT_BURST then MAX_PKT_BURST else rte_ring_free_count c)"
  have inv: "ring_inv c" "ring_inv r" "0 < ring_capacity c" using assms by (auto simp: rx_ok_def c_def r_def)
  have free: "unat (rte_ring_free_count c) = ring_capacity c - ring_used c" by (rule rte_ring_free_count_room [OF inv(1)])
  have n: "unat n \<le> ring_capacity c - ring_used c" "n = 0 \<longleftrightarrow> ring_capacity c = ring_used c"
    using free ring_inv_used [OF inv(1)] by (auto simp: n_def word_less_nat_alt unat_eq_0 [symmetric])
  define k where "k = min (unat n) (ring_used r)"
  define ms where "ms = take (unat n) (ring_contents r)"
  have k: "length ms = k" "k \<le> ring_used r" "ring_used c + k \<le> ring_capacity c" "ms = take k (ring_contents r)"
    using n(1) ring_inv_used [OF inv(1)] ring_contents_length [of r] by (auto simp: k_def ms_def min_def)
  define t where "t = (if rte_ring_count r = 0 \<or> n = 0 then s
    else upd_lsd i (\<lambda>d. d\<lparr> local_cache := ring_push c ms \<rparr>)
           (app_tally (\<lambda>u. u\<lparr> service_stats_rx_dequeued := service_stats_rx_dequeued u + 1 \<rparr>)
             (upd_sat i (\<lambda>d. d\<lparr> rx_ring := ring_pop r k \<rparr>) s)))"
  have moved: "snd (rte_ring_sp_enqueue_burst c ms (of_int (int k))) = ring_push c ms" if "0 < k"
  proof -
    have "k < 2 ^ 28" using k(2) ring_inv_used [OF inv(2)] ring_capacity_bound [OF inv(2)] by simp
    then have u: "unat (of_nat k :: u32) = k" by (simp add: unat_of_nat take_bit_eq_mod)
    show ?thesis using sp_enqueue_burst_moves [OF inv(1), of "of_nat k" ms] k(1,3) by (simp add: u min_def)
  qed
  have count: "rte_ring_count r = 0 \<longleftrightarrow> ring_used r = 0" using rte_ring_count_used [OF inv(2)] by (auto simp: unat_eq_0)
  have eq: "refill_local_cache i s = t"
  proof (cases "rte_ring_count r = 0 \<or> n = 0")
    case False
    then have "0 < k" using count by (simp add: k_def unat_gt_0)
    then show ?thesis
      using False moved sc_dequeue_burst_eq [OF inv(2), of n]
      by (simp add: refill_local_cache_def t_def c_def [symmetric] r_def [symmetric] n_def [symmetric] k_def [symmetric]
          ms_def [symmetric] Let_def upd_lsd_def app_tally_def upd_sat_def)
  qed (auto simp: refill_local_cache_def t_def c_def [symmetric] r_def [symmetric] n_def [symmetric] Let_def)
  have new: "ring_inv (ring_push c ms)" "ring_contents (ring_push c ms) = ring_contents c @ ms"
    "ring_inv (ring_pop r k)" "ring_contents (ring_pop r k) = drop k (ring_contents r)"
    using inv k by (simp_all add: ring_push_inv ring_push_contents ring_pop_inv ring_pop_contents)
  show "rx_ok i (refill_local_cache i s)" using assms new by (auto simp: eq t_def rx_ok_def c_def)
  show "rx_queue i (refill_local_cache i s) = rx_queue i s"
    using new by (simp add: eq t_def rx_queue_def c_def [symmetric] r_def [symmetric] k(4))
  show "g_service_sockets (refill_local_cache i s) = g_service_sockets s"
    by (simp add: eq t_def) (simp add: upd_lsd_def app_tally_def upd_sat_def)
  show "lsocket (local_socket_descriptors (refill_local_cache i s) j) = lsocket (local_socket_descriptors s j)"
    by (simp add: eq t_def)
  assume q: "rx_queue i s \<noteq> []"
  show "ring_contents (local_cache (local_socket_descriptors (refill_local_cache i s) i)) \<noteq> []"
  proof (cases "rte_ring_count r = 0 \<or> n = 0")
    case True
    then have "ring_contents r = [] \<or> ring_contents c \<noteq> []"
      using count n(2) inv(3) ring_contents_length [of r] ring_contents_length [of c] by (metis length_0_conv neq0_conv)
    then show ?thesis using q True by (auto simp: eq t_def rx_queue_def c_def r_def)
  next
    case False
    then have "ms \<noteq> []" using count k(1) by (auto simp: k_def unat_eq_0 min_def split: if_splits)
    then show ?thesis using False new(2) by (simp add: eq t_def)
  qed
qed

lemma hd_of_front:
  assumes "xs @ ys \<noteq> [] \<longrightarrow> xs \<noteq> []"
  shows "(case xs of [] \<Rightarrow> None | m # _ \<Rightarrow> Some m) = (case xs @ ys of [] \<Rightarrow> None | m # _ \<Rightarrow> Some m)" "tl xs @ ys = tl (xs @ ys)"
  using assms by (cases xs; auto)+

lemma dequeue_rx_spec:
  assumes ok: "rx_ok i s" and r: "lsocket (local_socket_descriptors s (i mod (SOCKET_READY_MASK + 1))) = Some r"
  shows "\<exists>t. service_dequeue_rx_buf i s = Some (case rx_queue i s of [] \<Rightarrow> None | m # _ \<Rightarrow> Some m, t) \<and>
    rx_ok i t \<and> rx_queue i t = tl (rx_queue i s) \<and> read_ready_to_app (g_service_sockets t (int r)) = 0 \<and>
    lsocket (local_socket_descriptors t (i mod (SOCKET_READY_MASK + 1))) = Some r"
proof -
  let ?c = "\<lambda>s. ring_contents (local_cache (local_socket_descriptors s i))" and ?hd = "\<lambda>xs. case xs of [] \<Rightarrow> None | m # _ \<Rightarrow> Some m"
  obtain s1 where s1: "take_cached i s = (?hd (?c s), s1)" "rx_ok i s1" "?c s1 = tl (?c s)"
    "rx_ring (socket_satelite_data s1 i) = rx_ring (socket_satelite_data s i)"
    "\<forall>j. lsocket (local_socket_descriptors s1 j) = lsocket (local_socket_descriptors s j)"
    by (rule take_cached_spec [OF ok])
  define s2 where "s2 = upd_gs (int r) (\<lambda>k. k\<lparr> read_ready_to_app := 0 \<rparr>) s1"
  define s3 where "s3 = refill_local_cache i s2"
  have s2: "rx_ok i s2" "rx_queue i s2 = rx_queue i s1" "read_ready_to_app (g_service_sockets s2 (int r)) = 0"
    using s1(2) by (simp_all add: s2_def rx_ok_def rx_queue_def)
  have shared: "upd_shared (i mod (SOCKET_READY_MASK + 1)) (\<lambda>k. k\<lparr> read_ready_to_app := 0 \<rparr>) s1 = Some s2"
    using r s1(5) by (simp add: upd_shared_some s2_def)
  note s3 = refill_spec [OF s2(1), folded s3_def]
  have l3: "lsocket (local_socket_descriptors s3 (i mod (SOCKET_READY_MASK + 1))) = Some r"
    using r s1(5) s3(5) by (simp add: s2_def)
  have f3: "read_ready_to_app (g_service_sockets s3 (int r)) = 0" using s2(3) s3(4) by simp
  have q1: "rx_queue i s3 = tl (?c s) @ ring_contents (rx_ring (socket_satelite_data s i))"
    using s3(2) s2(2) s1(3,4) by (simp add: rx_queue_def)
  show ?thesis
  proof (cases "?c s")
    case (Cons m ms)
    let ?t = "rx_kick i (count_dequeued m s3)"
    have "service_dequeue_rx_buf i s = Some (Some m, ?t)"
      using s1(1) shared Cons by (simp add: service_dequeue_rx_buf_def s3_def)
    moreover have "rx_ok i ?t" "rx_queue i ?t = ms @ ring_contents (rx_ring (socket_satelite_data s i))"
      using s3(1) q1 Cons by (simp_all add: rx_ok_def rx_queue_def count_dequeued_def)
    ultimately show ?thesis using Cons l3 f3 by (simp add: rx_queue_def count_dequeued_def app_tally_def)
  next
    case Nil
    obtain s4 where s4: "take_cached i s3 = (?hd (?c s3), s4)" "rx_ok i s4" "?c s4 = tl (?c s3)"
      "rx_ring (socket_satelite_data s4 i) = rx_ring (socket_satelite_data s3 i)" "g_service_sockets s4 = g_service_sockets s3"
      "\<forall>j. lsocket (local_socket_descriptors s4 j) = lsocket (local_socket_descriptors s3 j)"
      by (rule take_cached_spec [OF s3(1)])
    have q: "rx_queue i s3 = rx_queue i s" using q1 Nil by (simp add: rx_queue_def)
    then have front: "rx_queue i s3 \<noteq> [] \<longrightarrow> ?c s3 \<noteq> []" using s3(2,3) by simp
    have hd: "?hd (?c s3) = ?hd (rx_queue i s)" "rx_queue i s4 = tl (rx_queue i s)"
      using hd_of_front [OF front [unfolded rx_queue_def]]
      by (simp_all only: q [symmetric] rx_queue_def [of i s4] rx_queue_def [of i s3] s4(3,4))
    define t where "t = rx_kick i (case ?hd (?c s3) of None \<Rightarrow> s4 | Some m \<Rightarrow> count_dequeued m s4)"
    have "service_dequeue_rx_buf i s = Some (?hd (?c s3), t)"
      using s1(1) shared Nil s4(1) by (simp add: service_dequeue_rx_buf_def s3_def [symmetric] t_def)
    moreover have "rx_ok i t" "rx_queue i t = rx_queue i s4" "g_service_sockets t = g_service_sockets s4"
      "local_socket_descriptors t = local_socket_descriptors s4"
      using s4(2) by (auto simp: t_def rx_ok_def rx_queue_def count_dequeued_def app_tally_def split: option.splits)
    ultimately show ?thesis using hd l3 f3 s4(5,6) by simp
  qed
qed

definition rx_put :: "nat \<Rightarrow> addr \<Rightarrow> 'a svstate_scheme \<Rightarrow> (bool \<times> 'a svstate_scheme) option" where
  "rx_put i m s = Some (service_submit_rx_buf m i s)"

definition rx_get :: "nat \<Rightarrow> 'a appstate_scheme \<Rightarrow> (addr list \<times> 'a appstate_scheme) option" where
  "rx_get i s = map_option (\<lambda>(mo, t). (case mo of None \<Rightarrow> [] | Some m \<Rightarrow> [m], t)) (service_dequeue_rx_buf i s)"

lemma submit_rx_spec:
  assumes "rx_ok i s"
  shows "\<exists>full t. rx_put i m s = Some (full, t) \<and> rx_ok i t \<and> rx_queue i t = (if full then rx_queue i s else rx_queue i s @ [m])"
proof -
  let ?r = "rx_ring (socket_satelite_data s i)"
  obtain rc r where e: "rte_ring_enqueue ?r m = (rc, r)" by fastforce
  have "ring_inv ?r" using assms by (simp add: rx_ok_def)
  note r = rr.enq_spec [OF this e]
  have "rte_ring_sp_enqueue_bulk ?r [m] 1 = (rc, r)"
    using e by (simp add: rte_ring_sp_enqueue_bulk_eq rte_ring_enqueue_bulk_one)
  then have "rx_put i m s = Some (rc = - ENOBUFS,
      let s = upd_sat i (\<lambda>d. d\<lparr> rx_ring := r \<rparr>) s in if rc \<noteq> 0 then service_mark_readable i s else s)"
    by (simp add: rx_put_def service_submit_rx_buf_def Let_def)
  then show ?thesis using assms r by (auto simp: rx_ok_def rx_queue_def Let_def)
qed

interpretation rx: packet_channel "rx_ok i" "rx_queue i" "rx_put i" "rx_get i" for i
proof
  fix s :: "'a appstate_scheme" and m
  assume ok: "rx_ok i s"
  then show "\<exists>full t. rx_put i m s = Some (full, t) \<and> rx_ok i t \<and> rx_queue i t = (if full then rx_queue i s else rx_queue i s @ [m])"
    by (rule submit_rx_spec)
  obtain r where "lsocket (local_socket_descriptors s (i mod (SOCKET_READY_MASK + 1))) = Some r"
    using ok by (auto simp: rx_ok_def)
  from dequeue_rx_spec [OF ok this]
  show "\<exists>ms t. rx_get i s = Some (ms, t) \<and> rx_ok i t \<and> ms @ rx_queue i t = rx_queue i s \<and> (rx_queue i s \<noteq> [] \<longrightarrow> ms \<noteq> [])"
    by (cases "rx_queue i s") (auto simp: rx_get_def)
qed

section \<open>Transmitted packets\<close>

definition tx_queue :: "nat \<Rightarrow> 'a appstate_scheme \<Rightarrow> addr list" where
  "tx_queue i s = ring_contents (tx_ring (socket_satelite_data s i))"

definition tx_ok :: "nat \<Rightarrow> 'a appstate_scheme \<Rightarrow> bool" where
  "tx_ok i s \<longleftrightarrow> ring_inv (tx_ring (socket_satelite_data s i)) \<and> lsocket (local_socket_descriptors s (i mod (SOCKET_READY_MASK + 1))) \<noteq> None"

text \<open>The service takes as many packets as it has counted.\<close>

definition tx_get :: "nat \<Rightarrow> 'a svstate_scheme \<Rightarrow> (addr list \<times> 'a svstate_scheme) option" where
  "tx_get i s = (let (n, s) = service_tx_buf_count i s in Some (service_dequeue_tx_buf_burst i n s))"

lemma upd_rmb_keeps [simp]:
  "local_socket_descriptors (upd_rmb m f s) = local_socket_descriptors s" "socket_satelite_data (upd_rmb m f s) = socket_satelite_data s"
  by (simp_all add: upd_rmb_def)

lemma send_spec:
  assumes "tx_ok i s"
  shows "\<exists>full t. service_send i m len s = Some (full, t) \<and> tx_ok i t \<and> tx_queue i t = (if full then tx_queue i s else tx_queue i s @ [m])"
proof -
  let ?r = "tx_ring (socket_satelite_data s i)"
  obtain rc r where e: "rte_ring_enqueue ?r m = (rc, r)" by fastforce
  have "ring_inv ?r" using assms by (simp add: tx_ok_def)
  note r = rr.enq_spec [OF this e]
  have enq: "rte_ring_sp_enqueue_bulk ?r [m] 1 = (rc, r)"
    using e by (simp add: rte_ring_sp_enqueue_bulk_eq rte_ring_enqueue_bulk_one)
  obtain k where k: "lsocket (local_socket_descriptors s (i mod (SOCKET_READY_MASK + 1))) = Some k" using assms by (auto simp: tx_ok_def)
  define u where "u = upd_gs (int k) (\<lambda>k. k\<lparr> write_ready_to_app := 0 \<rparr>)
    (upd_rmb m (\<lambda>b. b\<lparr> data_len := of_int len, rm_next := None \<rparr>) (count_send 0 s))"
  have u: "socket_satelite_data u = socket_satelite_data s" "local_socket_descriptors u = local_socket_descriptors s"
    by (simp_all add: u_def count_send_def)
  have "service_send i m len s = Some (rc = - ENOBUFS, count_failure (rc = - ENOBUFS) (upd_sat i (\<lambda>d. d\<lparr> tx_ring := r \<rparr>) u))"
    using k enq u(1) by (simp add: service_send_def count_send_def upd_shared_some service_enqueue_tx_buf_def u_def)
  then show ?thesis using assms r u by (auto simp: tx_ok_def tx_queue_def count_failure_def)
qed

lemma dequeue_tx_spec:
  assumes "tx_ok i s"
  shows "\<exists>t. tx_get i s = Some (tx_queue i s, t) \<and> tx_ok i t \<and> tx_queue i t = []"
proof -
  define r where "r = tx_ring (socket_satelite_data s i)"
  have inv: "ring_inv r" using assms by (simp add: tx_ok_def r_def)
  have n: "unat (rte_ring_count r) = ring_used r" by (rule rte_ring_count_used [OF inv])
  have b: "sc_do_dequeue r (rte_ring_count r) RTE_RING_QUEUE_VARIABLE = (int (ring_used r), ring_contents r, ring_pop r (ring_used r))"
    using sc_dequeue_burst_eq [OF inv, of "rte_ring_count r"] ring_contents_length [of r] n
    by (simp add: rte_ring_sc_dequeue_burst_def)
  have "ring_inv (ring_pop r (ring_used r))" "ring_contents (ring_pop r (ring_used r)) = []"
    using inv by (simp_all add: ring_pop_inv ring_pop_contents)
  then show ?thesis
    using b assms by (simp add: tx_get_def service_tx_buf_count_def service_dequeue_tx_buf_burst_def r_def [symmetric] tx_ok_def tx_queue_def Let_def)
qed

interpretation tx: packet_channel "tx_ok i" "tx_queue i" "\<lambda>m. service_send i m (len m)" "tx_get i" for i len
proof
  fix s :: "'a appstate_scheme" and m
  assume ok: "tx_ok i s"
  then show "\<exists>full t. service_send i m (len m) s = Some (full, t) \<and> tx_ok i t \<and> tx_queue i t = (if full then tx_queue i s else tx_queue i s @ [m])"
    by (rule send_spec)
  show "\<exists>ms t. tx_get i s = Some (ms, t) \<and> tx_ok i t \<and> ms @ tx_queue i t = tx_queue i s \<and> (tx_queue i s \<noteq> [] \<longrightarrow> ms \<noteq> [])"
    using dequeue_tx_spec [OF ok] by fastforce
qed

section \<open>Events\<close>

text \<open>The sockets that a set returns, in order, and what makes the flags of a set agree with them.\<close>

definition fd_list :: "fdset \<Rightarrow> nat list" where
  "fd_list fd = map (returned_sockets fd) [0..<returned_idx fd]"

definition fd_ok :: "fdset \<Rightarrow> bool" where
  "fd_ok fd \<longleftrightarrow> distinct (fd_list fd) \<and> (\<forall>i. returned_flags fd i \<longleftrightarrow> i \<in> set (fd_list fd))"

lemma update_fdset_spec:
  assumes "fd_ok fd"
  shows "fd_ok (service_update_fdset i fd)"
    "fd_list (service_update_fdset i fd) = fd_list fd @ (if interested_flags fd i \<and> i \<notin> set (fd_list fd) then [i] else [])"
    "interested_flags (service_update_fdset i fd) = interested_flags fd"
proof -
  show l: "fd_list (service_update_fdset i fd) = fd_list fd @ (if interested_flags fd i \<and> i \<notin> set (fd_list fd) then [i] else [])"
    using assms by (auto simp: fd_ok_def service_update_fdset_def fd_list_def)
  show "interested_flags (service_update_fdset i fd) = interested_flags fd" by (simp add: service_update_fdset_def)
  have "returned_flags (service_update_fdset i fd) j \<longleftrightarrow> returned_flags fd j \<or> interested_flags fd i \<and> j = i" for j
    by (auto simp: service_update_fdset_def)
  then show "fd_ok (service_update_fdset i fd)" using assms unfolding fd_ok_def l by auto
qed

lemma clear_returned_flags:
  "returned_flags (clear_returned n fd) j \<longleftrightarrow> returned_flags fd j \<and> j \<notin> set (map (returned_sockets fd) [0..<n])"
  "interested_flags (clear_returned n fd) = interested_flags fd" "returned_idx (clear_returned n fd) = 0"
  by (induction n fd rule: clear_returned.induct) auto

lemma clear_returned_ok:
  assumes "fd_ok fd"
  shows "fd_ok (clear_returned (returned_idx fd) fd)" "fd_list (clear_returned (returned_idx fd) fd) = []"
  using assms clear_returned_flags [of "returned_idx fd" fd] by (auto simp: fd_ok_def fd_list_def)

text \<open>Going through the entries of a selector for a caller that waits for readable sockets.\<close>

lemma select_entries_readable:
  assumes "fd_ok fd" "\<forall>e \<in> set es. entry_sock e < 16"
  shows "\<exists>fd' t. select_entries es ((Some fd, None, None), s) = Some ((Some fd', None, None), t) \<and> fd_ok fd' \<and>
    interested_flags fd' = interested_flags fd \<and>
    set (fd_list fd') = set (fd_list fd) \<union> {i. interested_flags fd i \<and> (\<exists>e \<in> set es. entry_has e SOCKET_READABLE_BIT \<and> entry_sock e = i)} \<and>
    svstate.truncate t = svstate.truncate s \<and>
    (\<forall>i. lsocket (local_socket_descriptors t i) = lsocket (local_socket_descriptors s i) \<and>
       local_cache (local_socket_descriptors t i) = local_cache (local_socket_descriptors s i))"
  using assms
proof (induction es arbitrary: fd s)
  case (Cons e es)
  define fd1 where "fd1 = (if entry_has e SOCKET_READABLE_BIT then service_update_fdset (entry_sock e) fd else fd)"
  define s1 where "s1 = upd_lsd (entry_sock e) (\<lambda>d. d\<lparr> any_event_received := True \<rparr>) s"
  have step: "select_entry e ((Some fd, None, None), s) = Some ((Some fd1, None, None), s1)"
    using Cons.prems(2) by (simp add: select_entry_def fd1_def s1_def Let_def)
  have s1: "svstate.truncate s1 = svstate.truncate s" by (simp add: s1_def upd_lsd_def svstate.truncate_def)
  have fd1: "fd_ok fd1" "interested_flags fd1 = interested_flags fd"
    "set (fd_list fd1) = set (fd_list fd) \<union> {i. interested_flags fd i \<and> entry_has e SOCKET_READABLE_BIT \<and> entry_sock e = i}"
    using update_fdset_spec [OF Cons.prems(1), of "entry_sock e"] Cons.prems(1) by (auto simp: fd1_def)
  obtain fd' t where t: "select_entries es ((Some fd1, None, None), s1) = Some ((Some fd', None, None), t)" "fd_ok fd'"
    "interested_flags fd' = interested_flags fd1"
    "set (fd_list fd') = set (fd_list fd1) \<union> {i. interested_flags fd1 i \<and> (\<exists>e \<in> set es. entry_has e SOCKET_READABLE_BIT \<and> entry_sock e = i)}"
    "svstate.truncate t = svstate.truncate s1"
    "\<forall>i. lsocket (local_socket_descriptors t i) = lsocket (local_socket_descriptors s1 i) \<and>
       local_cache (local_socket_descriptors t i) = local_cache (local_socket_descriptors s1 i)"
    using Cons.IH [OF fd1(1), of s1] Cons.prems(2) by auto
  have "set (fd_list fd') = set (fd_list fd) \<union>
      {i. interested_flags fd i \<and> (\<exists>e' \<in> set (e # es). entry_has e' SOCKET_READABLE_BIT \<and> entry_sock e' = i)}"
    unfolding t(4) fd1 by auto
  then show ?case using step t(1,2,3,5,6) fd1(2) s1 by (simp add: s1_def)
qed simp

lemma select_readable:
  assumes fd: "fd_ok fd" and r: "ring_inv (g_service_selectors s p)" "ring_contents (g_service_selectors s p) = es"
    and es: "\<forall>e \<in> set es. entry_sock e < 16" "e \<in> set es" "entry_has e SOCKET_READABLE_BIT" "interested_flags fd (entry_sock e)"
  shows "\<exists>fd' t. service_select pselect p (Some fd, None, None) timeout s = Some (int (length (fd_list fd')), (Some fd', None, None), t) \<and>
    fd_ok fd' \<and> set (fd_list fd') = {i. interested_flags fd i \<and> (\<exists>e \<in> set es. entry_has e SOCKET_READABLE_BIT \<and> entry_sock e = i)} \<and>
    svstate.truncate t = svstate.truncate (s\<lparr> g_service_selectors := (g_service_selectors s)(p := ring_pop (g_service_selectors s p) (length es)) \<rparr>) \<and>
    (\<forall>i. lsocket (local_socket_descriptors t i) = lsocket (local_socket_descriptors s i) \<and>
       local_cache (local_socket_descriptors t i) = local_cache (local_socket_descriptors s i))"
proof -
  define q where "q = g_service_selectors s p"
  define fd0 where "fd0 = clear_returned (returned_idx fd) fd"
  define s0 where "s0 = app_tally (\<lambda>u. u\<lparr> service_stats_select_called := service_stats_select_called u + 1 \<rparr>) s"
  define s1 where "s1 = app_tally (\<lambda>u. u\<lparr> service_stats_select_returned := service_stats_select_returned u + 1 \<rparr>)
    (s0\<lparr> g_service_selectors := (g_service_selectors s)(p := ring_pop q (length es)) \<rparr>)"
  have fd0: "fd_ok fd0" "fd_list fd0 = []" "interested_flags fd0 = interested_flags fd" "returned_idx fd0 = 0"
    using clear_returned_ok [OF fd] by (simp_all add: fd0_def clear_returned_flags)
  have s0: "g_service_selectors s0 = g_service_selectors s" by (simp add: s0_def app_tally_def)
  have len: "length es = ring_used q" using r(2) ring_contents_length [of q] by (auto simp: q_def)
  then have pos: "0 < ring_used q" using es(2) by (metis length_pos_if_in_set)
  have n: "unat (rte_ring_count q) = length es" using rte_ring_count_used r(1) len by (simp add: q_def)
  have deq: "rte_ring_dequeue_bulk q (rte_ring_count q) = (0, es, ring_pop q (length es))"
    using rte_ring_dequeue_bulk_enough [of q "rte_ring_count q"] r n len by (simp add: q_def)
  obtain fd' t where t: "select_entries es ((Some fd0, None, None), s1) = Some ((Some fd', None, None), t)" "fd_ok fd'"
    "set (fd_list fd') = {i. interested_flags fd i \<and> (\<exists>e \<in> set es. entry_has e SOCKET_READABLE_BIT \<and> entry_sock e = i)}"
    "svstate.truncate t = svstate.truncate s1"
    "\<forall>i. lsocket (local_socket_descriptors t i) = lsocket (local_socket_descriptors s1 i) \<and>
       local_cache (local_socket_descriptors t i) = local_cache (local_socket_descriptors s1 i)"
    using select_entries_readable [OF fd0(1) es(1), of s1] fd0(2,3) by auto
  have "entry_sock e \<in> set (fd_list fd')" using t(3) es(2-4) by auto
  then have idx: "0 < returned_idx fd'" "length (fd_list fd') = returned_idx fd'" by (auto simp: fd_list_def)
  have "rte_ring_count q \<noteq> 0" using n len pos by (auto simp: unat_eq_0 [symmetric])
  then have "select_loop pselect p timeout False (Some fd0, None, None) s0 = select_loop pselect p timeout False (Some fd', None, None) t"
    using deq t(1) fd0(4)
    by (simp add: select_loop.simps [of _ _ _ _ "(Some fd0, None, None)"] returned_count_def s0 q_def [symmetric] s1_def Let_def)
  also have "\<dots> = Some (int (returned_idx fd'), (Some fd', None, None), t)"
    using idx(1) by (simp add: select_loop.simps [of _ _ _ _ "(Some fd', None, None)"] returned_count_def)
  finally have "service_select pselect p (Some fd, None, None) timeout s = Some (int (returned_idx fd'), (Some fd', None, None), t)"
    by (simp add: service_select_def fd0_def s0_def Let_def)
  moreover have "svstate.truncate s1 = svstate.truncate (s\<lparr> g_service_selectors := (g_service_selectors s)(p := ring_pop q (length es)) \<rparr>)"
    "local_socket_descriptors s1 = local_socket_descriptors s"
    by (simp_all add: s1_def s0_def app_tally_def svstate.truncate_def)
  ultimately show ?thesis using t idx(2) by (auto simp: q_def)
qed

lemma truncate_eq:
  assumes "svstate.truncate t = svstate.truncate s"
  shows "socket_satelite_data t = socket_satelite_data s" "g_service_sockets t = g_service_sockets s"
    "g_service_selectors t = g_service_selectors s"
  using assms by (simp_all add: svstate.truncate_def)

lemma ready_entry_fields:
  assumes "i < 16"
  shows "entry_sock (ready_entry (int i) SOCKET_READABLE_BIT) = i" "entry_has (ready_entry (int i) SOCKET_READABLE_BIT) SOCKET_READABLE_BIT"
proof -
  have "i \<in> set [0..<16]" using assms by simp
  then have "entry_sock (ready_entry (int i) SOCKET_READABLE_BIT) = i \<and> entry_has (ready_entry (int i) SOCKET_READABLE_BIT) SOCKET_READABLE_BIT"
    by (simp add: upt_rec entry_sock_def entry_has_def ready_entry_def SOCKET_READY_MASK_def SOCKET_READABLE_BIT_def) auto
  then show "entry_sock (ready_entry (int i) SOCKET_READABLE_BIT) = i" "entry_has (ready_entry (int i) SOCKET_READABLE_BIT) SOCKET_READABLE_BIT"
    by auto
qed

section \<open>From the stack to the application and back\<close>

text \<open>C6. Received packets reach the application once and in order.  However the service's hand-overs and the application's reads
  interleave, they never fail, and the packets read so far followed by the packets still under way (local cache, then
  ring) are the packets that were under way at the start followed by those the service was allowed to hand over.  With as
  many further reads as packets are under way, the application has them all.\<close>

theorem packets_reach_application:
  assumes "rx_ok i s"
  shows "\<exists>acc got t u. channel_run (rx_put i) (rx_get i) ops s = Some (acc, got, t) \<and>
    got @ rx_queue i t = rx_queue i s @ acc \<and>
    channel_run (rx_put i) (rx_get i) (replicate (length (rx_queue i t)) None) t = Some ([], rx_queue i t, u) \<and> rx_queue i u = []"
  using rx.run_keeps_order [OF assms, of ops] rx.gets_drain by (metis order_refl)

text \<open>C7. Packets that the application sends reach the service once and in order: the packets that the service has taken followed
  by those on the ring are those that were on the ring at the start followed by those for which \<^verbatim>\<open>service_send\<close> reported
  success, in every interleaving of the two.  One more look at the ring gives the service all of the
  rest.\<close>

theorem packets_reach_service:
  assumes "tx_ok i s"
  shows "\<exists>acc got t u. channel_run (\<lambda>m. service_send i m (len m)) (tx_get i) ops s = Some (acc, got, t) \<and>
    got @ tx_queue i t = tx_queue i s @ acc \<and> tx_get i t = Some (tx_queue i t, u) \<and> tx_queue i u = []"
  using tx.run_keeps_order [OF assms, of len ops] dequeue_tx_spec by metis

text \<open>C5. A packet wakes the application that waits for it.  When the service hands over a packet for an idle connection,
  a \<^verbatim>\<open>service_select\<close> that waits for the connection returns at once and names this connection alone, the next read
  gives this packet, and after it the readable flag is clear, so that the next packet is announced
  again.\<close>

theorem packet_wakes_application:
  assumes d: "sat_parent_idx (socket_satelite_data s i) = p" "sat_ringset_idx (socket_satelite_data s i) = int i" "i < 16" "p \<noteq> -1"
    and q: "rx_ok i s" "rx_queue i s = []" "0 < ring_capacity (rx_ring (socket_satelite_data s i))" "ring_watermark (rx_ring (socket_satelite_data s i)) = 1"
    and idle: "read_ready_to_app (g_service_sockets s (int i)) = 0" "lsocket (local_socket_descriptors s i) = Some i"
    and sel: "ring_inv (g_service_selectors s p)" "ring_contents (g_service_selectors s p) = []" "0 < ring_capacity (g_service_selectors s p)"
    and fd: "fd_ok fd" "interested_flags fd i"
  shows "\<exists>t fd' u v. service_submit_rx_buf m i s = (False, t) \<and>
    service_select pselect p (Some fd, None, None) timeout t = Some (1, (Some fd', None, None), u) \<and> service_fd_idx2sock fd' 0 = i \<and>
    service_dequeue_rx_buf i u = Some (Some m, v) \<and> read_ready_to_app (g_service_sockets v (int i)) = 0"
proof -
  let ?r = "rx_ring (socket_satelite_data s i)" and ?e = "ready_entry (int i) SOCKET_READABLE_BIT"
  have rx: "ring_inv ?r" "ring_contents ?r = []" using q(1,2) by (auto simp: rx_ok_def rx_queue_def)
  then have used: "ring_used ?r = 0" "ring_used (g_service_selectors s p) = 0"
    using sel(2) by (metis list.size(3) ring_contents_length)+
  define t0 where "t0 = upd_sat i (\<lambda>d. d\<lparr> rx_ring := ring_push ?r [m] \<rparr>) s"
  define t where "t = service_mark_readable i t0"
  have "rte_ring_sp_enqueue_bulk ?r [m] 1 = (- EDQUOT, ring_push ?r [m])"
    using rx(1) used(1) q(3,4) by (simp add: rte_ring_sp_enqueue_bulk_eq rte_ring_enqueue_bulk_one [symmetric] rte_ring_enqueue_room)
  then have sub: "service_submit_rx_buf m i s = (False, t)"
    by (simp add: service_submit_rx_buf_def t_def t0_def)
  from submit_rx_spec [OF q(1), of m] sub have t: "rx_ok i t" "rx_queue i t = [m]"
    using q(2) by (auto simp: rx_put_def)
  have selt: "ring_contents (g_service_selectors t p) = [?e]" "ring_inv (g_service_selectors t p)"
    using mark_readable_posts [of t0 i p "int i"] d sel idle used(2)
    by (simp_all add: t_def t0_def) (simp add: service_mark_readable_def post_ready_def rte_ring_enqueue_room ring_push_inv Let_def)
  have e: "\<forall>e \<in> set [?e]. entry_sock e < 16" "?e \<in> set [?e]" "entry_has ?e SOCKET_READABLE_BIT" "interested_flags fd (entry_sock ?e)"
    using ready_entry_fields [OF d(3)] d(3) fd(2) by simp_all
  obtain fd' u where u: "service_select pselect p (Some fd, None, None) timeout t = Some (int (length (fd_list fd')), (Some fd', None, None), u)"
    "fd_ok fd'" "set (fd_list fd') = {j. interested_flags fd j \<and> (\<exists>e \<in> set [?e]. entry_has e SOCKET_READABLE_BIT \<and> entry_sock e = j)}"
    "svstate.truncate u = svstate.truncate (t\<lparr> g_service_selectors := (g_service_selectors t)(p := ring_pop (g_service_selectors t p) (length [?e])) \<rparr>)"
    "\<forall>j. lsocket (local_socket_descriptors u j) = lsocket (local_socket_descriptors t j) \<and>
       local_cache (local_socket_descriptors u j) = local_cache (local_socket_descriptors t j)"
    using select_readable [OF fd(1) selt(2,1) e, of pselect timeout] by blast
  have set_fd: "set (fd_list fd') = {i}" using u(3) e ready_entry_fields [OF d(3)] fd(2) by auto
  have sat: "socket_satelite_data u = socket_satelite_data t" using truncate_eq(1) [OF u(4)] by simp
  have one: "fd_list fd' = [i]"
    using u(2) set_fd by (cases "fd_list fd'" rule: remdups_adj.cases) (auto simp: fd_ok_def)
  have "rx_ok i u" "rx_queue i u = [m]" using t u(5) sat by (simp_all add: rx_ok_def rx_queue_def)
  moreover have "lsocket (local_socket_descriptors u (i mod (SOCKET_READY_MASK + 1))) = Some i"
    using u(5) idle(2) d(3) by (simp add: t_def t0_def SOCKET_READY_MASK_def)
  ultimately obtain v where "service_dequeue_rx_buf i u = Some (Some m, v)" "read_ready_to_app (g_service_sockets v (int i)) = 0"
    using dequeue_rx_spec by fastforce
  moreover have "service_fd_idx2sock fd' 0 = i"
    using one by (cases "returned_idx fd'") (simp_all add: fd_list_def service_fd_idx2sock_def upt_rec)
  ultimately show ?thesis using sub u(1) one by auto
qed

section \<open>Requests\<close>

text \<open>The requests under way by value, and the accounting of their buffers: a buffer is in the pool or on the ring.\<close>

definition cmd_queue :: "'a svstate_scheme \<Rightarrow> service_cmd list" where
  "cmd_queue s = map (commands s) (ring_contents (command_ring s))"

definition cmd_ok :: "'a svstate_scheme \<Rightarrow> bool" where
  "cmd_ok s \<longleftrightarrow> ring_inv (command_ring s) \<and> pool_inv (free_command_pool s) \<and>
     (\<forall>c. count (pool_objs (free_command_pool s)) c + count (mset (ring_contents (command_ring s))) c \<le> 1)"

lemma get_command_eq:
  "service_get_free_command_buf s =
    (fst (pool_cache_get (rlcore s) (free_command_pool s)), s\<lparr> free_command_pool := snd (pool_cache_get (rlcore s) (free_command_pool s)) \<rparr>)"
  by (simp add: service_get_free_command_buf_def pool_cache_get_def Let_def split: prod.splits)

lemma service_post_spec:
  assumes ok: "cmd_ok s" and post: "service_post f s = (rc, t)"
  shows "cmd_ok t \<and> local_socket_descriptors t = local_socket_descriptors s \<and> socket_satelite_data t = socket_satelite_data s \<and>
    (if rc = Posted then \<exists>c \<in># pool_objs (free_command_pool s). cmd_queue t = cmd_queue s @ [f (commands s c)]
     else cmd_queue t = cmd_queue s \<and> pool_objs (free_command_pool t) = pool_objs (free_command_pool s) \<and>
       (ring_used (mp_ring (free_command_pool s)) = 0 \<or> length (cmd_queue s) = ring_capacity (command_ring s)))"
proof -
  have inv: "ring_inv (command_ring s)" "pool_inv (free_command_pool s)" using ok by (auto simp: cmd_ok_def)
  obtain co mp where g: "pool_cache_get (rlcore s) (free_command_pool s) = (co, mp)" by fastforce
  show ?thesis
  proof (cases co)
    case None
    have empty: "ring_used (mp_ring (free_command_pool s)) = 0" using pool_cache_get_spec [OF inv(2) g] None by simp
    from None have "mp = free_command_pool s" using mpool.get_none inv(2) g by blast
    then have "rc = No_Buffer \<and> t = app_tally (\<lambda>u. u\<lparr> service_stats_cannot_allocate_cmd := service_stats_cannot_allocate_cmd u + 1 \<rparr>) s"
      using post None g by (simp add: service_post_def get_command_eq)
    then show ?thesis using ok empty by (simp add: cmd_ok_def cmd_queue_def app_tally_def)
  next
    case (Some c)
    have mp: "pool_inv mp" "pool_objs (free_command_pool s) = add_mset c (pool_objs mp)"
      using mpool.get_some [OF inv(2) g [unfolded Some]] by simp_all
    obtain ret r where e: "rte_ring_enqueue (command_ring s) c = (ret, r)" by fastforce
    note r = rr.enq_spec [OF inv(1) e]
    define u where "u = s\<lparr> free_command_pool := mp, commands := (commands s)(c := f (commands s c)), command_ring := r \<rparr>"
    have p: "(rc, t) = (if ret = - ENOBUFS then (No_Room, service_free_command_buf c u) else (Posted, u))"
      using post g Some e by (auto simp: service_post_def get_command_eq service_enqueue_command_buf_def u_def split: if_splits)
    have fresh: "c \<notin> set (ring_contents (command_ring s))"
    proof
      assume "c \<in> set (ring_contents (command_ring s))"
      then have "1 \<le> count (mset (ring_contents (command_ring s))) c" by (simp add: Suc_le_eq)
      then show False using ok mp(2) by (auto simp: cmd_ok_def dest: spec [of _ c])
    qed
    have cnt: "count (pool_objs mp) x + (if x = c then 1 else 0) + count (mset (ring_contents (command_ring s))) x \<le> 1" for x
      using ok mp(2) unfolding cmd_ok_def by (auto dest: spec [of _ x])
    show ?thesis
    proof (cases "ret = - ENOBUFS")
      case True
      have "pool_inv (pool_cache_put (rlcore s) mp c) \<and> pool_objs (pool_cache_put (rlcore s) mp c) = pool_objs (free_command_pool s)"
        using mpool.get_put [OF inv(2) g [unfolded Some]] .
      then show ?thesis
        using p True r fresh ok by (auto simp: u_def cmd_ok_def cmd_queue_def service_free_command_buf_def pool_cache_put_def)
    next
      case False
      then have t: "rc = Posted" "t = u" using p by auto
      have "count (pool_objs mp) x + count (mset (ring_contents r)) x \<le> 1" for x
        using cnt [of x] r(3) False by (auto split: if_splits)
      then have "cmd_ok u" using mp(1) r(1) by (simp add: cmd_ok_def u_def)
      moreover have "cmd_queue u = cmd_queue s @ [f (commands s c)]" using r(3) False fresh by (simp add: cmd_queue_def u_def)
      ultimately show ?thesis using t mp(2) by (auto simp: u_def)
    qed
  qed
qed

lemma process_commands_spec:
  assumes "cmd_ok s" "cmd_queue s = c # cs"
  shows "\<exists>v b. process_commands env s = do { w \<leftarrow> run_command env c v; Some (service_free_command_buf b w) } \<and>
    cmd_ok v \<and> cmd_queue v = cs \<and> socket_satelite_data v = socket_satelite_data s"
proof -
  obtain b bs where b: "ring_contents (command_ring s) = b # bs" "c = commands s b" "cs = map (commands s) bs"
    using assms(2) by (auto simp: cmd_queue_def)
  have inv: "ring_inv (command_ring s)" using assms(1) by (simp add: cmd_ok_def)
  obtain r where r: "rte_ring_dequeue (command_ring s) = (0, Some b, r)" "ring_inv r" "ring_contents r = bs"
    using rr.deq_cons [OF inv b(1)] by blast
  have "rte_ring_count (command_ring s) \<noteq> 0"
    using rte_ring_count_used [OF inv] ring_contents_length [of "command_ring s"] b(1) by auto
  moreover obtain objs where "rte_ring_sc_dequeue_bulk (command_ring s) 1 = (0, objs, r)"
    "(case objs of [] \<Rightarrow> None | x # _ \<Rightarrow> Some x) = Some b"
    using r(1) by (auto simp: rte_ring_dequeue_bulk_one rte_ring_sc_dequeue_bulk_eq Let_def split: prod.splits)
  ultimately have "service_dequeue_command_buf s = (Some b, s\<lparr> command_ring := r \<rparr>)"
    by (simp add: service_dequeue_command_buf_def Let_def)
  then have "process_commands env s = do { w \<leftarrow> run_command env c (s\<lparr> command_ring := r \<rparr>); Some (service_free_command_buf b w) }"
    by (simp add: process_commands_def b(2))
  moreover have "count (pool_objs (free_command_pool s)) x + count (mset bs) x \<le> 1" for x
  proof -
    have "count (mset bs) x \<le> count (mset (ring_contents (command_ring s))) x" using b(1) by simp
    then show ?thesis using assms(1) unfolding cmd_ok_def by (meson add_left_mono order_trans)
  qed
  then have "cmd_ok (s\<lparr> command_ring := r \<rparr>)" "cmd_queue (s\<lparr> command_ring := r \<rparr>) = cs"
    using assms(1) b r by (auto simp: cmd_ok_def cmd_queue_def split: if_splits)
  ultimately show ?thesis by (intro exI [of _ "s\<lparr> command_ring := r \<rparr>"] exI [of _ b]) simp
qed


section \<open>Reading a number of bytes\<close>


section \<open>Concrete states\<close>

text \<open>The application has the connections open; one of its command buffers is free.\<close>

definition open_descriptor :: "nat \<Rightarrow> local_socket_descriptor" where
  "open_descriptor i = \<lparr> lsocket = Some i, select = 0, local_cache = empty_ring 0, any_event_received = False, shadow = None,
     shadow_next = None, shadow_len_remainder = 0, shadow_len_delievered = 0, lsd_local_ipaddr = 0, lsd_local_port = 0,
     remote_ipaddr = 0, remote_port = 0 \<rparr>"

definition connected_app :: appstate where
  "connected_app = svstate.extend served_svstate
     (appstate.fields open_descriptor (\<lambda>_. None) None 64 False 0 77
       \<lparr> service_stats_receive_called = 0, service_stats_send_called = 0, service_stats_rx_kicks_sent = 0,
         service_stats_tx_kicks_sent = 0, service_stats_rx_dequeued = 0, service_stats_rx_dequeued_local = 0,
         service_stats_select_called = 0, service_stats_select_returned = 0, service_stats_tx_buf_allocation_failure = 0,
         service_stats_send_failure = 0, service_stats_recv_failure = 0, service_stats_buffers_sent = 0,
         service_stats_buffers_allocated = 0, service_stats_cannot_allocate_cmd = 0, service_stats_rx_returned = 0,
         service_stats_accepted = 0, service_stats_flush_local = 0, service_stats_flush = 0 \<rparr>)"

definition waiting_for_3 :: fdset where
  "waiting_for_3 = service_fdset 3 \<lparr> interested_flags = \<lambda>_. False, returned_flags = \<lambda>_. False, returned_sockets = \<lambda>_. 0, returned_idx = 0 \<rparr>"

lemma connected_app_facts:
  "local_socket_descriptors connected_app = open_descriptor" "socket_satelite_data connected_app = socket_satelite_data served_svstate"
  "g_service_selectors connected_app = g_service_selectors served_svstate" "g_service_sockets connected_app = g_service_sockets served_svstate"
  "command_ring connected_app = empty_ring 0" "free_command_pool connected_app = small_pool"
  by (simp_all add: connected_app_def appstate.defs svstate.defs served_svstate_def idle_svstate_def upd_sat_def upd_so_def)

lemma connected_app_ok: "rx_ok 3 connected_app" "rx_queue 3 connected_app = []" "tx_ok 3 connected_app" "tx_queue 3 connected_app = [1000]"
  "cmd_ok connected_app" "cmd_queue connected_app = []"
  by (simp_all add: rx_ok_def rx_queue_def tx_ok_def tx_queue_def cmd_ok_def cmd_queue_def connected_app_facts served_facts open_descriptor_def
      empty_ring_facts ring_push_inv ring_push_contents small_pool_facts)

theorem packets_reach_application_witness:
  "\<exists>acc got t. channel_run (rx_put 3) (rx_get 3) [Some 1000, None, Some 4000] connected_app = Some (acc, got, t) \<and>
     got @ rx_queue 3 t = acc"
  using packets_reach_application [OF connected_app_ok(1), of "[Some 1000, None, Some 4000]"] connected_app_ok(2) by fastforce

theorem packets_reach_service_witness:
  "\<exists>acc got t. channel_run (\<lambda>m. service_send 3 m 100) (tx_get 3) [Some 4000, None] connected_app = Some (acc, got, t) \<and>
     got @ tx_queue 3 t = 1000 # acc"
  using packets_reach_service [OF connected_app_ok(3), of "\<lambda>_. 100" "[Some 4000, None]"] connected_app_ok(4) by fastforce

theorem packet_wakes_application_witness:
  "\<exists>t fd' u v. service_submit_rx_buf 4000 3 connected_app = (False, t) \<and>
     service_select id 0 (Some waiting_for_3, None, None) None t = Some (1, (Some fd', None, None), u) \<and>
     service_fd_idx2sock fd' 0 = 3 \<and> service_dequeue_rx_buf 3 u = Some (Some 4000, v)"
proof -
  have "fd_ok waiting_for_3" "interested_flags waiting_for_3 3"
    by (simp_all add: waiting_for_3_def service_fdset_def fd_ok_def fd_list_def)
  then show ?thesis
    using packet_wakes_application [of connected_app 3 0 waiting_for_3 4000 id None] connected_app_ok(1,2)
    by (auto simp: connected_app_facts served_facts empty_ring_facts open_descriptor_def)
qed



end
