(* ===== verification/In_Cksum.thy ===== *)
theory In_Cksum
  imports Mbuf
begin

unbundle bit_operations_syntax

text \<open>
  The Internet checksum (\<^verbatim>\<open>netinet/cpu_in_cksum.c\<close>, \<^verbatim>\<open>in_cksum.c\<close>, \<^verbatim>\<open>in4_cksum.c\<close>), in the version for
  64-bit little-endian machines, and its equivalence with the definition of RFC 1071: the code
  adds words of 32 bits over the mbufs of a chain, whose data may start at any address, and
  folds the carries at the end; the reference adds the 16-bit words of the byte
  sequence one by one with an end-around carry.
\<close>

section \<open>One mbuf\<close>

definition read16 :: "(addr \<Rightarrow> 8 word) \<Rightarrow> addr \<Rightarrow> u64" where
  "read16 mem a = ucast (mem a) + 256 * ucast (mem (a + 1))"

definition read32 :: "(addr \<Rightarrow> 8 word) \<Rightarrow> addr \<Rightarrow> u64" where
  "read32 mem a = read16 mem a + 65536 * read16 mem (a + 2)"

text \<open>\<^term>\<open>n\<close> additions of consecutive 32-bit words, as the unrolled code writes them.\<close>

fun add_words :: "(addr \<Rightarrow> 8 word) \<Rightarrow> nat \<Rightarrow> addr \<Rightarrow> u64 \<Rightarrow> u64" where
  "add_words mem 0 a partial = partial"
| "add_words mem (Suc n) a partial = add_words mem n (a + 4) (partial + read32 mem a)"

definition swap_partial :: "bool \<Rightarrow> u64 \<Rightarrow> u64" where
  "swap_partial needs_swap partial = (if needs_swap then push_bit 8 partial + drop_bit 56 partial else partial)"

function cksum_blocks ::
  "(addr \<Rightarrow> 8 word) \<Rightarrow> bool \<Rightarrow> addr \<Rightarrow> int \<Rightarrow> u64 \<Rightarrow> u64 \<Rightarrow> addr \<times> int \<times> u64 \<times> u64" where
  "cksum_blocks mem needs_swap data mlen partial acc =
     (if mlen < 64 then (data, mlen, partial, acc)
      else let partial = add_words mem 16 data partial;
               (partial, acc) = (if partial AND (push_bit 62 3) \<noteq> 0
                 then let partial = swap_partial needs_swap partial
                      in (0, acc + drop_bit 32 partial + (partial AND 0xffffffff))
                 else (partial, acc))
           in cksum_blocks mem needs_swap (data + 64) (mlen - 64) partial acc)"
  by pat_completeness auto
termination by (relation "measure (\<lambda>(_, _, _, mlen, _, _). nat mlen)") auto

text \<open>The words that are left, by the bits of the length.\<close>

definition add_if :: "(addr \<Rightarrow> 8 word) \<Rightarrow> int \<Rightarrow> nat \<Rightarrow> addr \<times> u64 \<Rightarrow> addr \<times> u64" where
  "add_if mem mlen n dp =
     (case dp of (data, partial) \<Rightarrow>
        if mlen AND int (4 * n) \<noteq> 0 then (data + 4 * n, add_words mem n data partial) else (data, partial))"

definition add_half :: "(addr \<Rightarrow> 8 word) \<Rightarrow> int \<Rightarrow> addr \<times> u64 \<Rightarrow> addr \<times> u64" where
  "add_half mem mlen dp =
     (case dp of (data, partial) \<Rightarrow>
        if mlen AND 2 \<noteq> 0 then (data + 2, partial + read16 mem data) else (data, partial))"

definition trailing_bytes :: "(addr \<Rightarrow> 8 word) \<Rightarrow> int \<Rightarrow> bool \<Rightarrow> addr \<times> u64 \<Rightarrow> bool \<times> u64" where
  "trailing_bytes mem mlen started_on_odd dp =
     (case dp of (data, partial) \<Rightarrow>
        if mlen AND 1 \<noteq> 0 then (\<not> started_on_odd, partial + ucast (mem data)) else (started_on_odd, partial))"

definition cksum_rest :: "(addr \<Rightarrow> 8 word) \<Rightarrow> int \<Rightarrow> bool \<Rightarrow> addr \<times> u64 \<Rightarrow> bool \<times> u64" where
  "cksum_rest mem mlen started_on_odd dp = trailing_bytes mem mlen started_on_odd
     (add_half mem mlen (add_if mem mlen 1 (add_if mem mlen 2 (add_if mem mlen 4 (add_if mem mlen 8 dp)))))"

definition fold32 :: "u64 \<Rightarrow> u64" where
  "fold32 x = drop_bit 32 x + (x AND 0xffffffff)"

text \<open>The data from an even address on; short data may end before the first word of 32 bits.\<close>

definition cksum_aligned ::
  "(addr \<Rightarrow> 8 word) \<Rightarrow> addr \<Rightarrow> int \<Rightarrow> bool \<Rightarrow> u64 \<Rightarrow> u64 \<Rightarrow> bool \<times> u64 \<times> u64" where
  "cksum_aligned mem data mlen started_on_odd partial acc =
     (let needs_swap = started_on_odd
      in if data AND 2 \<noteq> 0 \<and> mlen < 2
         then let (started_on_odd, partial) = trailing_bytes mem mlen started_on_odd (data, partial)
              in (started_on_odd, partial, acc)
         else let (data, mlen, partial) =
                    (if data AND 2 \<noteq> 0 then (data + 2, mlen - 2, partial + read16 mem data) else (data, mlen, partial));
                  (data, mlen, partial, acc) = cksum_blocks mem needs_swap data mlen partial acc;
                  (started_on_odd, partial) = cksum_rest mem mlen started_on_odd (data, partial)
              in (started_on_odd, partial, acc))"

definition cksum_mbuf :: "(addr \<Rightarrow> 8 word) \<Rightarrow> addr \<Rightarrow> int \<Rightarrow> bool \<Rightarrow> u64 \<Rightarrow> bool \<times> u64" where
  "cksum_mbuf mem data mlen started_on_odd acc =
     (let (started_on_odd, data, mlen, partial) =
            (if odd data then (\<not> started_on_odd, data + 1, mlen - 1, push_bit 8 (ucast (mem data)))
             else (started_on_odd, data, mlen, 0));
          needs_swap = started_on_odd;
          (started_on_odd, partial, acc) = cksum_aligned mem data mlen started_on_odd partial acc;
          acc = acc + fold32 (swap_partial needs_swap partial)
      in (started_on_odd, fold32 acc))"

section \<open>A chain\<close>

definition final_cksum :: "u64 \<Rightarrow> int" where
  "final_cksum acc =
     (let facc = ucast (drop_bit 48 acc + (drop_bit 32 acc AND 0xffff) + (drop_bit 16 acc AND 0xffff) + (acc AND 0xffff)) :: u32;
          facc = drop_bit 16 facc + (facc AND 0xffff);
          facc = drop_bit 16 facc + (facc AND 0xffff)
      in uint (NOT facc AND 0xffff))"

text \<open>The data of one mbuf from \<^term>\<open>data\<close> on, with \<^term>\<open>mlen\<close> bytes; the length that is still to be summed comes first.\<close>

definition cksum_part :: "(addr \<Rightarrow> 8 word) \<Rightarrow> addr \<Rightarrow> int \<Rightarrow> int \<times> bool \<times> u64 \<Rightarrow> int \<times> bool \<times> u64" where
  "cksum_part mem data mlen st =
     (case st of (len, started_on_odd, acc) \<Rightarrow>
        if mlen = 0 then (len, started_on_odd, acc)
        else let mlen = (if mlen > len then len else mlen)
             in (len - mlen, cksum_mbuf mem data mlen started_on_odd acc))"

text \<open>The result is \<^term>\<open>-1 :: int\<close> when the chain ends too early.\<close>

partial_function (option) cksum_loop :: "addr option \<Rightarrow> int \<times> bool \<times> u64 \<Rightarrow> 'a mstate_scheme \<Rightarrow> int option" where
  "cksum_loop mo st s =
     (if fst st \<le> 0 then Some (final_cksum (snd (snd st)))
      else case mo of
             None \<Rightarrow> Some (-1)
           | Some m \<Rightarrow> cksum_loop (m_next (mbufs s m)) (cksum_part (dmem s) (mtod (mbufs s m)) (m_len (mbufs s m)) st) s)"

partial_function (option) cksum_skip :: "addr option \<Rightarrow> int \<Rightarrow> int \<Rightarrow> u64 \<Rightarrow> 'a mstate_scheme \<Rightarrow> int option" where
  "cksum_skip mo len off acc s =
     (case mo of
        None \<Rightarrow> Some (-1)
      | Some m \<Rightarrow>
          let mlen = m_len (mbufs s m)
          in if mlen > off
             then cksum_loop (m_next (mbufs s m)) (cksum_part (dmem s) (mtod (mbufs s m) + nat off) (mlen - off) (len, False, acc)) s
             else if len = 0 then Some (final_cksum acc)
             else cksum_skip (m_next (mbufs s m)) len (off - mlen) acc s)"

definition cpu_in_cksum :: "addr option \<Rightarrow> int \<Rightarrow> int \<Rightarrow> u32 \<Rightarrow> 'a mstate_scheme \<Rightarrow> int option" where
  "cpu_in_cksum m len off initial_sum s =
     (if len < 0 \<or> off < 0 then None else cksum_skip m len off (ucast initial_sum) s)"

definition in_cksum :: "addr option \<Rightarrow> int \<Rightarrow> 'a mstate_scheme \<Rightarrow> int option" where
  "in_cksum m len s = cpu_in_cksum m len 0 0 s"

text \<open>The sum of the pseudo header; the source and destination stand 12 bytes into the IP header.\<close>

definition pseudo_sum :: "(addr \<Rightarrow> 8 word) \<Rightarrow> addr \<Rightarrow> 8 word \<Rightarrow> int \<Rightarrow> u32" where
  "pseudo_sum mem ip nxt len =
     (let acc = push_bit 8 (of_int (len AND 0xffff) + ucast nxt);
          w = ip + 12
      in if even w
         then acc + ucast (read16 mem w) + ucast (read16 mem (w + 2)) + ucast (read16 mem (w + 4)) + ucast (read16 mem (w + 6))
         else let w = w - 1;
                  partial = (ucast (read16 mem w) AND 0xff00) + ucast (read16 mem (w + 2)) + ucast (read16 mem (w + 4)) +
                    ucast (read16 mem (w + 6)) + (ucast (read16 mem (w + 8)) AND 0x00ff)
              in acc + push_bit 8 partial)"

text \<open>The comparisons with the size of the IP header are unsigned, so a negative value passes them.\<close>

definition in4_cksum :: "addr \<Rightarrow> 8 word \<Rightarrow> int \<Rightarrow> int \<Rightarrow> 'a mstate_scheme \<Rightarrow> int option" where
  "in4_cksum m nxt off len s =
     (if nxt = 0 then cpu_in_cksum (Some m) len off 0 s
      else if (0 \<le> off \<and> off < 20) \<or> (0 \<le> m_len (mbufs s m) \<and> m_len (mbufs s m) < 20) then None
      else cpu_in_cksum (Some m) len off (pseudo_sum (dmem s) (mtod (mbufs s m)) nxt len) s)"

section \<open>The reference\<close>

text \<open>Addition of 16-bit numbers with end-around carry, and the 16-bit words of a byte sequence, low
  byte first; an odd last byte is filled up with zero.\<close>

definition oc_add :: "nat \<Rightarrow> nat \<Rightarrow> nat" where
  "oc_add a b = (if a + b > 65535 then a + b - 65535 else a + b)"

fun le_words :: "8 word list \<Rightarrow> nat list" where
  "le_words [] = []"
| "le_words [b] = [unat b]"
| "le_words (b # c # bs) = (unat b + 256 * unat c) # le_words bs"

definition rfc1071 :: "nat list \<Rightarrow> int" where
  "rfc1071 ws = 65535 - int (foldl oc_add 0 ws)"

section \<open>Numbers up to end-around carries\<close>

text \<open>Two sums stand for the same checksum: they agree modulo 65535, and one is zero exactly when the other is.\<close>

definition same :: "nat \<Rightarrow> nat \<Rightarrow> bool" where
  "same p e \<longleftrightarrow> p mod 65535 = e mod 65535 \<and> (p = 0 \<longleftrightarrow> e = 0)"

lemma same_refl [simp]: "same p p" by (simp add: same_def)

lemma same_trans [trans]: "same p q \<Longrightarrow> same q r \<Longrightarrow> same p r" by (simp add: same_def)

lemma same_sym: "same p q \<Longrightarrow> same q p" by (simp add: same_def)

lemma same_add: "same p e \<Longrightarrow> same q f \<Longrightarrow> same (p + q) (e + f)"
  by (auto simp: same_def intro: mod_add_cong)

lemma same_mult: "same p e \<Longrightarrow> 0 < k \<Longrightarrow> same (k * p) (k * e)"
  by (auto simp: same_def intro: mod_mult_cong)

lemma same_split:
  assumes "b = 65535 * c + 1"
  shows "same (x div b + x mod b) x"
proof -
  have "x = x div b * b + x mod b" by simp
  also have "\<dots> = (x div b + x mod b) + 65535 * (c * (x div b))" by (simp add: assms algebra_simps)
  finally have "x mod 65535 = (x div b + x mod b) mod 65535" by (metis mod_mult_self2)
  moreover have "x = 0 \<longleftrightarrow> x div b + x mod b = 0" using assms by (metis add_is_0 div_0 mod_0 mod_less div_eq_0_iff add_gr_0 less_numeral_extra(1) not_gr_zero)
  ultimately show ?thesis by (simp add: same_def)
qed

lemmas same_splits = same_split [of "2 ^ 16" 1] same_split [of "2 ^ 32" 65537] same_split [of "2 ^ 64" 281479271743489]

lemma same_unique: "same p e \<Longrightarrow> same q e \<Longrightarrow> p \<le> 65535 \<Longrightarrow> q \<le> 65535 \<Longrightarrow> p = q"
  by (auto simp: same_def le_less)

text \<open>The sum of a byte sequence whose first byte stands at an even (\<^term>\<open>False\<close>) or odd position.\<close>

fun weight :: "bool \<Rightarrow> 8 word list \<Rightarrow> nat" where
  "weight p [] = 0"
| "weight p (b # bs) = (if p then 256 else 1) * unat b + weight (\<not> p) bs"

lemma weight_append: "weight p (xs @ ys) = weight p xs + weight (p \<noteq> odd (length xs)) ys"
proof (induction xs arbitrary: p)
  case (Cons b xs)
  have "(\<not> p) = even (length xs) \<longleftrightarrow> p = odd (length xs)" by blast
  with Cons show ?case by simp
qed simp

lemma weight_swap: "same (256 * weight p bs) (weight (\<not> p) bs)"
proof (induction bs arbitrary: p)
  case (Cons b bs)
  have "same (256 * ((if p then 256 else 1) * unat b)) ((if p then 1 else 256) * unat b)"
  proof (cases p)
    case True
    have "same (65536 * unat b) (unat b)"
      using same_split [of 65536 1 "65536 * unat b"] by (simp add: same_sym)
    with True show ?thesis by simp
  qed simp
  from same_add [OF this Cons.IH [of "\<not> p"]] show ?case by (cases p) (simp_all add: algebra_simps)
qed simp

lemma le_words_weight: "sum_list (le_words bs) = weight False bs"
  by (induction bs rule: le_words.induct) auto

lemma le_words_bound: "\<forall>w \<in> set (le_words bs). w \<le> 65535"
proof (induction bs rule: le_words.induct)
  case (2 b)
  have "unat b < 256" using unsigned_less [of b] by simp
  then show ?case by simp
next
  case (3 b c bs)
  have "unat b < 256" "unat c < 256" using unsigned_less [of b] unsigned_less [of c] by simp_all
  then show ?case using 3 by simp
qed simp

lemma oc_add_same: "a \<le> 65535 \<Longrightarrow> b \<le> 65535 \<Longrightarrow> oc_add a b \<le> 65535 \<and> same (oc_add a b) (a + b)"
  by (auto simp: oc_add_def same_def le_mod_geq)

lemma oc_sum_same: "a \<le> 65535 \<Longrightarrow> \<forall>w \<in> set ws. w \<le> 65535 \<Longrightarrow> foldl oc_add a ws \<le> 65535 \<and> same (foldl oc_add a ws) (a + sum_list ws)"
proof (induction ws arbitrary: a)
  case (Cons w ws)
  have w: "oc_add a w \<le> 65535" "same (oc_add a w) (a + w)" using oc_add_same Cons.prems by auto
  have "same (oc_add a w + sum_list ws) (a + w + sum_list ws)" using same_add [OF w(2) same_refl] .
  with Cons.IH [OF w(1)] Cons.prems show ?case by (auto simp: add.assoc intro: same_trans)
qed simp

lemma rfc1071_eq:
  assumes "same v (sum_list ws)" "v \<le> 65535" "\<forall>w \<in> set ws. w \<le> 65535"
  shows "rfc1071 ws = 65535 - int v"
  using same_unique [OF assms(1), of "foldl oc_add 0 ws"] oc_sum_same [of 0 ws] assms by (simp add: rfc1071_def)

section \<open>The sum of one mbuf\<close>

lemma unat_add64: "unat a + unat b < 2 ^ 64 \<Longrightarrow> unat (a + b) = unat a + unat b" for a b :: u64
  by (simp add: unat_word_ariths)

lemma unat_bound64: "unat x < 2 ^ 64" for x :: u64
  by (rule order_less_le_trans [OF unsigned_less]) simp

lemma unat_drop64: "unat (drop_bit n x) = unat x div 2 ^ n" for x :: u64
proof -
  have "unat x mod 2 ^ 64 = unat x" using unat_bound64 [of x] by simp
  then show ?thesis by (subst unsigned_drop_bit_eq) (simp add: drop_bit_eq_div take_bit_eq_mod)
qed

lemma byte_bound: "unat (b :: 8 word) < 256"
  using unsigned_less [of b] by simp

lemma read16_nat: "unat (read16 mem a) = unat (mem a) + 256 * unat (mem (a + 1))" "unat (read16 mem a) < 65536"
proof -
  have b: "unat (mem a) < 256" "unat (mem (a + 1)) < 256" by (rule byte_bound)+
  have "unat (256 * ucast (mem (a + 1)) :: u64) = 256 * unat (mem (a + 1))"
    using b(2) by (simp add: unat_word_ariths unsigned_ucast_eq take_bit_eq_mod)
  then show "unat (read16 mem a) = unat (mem a) + 256 * unat (mem (a + 1))"
    using b by (simp add: read16_def unat_word_ariths unsigned_ucast_eq take_bit_eq_mod)
  then show "unat (read16 mem a) < 65536" using b by simp
qed

lemma mem_read_Suc: "mem_read mem a (Suc n) = mem a # mem_read mem (a + 1) n"
  by (simp add: mem_read_def upt_conv_Cons del: upt_Suc)

lemmas mem_read_add = mem_read_append [symmetric]

lemma read16_weight: "unat (read16 mem a) = weight False (mem_read mem a 2)"
  by (simp add: read16_nat numeral_2_eq_2 mem_read_Suc)

lemma read32_nat: "unat (read32 mem a) < 2 ^ 32" "same (unat (read32 mem a)) (weight False (mem_read mem a 4))"
proof -
  let ?l = "unat (read16 mem a)" and ?h = "unat (read16 mem (a + 2))"
  have b: "?l < 65536" "?h < 65536" by (rule read16_nat(2))+
  have h: "unat (65536 * read16 mem (a + 2)) = 65536 * ?h" using b(2) by (simp add: unat_word_ariths)
  have v: "unat (read32 mem a) = ?l + 65536 * ?h" using b h by (simp add: read32_def unat_word_ariths)
  then show "unat (read32 mem a) < 2 ^ 32" using b by simp
  have "mem_read mem a 4 = mem_read mem a 2 @ mem_read mem (a + 2) 2" using mem_read_add [of mem a 2 2] by simp
  then have "weight False (mem_read mem a 4) = ?l + ?h" by (simp add: weight_append read16_weight)
  moreover have "same (65536 * ?h) ?h" using same_split [of 65536 1 "65536 * ?h"] by (simp add: same_sym)
  ultimately show "same (unat (read32 mem a)) (weight False (mem_read mem a 4))"
    unfolding v using same_add [OF same_refl] by simp
qed

lemma add_words_same:
  "unat p + n * 2 ^ 32 < 2 ^ 64 \<Longrightarrow>
   unat (add_words mem n a p) \<le> unat p + n * 2 ^ 32 \<and>
   same (unat (add_words mem n a p)) (unat p + weight False (mem_read mem a (4 * n)))"
proof (induction n arbitrary: a p)
  case 0
  then show ?case by (simp add: mem_read_def)
next
  case (Suc n)
  have r: "unat (read32 mem a) < 2 ^ 32" by (rule read32_nat)
  have v: "unat (p + read32 mem a) = unat p + unat (read32 mem a)" using r Suc.prems by (intro unat_add64) simp
  have ih: "unat (add_words mem n (a + 4) (p + read32 mem a)) \<le> unat (p + read32 mem a) + n * 2 ^ 32 \<and>
    same (unat (add_words mem n (a + 4) (p + read32 mem a))) (unat (p + read32 mem a) + weight False (mem_read mem (a + 4) (4 * n)))"
    using v r Suc.prems by (intro Suc.IH) simp
  have "mem_read mem a (4 * Suc n) = mem_read mem a 4 @ mem_read mem (a + 4) (4 * n)"
    using mem_read_add [of mem a 4 "4 * n"] by simp
  then have "weight False (mem_read mem a (4 * Suc n)) = weight False (mem_read mem a 4) + weight False (mem_read mem (a + 4) (4 * n))"
    by (simp add: weight_append)
  moreover have "same (unat p + unat (read32 mem a) + weight False (mem_read mem (a + 4) (4 * n)))
      (unat p + weight False (mem_read mem a 4) + weight False (mem_read mem (a + 4) (4 * n)))"
    by (intro same_add same_refl read32_nat(2))
  ultimately have "same (unat (add_words mem n (a + 4) (p + read32 mem a))) (unat p + weight False (mem_read mem a (4 * Suc n)))"
    using ih same_trans v by (simp add: add.assoc) blast
  then show ?case using ih v r by simp
qed

lemma fold32_same: "same (unat (fold32 x)) (unat x)" "unat (fold32 x) < 2 ^ 33" "unat x < 2 ^ 34 \<Longrightarrow> unat (fold32 x) < 2 ^ 32 + 4"
proof -
  have d: "unat (drop_bit 32 x) = unat x div 2 ^ 32" by (rule unat_drop64)
  have m: "unat (x AND 0xffffffff) = unat x mod 2 ^ 32" by (rule unat_and_mask) simp_all
  have "unat x < 2 ^ 64" by (rule unat_bound64)
  then have q: "unat x div 2 ^ 32 < 2 ^ 32" by (simp add: less_mult_imp_div_less)
  have v: "unat (fold32 x) = unat x div 2 ^ 32 + unat x mod 2 ^ 32"
    unfolding fold32_def using d m q by (subst unat_add64) (auto simp: less_trans)
  show "same (unat (fold32 x)) (unat x)" unfolding v by (rule same_splits(2)) simp
  show "unat (fold32 x) < 2 ^ 33" unfolding v using q by simp
  show "unat (fold32 x) < 2 ^ 32 + 4" if "unat x < 2 ^ 34"
  proof -
    have "unat x div 2 ^ 32 < 4" using that by (simp add: less_mult_imp_div_less)
    then show ?thesis unfolding v by (simp add: add_less_le_mono)
  qed
qed

lemma swap_partial_same: "same (unat (swap_partial b p)) ((if b then 256 else 1) * unat p)"
proof (cases b)
  case True
  let ?x = "256 * unat p"
  have l: "unat (push_bit 8 p) = ?x mod 2 ^ 64"
    by (simp only: unsigned_push_bit_eq) (simp add: push_bit_eq_mult take_bit_eq_mod mult.commute)
  have h: "unat (drop_bit 56 p) = ?x div 2 ^ 64"
    using div_mult2_eq [of ?x 256 "2 ^ 56"] by (simp only: unat_drop64) simp
  have "?x mod 2 ^ 64 = 256 * (unat p mod 2 ^ 56)" using mult_mod_right [of 256 "unat p" "2 ^ 56"] by simp
  then have "?x mod 2 ^ 64 \<le> 2 ^ 64 - 256" by simp
  moreover have "?x div 2 ^ 64 < 256" using unat_bound64 [of p] by (simp add: less_mult_imp_div_less)
  ultimately have "unat (push_bit 8 p + drop_bit 56 p) = ?x div 2 ^ 64 + ?x mod 2 ^ 64"
    using l h by (subst unat_add64) simp_all
  then show ?thesis using True same_splits(3) [of ?x] by (simp add: swap_partial_def)
qed (simp add: swap_partial_def)

lemma top_bits_clear: "unat x < 2 ^ 62 \<Longrightarrow> x AND push_bit 62 3 = 0" for x :: u64
proof -
  assume "unat x < 2 ^ 62"
  then have "unat (drop_bit 62 x) = 0" by (simp add: unat_drop64)
  then have "drop_bit 62 x = 0" by (simp only: unat_eq_0)
  moreover have "x AND push_bit 62 y = push_bit 62 (drop_bit 62 x AND y)" for y
    by (rule bit_eqI) (auto simp: bit_simps)
  ultimately show ?thesis by (metis and_zero_eq push_bit_of_0 zero_and_eq)
qed

text \<open>With the lengths that an mbuf can have, the partial sum never needs to be reduced inside of the loop.\<close>

lemma cksum_blocks_same:
  "mlen = 64 * int n + r \<Longrightarrow> 0 \<le> r \<Longrightarrow> r < 64 \<Longrightarrow> unat p + n * 2 ^ 36 < 2 ^ 62 \<Longrightarrow>
   \<exists>p'. cksum_blocks mem b data mlen p acc = (data + 64 * n, r, p', acc) \<and> unat p' \<le> unat p + n * 2 ^ 36 \<and>
     same (unat p') (unat p + weight False (mem_read mem data (64 * n)))"
proof (induction n arbitrary: mlen data p)
  case 0
  then show ?case by (subst cksum_blocks.simps) simp
next
  case (Suc n)
  define q where "q = add_words mem 16 data p"
  have q: "unat q \<le> unat p + 2 ^ 36" "same (unat q) (unat p + weight False (mem_read mem data 64))"
    using add_words_same [of p 16 mem data] Suc.prems(4) by (simp_all add: q_def)
  have "cksum_blocks mem b data mlen p acc = cksum_blocks mem b (data + 64) (mlen - 64) q acc"
    using Suc.prems top_bits_clear [of q] q(1) by (subst cksum_blocks.simps) (simp add: q_def [symmetric] Let_def)
  moreover obtain p' where p': "cksum_blocks mem b (data + 64) (mlen - 64) q acc = (data + 64 + 64 * n, r, p', acc)"
    "unat p' \<le> unat q + n * 2 ^ 36" "same (unat p') (unat q + weight False (mem_read mem (data + 64) (64 * n)))"
    using Suc.IH [of "mlen - 64" q "data + 64"] Suc.prems q(1) by auto
  moreover have w: "weight False (mem_read mem data (64 * Suc n)) =
      weight False (mem_read mem data 64) + weight False (mem_read mem (data + 64) (64 * n))"
    using mem_read_add [of mem data 64 "64 * n"] by (simp add: weight_append)
  have "same (unat p') (unat p + weight False (mem_read mem data (64 * Suc n)))"
    using same_trans [OF p'(3) same_add [OF q(2) same_refl]] by (simp only: w add.assoc)
  ultimately show ?case using q(1) by (intro exI [of _ p']) simp
qed

text \<open>The rest of less than 64 bytes: every step adds the words that its bit stands for.  \<^term>\<open>tail_ok\<close> says that a step has
  taken \<^term>\<open>d\<close> bytes so far.\<close>

definition tail_ok :: "(addr \<Rightarrow> 8 word) \<Rightarrow> addr \<Rightarrow> nat \<Rightarrow> nat \<Rightarrow> nat \<Rightarrow> addr \<times> u64 \<Rightarrow> bool" where
  "tail_ok mem data p d k dp \<longleftrightarrow> fst dp = data + d \<and> even d \<and> unat (snd dp) \<le> p + k * 2 ^ 32 \<and>
     same (unat (snd dp)) (p + weight False (mem_read mem data d))"

lemma tail_ok_add:
  assumes "tail_ok mem data p d k (a, x)" "p + (k + n) * 2 ^ 32 < 2 ^ 64"
  shows "tail_ok mem data p (d + 4 * n) (k + n) (a + 4 * n, add_words mem n a x)"
proof -
  have w: "weight False (mem_read mem data (d + 4 * n)) = weight False (mem_read mem data d) + weight False (mem_read mem a (4 * n))"
    using assms(1) by (simp add: tail_ok_def mem_read_add weight_append)
  have x: "unat x \<le> p + k * 2 ^ 32" "same (unat x) (p + weight False (mem_read mem data d))" using assms(1) by (auto simp: tail_ok_def)
  then have a: "unat (add_words mem n a x) \<le> unat x + n * 2 ^ 32"
    "same (unat (add_words mem n a x)) (unat x + weight False (mem_read mem a (4 * n)))"
    using add_words_same [of x n mem a] assms(2) by (auto simp: algebra_simps)
  have "same (unat (add_words mem n a x)) (p + weight False (mem_read mem data (d + 4 * n)))"
    using same_trans [OF a(2) same_add [OF x(2) same_refl]] by (simp add: w add.assoc)
  then show ?thesis using assms(1) x(1) a(1) by (auto simp: tail_ok_def algebra_simps)
qed

lemma add_if_ok:
  assumes "tail_ok mem data p d k dp" "p + (k + n) * 2 ^ 32 < 2 ^ 64"
  shows "tail_ok mem data p (d + (if mlen AND int (4 * n) \<noteq> 0 then 4 * n else 0)) (k + n) (add_if mem mlen n dp)"
  using assms tail_ok_add [of mem data p d k "fst dp" "snd dp" n]
  by (auto simp: add_if_def tail_ok_def case_prod_beta algebra_simps split: prod.splits)

lemma add_half_ok:
  assumes "tail_ok mem data p d k dp" "p + (k + 1) * 2 ^ 32 < 2 ^ 64"
  shows "tail_ok mem data p (d + (if mlen AND 2 \<noteq> 0 then 2 else 0)) (k + 1) (add_half mem mlen dp)"
proof (cases "mlen AND 2 \<noteq> 0")
  case True
  obtain a x where dp: "dp = (a, x)" by fastforce
  have x: "a = data + d" "even d" "unat x \<le> p + k * 2 ^ 32" "same (unat x) (p + weight False (mem_read mem data d))"
    using assms(1) by (auto simp: tail_ok_def dp)
  have v: "unat (x + read16 mem a) = unat x + weight False (mem_read mem a 2)"
    using x(3) assms(2) read16_nat(2) [of mem a] by (subst unat_add64) (simp_all add: read16_weight algebra_simps)
  have "weight False (mem_read mem data (d + 2)) = weight False (mem_read mem data d) + weight False (mem_read mem a 2)"
    using x(1,2) by (simp only: mem_read_add) (simp add: weight_append)
  then have "same (unat (x + read16 mem a)) (p + weight False (mem_read mem data (d + 2)))"
    using same_add [OF x(4) same_refl] by (simp add: v add.assoc)
  moreover have "unat (x + read16 mem a) \<le> p + (k + 1) * 2 ^ 32"
    using x(3) read16_nat(2) [of mem a] by (simp add: v read16_weight algebra_simps)
  ultimately show ?thesis using True x(1,2) by (simp add: add_half_def dp tail_ok_def)
qed (use assms in \<open>auto simp: add_half_def tail_ok_def case_prod_beta algebra_simps\<close>)

lemma tail_bits:
  assumes "0 \<le> r" "r < 64"
  shows "(if r AND int (4 * 8) \<noteq> 0 then 4 * 8 else 0) + (if r AND int (4 * 4) \<noteq> 0 then 4 * 4 else 0) +
    (if r AND int (4 * 2) \<noteq> 0 then 4 * 2 else 0) + (if r AND int (4 * 1) \<noteq> 0 then 4 * 1 else 0) +
    (if r AND 2 \<noteq> 0 then 2 else 0) = (if odd r then nat r - 1 else nat r)"
proof -
  have "\<forall>r \<in> set (map int [0..<64]). (if r AND int (4 * 8) \<noteq> 0 then 4 * 8 else 0) + (if r AND int (4 * 4) \<noteq> 0 then 4 * 4 else 0) +
    (if r AND int (4 * 2) \<noteq> 0 then 4 * 2 else 0) + (if r AND int (4 * 1) \<noteq> 0 then 4 * 1 else 0) +
    (if r AND 2 \<noteq> 0 then 2 else 0) = (if odd r then nat r - 1 else nat r)" by code_simp
  moreover have "r \<in> set (map int [0..<64])" using assms by (auto intro!: image_eqI [of _ _ "nat r"])
  ultimately show ?thesis by blast
qed

lemma trailing_ok:
  assumes "tail_ok mem data p d k dp" "p + (k + 1) * 2 ^ 32 < 2 ^ 64" "d = (if odd r then nat r - 1 else nat r)" "0 \<le> r"
  shows "fst (trailing_bytes mem r st dp) = (st \<noteq> odd r) \<and> unat (snd (trailing_bytes mem r st dp)) \<le> p + (k + 1) * 2 ^ 32 \<and>
    same (unat (snd (trailing_bytes mem r st dp))) (p + weight False (mem_read mem data (nat r)))"
proof (cases "odd r")
  case True
  obtain a x where dp: "dp = (a, x)" by fastforce
  have x: "a = data + d" "even d" "unat x \<le> p + k * 2 ^ 32" "same (unat x) (p + weight False (mem_read mem data d))"
    using assms(1) by (auto simp: tail_ok_def dp)
  have one: "r AND 1 \<noteq> 0" using True by (simp add: and_one_eq mod2_eq_if)
  have c: "unat (ucast (mem a) :: u64) = unat (mem a)" using byte_bound [of "mem a"] by (simp add: unsigned_ucast_eq take_bit_eq_mod)
  have v: "unat (x + ucast (mem a)) = unat x + unat (mem a)"
    using x(3) assms(2) byte_bound [of "mem a"] c by (subst unat_add64) (simp_all add: algebra_simps)
  have "nat r = d + 1" using True assms(3,4) by (cases "r = 0") auto
  then have "weight False (mem_read mem data (nat r)) = weight False (mem_read mem data d) + unat (mem a)"
    using x(1,2) by (simp only: mem_read_add) (simp add: weight_append mem_read_Suc)
  then have "same (unat (x + ucast (mem a))) (p + weight False (mem_read mem data (nat r)))"
    using same_add [OF x(4) same_refl] by (simp add: v add.assoc)
  moreover have "unat (x + ucast (mem a)) \<le> p + (k + 1) * 2 ^ 32"
    using x(3) byte_bound [of "mem a"] by (simp add: v algebra_simps)
  ultimately show ?thesis using True one by (simp add: trailing_bytes_def dp)
next
  case False
  then have "r AND 1 = 0" by (simp add: and_one_eq mod2_eq_if)
  then show ?thesis using False assms by (simp add: trailing_bytes_def tail_ok_def case_prod_beta)
qed

lemma cksum_rest_same:
  assumes "0 \<le> r" "r < 64" "unat p + 17 * 2 ^ 32 < 2 ^ 64"
  shows "fst (cksum_rest mem r st (data, p)) = (st \<noteq> odd r) \<and> unat (snd (cksum_rest mem r st (data, p))) \<le> unat p + 17 * 2 ^ 32 \<and>
    same (unat (snd (cksum_rest mem r st (data, p)))) (unat p + weight False (mem_read mem data (nat r)))"
proof -
  have "tail_ok mem data (unat p) 0 0 (data, p)" by (simp add: tail_ok_def)
  from add_if_ok [OF this, of 8 r] have "tail_ok mem data (unat p) (if r AND int (4 * 8) \<noteq> 0 then 4 * 8 else 0) 8 (add_if mem r 8 (data, p))"
    using assms(3) by simp
  note 1 = add_if_ok [OF this, of 4 r]
  note 2 = add_if_ok [OF 1, of 2 r]
  note 3 = add_if_ok [OF 2, of 1 r]
  note 4 = add_half_ok [OF 3, of r]
  note 5 = trailing_ok [OF 4, where r=r and st=st]
  have "unat p + (8 + 4 + 2 + 1 + 1 + 1) * 2 ^ 32 < 2 ^ 64" using assms(3) by simp
  then show ?thesis using 5 tail_bits [OF assms(1,2)] assms(1) unfolding cksum_rest_def by (simp add: algebra_simps)
qed

lemma blocks_rest_same:
  assumes "0 \<le> mlen" "mlen < 2 ^ 31" "unat p \<le> 2 ^ 17"
  shows "\<exists>st' p'. (case cksum_blocks mem b data mlen p acc of (data, mlen, p, acc) \<Rightarrow>
      case cksum_rest mem mlen st (data, p) of (st, p) \<Rightarrow> (st, p, acc)) = (st', p', acc) \<and> st' = (st \<noteq> odd mlen) \<and>
    same (unat p') (unat p + weight False (mem_read mem data (nat mlen)))"
proof -
  define n where "n = nat (mlen div 64)"
  define r where "r = mlen mod 64"
  have nr: "mlen = 64 * int n + r" "0 \<le> r" "r < 64" using assms(1) by (simp_all add: n_def r_def pos_imp_zdiv_nonneg_iff)
  have n: "n \<le> 2 ^ 25" using nr assms(2) by simp
  then have b: "unat p + n * 2 ^ 36 \<le> 2 ^ 17 + 2 ^ 61" using assms(3) by simp
  then have lim: "unat p + n * 2 ^ 36 < 2 ^ 62" by simp
  obtain q where q: "cksum_blocks mem b data mlen p acc = (data + 64 * n, r, q, acc)" "unat q \<le> unat p + n * 2 ^ 36"
    "same (unat q) (unat p + weight False (mem_read mem data (64 * n)))"
    using cksum_blocks_same [OF nr lim] by blast
  have "unat q + 17 * 2 ^ 32 < 2 ^ 64" using q(2) b by simp
  note rest = cksum_rest_same [OF nr(2,3) this, of mem st "data + 64 * n"]
  have len: "nat mlen = 64 * n + nat r" using nr by (simp add: nat_add_distrib nat_mult_distrib)
  have w: "weight False (mem_read mem data (nat mlen)) =
      weight False (mem_read mem data (64 * n)) + weight False (mem_read mem (data + 64 * n) (nat r))"
    by (simp add: len mem_read_add weight_append)
  have "same (unat (snd (cksum_rest mem r st (data + 64 * n, q)))) (unat p + weight False (mem_read mem data (nat mlen)))"
    using same_trans [OF rest [THEN conjunct2, THEN conjunct2] same_add [OF q(3) same_refl]] by (simp add: w add.assoc)
  moreover have "odd r = odd mlen" using nr(1) by simp
  ultimately show ?thesis using q(1) rest by (cases "cksum_rest mem r st (data + 64 * n, q)") simp
qed

lemma cksum_aligned_same:
  assumes "even data" "0 \<le> mlen" "mlen < 2 ^ 31" "unat p \<le> 2 ^ 16"
  shows "\<exists>st' p'. cksum_aligned mem data mlen st p acc = (st', p', acc) \<and> st' = (st \<noteq> odd mlen) \<and>
    same (unat p') (unat p + weight False (mem_read mem data (nat mlen)))"
proof (cases "data AND 2 \<noteq> 0")
  case True
  show ?thesis
  proof (cases "mlen < 2")
    case short: True
    have "tail_ok mem data (unat p) 0 0 (data, p)" by (simp add: tail_ok_def)
    moreover have "mlen = 0 \<or> mlen = 1" using short assms(2) by auto
    ultimately have "fst (trailing_bytes mem mlen st (data, p)) = (st \<noteq> odd mlen) \<and>
        same (unat (snd (trailing_bytes mem mlen st (data, p)))) (unat p + weight False (mem_read mem data (nat mlen)))"
      using trailing_ok [of mem data "unat p" 0 0 "(data, p)" mlen st] assms(2,4) by auto
    then show ?thesis using True short by (cases "trailing_bytes mem mlen st (data, p)") (simp add: cksum_aligned_def)
  next
    case long: False
    have v: "unat (p + read16 mem data) = unat p + weight False (mem_read mem data 2)"
      using assms(4) read16_nat(2) [of mem data] by (subst unat_add64) (simp_all add: read16_weight)
    have "nat mlen = 2 + nat (mlen - 2)" using long by simp
    then have w: "weight False (mem_read mem data (nat mlen)) = weight False (mem_read mem data 2) + weight False (mem_read mem (data + 2) (nat (mlen - 2)))"
      by (simp only: mem_read_add) (simp add: weight_append)
    have "unat (p + read16 mem data) \<le> 2 ^ 17" using v assms(4) read16_nat(2) [of mem data] by (simp add: read16_weight)
    from blocks_rest_same [OF _ _ this, where mlen = "mlen - 2" and data = "data + 2" and b = st and acc = acc and st = st and mem = mem] show ?thesis
      using True long assms by (simp add: cksum_aligned_def v w add.assoc Let_def)
  qed
next
  case False
  then show ?thesis using blocks_rest_same [where mlen = mlen and p = p and data = data and b = st and acc = acc and st = st and mem = mem] assms by (simp add: cksum_aligned_def Let_def)
qed

lemma cksum_mbuf_same:
  assumes "0 < mlen" "mlen < 2 ^ 31" "unat acc < 2 ^ 33"
  shows "\<exists>acc'. cksum_mbuf mem data mlen st acc = (st \<noteq> odd mlen, acc') \<and> unat acc' < 2 ^ 33 \<and>
    same (unat acc') (unat acc + weight st (mem_read mem data (nat mlen)))"
proof -
  define d where "d = (if odd data then 1 else 0 :: nat)"
  define p where "p = (if odd data then push_bit 8 (ucast (mem data)) else 0 :: u64)"
  define st1 where "st1 = (st \<noteq> odd data)"
  have even: "even (data + d)" and d: "int d \<le> mlen" using assms(1) by (simp_all add: d_def)
  have p: "unat p = weight (odd data) (mem_read mem data d)" "unat p \<le> 2 ^ 16"
  proof -
    have "unat (push_bit 8 (ucast (mem data)) :: u64) = 256 * unat (mem data)"
      using byte_bound [of "mem data"] by (simp only: unsigned_push_bit_eq) (simp add: unsigned_ucast_eq take_bit_eq_mod push_bit_eq_mult)
    then show "unat p = weight (odd data) (mem_read mem data d)" "unat p \<le> 2 ^ 16"
      using byte_bound [of "mem data"] by (simp_all add: p_def d_def mem_read_Suc)
  qed
  obtain st' q where q: "cksum_aligned mem (data + d) (mlen - int d) st1 p acc = (st', q, acc)" "st' = (st1 \<noteq> odd (mlen - int d))"
    "same (unat q) (unat p + weight False (mem_read mem (data + d) (nat (mlen - int d))))"
    using cksum_aligned_same [OF even _ _ p(2), of "mlen - int d" mem st1 acc] assms d by auto
  have "nat mlen = d + nat (mlen - int d)" using d by arith
  then have "mem_read mem data (nat mlen) = mem_read mem data d @ mem_read mem (data + d) (nat (mlen - int d))"
    by (metis mem_read_add)
  moreover have "odd d = odd data" by (simp add: d_def)
  ultimately have w: "weight (odd data) (mem_read mem data (nat mlen)) =
      weight (odd data) (mem_read mem data d) + weight False (mem_read mem (data + d) (nat (mlen - int d)))"
    by (simp add: weight_append)
  have "same (unat q) (weight (odd data) (mem_read mem data (nat mlen)))" using q(3) by (simp add: p(1) w)
  then have "same ((if st1 then 256 else 1) * unat q) ((if st1 then 256 else 1) * weight (odd data) (mem_read mem data (nat mlen)))"
    by (intro same_mult) auto
  also have "same \<dots> (weight st (mem_read mem data (nat mlen)))"
    using weight_swap [of "odd data" "mem_read mem data (nat mlen)"] by (cases st; cases "odd data") (simp_all add: st1_def)
  finally have "same (unat (swap_partial st1 q)) (weight st (mem_read mem data (nat mlen)))"
    using same_trans [OF swap_partial_same] by blast
  then have f: "same (unat (fold32 (swap_partial st1 q))) (weight st (mem_read mem data (nat mlen)))"
    using same_trans [OF fold32_same(1)] by blast
  let ?a = "acc + fold32 (swap_partial st1 q)"
  have v: "unat ?a = unat acc + unat (fold32 (swap_partial st1 q))"
    using assms(3) fold32_same(2) [of "swap_partial st1 q"] by (subst unat_add64) simp_all
  have "cksum_mbuf mem data mlen st acc = (st', fold32 ?a)"
    using q(1) by (cases "odd data") (simp_all add: cksum_mbuf_def d_def p_def st1_def Let_def)
  moreover have "st' = (st \<noteq> odd mlen)" using q(2) by (auto simp: st1_def d_def)
  moreover have "same (unat (fold32 ?a)) (unat acc + weight st (mem_read mem data (nat mlen)))"
    using same_trans [OF fold32_same(1) [of ?a] ] same_add [OF same_refl f] by (simp only: v)
  ultimately show ?thesis using fold32_same(2) [of ?a] by blast
qed

section \<open>The checksum of a chain\<close>

lemma unat_drop32: "unat (drop_bit n x) = unat x div 2 ^ n" for x :: u32
proof -
  have "unat x < 2 ^ 32" by (rule order_less_le_trans [OF unsigned_less]) simp
  then have "unat x mod 2 ^ 32 = unat x" by simp
  then show ?thesis by (subst unsigned_drop_bit_eq) (simp add: drop_bit_eq_div take_bit_eq_mod)
qed

lemma fold16_step:
  fixes x :: u32
  shows "unat (drop_bit 16 x + (x AND 0xffff)) = unat x div 2 ^ 16 + unat x mod 2 ^ 16"
    "same (unat (drop_bit 16 x + (x AND 0xffff))) (unat x)"
proof -
  have "unat (x AND 0xffff) = unat x mod 2 ^ 16" by (rule unat_and_mask) simp_all
  moreover have "unat x < 2 ^ 32" by (rule order_less_le_trans [OF unsigned_less]) simp
  then have "unat x div 2 ^ 16 < 2 ^ 16" by (simp add: less_mult_imp_div_less)
  ultimately show v: "unat (drop_bit 16 x + (x AND 0xffff)) = unat x div 2 ^ 16 + unat x mod 2 ^ 16"
    by (simp add: unat_word_ariths unat_drop32)
  show "same (unat (drop_bit 16 x + (x AND 0xffff))) (unat x)" unfolding v by (rule same_splits(1)) simp
qed

lemma final_cksum_eq:
  assumes "same (unat acc) e"
  obtains v where "v \<le> 65535" "same v e" "final_cksum acc = 65535 - int v"
proof -
  let ?b = "2 ^ 16 :: nat"
  define a where "a = unat acc"
  define x where "x = (ucast (drop_bit 48 acc + (drop_bit 32 acc AND 0xffff) + (drop_bit 16 acc AND 0xffff) + (acc AND 0xffff)) :: u32)"
  define y where "y = drop_bit 16 x + (x AND 0xffff)"
  define z where "z = drop_bit 16 y + (y AND 0xffff)"
  have q: "a div ?b div ?b div ?b < ?b"
    using unat_bound64 [of acc] by (simp add: a_def less_mult_imp_div_less div_mult2_eq [symmetric])
  have m: "unat (w AND 0xffff) = unat w mod ?b" for w :: u64 by (rule unat_and_mask) simp_all
  have "unat (drop_bit 48 acc + (drop_bit 32 acc AND 0xffff) + (drop_bit 16 acc AND 0xffff) + (acc AND 0xffff)) =
      a div ?b div ?b div ?b + a div ?b div ?b mod ?b + a div ?b mod ?b + a mod ?b" (is "unat ?s = ?d")
    using q by (simp only: unat_word_ariths m unat_drop64 a_def [symmetric]) (simp add: div_mult2_eq [symmetric])
  moreover have d: "?d < 4 * ?b"
    using q mod_less_divisor [of ?b "a div ?b div ?b"] mod_less_divisor [of ?b "a div ?b"] mod_less_divisor [of ?b a] by linarith
  ultimately have x: "unat x = ?d" by (simp only: x_def unsigned_ucast_eq) (simp add: take_bit_eq_mod)
  have "same ?d a"
    using same_add [OF same_add [OF same_splits(1) [of "a div ?b div ?b"] same_refl [of "a div ?b mod ?b"]] same_refl [of "a mod ?b"]]
      same_add [OF same_splits(1) [of "a div ?b"] same_refl [of "a mod ?b"]] same_splits(1) [of a]
    by (auto intro: same_trans)
  then have "same (unat x) e" using same_trans [OF _ assms] by (simp only: x a_def)
  then have "same (unat y) e" unfolding y_def by (rule same_trans [OF fold16_step(2)])
  then have sz: "same (unat z) e" unfolding z_def by (rule same_trans [OF fold16_step(2)])
  have "unat y \<le> 3 + 65535"
  proof -
    have "unat x div ?b < 4" "unat x mod ?b < ?b" using d x by (simp_all only: less_mult_imp_div_less) simp
    then show ?thesis using fold16_step(1) [of x] unfolding y_def by simp
  qed
  then have z: "unat z \<le> 65535"
    using fold16_step(1) [of y] by (cases "unat y < ?b") (simp_all add: z_def le_mod_geq le_div_geq)
  have "unat (NOT z) = 2 ^ 32 - 1 - unat z"
  proof -
    have "NOT z = -1 - z" by (simp add: not_eq_complement)
    then show ?thesis using unat_sub [of z "-1"] by (simp add: unsigned_minus_1_eq_mask mask_eq_exp_minus_1)
  qed
  also have "\<dots> = 65535 - unat z + 65535 * 2 ^ 16" using z by simp
  finally have "unat (NOT z) mod 2 ^ 16 = 65535 - unat z" by (simp only: mod_mult_self1) simp
  then have "unat (NOT z AND 0xffff) = 65535 - unat z" by (subst unat_and_mask [of _ 16]) simp_all
  then have "int (unat (NOT z AND 0xffff)) = 65535 - int (unat z)" using z by simp
  then have "final_cksum acc = 65535 - int (unat z)"
    by (simp add: final_cksum_def Let_def x_def [symmetric] y_def [symmetric] z_def [symmetric])
  then show ?thesis using that z sz by blast
qed

text \<open>What one mbuf adds: the bytes that are still wanted of it.\<close>

lemma cksum_part_same:
  assumes "0 \<le> mlen" "mlen < 2 ^ 31" "0 < len" "unat acc < 2 ^ 33"
  shows "\<exists>acc'. cksum_part mem data mlen (len, st, acc) = (len - min mlen len, st \<noteq> odd (min mlen len), acc') \<and> unat acc' < 2 ^ 33 \<and>
    same (unat acc') (unat acc + weight st (take (nat len) (mem_read mem data (nat mlen))))"
proof (cases "mlen = 0")
  case True
  then show ?thesis using assms by (simp add: cksum_part_def min_def)
next
  case False
  define k where "k = min mlen len"
  have k: "0 < k" "k < 2 ^ 31" "(if mlen > len then len else mlen) = k" using False assms by (auto simp: k_def)
  have "take (nat len) (mem_read mem data (nat mlen)) = mem_read mem data (nat k)"
    using assms(1,3) by (auto simp: k_def mem_read_def take_map min_def nat_mono)
  then show ?thesis using cksum_mbuf_same [OF k(1,2) assms(4), of mem data st] False k(3) by (simp add: cksum_part_def k_def Let_def)
qed

lemma weight_take:
  assumes "0 \<le> l" "l = int (length xs)" "k = min l len" "0 < len"
  shows "weight st (take (nat len) xs) + weight (st \<noteq> odd k) (take (nat (len - k)) ys) = weight st (take (nat len) (xs @ ys))"
proof -
  have "nat (len - k) = nat len - length xs" "length (take (nat len) xs) = nat k" using assms by (auto simp: min_def nat_diff_distrib)
  moreover have "odd k = odd (nat k)" using assms by (simp add: even_nat_iff)
  ultimately show ?thesis by (simp add: weight_append)
qed

lemma cksum_loop_same:
  "mchain s mo as \<Longrightarrow> unat acc < 2 ^ 33 \<Longrightarrow>
   (0 \<le> len \<and> len \<le> clen s as \<longrightarrow> (\<exists>acc'. cksum_loop mo (len, st, acc) s = Some (final_cksum acc') \<and>
      same (unat acc') (unat acc + weight st (take (nat len) (cbytes s as))))) \<and>
   (clen s as < len \<longrightarrow> cksum_loop mo (len, st, acc) s = Some (-1))"
proof (induction as arbitrary: mo len st acc)
  case Nil
  then show ?case by (auto simp: cksum_loop.simps [of None])
next
  case (Cons a as)
  have ch: "mo = Some a" "mchain s (m_next (mbufs s a)) as" "0 \<le> m_len (mbufs s a)" "m_len (mbufs s a) < 2 ^ 31"
    using Cons.prems(1) by (auto simp: mchain_Cons)
  show ?case
  proof (cases "len \<le> 0")
    case True
    then show ?thesis using clen_nonneg [OF Cons.prems(1)] by (auto simp: cksum_loop.simps [of mo])
  next
    case False
    let ?l = "m_len (mbufs s a)"
    obtain acc' where a: "cksum_part (dmem s) (mtod (mbufs s a)) ?l (len, st, acc) = (len - min ?l len, st \<noteq> odd (min ?l len), acc')"
      "unat acc' < 2 ^ 33" "same (unat acc') (unat acc + weight st (take (nat len) (mbytes s a)))"
      using cksum_part_same [OF ch(3,4) _ Cons.prems(2), of len "dmem s" "mtod (mbufs s a)" st] False by (auto simp: mbytes_def mtod_def)
    have step: "cksum_loop mo (len, st, acc) s = cksum_loop (m_next (mbufs s a)) (len - min ?l len, st \<noteq> odd (min ?l len), acc') s"
      using False a(1) ch(1) by (subst cksum_loop.simps) simp
    note ih = Cons.IH [OF ch(2) a(2), of "len - min ?l len" "st \<noteq> odd (min ?l len)"]
    have len: "?l = int (length (mbytes s a))" using ch(3) by (simp add: mbytes_def)
    have w: "weight st (take (nat len) (mbytes s a)) + weight (st \<noteq> odd (min ?l len)) (take (nat (len - min ?l len)) (cbytes s as)) =
        weight st (take (nat len) (cbytes s (a # as)))"
      using weight_take [OF ch(3) len refl, of len st "cbytes s as"] False by simp
    have "same (unat x) (unat acc + weight st (take (nat len) (cbytes s (a # as))))"
      if "same (unat x) (unat acc' + weight (st \<noteq> odd (min ?l len)) (take (nat (len - min ?l len)) (cbytes s as)))" for x :: u64
      using same_trans [OF that same_add [OF a(3) same_refl]] by (simp only: add.assoc w)
    moreover have "clen s (a # as) = ?l + clen s as" by simp
    ultimately show ?thesis using ih clen_nonneg [OF ch(2)] unfolding step by (auto simp: min_def split: if_splits)
  qed
qed

lemma cksum_skip_same:
  "mchain s mo as \<Longrightarrow> unat acc < 2 ^ 33 \<Longrightarrow> 0 \<le> off \<Longrightarrow> 0 < len \<Longrightarrow>
   (off + len \<le> clen s as \<longrightarrow> (\<exists>acc'. cksum_skip mo len off acc s = Some (final_cksum acc') \<and>
      same (unat acc') (unat acc + weight False (take (nat len) (drop (nat off) (cbytes s as)))))) \<and>
   (clen s as < off + len \<longrightarrow> cksum_skip mo len off acc s = Some (-1))"
proof (induction as arbitrary: mo off)
  case Nil
  then show ?case by (auto simp: cksum_skip.simps [of None])
next
  case (Cons a as)
  let ?l = "m_len (mbufs s a)"
  have ch: "mo = Some a" "mchain s (m_next (mbufs s a)) as" "0 \<le> ?l" "?l < 2 ^ 31"
    using Cons.prems(1) by (auto simp: mchain_Cons)
  have len: "int (length (mbytes s a)) = ?l" using ch(3) by (simp add: mbytes_def)
  show ?case
  proof (cases "?l > off")
    case False
    then have "cksum_skip mo len off acc s = cksum_skip (m_next (mbufs s a)) len (off - ?l) acc s"
      using ch(1) Cons.prems(4) by (subst cksum_skip.simps) (simp add: Let_def)
    moreover have "drop (nat off) (cbytes s (a # as)) = drop (nat (off - ?l)) (cbytes s as)"
    proof -
      have "length (mbytes s a) = nat ?l" using len by simp
      moreover have "nat off - nat ?l = nat (off - ?l)" using False ch(3) by (simp add: nat_diff_distrib)
      ultimately show ?thesis using False by (simp add: nat_mono)
    qed
    ultimately show ?thesis using Cons.IH [OF ch(2) Cons.prems(2), of "off - ?l"] False Cons.prems(4) by (auto simp: algebra_simps)
  next
    case True
    define m where "m = ?l - off"
    obtain acc' where a: "cksum_part (dmem s) (mtod (mbufs s a) + nat off) m (len, False, acc) = (len - min m len, odd (min m len), acc')"
      "unat acc' < 2 ^ 33" "same (unat acc') (unat acc + weight False (take (nat len) (mem_read (dmem s) (mtod (mbufs s a) + nat off) (nat m))))"
      using cksum_part_same [of m len acc "dmem s" "mtod (mbufs s a) + nat off" False] True ch(3,4) Cons.prems(2,3,4) by (auto simp: m_def)
    have bytes: "mem_read (dmem s) (mtod (mbufs s a) + nat off) (nat m) = drop (nat off) (mbytes s a)"
      using mem_read_append [of "dmem s" "m_data (mbufs s a)" "nat off" "nat m"] True Cons.prems(3)
      by (simp add: mbytes_def mtod_def m_def nat_diff_distrib)
    have step: "cksum_skip mo len off acc s = cksum_loop (m_next (mbufs s a)) (len - min m len, odd (min m len), acc') s"
      using True a(1) ch(1) by (subst cksum_skip.simps) (simp add: Let_def m_def)
    note loop = cksum_loop_same [OF ch(2) a(2), of "len - min m len" "odd (min m len)"]
    have w: "weight False (take (nat len) (drop (nat off) (mbytes s a))) + weight (False \<noteq> odd (min m len)) (take (nat (len - min m len)) (cbytes s as)) =
        weight False (take (nat len) (drop (nat off) (cbytes s (a # as))))"
    proof -
      have l: "nat off \<le> length (mbytes s a)" using len True by simp
      then have "m = int (length (drop (nat off) (mbytes s a)))" using len Cons.prems(3) by (simp add: m_def of_nat_diff)
      from weight_take [OF _ this refl Cons.prems(4), of False "cbytes s as"] show ?thesis using True l by (simp add: m_def)
    qed
    have "same (unat x) (unat acc + weight False (take (nat len) (drop (nat off) (cbytes s (a # as)))))"
      if "same (unat x) (unat acc' + weight (odd (min m len)) (take (nat (len - min m len)) (cbytes s as)))" for x :: u64
      using same_trans [OF that same_add [OF a(3) [unfolded bytes] same_refl]] w by (simp add: add.assoc)
    moreover have "clen s (a # as) = ?l + clen s as" by simp
    ultimately show ?thesis using loop clen_nonneg [OF ch(2)] Cons.prems(4) unfolding step by (auto simp: m_def min_def split: if_splits)
  qed
qed

lemma cpu_in_cksum_eq:
  assumes ch: "mchain s m as" and len: "0 \<le> off" "0 < len" "off + len \<le> clen s as"
    and ws: "same (unat init) (sum_list ws)" "\<forall>w \<in> set ws. w \<le> 65535"
  shows "cpu_in_cksum m len off init s = Some (rfc1071 (ws @ le_words (take (nat len) (drop (nat off) (cbytes s as)))))"
proof -
  let ?bs = "take (nat len) (drop (nat off) (cbytes s as))"
  have i: "unat (ucast init :: u64) = unat init" "unat init < 2 ^ 33"
  proof -
    have "unat init < 2 ^ 32" by (rule order_less_le_trans [OF unsigned_less]) simp
    then show "unat (ucast init :: u64) = unat init" "unat init < 2 ^ 33" by (simp_all add: unsigned_ucast_eq take_bit_eq_mod)
  qed
  obtain acc where acc: "cksum_skip m len off (ucast init) s = Some (final_cksum acc)" "same (unat acc) (unat init + weight False ?bs)"
    using cksum_skip_same [OF ch _ len(1,2), of "ucast init"] i len(3) by auto
  have "same (unat acc) (sum_list (ws @ le_words ?bs))"
    using same_trans [OF acc(2) same_add [OF ws(1) same_refl]] by (simp add: le_words_weight)
  then obtain v where "v \<le> 65535" "same v (sum_list (ws @ le_words ?bs))" "final_cksum acc = 65535 - int v"
    by (rule final_cksum_eq)
  then have "final_cksum acc = rfc1071 (ws @ le_words ?bs)" using rfc1071_eq ws(2) le_words_bound [of ?bs] by (simp add: ball_Un)
  then show ?thesis using acc(1) len by (simp add: cpu_in_cksum_def)
qed

text \<open>C9. The checksum is that of RFC 1071.  For every range of a chain of mbufs, wherever the data of the mbufs lie in memory and however the range is split
  over them, \<^verbatim>\<open>cpu_in_cksum\<close> returns the complement of the one's complement sum of the 16-bit words of the initial
  sum and of the bytes of the range; a chain that ends before the range does gives \<^term>\<open>-1 :: int\<close>.  In particular
  \<^verbatim>\<open>in_cksum\<close> gives the checksum of the first bytes of the chain.\<close>

theorem in_cksum_is_rfc1071:
  assumes "mchain s m as" "0 \<le> off" "0 < len"
  shows "(off + len \<le> clen s as \<longrightarrow> cpu_in_cksum m len off init s =
      Some (rfc1071 ([unat init mod 65536, unat init div 65536] @ le_words (take (nat len) (drop (nat off) (cbytes s as)))))) \<and>
    (clen s as < off + len \<longrightarrow> cpu_in_cksum m len off init s = Some (-1)) \<and>
    (len \<le> clen s as \<longrightarrow> in_cksum m len s = Some (rfc1071 (le_words (take (nat len) (cbytes s as)))))"
proof (intro conjI impI)
  have b: "unat init < 2 ^ 32" by (rule order_less_le_trans [OF unsigned_less]) simp
  have "same (unat init) (sum_list [unat init mod 65536, unat init div 65536])"
    using same_split [of 65536 1 "unat init"] by (simp add: same_sym add.commute)
  moreover have "\<forall>w \<in> set [unat init mod 65536, unat init div 65536]. w \<le> 65535"
    using b less_mult_imp_div_less [of "unat init" 65536 65536] by (simp add: less_Suc_eq_le [symmetric])
  moreover assume "off + len \<le> clen s as"
  ultimately show "cpu_in_cksum m len off init s =
      Some (rfc1071 ([unat init mod 65536, unat init div 65536] @ le_words (take (nat len) (drop (nat off) (cbytes s as)))))"
    using cpu_in_cksum_eq [OF assms] by blast
next
  assume "clen s as < off + len"
  moreover have "unat (ucast init :: u64) < 2 ^ 33"
  proof -
    have "unat init < 2 ^ 32" by (rule order_less_le_trans [OF unsigned_less]) simp
    then show ?thesis by (simp add: unsigned_ucast_eq take_bit_eq_mod)
  qed
  ultimately show "cpu_in_cksum m len off init s = Some (-1)"
    using cksum_skip_same [OF assms(1) _ assms(2,3)] assms by (simp add: cpu_in_cksum_def)
next
  assume "len \<le> clen s as"
  then show "in_cksum m len s = Some (rfc1071 (le_words (take (nat len) (cbytes s as))))"
    using cpu_in_cksum_eq [OF assms(1) _ assms(3), of 0 0 "[]"] by (simp add: in_cksum_def)
qed

section \<open>The pseudo header\<close>

text \<open>The 12 bytes of RFC 793: source, destination, zero, protocol and length.\<close>

definition pseudo_header :: "(addr \<Rightarrow> 8 word) \<Rightarrow> addr \<Rightarrow> 8 word \<Rightarrow> int \<Rightarrow> 8 word list" where
  "pseudo_header mem ip nxt len = mem_read mem (ip + 12) 8 @ [0, nxt, of_int (len div 256), of_int len]"

lemma read16_32: "unat (ucast (read16 mem a) :: u32) = unat (mem a) + 256 * unat (mem (a + 1))"
  using read16_nat [of mem a] by (simp add: unsigned_ucast_eq take_bit_eq_mod)

lemma and_ff00: "unat (x AND 0xff00) = 256 * (unat x div 256 mod 256)" for x :: u32
proof -
  have p: "x AND push_bit 8 y = push_bit 8 (drop_bit 8 x AND y)" for y by (rule bit_eqI) (auto simp: bit_simps)
  from p [of 255] have e: "x AND 0xff00 = push_bit 8 (drop_bit 8 x AND 0xff)" by simp
  have "unat (drop_bit 8 x AND 0xff) = unat x div 256 mod 256"
    by (subst unat_and_mask [of _ 8]) (simp_all add: unat_drop32)
  then show ?thesis unfolding e by (simp only: unsigned_push_bit_eq) (simp add: push_bit_eq_mult take_bit_eq_mod)
qed

lemma mem_read_8: "mem_read mem a 8 = [mem a, mem (a + 1), mem (a + 2), mem (a + 3), mem (a + 4), mem (a + 5), mem (a + 6), mem (a + 7)]"
  by (simp add: mem_read_def upt_rec numeral_eq_Suc)

lemma pseudo_head: "unat (push_bit 8 (of_int (len AND 0xffff) + ucast nxt) :: u32) = 256 * (nat (len mod 65536) + unat nxt)"
  for nxt :: "8 word"
proof -
  have l: "len AND 0xffff = len mod 65536" using take_bit_eq_mask [of 16 len] by (simp add: take_bit_eq_mod mask_eq_exp_minus_1)
  have m: "0 \<le> len mod 65536" "len mod 65536 < 65536" by simp_all
  have n: "unat nxt < 256" by (rule byte_bound)
  have "unat (of_int (len mod 65536) :: u32) = nat (len mod 65536)" using m by (simp add: unsigned_of_int take_bit_eq_mod)
  moreover have "unat (ucast nxt :: u32) = unat nxt" using n by (simp add: unsigned_ucast_eq take_bit_eq_mod)
  ultimately have "unat (of_int (len mod 65536) + ucast nxt :: u32) = nat (len mod 65536) + unat nxt"
    using m n by (simp add: unat_word_ariths)
  then show ?thesis using m n unfolding l by (simp only: unsigned_push_bit_eq) (simp add: push_bit_eq_mult take_bit_eq_mod)
qed

lemma pseudo_addresses:
  "same (unat (pseudo_sum mem ip nxt len)) (unat (push_bit 8 (of_int (len AND 0xffff) + ucast nxt :: u32)) + weight False (mem_read mem (ip + 12) 8))"
proof -
  let ?w = "ip + 12"
  have b: "unat (mem x) < 256" for x by (rule byte_bound)
  define h where "h = (push_bit 8 (of_int (len AND 0xffff) + ucast nxt) :: u32)"
  have "nat (len mod 65536) < 65536" by (simp add: nat_less_iff)
  then have h: "unat h \<le> 16842496" using byte_bound [of nxt] by (simp add: h_def pseudo_head)
  show ?thesis
  proof (cases "even ?w")
    case True
    have "unat (pseudo_sum mem ip nxt len) = unat h + weight False (mem_read mem ?w 8)"
      using True h b [of ?w] b [of "?w + 1"] b [of "?w + 2"] b [of "?w + 3"] b [of "?w + 4"] b [of "?w + 5"] b [of "?w + 6"] b [of "?w + 7"]
      by (simp add: pseudo_sum_def Let_def h_def [symmetric] unat_word_ariths read16_32 mem_read_8)
    then show ?thesis by (simp add: h_def)
  next
    case False
    let ?p = "(ucast (read16 mem (?w - 1)) AND 0xff00) + ucast (read16 mem (?w - 1 + 2)) + ucast (read16 mem (?w - 1 + 4)) +
      ucast (read16 mem (?w - 1 + 6)) + (ucast (read16 mem (?w - 1 + 8)) AND 0x00ff) :: u32"
    have f: "unat (ucast (read16 mem (?w - 1)) AND 0xff00 :: u32) = 256 * unat (mem ?w)"
      using b [of ?w] b [of "?w - 1"] by (simp only: and_ff00 read16_32) (simp add: add.commute)
    have l: "unat (ucast (read16 mem (?w - 1 + 8)) AND 0x00ff :: u32) = unat (mem (?w + 7))"
      using b [of "?w + 7"] by (subst unat_and_mask [of _ 8]) (simp_all add: read16_32)
    have p: "unat ?p = weight True (mem_read mem ?w 8)"
      using b [of ?w] b [of "?w + 1"] b [of "?w + 2"] b [of "?w + 3"] b [of "?w + 4"] b [of "?w + 5"] b [of "?w + 6"] b [of "?w + 7"] f l
      by (simp add: unat_word_ariths read16_32 mem_read_8)
    have bound: "weight True (mem_read mem ?w 8) < 2 ^ 19"
      using b [of ?w] b [of "?w + 1"] b [of "?w + 2"] b [of "?w + 3"] b [of "?w + 4"] b [of "?w + 5"] b [of "?w + 6"] b [of "?w + 7"]
      by (simp add: mem_read_8)
    have "unat (push_bit 8 ?p) = 256 * weight True (mem_read mem ?w 8)"
      using p bound by (simp only: unsigned_push_bit_eq) (simp add: push_bit_eq_mult take_bit_eq_mod)
    then have "unat (pseudo_sum mem ip nxt len) = unat h + 256 * weight True (mem_read mem ?w 8)"
      using False h bound by (simp add: pseudo_sum_def Let_def h_def [symmetric] unat_word_ariths)
    then show ?thesis using same_add [OF same_refl weight_swap [of True]] by (simp add: h_def)
  qed
qed

lemma pseudo_sum_same: "same (unat (pseudo_sum mem ip nxt len)) (sum_list (le_words (pseudo_header mem ip nxt len)))"
proof -
  define hi where "hi = unat (of_int (len div 256) :: 8 word)"
  define lo where "lo = unat (of_int len :: 8 word)"
  have "int hi = len div 256 mod 256" "int lo = len mod 256"
    by (simp_all add: hi_def lo_def unsigned_of_int take_bit_eq_mod)
  then have "len mod 65536 = int (256 * hi + lo)" using zmod_zmult2_eq [of 256 len 256] by simp
  then have L: "nat (len mod 65536) = 256 * hi + lo" by simp
  have "same (65536 * hi) hi" using same_split [of 65536 1 "65536 * hi"] by (simp add: same_sym)
  from same_add [OF this same_refl [of "256 * lo + 256 * unat nxt"]]
  have "same (unat (push_bit 8 (of_int (len AND 0xffff) + ucast nxt :: u32))) (256 * unat nxt + hi + 256 * lo)"
    unfolding pseudo_head L by (simp add: algebra_simps)
  from same_trans [OF pseudo_addresses same_add [OF this same_refl]]
  have "same (unat (pseudo_sum mem ip nxt len)) (256 * unat nxt + hi + 256 * lo + weight False (mem_read mem (ip + 12) 8))" .
  moreover have "sum_list (le_words (pseudo_header mem ip nxt len)) = 256 * unat nxt + hi + 256 * lo + weight False (mem_read mem (ip + 12) 8)"
    by (simp add: le_words_weight pseudo_header_def weight_append hi_def lo_def)
  ultimately show ?thesis by simp
qed

lemma le_words_append: "even (length xs) \<Longrightarrow> le_words (xs @ ys) = le_words xs @ le_words ys"
  by (induction xs rule: le_words.induct) auto

text \<open>C21. The checksum of a transport protocol covers the pseudo header.  For a protocol number other than 0, \<^verbatim>\<open>in4_cksum\<close> returns the RFC 1071
  checksum of the 12 bytes of the pseudo header (source and destination out of the IP header in the first mbuf,
  protocol, length) followed by the payload behind the IP header, at even and at odd addresses of the header alike.  It stops
  the program when the header is not in the first mbuf.\<close>

theorem in4_cksum_covers_pseudo_header:
  assumes "mchain s (Some m) as" "nxt \<noteq> 0" "0 < len" "off + len \<le> clen s as"
  shows "in4_cksum m nxt off len s =
    (if off < 20 \<or> m_len (mbufs s m) < 20 then None
     else Some (rfc1071 (le_words (pseudo_header (dmem s) (mtod (mbufs s m)) nxt len @ take (nat len) (drop (nat off) (cbytes s as))))))"
proof (cases "off < 20 \<or> m_len (mbufs s m) < 20")
  case False
  have "le_words (pseudo_header (dmem s) (mtod (mbufs s m)) nxt len @ take (nat len) (drop (nat off) (cbytes s as))) =
      le_words (pseudo_header (dmem s) (mtod (mbufs s m)) nxt len) @ le_words (take (nat len) (drop (nat off) (cbytes s as)))"
    by (rule le_words_append) (simp add: pseudo_header_def)
  then show ?thesis
    using cpu_in_cksum_eq [OF assms(1) _ assms(3,4) pseudo_sum_same le_words_bound] False assms(2) by (simp add: in4_cksum_def)
next
  case True
  have "0 \<le> m_len (mbufs s m)" using assms(1) by (cases as) (simp_all add: mchain_Cons)
  then show ?thesis using True assms(2) by (auto simp: in4_cksum_def cpu_in_cksum_def)
qed

section \<open>Concrete states\<close>

text \<open>A packet of 24 bytes at an odd address.\<close>

definition odd_packet :: mstate where
  "odd_packet = upd_m 10 (\<lambda>b. b\<lparr> m_data := 301, m_len := 24 \<rparr>) idle_mstate"

lemma odd_packet_facts: "mchain odd_packet (Some 10) [10]" "clen odd_packet [10] = 24" "mtod (mbufs odd_packet 10) = 301" "dmem odd_packet = of_nat"
  "m_len (mbufs odd_packet 10) = 24" "cbytes odd_packet [10] = map of_nat [301..<325]"
  by (simp_all add: odd_packet_def idle_mstate_def blank_mbuf_def mchain_def upd_m_def clen_def cbytes_def mbytes_def mem_read_def mtod_def)

theorem in_cksum_is_rfc1071_witness: "in_cksum (Some 10) 8 chain_mstate = Some 15007"
proof -
  have "rfc1071 (le_words [100, 101, 102, 200, 201, 202, 203, 204]) = 15007" by (simp add: rfc1071_def oc_add_def)
  then show ?thesis
    using in_cksum_is_rfc1071 [OF chain_mstate_facts(1), of 0 8] by (simp add: chain_mstate_facts del: cbytes_Cons clen_Cons)
qed

theorem in4_cksum_covers_pseudo_header_witness: "in4_cksum 10 6 20 4 odd_packet = Some 31370"
proof -
  have "rfc1071 (le_words (pseudo_header of_nat 301 6 4 @ take 4 (drop 20 (map of_nat [301..<325])))) = 31370"
    by (simp add: rfc1071_def oc_add_def pseudo_header_def mem_read_def upt_rec)
  then show ?thesis
    using in4_cksum_covers_pseudo_header [OF odd_packet_facts(1), of 6 4 20] by (simp add: odd_packet_facts del: cbytes_Cons clen_Cons)
qed

end
