(* ===== verification/Tcp_Seq.thy ===== *)
theory Tcp_Seq
  imports Prelude
begin

unbundle bit_operations_syntax

text \<open>
  TCP sequence numbers (\<^verbatim>\<open>netinet/tcp_seq.h\<close>) and the part of the control block
  (\<^verbatim>\<open>netinet/tcp_var.h\<close>) that selective acknowledgement and congestion control work on.  A sequence
  number is a 32-bit word that wraps; the comparisons cast the difference to a signed \<^verbatim>\<open>int\<close>.
  The second half relates words to positions in the unbounded stream of bytes: within a
  gigabyte of a base, which no TCP window exceeds, the comparisons are those of the positions.
\<close>

section \<open>Sequence numbers\<close>

type_synonym tcp_seq = u32

definition SEQ_LT :: "tcp_seq \<Rightarrow> tcp_seq \<Rightarrow> bool" where "SEQ_LT a b \<longleftrightarrow> sint (a - b) < 0"
definition SEQ_LEQ :: "tcp_seq \<Rightarrow> tcp_seq \<Rightarrow> bool" where "SEQ_LEQ a b \<longleftrightarrow> sint (a - b) \<le> 0"
definition SEQ_GT :: "tcp_seq \<Rightarrow> tcp_seq \<Rightarrow> bool" where "SEQ_GT a b \<longleftrightarrow> sint (a - b) > 0"
definition SEQ_GEQ :: "tcp_seq \<Rightarrow> tcp_seq \<Rightarrow> bool" where "SEQ_GEQ a b \<longleftrightarrow> sint (a - b) \<ge> 0"
definition SEQ_MIN :: "tcp_seq \<Rightarrow> tcp_seq \<Rightarrow> tcp_seq" where "SEQ_MIN a b = (if SEQ_LT a b then a else b)"
definition SEQ_MAX :: "tcp_seq \<Rightarrow> tcp_seq \<Rightarrow> tcp_seq" where "SEQ_MAX a b = (if SEQ_GT a b then a else b)"

text \<open>The difference is unsigned before it becomes a \<^verbatim>\<open>long\<close>.\<close>

definition SEQ_SUB :: "tcp_seq \<Rightarrow> tcp_seq \<Rightarrow> u64" where "SEQ_SUB a b = ucast (a - b)"

section \<open>The control block\<close>

record sackhole =
  start :: tcp_seq
  hend :: tcp_seq
  rxmit :: tcp_seq

record sackblk =
  left :: tcp_seq
  right :: tcp_seq

record tcphdr =
  th_ack :: tcp_seq
  th_flags :: "8 word"

text \<open>The list \<^verbatim>\<open>snd_holes\<close> holds the entries of the tail queue in their order; \<^verbatim>\<open>rexmt_armed\<close> says whether the
  callout of the retransmission timer is active.\<close>

record tcpcb =
  t_flags :: u32
  t_segsz :: u16
  t_dupacks :: "16 word"
  t_partialacks :: "16 word"
  t_rtttime :: u32
  rexmt_armed :: bool
  t_segqlen :: int
  snd_una :: tcp_seq
  snd_nxt :: tcp_seq
  snd_max :: tcp_seq
  snd_recover :: tcp_seq
  snd_high :: tcp_seq
  snd_wnd :: u64
  snd_cwnd :: u64
  snd_ssthresh :: u64
  t_bytes_acked :: u64
  snd_scale :: "8 word"
  rcv_sack_flags :: "8 word"
  rcv_dsack_block :: sackblk
  snd_holes :: "sackhole list"
  snd_numholes :: int
  rcv_lastsack :: tcp_seq
  sack_newdata :: tcp_seq
  snd_fack :: tcp_seq

definition TF_ACKNOW :: u32 where "TF_ACKNOW = 0x0001"
definition TF_WILL_SACK :: u32 where "TF_WILL_SACK = 0x0800"
definition TF_ECN_PERMIT :: u32 where "TF_ECN_PERMIT = 0x10000"
definition TF_ECN_SND_CWR :: u32 where "TF_ECN_SND_CWR = 0x20000"
definition TH_ACK :: "8 word" where "TH_ACK = 0x10"
definition TCPSACK_HAVED :: "8 word" where "TCPSACK_HAVED = 1"
definition TCP_SACK_MAX :: int where "TCP_SACK_MAX = 3"

definition TCP_SACK_ENABLED :: "'a tcpcb_scheme \<Rightarrow> bool" where
  "TCP_SACK_ENABLED tp \<longleftrightarrow> t_flags tp AND TF_WILL_SACK \<noteq> 0"

definition TCP_ECN_ALLOWED :: "'a tcpcb_scheme \<Rightarrow> bool" where
  "TCP_ECN_ALLOWED tp \<longleftrightarrow> t_flags tp AND TF_ECN_PERMIT \<noteq> 0"

section \<open>Positions in the stream\<close>

text \<open>The position a sequence number stands for, seen from the position \<^term>\<open>A\<close>: the one within half the
  number space of it.\<close>

definition seq_pos :: "int \<Rightarrow> tcp_seq \<Rightarrow> int" where
  "seq_pos A x = A + sint (x - of_int A)"

definition near :: "int \<Rightarrow> tcp_seq \<Rightarrow> bool" where
  "near A x \<longleftrightarrow> \<bar>sint (x - of_int A)\<bar> < 2 ^ 30"

lemma sint_diff_near: "near A x \<Longrightarrow> near A y \<Longrightarrow> sint (x - y) = seq_pos A x - seq_pos A y"
proof -
  assume n: "near A x" "near A y"
  have "sint ((x - of_int A) - (y - of_int A)) = sint (x - of_int A) - sint (y - of_int A)"
    using n unfolding near_def by (subst sint_word_ariths) (simp add: signed_take_bit_int_eq_self)
  then show ?thesis by (simp add: seq_pos_def)
qed

lemma seq_compare:
  assumes "near A x" "near A y"
  shows "SEQ_LT x y \<longleftrightarrow> seq_pos A x < seq_pos A y" "SEQ_LEQ x y \<longleftrightarrow> seq_pos A x \<le> seq_pos A y"
    "SEQ_GT x y \<longleftrightarrow> seq_pos A y < seq_pos A x" "SEQ_GEQ x y \<longleftrightarrow> seq_pos A y \<le> seq_pos A x"
  by (simp_all add: SEQ_LT_def SEQ_LEQ_def SEQ_GT_def SEQ_GEQ_def sint_diff_near [OF assms])

lemma seq_extrema:
  assumes "near A x" "near A y"
  shows "seq_pos A (SEQ_MAX x y) = max (seq_pos A x) (seq_pos A y)" "seq_pos A (SEQ_MIN x y) = min (seq_pos A x) (seq_pos A y)"
    "near A (SEQ_MAX x y)" "near A (SEQ_MIN x y)"
  using assms seq_compare [OF assms] by (auto simp: SEQ_MAX_def SEQ_MIN_def)

lemma of_int_seq_pos: "of_int (seq_pos A x) = x"
  by (simp add: seq_pos_def)

lemma near_iff: "near A x \<longleftrightarrow> \<bar>seq_pos A x - A\<bar> < 2 ^ 30"
  by (simp add: near_def seq_pos_def)

lemma seq_pos_unique: "of_int p = x \<Longrightarrow> \<bar>p - A\<bar> < 2 ^ 31 \<Longrightarrow> seq_pos A x = p"
proof -
  assume p: "of_int p = x" "\<bar>p - A\<bar> < 2 ^ 31"
  have "x - of_int A = of_int (p - A)" using p(1) by simp
  then have "sint (x - of_int A) = signed_take_bit 31 (p - A)" by (simp only: signed_of_int) simp
  also have "\<dots> = p - A" using p(2) by (intro signed_take_bit_int_eq_self) auto
  finally show ?thesis by (simp add: seq_pos_def)
qed

lemma seq_pos_self [simp]: "seq_pos A (of_int A) = A" "near A (of_int A)"
  by (simp_all add: seq_pos_def near_def)

text \<open>Another base gives the same position while both see it.\<close>

lemma seq_pos_shift: "near A x \<Longrightarrow> \<bar>B - A\<bar> < 2 ^ 30 \<Longrightarrow> seq_pos B x = seq_pos A x"
  by (rule seq_pos_unique [OF of_int_seq_pos]) (auto simp: near_iff)

end
