(* ===== verification/Tcp_Sack.thy ===== *)
theory Tcp_Sack
  imports Tcp_Seq
begin

unbundle bit_operations_syntax

text \<open>
  Selective acknowledgement on the sending side (\<^verbatim>\<open>netinet/tcp_sack.c\<close>): the scoreboard of holes, that is
  of the ranges the peer is still missing, how a SACK option and an acknowledgement change it, and
  what the sender reads from it.  The properties: after any sequence of segments, timeouts and new data the
  holes are in order, apart, inside the data in flight and counted right; a byte is taken as received
  only if a block of the peer said so; and the next byte to send is moved over received data only.
\<close>

section \<open>Holes\<close>

text \<open>The control block with the global counters and the number of entries left in the pool.\<close>

record tcpst = tcpcb +
  tcp_sack_tp_maxholes :: int
  tcp_sack_globalmaxholes :: int
  tcp_sack_globalholes :: int
  sackhole_pool :: nat

text \<open>The pool holds \<^verbatim>\<open>TCP_SACK_HOLES_COUNT\<close> entries.\<close>

definition tcp_sack_init :: "'a tcpst_scheme \<Rightarrow> 'a tcpst_scheme" where
  "tcp_sack_init tp = tp\<lparr> sackhole_pool := 16384 \<rparr>"

definition sack_allochole :: "'a tcpst_scheme \<Rightarrow> 'a tcpst_scheme option" where
  "sack_allochole tp =
     (if snd_numholes tp \<ge> tcp_sack_tp_maxholes tp \<or> tcp_sack_globalholes tp \<ge> tcp_sack_globalmaxholes tp then None
      else if sackhole_pool tp = 0 then None
      else Some (tp\<lparr> sackhole_pool := sackhole_pool tp - 1, snd_numholes := snd_numholes tp + 1,
                     tcp_sack_globalholes := tcp_sack_globalholes tp + 1 \<rparr>))"

text \<open>A pointer into the queue is the position of the entry, or the length of the queue for the null pointer.  The
  new hole goes behind the entry \<^term>\<open>prev\<close>, or to the end of the queue; its position is returned.\<close>

definition sack_inserthole :: "tcp_seq \<Rightarrow> tcp_seq \<Rightarrow> nat option \<Rightarrow> 'a tcpst_scheme \<Rightarrow> (nat \<times> 'a tcpst_scheme) option" where
  "sack_inserthole st en prev tp =
     (case sack_allochole tp of
        None \<Rightarrow> None
      | Some tp \<Rightarrow>
          let hole = \<lparr> start = st, hend = en, rxmit = st \<rparr>;
              pos = (case prev of Some p \<Rightarrow> Suc p | None \<Rightarrow> length (snd_holes tp))
          in Some (pos, tp\<lparr> snd_holes := take pos (snd_holes tp) @ hole # drop pos (snd_holes tp) \<rparr>))"

definition sack_removehole :: "nat \<Rightarrow> 'a tcpst_scheme \<Rightarrow> nat \<times> 'a tcpst_scheme" where
  "sack_removehole hole tp =
     (hole, tp\<lparr> snd_numholes := snd_numholes tp - 1, tcp_sack_globalholes := tcp_sack_globalholes tp - 1,
                snd_holes := take hole (snd_holes tp) @ drop (Suc hole) (snd_holes tp),
                sackhole_pool := sackhole_pool tp + 1 \<rparr>)"

definition upd_hole :: "nat \<Rightarrow> (sackhole \<Rightarrow> sackhole) \<Rightarrow> 'a tcpst_scheme \<Rightarrow> 'a tcpst_scheme" where
  "upd_hole i f tp = tp\<lparr> snd_holes := (snd_holes tp)[i := f (snd_holes tp ! i)] \<rparr>"

definition tcp_new_dsack :: "tcp_seq \<Rightarrow> u32 \<Rightarrow> 'a tcpst_scheme \<Rightarrow> 'a tcpst_scheme" where
  "tcp_new_dsack seq len tp =
     (if TCP_SACK_ENABLED tp
      then tp\<lparr> rcv_dsack_block := \<lparr> left = seq, right = seq + len \<rparr>, rcv_sack_flags := rcv_sack_flags tp OR TCPSACK_HAVED \<rparr>
      else tp)"

section \<open>A SACK option\<close>

text \<open>The bytes of the option are \<^term>\<open>cp (0::nat)\<close>, \<^term>\<open>cp (1::nat)\<close> and so on; numbers are in network order.\<close>

definition ntohl_at :: "(nat \<Rightarrow> 8 word) \<Rightarrow> nat \<Rightarrow> tcp_seq" where
  "ntohl_at cp i = 16777216 * ucast (cp i) + 65536 * ucast (cp (i + 1)) + 256 * ucast (cp (i + 2)) + ucast (cp (i + 3))"

text \<open>The insertion sort moves from the end of the array to the front; here the array is read backwards.\<close>

fun insert_blk :: "sackblk \<Rightarrow> sackblk list \<Rightarrow> sackblk list" where
  "insert_blk b [] = [b]"
| "insert_blk b (x # xs) = (if SEQ_LT (left b) (left x) then x # insert_blk b xs else b # x # xs)"

text \<open>The array has room for 4 blocks; writing a fifth one is outside of it.\<close>

fun read_blks :: "(nat \<Rightarrow> 8 word) \<Rightarrow> tcp_seq \<Rightarrow> tcp_seq \<Rightarrow> nat \<Rightarrow> nat \<Rightarrow> sackblk list \<Rightarrow> sackblk list option" where
  "read_blks cp acked mx lp 0 blks = Some blks"
| "read_blks cp acked mx lp (Suc n) blks =
     (let l = ntohl_at cp lp; r = ntohl_at cp (lp + 4)
      in if SEQ_LEQ r acked \<or> SEQ_GT r mx \<or> SEQ_GEQ l r then read_blks cp acked mx (lp + 8) n blks
         else if length blks \<ge> (40 - 2) div 8 then None
         else read_blks cp acked mx (lp + 8) n (rev (insert_blk \<lparr> left = l, right = r \<rparr> (rev blks))))"

text \<open>The loop over the holes from \<^term>\<open>cur\<close> on.  The flag says that no hole could be allocated, on which the caller returns; a loop
  in which no case applies never ends.\<close>

partial_function (option) walk_holes :: "sackblk \<Rightarrow> nat \<Rightarrow> 'a tcpst_scheme \<Rightarrow> (bool \<times> nat \<times> 'a tcpst_scheme) option" where
  "walk_holes sack cur tp =
     (if cur \<ge> length (snd_holes tp) then Some (False, cur, tp)
      else let h = snd_holes tp ! cur
           in if SEQ_LEQ (right sack) (start h) then Some (False, cur, tp)
              else if SEQ_GEQ (left sack) (hend h) then walk_holes sack (Suc cur) tp
              else if SEQ_LEQ (left sack) (start h)
              then if SEQ_GEQ (right sack) (hend h) then Some (False, sack_removehole cur tp)
                   else Some (False, cur, upd_hole cur (\<lambda>h. h\<lparr> start := right sack, rxmit := SEQ_MAX (rxmit h) (right sack) \<rparr>) tp)
              else if SEQ_GEQ (right sack) (hend h)
              then Some (False, Suc cur, upd_hole cur (\<lambda>h. h\<lparr> hend := left sack, rxmit := SEQ_MIN (rxmit h) (left sack) \<rparr>) tp)
              else if SEQ_LT (start h) (left sack) \<and> SEQ_GT (hend h) (right sack)
              then (case sack_inserthole (right sack) (hend h) (Some cur) tp of
                      None \<Rightarrow> Some (True, cur, tp)
                    | Some (tmp, tp) \<Rightarrow> Some (False, tmp,
                        upd_hole cur (\<lambda>h. h\<lparr> hend := left sack, rxmit := SEQ_MIN (rxmit h) (left sack) \<rparr>)
                          (upd_hole tmp (\<lambda>t. t\<lparr> rxmit := SEQ_MAX (rxmit h) (start t) \<rparr>) tp)))
              else walk_holes sack cur tp)"

text \<open>The end of the list: a new hole between the last block known and this one.\<close>

definition append_hole :: "sackblk \<Rightarrow> nat \<Rightarrow> 'a tcpst_scheme \<Rightarrow> (nat \<times> 'a tcpst_scheme) option" where
  "append_hole sack cur tp =
     (if SEQ_LT (rcv_lastsack tp) (left sack) then sack_inserthole (rcv_lastsack tp) (left sack) None tp else Some (cur, tp))"

fun update_board :: "tcp_seq \<Rightarrow> sackblk list \<Rightarrow> nat \<Rightarrow> 'a tcpst_scheme \<Rightarrow> 'a tcpst_scheme option" where
  "update_board ack [] cur tp = Some tp"
| "update_board ack (sack # blks) cur tp =
     (let tp = (if SEQ_GEQ (right sack) (snd_fack tp) then tp\<lparr> snd_fack := right sack \<rparr> else tp)
      in if snd_holes tp = []
         then case sack_inserthole ack (left sack) None tp of
                None \<Rightarrow> Some tp
              | Some (cur, tp) \<Rightarrow> update_board ack blks cur (tp\<lparr> rcv_lastsack := right sack \<rparr>)
         else case walk_holes sack cur tp of
                None \<Rightarrow> None
              | Some (ret, cur, tp) \<Rightarrow>
                  if ret then Some tp
                  else case append_hole sack cur tp of
                         None \<Rightarrow> Some tp
                       | Some (cur, tp) \<Rightarrow>
                           update_board ack blks cur
                             (if SEQ_LT (rcv_lastsack tp) (right sack) then tp\<lparr> rcv_lastsack := right sack \<rparr> else tp))"

definition tcp_sack_option :: "tcphdr \<Rightarrow> (nat \<Rightarrow> 8 word) \<Rightarrow> int \<Rightarrow> 'a tcpst_scheme \<Rightarrow> 'a tcpst_scheme option" where
  "tcp_sack_option th cp optlen tp =
     (if \<not> TCP_SACK_ENABLED tp \<or> th_flags th AND TH_ACK = 0 \<or> optlen mod 8 \<noteq> 2 \<or> optlen < 10 then Some tp
      else if tcp_sack_globalmaxholes tp = 0 \<or> tcp_sack_tp_maxholes tp = 0 then Some tp
      else if SEQ_LT (th_ack th) (snd_una tp) \<or> SEQ_GT (th_ack th) (snd_max tp) then Some tp
      else let acked = (if SEQ_GT (th_ack th) (snd_una tp) then th_ack th else snd_una tp)
           in case read_blks cp acked (snd_max tp) 2 (nat (optlen div 8)) [] of
                None \<Rightarrow> None
              | Some blks \<Rightarrow> update_board (th_ack th) blks 0 tp)"

section \<open>Acknowledgements\<close>

function del_holes :: "tcp_seq \<Rightarrow> 'a tcpst_scheme \<Rightarrow> 'a tcpst_scheme" where
  "del_holes lastack tp =
     (case snd_holes tp of
        [] \<Rightarrow> tp
      | cur # _ \<Rightarrow>
          if SEQ_LEQ (hend cur) lastack then del_holes lastack (snd (sack_removehole 0 tp))
          else if SEQ_LT (start cur) lastack
          then upd_hole 0 (\<lambda>h. h\<lparr> start := lastack, rxmit := (if SEQ_LT (rxmit h) lastack then lastack else rxmit h) \<rparr>) tp
          else tp)"
  by pat_completeness auto
termination by (relation "measure (\<lambda>(_, tp). length (snd_holes tp))") (auto simp: sack_removehole_def)

declare del_holes.simps [simp del]

definition tcp_del_sackholes :: "tcphdr \<Rightarrow> 'a tcpst_scheme \<Rightarrow> 'a tcpst_scheme" where
  "tcp_del_sackholes th tp =
     (let lastack = (if SEQ_GT (th_ack th) (snd_una tp) then th_ack th else snd_una tp) in del_holes lastack tp)"

function free_holes :: "'a tcpst_scheme \<Rightarrow> 'a tcpst_scheme" where
  "free_holes tp = (if snd_holes tp = [] then tp else free_holes (snd (sack_removehole 0 tp)))"
  by pat_completeness auto
termination by (relation "measure (\<lambda>tp. length (snd_holes tp))") (auto simp: sack_removehole_def)

declare free_holes.simps [simp del]

definition tcp_free_sackholes :: "'a tcpst_scheme \<Rightarrow> 'a tcpst_scheme option" where
  "tcp_free_sackholes tp = (let tp = free_holes tp in if snd_numholes tp = 0 then Some tp else None)"

section \<open>Sending\<close>

text \<open>The hole to retransmit from, as a position in the queue, and the bytes retransmitted in the holes up to it.\<close>

fun output_holes :: "tcp_seq \<Rightarrow> sackhole list \<Rightarrow> nat \<Rightarrow> u32 \<Rightarrow> nat option \<times> u32" where
  "output_holes una [] i bytes = (None, bytes)"
| "output_holes una (cur # hs) i bytes =
     (if SEQ_LT (rxmit cur) (hend cur)
      then if SEQ_LT (rxmit cur) una then output_holes una hs (Suc i) bytes
           else (Some i, bytes + (rxmit cur - start cur))
      else output_holes una hs (Suc i) (bytes + (rxmit cur - start cur)))"

definition tcp_sack_output :: "u32 \<Rightarrow> 'a tcpst_scheme \<Rightarrow> nat option \<times> u32" where
  "tcp_sack_output sack_bytes_rexmt tp =
     (if \<not> TCP_SACK_ENABLED tp then (None, sack_bytes_rexmt) else output_holes (snd_una tp) (snd_holes tp) 0 0)"

text \<open>\<^verbatim>\<open>tcp_output\<close> is a parameter.  A segment size of 0 stops the program.\<close>

definition tcp_sack_newack ::
  "('a tcpst_scheme \<Rightarrow> 'a tcpst_scheme) \<Rightarrow> tcphdr \<Rightarrow> 'a tcpst_scheme \<Rightarrow> 'a tcpst_scheme option" where
  "tcp_sack_newack tcp_output th tp =
     (if sint (t_partialacks tp) < 0 then Some (tp\<lparr> t_dupacks := 0 \<rparr>)
      else if SEQ_LT (th_ack th) (snd_recover tp)
      then if t_segsz tp = 0 then None
           else let tp = tp\<lparr> t_partialacks := t_partialacks tp + 1, rexmt_armed := False, t_rtttime := 0 \<rparr>;
                    num_segs = (if (th_ack th - snd_una tp) div ucast (t_segsz tp) > 2 then 2 else 1);
                    sack_bytes_rxmt = snd (tcp_sack_output 0 tp);
                    tp = tp\<lparr> snd_cwnd := ucast (sack_bytes_rxmt + (snd_nxt tp - sack_newdata tp) + num_segs * ucast (t_segsz tp)),
                             t_flags := t_flags tp OR TF_ACKNOW \<rparr>
                in Some (tcp_output tp)
      else let tp = (if SEQ_SUB (snd_max tp) (th_ack th) < snd_ssthresh tp
                     then tp\<lparr> snd_cwnd := SEQ_SUB (snd_max tp) (th_ack th) + ucast (t_segsz tp) \<rparr>
                     else tp\<lparr> snd_cwnd := snd_ssthresh tp \<rparr>);
               tp = tp\<lparr> t_partialacks := -1, t_dupacks := 0 \<rparr>
           in Some (if SEQ_GT (th_ack th) (snd_fack tp) then tp\<lparr> snd_fack := th_ack th \<rparr> else tp))"

fun adjust_holes :: "tcp_seq \<Rightarrow> tcp_seq \<Rightarrow> sackhole \<Rightarrow> sackhole list \<Rightarrow> tcp_seq" where
  "adjust_holes nxt lastsack cur [] = (if SEQ_LT nxt (hend cur) then nxt else lastsack)"
| "adjust_holes nxt lastsack cur (n # hs) =
     (if SEQ_LT nxt (hend cur) then nxt
      else if SEQ_GEQ nxt (start n) then adjust_holes nxt lastsack n hs
      else start n)"

definition tcp_sack_adjust :: "'a tcpst_scheme \<Rightarrow> 'a tcpst_scheme" where
  "tcp_sack_adjust tp =
     (case snd_holes tp of
        [] \<Rightarrow> tp
      | cur # hs \<Rightarrow>
          if SEQ_GEQ (snd_nxt tp) (rcv_lastsack tp) then tp
          else tp\<lparr> snd_nxt := adjust_holes (snd_nxt tp) (rcv_lastsack tp) cur hs \<rparr>)"

definition tcp_sack_numblks :: "'a tcpst_scheme \<Rightarrow> int" where
  "tcp_sack_numblks tp =
     (if \<not> TCP_SACK_ENABLED tp then 0
      else let numblks = (if rcv_sack_flags tp AND TCPSACK_HAVED \<noteq> 0 then 1 else 0) + t_segqlen tp
           in if numblks = 0 then 0 else if numblks > TCP_SACK_MAX then TCP_SACK_MAX else numblks)"

section \<open>A segment\<close>

text \<open>What \<^verbatim>\<open>tcp_input\<close> does with the scoreboard for a segment: its SACK option if it has one, then the holes
  the acknowledgement covers, then, for an acknowledgement of new data, the first byte in flight.\<close>

definition sack_segment :: "tcphdr \<Rightarrow> ((nat \<Rightarrow> 8 word) \<times> int) option \<Rightarrow> 'a tcpst_scheme \<Rightarrow> 'a tcpst_scheme option" where
  "sack_segment th opt tp =
     (case (case opt of None \<Rightarrow> Some tp | Some (cp, optlen) \<Rightarrow> tcp_sack_option th cp optlen tp) of
        None \<Rightarrow> None
      | Some tp \<Rightarrow>
          let tp = (if TCP_SACK_ENABLED tp then tcp_del_sackholes th tp else tp)
          in Some (if th_flags th AND TH_ACK \<noteq> 0 \<and> \<not> SEQ_LEQ (th_ack th) (snd_una tp) \<and> \<not> SEQ_GT (th_ack th) (snd_max tp)
                   then let tp = tp\<lparr> snd_una := th_ack th \<rparr>;
                            tp = (if SEQ_GT (snd_una tp) (snd_fack tp) then tp\<lparr> snd_fack := snd_una tp \<rparr> else tp);
                            tp = (if SEQ_LT (snd_nxt tp) (snd_una tp) then tp\<lparr> snd_nxt := snd_una tp \<rparr> else tp)
                        in if SEQ_LT (snd_high tp) (snd_una tp) then tp\<lparr> snd_high := snd_una tp \<rparr> else tp
                   else tp))"

text \<open>The retransmission timeout gives the scoreboard up.\<close>

definition sack_timeout :: "'a tcpst_scheme \<Rightarrow> 'a tcpst_scheme option" where
  "sack_timeout tp = map_option (\<lambda>tp. tp\<lparr> snd_fack := snd_una tp \<rparr>) (tcp_free_sackholes tp)"

section \<open>Well-formed scoreboards\<close>

text \<open>Positions are seen from \<^term>\<open>A\<close>, the position of the first byte in flight.  A scoreboard from \<^term>\<open>lo\<close> to \<^term>\<open>hi\<close>: holes
  that are not empty, in order and apart, each with its retransmission mark inside.\<close>

definition hole_ok :: "int \<Rightarrow> sackhole \<Rightarrow> bool" where
  "hole_ok A h \<longleftrightarrow> near A (start h) \<and> near A (hend h) \<and> near A (rxmit h) \<and> seq_pos A (start h) < seq_pos A (hend h) \<and>
     seq_pos A (start h) \<le> seq_pos A (rxmit h) \<and> seq_pos A (rxmit h) \<le> seq_pos A (hend h)"

fun board :: "int \<Rightarrow> int \<Rightarrow> sackhole list \<Rightarrow> int \<Rightarrow> bool" where
  "board A lo [] hi \<longleftrightarrow> lo \<le> hi"
| "board A lo (h # hs) hi \<longleftrightarrow> lo \<le> seq_pos A (start h) \<and> hole_ok A h \<and> board A (seq_pos A (hend h)) hs hi"

text \<open>The positions that are missing at the peer, and those a block reports.\<close>

definition missing :: "int \<Rightarrow> sackhole list \<Rightarrow> int set" where
  "missing A hs = (\<Union>h\<in>set hs. {seq_pos A (start h) ..< seq_pos A (hend h)})"

definition blk_range :: "int \<Rightarrow> sackblk \<Rightarrow> int set" where
  "blk_range A b = {seq_pos A (left b) ..< seq_pos A (right b)}"

lemma missing_simps [simp]: "missing A [] = {}"
  "missing A (h # hs) = {seq_pos A (start h) ..< seq_pos A (hend h)} \<union> missing A hs"
  "missing A (us @ vs) = missing A us \<union> missing A vs"
  by (auto simp: missing_def)

lemma hole_ok_order: "hole_ok A h \<Longrightarrow> seq_pos A (start h) < seq_pos A (hend h)"
  by (simp add: hole_ok_def)

lemma board_le: "board A lo hs hi \<Longrightarrow> lo \<le> hi"
  by (induction hs arbitrary: lo) (force dest: hole_ok_order)+

lemma board_lo: "board A lo hs hi \<Longrightarrow> lo' \<le> lo \<Longrightarrow> board A lo' hs hi"
  by (cases hs) auto

lemma board_append: "board A lo (us @ vs) hi \<longleftrightarrow> (\<exists>m. board A lo us m \<and> board A m vs hi)"
proof (induction us arbitrary: lo)
  case Nil
  then show ?case using board_lo by auto
qed auto

lemma board_hi: "board A lo hs hi \<Longrightarrow> hi \<le> hi' \<Longrightarrow> board A lo hs hi'"
  by (induction hs arbitrary: lo) auto

lemma board_missing: "board A lo hs hi \<Longrightarrow> missing A hs \<subseteq> {lo ..< hi}"
proof (induction hs arbitrary: lo)
  case (Cons h hs)
  then show ?case using hole_ok_order [of A h] board_le [of A "seq_pos A (hend h)" hs hi] by fastforce
qed simp

text \<open>While an option is processed, the first hole may be one that ends before the acknowledgement \<^term>\<open>a\<close> it starts at: the
  first block is allowed to start before it.  It covers nothing.\<close>

definition degenerate :: "int \<Rightarrow> int \<Rightarrow> sackhole \<Rightarrow> bool" where
  "degenerate A a h \<longleftrightarrow> near A (start h) \<and> near A (hend h) \<and> seq_pos A (start h) = a \<and> seq_pos A (hend h) \<le> a"

definition option_board :: "int \<Rightarrow> int \<Rightarrow> sackhole list \<Rightarrow> int \<Rightarrow> bool" where
  "option_board A a hs hi \<longleftrightarrow> board A A hs hi \<or> (\<exists>h hs'. hs = h # hs' \<and> degenerate A a h \<and> board A a hs' hi)"

lemma option_board_split:
  assumes "option_board A a (us @ h # vs) hi" "A \<le> a"
  shows "(hole_ok A h \<and> (\<forall>ms. board A (seq_pos A (start h)) ms (seq_pos A (hend h)) \<longrightarrow> option_board A a (us @ ms @ vs) hi)) \<or>
    (us = [] \<and> degenerate A a h \<and> option_board A a vs hi)"
proof (cases "board A A (us @ h # vs) hi")
  case True
  then obtain m where m: "board A A us m" "m \<le> seq_pos A (start h)" "hole_ok A h" "board A (seq_pos A (hend h)) vs hi"
    unfolding board_append by auto
  then have "option_board A a (us @ ms @ vs) hi" if "board A (seq_pos A (start h)) ms (seq_pos A (hend h))" for ms
    using board_lo [OF that m(2)] unfolding option_board_def board_append by blast
  then show ?thesis using m(3) by blast
next
  case False
  then obtain d ds where d: "us @ h # vs = d # ds" "degenerate A a d" "board A a ds hi"
    using assms(1) by (auto simp: option_board_def)
  show ?thesis
  proof (cases us)
    case Nil
    then show ?thesis using d board_lo [OF d(3) assms(2)] by (auto simp: option_board_def)
  next
    case (Cons u us')
    then have ds: "ds = us' @ h # vs" "u = d" using d(1) by auto
    then obtain m where m: "board A a us' m" "m \<le> seq_pos A (start h)" "hole_ok A h" "board A (seq_pos A (hend h)) vs hi"
      using d(3) by (auto simp: board_append)
    then have "option_board A a (us @ ms @ vs) hi" if "board A (seq_pos A (start h)) ms (seq_pos A (hend h))" for ms
      using board_lo [OF that m(2)] d(2) Cons ds(2) unfolding option_board_def by (auto simp: board_append)
    then show ?thesis using m(3) by blast
  qed
qed

section \<open>The counters\<close>

text \<open>Only the holes and their counters change, and the counters change with the length of the queue.\<close>

definition without_holes :: "'a tcpst_scheme \<Rightarrow> 'a tcpst_scheme" where
  "without_holes tp = tp\<lparr> snd_holes := [], snd_numholes := 0, tcp_sack_globalholes := 0, sackhole_pool := 0 \<rparr>"

definition holes_only :: "'a tcpst_scheme \<Rightarrow> 'a tcpst_scheme \<Rightarrow> bool" where
  "holes_only tp tp' \<longleftrightarrow>
     without_holes tp' = without_holes tp \<and>
     snd_numholes tp' - int (length (snd_holes tp')) = snd_numholes tp - int (length (snd_holes tp)) \<and>
     tcp_sack_globalholes tp' - int (length (snd_holes tp')) = tcp_sack_globalholes tp - int (length (snd_holes tp)) \<and>
     sackhole_pool tp' + length (snd_holes tp') = sackhole_pool tp + length (snd_holes tp) \<and>
     (snd_numholes tp' \<le> snd_numholes tp \<or> snd_numholes tp' \<le> tcp_sack_tp_maxholes tp)"

lemma holes_only_refl [simp]: "holes_only tp tp" by (simp add: holes_only_def)

lemma holes_only_rest:
  assumes "holes_only tp tp'"
  shows "snd_una tp' = snd_una tp" "snd_max tp' = snd_max tp" "rcv_lastsack tp' = rcv_lastsack tp" "t_flags tp' = t_flags tp"
    "tcp_sack_tp_maxholes tp' = tcp_sack_tp_maxholes tp" "snd_fack tp' = snd_fack tp" "snd_nxt tp' = snd_nxt tp"
proof -
  have e: "without_holes tp' = without_holes tp" using assms by (simp add: holes_only_def)
  show "snd_una tp' = snd_una tp" "snd_max tp' = snd_max tp" "rcv_lastsack tp' = rcv_lastsack tp" "t_flags tp' = t_flags tp"
    "tcp_sack_tp_maxholes tp' = tcp_sack_tp_maxholes tp" "snd_fack tp' = snd_fack tp" "snd_nxt tp' = snd_nxt tp"
    using arg_cong [OF e, of snd_una] arg_cong [OF e, of snd_max] arg_cong [OF e, of rcv_lastsack] arg_cong [OF e, of t_flags]
      arg_cong [OF e, of tcp_sack_tp_maxholes] arg_cong [OF e, of snd_fack] arg_cong [OF e, of snd_nxt]
    by (simp_all add: without_holes_def)
qed

lemma holes_onlyI:
  assumes "tp' = tp\<lparr> snd_holes := hs, snd_numholes := snd_numholes tp + k, tcp_sack_globalholes := tcp_sack_globalholes tp + k,
      sackhole_pool := p \<rparr>" "int (length hs) = int (length (snd_holes tp)) + k" "int p + k = int (sackhole_pool tp)"
    "k \<le> 0 \<or> snd_numholes tp + k \<le> tcp_sack_tp_maxholes tp"
  shows "holes_only tp tp'"
  using assms(2-) unfolding holes_only_def assms(1) by (auto simp: without_holes_def)

lemma holes_only_trans: "holes_only tp tq \<Longrightarrow> holes_only tq tr \<Longrightarrow> holes_only tp tr"
proof -
  assume a: "holes_only tp tq" "holes_only tq tr"
  then show ?thesis using holes_only_rest(5) [OF a(1)] unfolding holes_only_def by auto
qed

text \<open>Entries in the middle of the queue replaced by others; how the operations do it.\<close>

lemma removehole_eq:
  "snd_holes tp = us @ h # vs \<Longrightarrow> sack_removehole (length us) tp = (length us, tp\<lparr> snd_numholes := snd_numholes tp - 1,
     tcp_sack_globalholes := tcp_sack_globalholes tp - 1, snd_holes := us @ vs, sackhole_pool := sackhole_pool tp + 1 \<rparr>)"
  by (simp add: sack_removehole_def)

lemma upd_hole_eq: "snd_holes tp = us @ h # vs \<Longrightarrow> upd_hole (length us) f tp = tp\<lparr> snd_holes := us @ f h # vs \<rparr>"
  by (simp add: upd_hole_def)

lemma split_hole_eq:
  assumes "snd_holes tp = us @ h # vs" "sack_inserthole st en (Some (length us)) tp = Some (tmp, tq)"
  shows "tmp = Suc (length us) \<and> snd_numholes tp + 1 \<le> tcp_sack_tp_maxholes tp \<and> 0 < sackhole_pool tp \<and>
    upd_hole (length us) f (upd_hole tmp g tq) =
      tp\<lparr> snd_holes := us @ [f h, g \<lparr> start = st, hend = en, rxmit = st \<rparr>] @ vs, snd_numholes := snd_numholes tp + 1,
        tcp_sack_globalholes := tcp_sack_globalholes tp + 1, sackhole_pool := sackhole_pool tp - 1 \<rparr>"
proof -
  let ?n = "\<lparr> start = st, hend = en, rxmit = st \<rparr>"
  have q: "tmp = Suc (length us)" "snd_numholes tp + 1 \<le> tcp_sack_tp_maxholes tp" "0 < sackhole_pool tp"
    "tq = tp\<lparr> snd_holes := us @ [h] @ ?n # vs, snd_numholes := snd_numholes tp + 1,
        tcp_sack_globalholes := tcp_sack_globalholes tp + 1, sackhole_pool := sackhole_pool tp - 1 \<rparr>"
    using assms by (auto simp: sack_inserthole_def sack_allochole_def Let_def split: if_splits)
  then have "upd_hole tmp g tq = tq\<lparr> snd_holes := us @ [h] @ g ?n # vs \<rparr>"
    using upd_hole_eq [of tq "us @ [h]" ?n vs g] by simp
  then show ?thesis using q upd_hole_eq [of "upd_hole tmp g tq" us h "g ?n # vs" f] by simp
qed

section \<open>One block\<close>

text \<open>A step for a block \<^term>\<open>b\<close> keeps the scoreboard in order and takes nothing off it but what the block reports.\<close>

definition board_step :: "int \<Rightarrow> int \<Rightarrow> sackblk \<Rightarrow> int \<Rightarrow> 'a tcpst_scheme \<Rightarrow> 'a tcpst_scheme \<Rightarrow> bool" where
  "board_step A a b hi tp tp' \<longleftrightarrow> holes_only tp tp' \<and> option_board A a (snd_holes tp') hi \<and>
     missing A (snd_holes tp) \<subseteq> missing A (snd_holes tp') \<union> blk_range A b \<and> missing A (snd_holes tp') \<subseteq> missing A (snd_holes tp)"

definition blk_ok :: "int \<Rightarrow> int \<Rightarrow> sackblk \<Rightarrow> bool" where
  "blk_ok A a b \<longleftrightarrow> near A (left b) \<and> near A (right b) \<and> seq_pos A (left b) < seq_pos A (right b) \<and> a < seq_pos A (right b)"

lemma board_step_refl: "option_board A a (snd_holes tp) hi \<Longrightarrow> board_step A a b hi tp tp"
  by (auto simp: board_step_def)

lemma board_stepI:
  assumes "snd_holes tp = us @ h # vs" "\<forall>ms. board A (seq_pos A (start h)) ms (seq_pos A (hend h)) \<longrightarrow> option_board A a (us @ ms @ vs) hi"
    "board A (seq_pos A (start h)) ms (seq_pos A (hend h))"
    "{seq_pos A (start h) ..< seq_pos A (hend h)} \<subseteq> missing A ms \<union> blk_range A b"
    "tp' = tp\<lparr> snd_holes := us @ ms @ vs, snd_numholes := snd_numholes tp + k, tcp_sack_globalholes := tcp_sack_globalholes tp + k,
       sackhole_pool := p \<rparr>" "int (length ms) = k + 1" "int p + k = int (sackhole_pool tp)"
    "k \<le> 0 \<or> snd_numholes tp + k \<le> tcp_sack_tp_maxholes tp"
  shows "board_step A a b hi tp tp'"
proof -
  have "holes_only tp tp'" using assms by (intro holes_onlyI [OF assms(5)]) auto
  then show ?thesis using assms board_missing [OF assms(3)] by (auto simp: board_step_def)
qed

lemma walk_holes_split:
  assumes sp: "snd_holes tp = us @ h # vs" and b: "blk_ok A a b" and ob: "option_board A a (snd_holes tp) hi"
    and ok: "hole_ok A h" "\<forall>ms. board A (seq_pos A (start h)) ms (seq_pos A (hend h)) \<longrightarrow> option_board A a (us @ ms @ vs) hi"
    and mid: "seq_pos A (start h) < seq_pos A (left b)" "seq_pos A (right b) < seq_pos A (hend h)"
  shows "\<exists>ret cur tp'. walk_holes b (length us) tp = Some (ret, cur, tp') \<and> board_step A a b hi tp tp'"
proof -
  have nr: "near A (start h)" "near A (hend h)" "near A (rxmit h)" "near A (left b)" "near A (right b)"
    and pos: "seq_pos A (left b) < seq_pos A (right b)" "seq_pos A (start h) \<le> seq_pos A (rxmit h)" "seq_pos A (rxmit h) \<le> seq_pos A (hend h)"
    using ok(1) b by (auto simp: hole_ok_def blk_ok_def)
  note cmp = seq_compare [OF nr(5,1)] seq_compare [OF nr(4,2)] seq_compare [OF nr(4,1)] seq_compare [OF nr(5,2)]
    seq_compare [OF nr(1,4)] seq_compare [OF nr(2,5)] seq_extrema [OF nr(3,5)] seq_extrema [OF nr(3,4)]
  let ?f = "\<lambda>h. h\<lparr> hend := left b, rxmit := SEQ_MIN (rxmit h) (left b) \<rparr>"
  let ?g = "\<lambda>t. t\<lparr> rxmit := SEQ_MAX (rxmit h) (start t) \<rparr>"
  have walk: "walk_holes b (length us) tp = (case sack_inserthole (right b) (hend h) (Some (length us)) tp of None \<Rightarrow> Some (True, length us, tp)
      | Some (tmp, tq) \<Rightarrow> Some (False, tmp, upd_hole (length us) ?f (upd_hole tmp ?g tq)))"
    using mid pos sp by (subst walk_holes.simps) (simp add: cmp)
  show ?thesis
  proof (cases "sack_inserthole (right b) (hend h) (Some (length us)) tp")
    case (Some x)
    then obtain tmp tq where x: "sack_inserthole (right b) (hend h) (Some (length us)) tp = Some (tmp, tq)" by (cases x) auto
    note q = split_hole_eq [OF sp x, of ?f ?g]
    have "board A (seq_pos A (start h)) [?f h, ?g \<lparr> start = right b, hend = hend h, rxmit = right b \<rparr>] (seq_pos A (hend h))"
      using mid nr pos by (auto simp: hole_ok_def cmp)
    then have "board_step A a b hi tp (upd_hole (length us) ?f (upd_hole tmp ?g tq))"
      by (rule board_stepI [OF sp ok(2), where k = 1]) (use q mid in \<open>auto simp: blk_range_def\<close>)
    then show ?thesis using walk x by auto
  qed (use walk board_step_refl [OF ob] in auto)
qed

lemma walk_holes_here:
  assumes sp: "snd_holes tp = us @ h # vs" and ob: "option_board A a (snd_holes tp) hi" and b: "blk_ok A a b"
    and ok: "hole_ok A h" "\<forall>ms. board A (seq_pos A (start h)) ms (seq_pos A (hend h)) \<longrightarrow> option_board A a (us @ ms @ vs) hi"
    and hit: "seq_pos A (start h) < seq_pos A (right b)" "seq_pos A (left b) < seq_pos A (hend h)"
  shows "\<exists>ret cur tp'. walk_holes b (length us) tp = Some (ret, cur, tp') \<and> board_step A a b hi tp tp'"
proof -
  have nr: "near A (start h)" "near A (hend h)" "near A (rxmit h)" "near A (left b)" "near A (right b)"
    and pos: "seq_pos A (left b) < seq_pos A (right b)" "seq_pos A (start h) \<le> seq_pos A (rxmit h)"
      "seq_pos A (rxmit h) \<le> seq_pos A (hend h)" "seq_pos A (start h) < seq_pos A (hend h)"
    using ok(1) b by (auto simp: hole_ok_def blk_ok_def)
  note cmp = seq_compare [OF nr(5,1)] seq_compare [OF nr(4,2)] seq_compare [OF nr(4,1)] seq_compare [OF nr(5,2)]
    seq_compare [OF nr(1,4)] seq_compare [OF nr(2,5)] seq_extrema [OF nr(3,5)] seq_extrema [OF nr(3,4)]
  note step = board_stepI [OF sp ok(2)]
  have walk: "walk_holes b (length us) tp = Some r \<Longrightarrow> board_step A a b hi tp (snd (snd r)) \<Longrightarrow> ?thesis" for r by (cases r) auto
  show ?thesis
  proof (cases "seq_pos A (left b) \<le> seq_pos A (start h)"; cases "seq_pos A (hend h) \<le> seq_pos A (right b)")
    assume c: "seq_pos A (left b) \<le> seq_pos A (start h)" "seq_pos A (hend h) \<le> seq_pos A (right b)"
    then show ?thesis using sp hit pos
      by (intro walk [of "(False, sack_removehole (length us) tp)"] step [where ms = "[]" and k = "-1" and p = "sackhole_pool tp + 1"])
        (auto simp: walk_holes.simps [of b "length us" tp] cmp removehole_eq blk_range_def)
  next
    assume c: "seq_pos A (left b) \<le> seq_pos A (start h)" "\<not> seq_pos A (hend h) \<le> seq_pos A (right b)"
    let ?f = "\<lambda>h. h\<lparr> start := right b, rxmit := SEQ_MAX (rxmit h) (right b) \<rparr>"
    show ?thesis using c sp hit pos nr
      by (intro walk [of "(False, length us, upd_hole (length us) ?f tp)"] step [where ms = "[?f h]" and k = 0 and p = "sackhole_pool tp"])
        (auto simp: walk_holes.simps [of b "length us" tp] cmp upd_hole_eq blk_range_def hole_ok_def)
  next
    assume c: "\<not> seq_pos A (left b) \<le> seq_pos A (start h)" "seq_pos A (hend h) \<le> seq_pos A (right b)"
    let ?f = "\<lambda>h. h\<lparr> hend := left b, rxmit := SEQ_MIN (rxmit h) (left b) \<rparr>"
    show ?thesis using c sp hit pos nr
      by (intro walk [of "(False, Suc (length us), upd_hole (length us) ?f tp)"] step [where ms = "[?f h]" and k = 0 and p = "sackhole_pool tp"])
        (auto simp: walk_holes.simps [of b "length us" tp] cmp upd_hole_eq blk_range_def hole_ok_def)
  qed (use walk_holes_split [OF sp b ob ok] in simp)
qed

lemma walk_holes_ok:
  assumes "option_board A a (snd_holes tp) hi" "A \<le> a" "blk_ok A a b"
  shows "\<exists>ret cur' tp'. walk_holes b cur tp = Some (ret, cur', tp') \<and> board_step A a b hi tp tp'"
proof (induction "length (snd_holes tp) - cur" arbitrary: cur)
  case 0
  then show ?case using board_step_refl [OF assms(1)] by (subst walk_holes.simps) auto
next
  case (Suc n)
  define us h vs where "us = take cur (snd_holes tp)" and "h = snd_holes tp ! cur" and "vs = drop (Suc cur) (snd_holes tp)"
  have c: "cur < length (snd_holes tp)" using Suc.hyps(2) by simp
  then have sp: "snd_holes tp = us @ h # vs" and l: "length us = cur" by (simp_all add: us_def h_def vs_def id_take_nth_drop)
  have b: "near A (left b)" "near A (right b)" "seq_pos A (left b) < seq_pos A (right b)" "a < seq_pos A (right b)"
    using assms(3) by (auto simp: blk_ok_def)
  have next_hole: ?case if "SEQ_GEQ (left b) (hend h)" "\<not> SEQ_LEQ (right b) (start h)"
    using that Suc.hyps(1) [of "Suc cur"] Suc.hyps(2) c by (subst walk_holes.simps) (auto simp: h_def)
  have stop: ?case if "SEQ_LEQ (right b) (start h)"
    using that c board_step_refl [OF assms(1)] by (subst walk_holes.simps) (auto simp: h_def)
  from option_board_split [OF assms(1) [unfolded sp] assms(2)] show ?case
  proof
    assume ok: "hole_ok A h \<and> (\<forall>ms. board A (seq_pos A (start h)) ms (seq_pos A (hend h)) \<longrightarrow> option_board A a (us @ ms @ vs) hi)"
    then have "near A (start h)" "near A (hend h)" by (simp_all add: hole_ok_def)
    then show ?case
      using walk_holes_here [OF sp assms(1,3) ok [THEN conjunct1] ok [THEN conjunct2]] next_hole stop b l
      by (cases "SEQ_LEQ (right b) (start h)"; cases "SEQ_GEQ (left b) (hend h)") (auto simp: seq_compare)
  next
    assume d: "us = [] \<and> degenerate A a h \<and> option_board A a vs hi"
    then have n: "near A (start h)" "near A (hend h)" "seq_pos A (start h) = a" "seq_pos A (hend h) \<le> a" by (simp_all add: degenerate_def)
    let ?t = "snd (sack_removehole cur tp)"
    have t: "?t = tp\<lparr> snd_numholes := snd_numholes tp - 1, tcp_sack_globalholes := tcp_sack_globalholes tp - 1, snd_holes := vs,
        sackhole_pool := sackhole_pool tp + 1 \<rparr>" using removehole_eq [OF sp] d l by simp
    have "holes_only tp ?t" using sp d by (intro holes_onlyI [where hs = vs and k = "-1" and p = "sackhole_pool tp + 1"]) (auto simp: t)
    then have "board_step A a b hi tp ?t" using d sp n by (auto simp: board_step_def t)
    moreover have "walk_holes b cur tp = Some (False, sack_removehole cur tp)" if "\<not> SEQ_GEQ (left b) (hend h)"
      using that c b n by (subst walk_holes.simps) (auto simp: h_def [symmetric] seq_compare)
    ultimately show ?case using next_hole b n by (cases "SEQ_GEQ (left b) (hend h)") (auto simp: seq_compare sack_removehole_def)
  qed
qed

section \<open>A whole option\<close>

text \<open>The last block known changes too, and the foremost byte received.\<close>

definition board_only :: "'a tcpst_scheme \<Rightarrow> 'a tcpst_scheme \<Rightarrow> bool" where
  "board_only tp tp' \<longleftrightarrow> holes_only (tp\<lparr> snd_fack := 0, rcv_lastsack := 0 \<rparr>) (tp'\<lparr> snd_fack := 0, rcv_lastsack := 0 \<rparr>)"

lemma board_only_trans: "board_only tp tq \<Longrightarrow> board_only tq tr \<Longrightarrow> board_only tp tr"
  unfolding board_only_def by (rule holes_only_trans)

lemma board_only_refl [simp]: "board_only tp tp" by (simp add: board_only_def)

lemma board_only_fields [simp]: "board_only tp (tp\<lparr> snd_fack := f \<rparr>)" "board_only tp (tp\<lparr> rcv_lastsack := l \<rparr>)"
  by (simp_all add: board_only_def)

lemma board_only_holes: "holes_only tp tp' \<Longrightarrow> board_only tp tp'"
proof -
  assume h: "holes_only tp tp'"
  have c: "without_holes (t\<lparr> snd_fack := 0, rcv_lastsack := 0 \<rparr>) = (without_holes t)\<lparr> snd_fack := 0, rcv_lastsack := 0 \<rparr>" for t :: "'a tcpst_scheme"
    by (simp add: without_holes_def)
  from h show ?thesis unfolding board_only_def holes_only_def c by simp
qed

lemma board_only_rest:
  assumes "board_only tp tp'"
  shows "snd_una tp' = snd_una tp" "snd_max tp' = snd_max tp" "t_flags tp' = t_flags tp"
    "tcp_sack_tp_maxholes tp' = tcp_sack_tp_maxholes tp" "snd_nxt tp' = snd_nxt tp"
    "snd_numholes tp' - int (length (snd_holes tp')) = snd_numholes tp - int (length (snd_holes tp))"
    "snd_numholes tp' \<le> snd_numholes tp \<or> snd_numholes tp' \<le> tcp_sack_tp_maxholes tp"
    "sackhole_pool tp' + length (snd_holes tp') = sackhole_pool tp + length (snd_holes tp)"
    "tcp_sack_globalholes tp' - int (length (snd_holes tp')) = tcp_sack_globalholes tp - int (length (snd_holes tp))"
  using assms holes_only_rest [OF assms [unfolded board_only_def]] by (auto simp: board_only_def holes_only_def)

text \<open>The scoreboard from the position \<^term>\<open>a\<close> on: what it does not list as missing, up to the last block known, is in \<^term>\<open>R\<close>.\<close>

definition scored :: "int \<Rightarrow> int \<Rightarrow> int set \<Rightarrow> 'a tcpst_scheme \<Rightarrow> bool" where
  "scored A a R tp \<longleftrightarrow> (snd_holes tp \<noteq> [] \<longrightarrow>
     near A (rcv_lastsack tp) \<and> seq_pos A (rcv_lastsack tp) \<le> seq_pos A (snd_max tp) \<and>
     option_board A a (snd_holes tp) (seq_pos A (rcv_lastsack tp)) \<and>
     {a ..< seq_pos A (rcv_lastsack tp)} \<subseteq> missing A (snd_holes tp) \<union> R)"

lemma scored_mono: "scored A a R tp \<Longrightarrow> R \<subseteq> R' \<Longrightarrow> scored A a R' tp"
  by (auto simp: scored_def)

lemma inserthole_tail:
  assumes "sack_inserthole st en None tp = Some (cur, tq)"
  shows "snd_holes tq = snd_holes tp @ [\<lparr> start = st, hend = en, rxmit = st \<rparr>] \<and> holes_only tp tq"
proof -
  let ?n = "\<lparr> start = st, hend = en, rxmit = st \<rparr>"
  have t: "snd_numholes tp + 1 \<le> tcp_sack_tp_maxholes tp" "0 < sackhole_pool tp"
    "tq = tp\<lparr> snd_holes := snd_holes tp @ [?n], snd_numholes := snd_numholes tp + 1,
        tcp_sack_globalholes := tcp_sack_globalholes tp + 1, sackhole_pool := sackhole_pool tp - 1 \<rparr>"
    using assms by (auto simp: sack_inserthole_def sack_allochole_def Let_def split: if_splits)
  then have "holes_only tp tq" by (intro holes_onlyI [OF t(3)]) auto
  then show ?thesis using t(3) by simp
qed

lemma option_board_snoc:
  assumes "option_board A a hs hi" "hole_ok A n" "hi \<le> seq_pos A (start n)"
  shows "option_board A a (hs @ [n]) (seq_pos A (hend n))"
proof -
  have "board A m [n] (seq_pos A (hend n))" if "m \<le> hi" for m using that assms(2,3) by simp
  then have "board A lo us hi \<Longrightarrow> board A lo (us @ [n]) (seq_pos A (hend n))" for lo us unfolding board_append by blast
  then show ?thesis using assms(1) unfolding option_board_def by auto
qed

lemma option_board_hi: "option_board A a hs hi \<Longrightarrow> hi \<le> hi' \<Longrightarrow> option_board A a hs hi'"
  using board_hi unfolding option_board_def by blast

lemma first_hole_scored:
  assumes "snd_holes tp = []" "sack_inserthole ack (left b) None tp = Some (cur, tq)" "blk_ok A a b"
    "seq_pos A (right b) \<le> seq_pos A (snd_max tp)" "near A ack" "seq_pos A ack = a" "A \<le> a"
  shows "scored A a (R \<union> blk_range A b) (tq\<lparr> rcv_lastsack := right b \<rparr>)"
proof -
  let ?n = "\<lparr> start = ack, hend = left b, rxmit = ack \<rparr>"
  have q: "snd_holes tq = [?n]" "snd_max tq = snd_max tp"
    using inserthole_tail [OF assms(2)] assms(1) holes_only_rest(2) [of tp tq] by auto
  have b: "near A (left b)" "near A (right b)" "seq_pos A (left b) < seq_pos A (right b)" "a < seq_pos A (right b)"
    using assms(3) by (auto simp: blk_ok_def)
  have "option_board A a [?n] (seq_pos A (right b))"
  proof (cases "a < seq_pos A (left b)")
    case True
    then show ?thesis using assms b by (auto simp: option_board_def hole_ok_def)
  next
    case False
    then show ?thesis using assms b by (auto simp: option_board_def degenerate_def)
  qed
  then show ?thesis using q b assms(4,6) by (auto simp: scored_def blk_range_def)
qed

lemma append_hole_scored:
  assumes "scored A a R tp" "snd_holes tp \<noteq> []" "board_step A a b (seq_pos A (rcv_lastsack tp)) tp tq" "append_hole b cur tq = Some (cur', tr)"
    "blk_ok A a b" "seq_pos A (right b) \<le> seq_pos A (snd_max tp)"
  shows "board_only tp tr \<and> scored A a (R \<union> blk_range A b) (if SEQ_LT (rcv_lastsack tr) (right b) then tr\<lparr> rcv_lastsack := right b \<rparr> else tr)"
proof -
  have q: "holes_only tp tq" "option_board A a (snd_holes tq) (seq_pos A (rcv_lastsack tp))"
    "missing A (snd_holes tp) \<subseteq> missing A (snd_holes tq) \<union> blk_range A b"
    using assms(3) by (auto simp: board_step_def)
  have b: "near A (left b)" "near A (right b)" "seq_pos A (left b) < seq_pos A (right b)" using assms(5) by (auto simp: blk_ok_def)
  have s: "near A (rcv_lastsack tp)" "seq_pos A (rcv_lastsack tp) \<le> seq_pos A (snd_max tp)"
    "{a ..< seq_pos A (rcv_lastsack tp)} \<subseteq> missing A (snd_holes tp) \<union> R" using assms(1,2) by (auto simp: scored_def)
  show ?thesis
  proof (cases "SEQ_LT (rcv_lastsack tq) (left b)")
    case True
    let ?n = "\<lparr> start = rcv_lastsack tp, hend = left b, rxmit = rcv_lastsack tp \<rparr>"
    have r: "snd_holes tr = snd_holes tq @ [?n]" "holes_only tp tr"
      using True assms(4) inserthole_tail [of "rcv_lastsack tq" "left b" tq cur' tr] holes_only_rest [OF q(1)] holes_only_trans [OF q(1)]
      by (auto simp: append_hole_def)
    have l: "seq_pos A (rcv_lastsack tp) < seq_pos A (left b)" using True holes_only_rest [OF q(1)] s b by (simp add: seq_compare)
    then have "option_board A a (snd_holes tr) (seq_pos A (left b))"
      using option_board_snoc [OF q(2), of ?n] s b r by (simp add: hole_ok_def)
    then have "option_board A a (snd_holes tr) (seq_pos A (right b))" using b by (auto elim: option_board_hi)
    then show ?thesis using r l s q(3) b assms(6) holes_only_rest [OF r(2)] board_only_holes [OF r(2)]
      by (auto simp: scored_def seq_compare blk_range_def subset_iff)
  next
    case False
    then have r: "tr = tq" using assms(4) by (simp add: append_hole_def)
    have l: "seq_pos A (left b) \<le> seq_pos A (rcv_lastsack tp)" using False holes_only_rest [OF q(1)] s b by (simp add: seq_compare)
    show ?thesis using r l s q b assms(6) holes_only_rest [OF q(1)] board_only_holes [OF q(1)] option_board_hi [OF q(2), of "seq_pos A (right b)"]
      by (auto simp: scored_def seq_compare blk_range_def subset_iff)
  qed
qed

text \<open>One block: the loop either returns or goes on with the next block, in both cases with a scoreboard that is right.\<close>

lemma update_board_block:
  assumes b: "blk_ok A a b" "seq_pos A (right b) \<le> seq_pos A (snd_max tp)" and "scored A a R tp" and ack: "near A ack" "seq_pos A ack = a" "A \<le> a"
  shows "\<exists>tg. board_only tp tg \<and> scored A a (R \<union> blk_range A b) tg \<and>
    (update_board ack (b # blks) cur tp = Some tg \<or> (\<exists>c. update_board ack (b # blks) cur tp = update_board ack blks c tg))"
proof -
  define tf where "tf = (if SEQ_GEQ (right b) (snd_fack tp) then tp\<lparr> snd_fack := right b \<rparr> else tp)"
  have f: "board_only tp tf" "scored A a R tf" "snd_max tf = snd_max tp"
    using assms(3) by (auto simp: tf_def scored_def)
  note upd = update_board.simps(2) [of ack b blks cur tp, folded tf_def, unfolded Let_def]
  have only: "board_only tf tg \<Longrightarrow> board_only tp tg" "board_only tf tg \<Longrightarrow> board_only tp (tg\<lparr> rcv_lastsack := l \<rparr>)" for tg l
    by (blast intro: board_only_trans f(1) board_only_fields)+
  have b': "seq_pos A (right b) \<le> seq_pos A (snd_max tf)" using b(2) f(3) by simp
  have stop: "scored A a (R \<union> blk_range A b) tf" using f(2) by (auto elim: scored_mono)
  show ?thesis
  proof (cases "snd_holes tf = []")
    case True
    show ?thesis
    proof (cases "sack_inserthole ack (left b) None tf")
      case None
      then show ?thesis using True stop f(1) unfolding upd by auto
    next
      case (Some x)
      then obtain c tg where x: "sack_inserthole ack (left b) None tf = Some (c, tg)" by (cases x) auto
      then show ?thesis using True first_hole_scored [OF True x b(1) b' ack] inserthole_tail [OF x] board_only_holes [of tf tg] only
        unfolding upd by (intro exI [of _ "tg\<lparr> rcv_lastsack := right b \<rparr>"]) auto
    qed
  next
    case False
    then have "option_board A a (snd_holes tf) (seq_pos A (rcv_lastsack tf))" using f(2) by (simp add: scored_def)
    from walk_holes_ok [OF this ack(3) b(1), of cur] obtain ret c tw where
      w: "walk_holes b cur tf = Some (ret, c, tw)" "board_step A a b (seq_pos A (rcv_lastsack tf)) tf tw" by blast
    have s: "board_only tp tw" "scored A a (R \<union> blk_range A b) tw"
      using w(2) f(2) False holes_only_rest [of tf tw] board_only_holes [of tf tw] only(1) by (auto simp: board_step_def scored_def)
    show ?thesis
    proof (cases "ret \<or> append_hole b c tw = None")
      case no: False
      then obtain c' tr where r: "append_hole b c tw = Some (c', tr)" "\<not> ret" by auto
      let ?tg = "if SEQ_LT (rcv_lastsack tr) (right b) then tr\<lparr> rcv_lastsack := right b \<rparr> else tr"
      show ?thesis using append_hole_scored [OF f(2) False w(2) r(1) b(1) b'] False w(1) r only
        unfolding upd by (intro exI [of _ ?tg]) auto
    qed (use False w(1) s upd in auto)
  qed
qed

lemma update_board_ok:
  assumes "\<forall>b\<in>set blks. blk_ok A a b \<and> seq_pos A (right b) \<le> seq_pos A (snd_max tp)" "scored A a R tp"
    "near A ack" "seq_pos A ack = a" "A \<le> a"
  shows "\<exists>tp'. update_board ack blks cur tp = Some tp' \<and> board_only tp tp' \<and> scored A a (R \<union> \<Union> (blk_range A ` set blks)) tp'"
  using assms(1,2)
proof (induction blks arbitrary: cur tp R)
  case (Cons b blks)
  have b: "blk_ok A a b" "seq_pos A (right b) \<le> seq_pos A (snd_max tp)" using Cons.prems(1) by auto
  from update_board_block [OF b Cons.prems(2) assms(3-5), of blks cur] obtain tg where g: "board_only tp tg" "scored A a (R \<union> blk_range A b) tg"
    and u: "update_board ack (b # blks) cur tp = Some tg \<or> (\<exists>c. update_board ack (b # blks) cur tp = update_board ack blks c tg)" by blast
  from u show ?case
  proof
    assume "update_board ack (b # blks) cur tp = Some tg"
    then show ?case using g scored_mono [OF g(2)] by auto
  next
    assume "\<exists>c. update_board ack (b # blks) cur tp = update_board ack blks c tg"
    then obtain c where c: "update_board ack (b # blks) cur tp = update_board ack blks c tg" ..
    have "\<forall>b\<in>set blks. blk_ok A a b \<and> seq_pos A (right b) \<le> seq_pos A (snd_max tg)"
      using Cons.prems(1) board_only_rest(2) [OF g(1)] by auto
    from Cons.IH [OF this g(2), of c] show ?case using board_only_trans [OF g(1)] c by (auto simp: Un_assoc)
  qed
qed simp

text \<open>The blocks an option carries, and those of them that the code does not reject.\<close>

definition option_blks :: "(nat \<Rightarrow> 8 word) \<Rightarrow> nat \<Rightarrow> nat \<Rightarrow> sackblk list" where
  "option_blks cp lp n = map (\<lambda>i. \<lparr> left = ntohl_at cp (lp + 8 * i), right = ntohl_at cp (lp + 8 * i + 4) \<rparr>) [0 ..< n]"

definition accepted :: "tcp_seq \<Rightarrow> tcp_seq \<Rightarrow> sackblk \<Rightarrow> bool" where
  "accepted acked mx b \<longleftrightarrow> \<not> SEQ_LEQ (right b) acked \<and> \<not> SEQ_GT (right b) mx \<and> \<not> SEQ_GEQ (left b) (right b)"

lemma option_blks_Suc: "option_blks cp lp (Suc n) = \<lparr> left = ntohl_at cp lp, right = ntohl_at cp (lp + 4) \<rparr> # option_blks cp (lp + 8) n"
proof -
  have "[0 ..< Suc n] = 0 # map Suc [0 ..< n]" by (simp add: upt_conv_Cons map_Suc_upt del: upt_Suc)
  then show ?thesis by (simp add: option_blks_def o_def algebra_simps)
qed

lemma insert_blk_set: "set (insert_blk b xs) = insert b (set xs)" "length (insert_blk b xs) = Suc (length xs)"
  by (induction xs) auto

lemma read_blks_spec:
  "length blks + n \<le> 4 \<Longrightarrow>
   \<exists>out. read_blks cp acked mx lp n blks = Some out \<and> set out = set blks \<union> {b \<in> set (option_blks cp lp n). accepted acked mx b}"
proof (induction n arbitrary: lp blks)
  case (Suc n)
  let ?b = "\<lparr> left = ntohl_at cp lp, right = ntohl_at cp (lp + 4) \<rparr>"
  show ?case
  proof (cases "accepted acked mx ?b")
    case True
    then show ?thesis using Suc.IH [of "rev (insert_blk ?b (rev blks))" "lp + 8"] Suc.prems
      by (auto simp: accepted_def option_blks_Suc insert_blk_set Let_def)
  next
    case False
    then show ?thesis using Suc.IH [of blks "lp + 8"] Suc.prems by (auto simp: accepted_def option_blks_Suc Let_def)
  qed
qed (simp add: option_blks_def)

lemma accepted_near:
  assumes "near A acked" "near A mx" "A \<le> seq_pos A acked" "seq_pos A acked \<le> seq_pos A mx" "accepted acked mx b"
  shows "near A (right b) \<and> seq_pos A acked < seq_pos A (right b) \<and> seq_pos A (right b) \<le> seq_pos A mx"
proof -
  let ?d = "sint (right b - acked)" and ?m = "seq_pos A mx - seq_pos A acked"
  have d: "0 < ?d" "?d < 2 ^ 31" using assms(5) sint_range_size [of "right b - acked"]
    by (auto simp: accepted_def SEQ_LEQ_def word_size)
  have m: "sint (mx - acked) = ?m" "?m < 2 ^ 30" using sint_diff_near [OF assms(2,1)] assms(2,3) by (auto simp: near_iff)
  have "right b - mx = (right b - acked) - (mx - acked)" by simp
  then have "sint (right b - mx) = signed_take_bit 31 (?d - ?m)" using m(1) by (simp only: sint_word_ariths) simp
  also have "\<dots> = ?d - ?m" using d m(2) assms(4) by (intro signed_take_bit_int_eq_self) auto
  finally have le: "?d \<le> ?m" using assms(5) by (auto simp: accepted_def SEQ_GT_def)
  have "of_int (seq_pos A acked + ?d) = right b" by (simp add: of_int_seq_pos)
  then have "seq_pos A (right b) = seq_pos A acked + ?d"
    by (rule seq_pos_unique) (use assms(1-4) d le in \<open>auto simp: near_iff\<close>)
  then show ?thesis using d le assms by (auto simp: near_iff)
qed

text \<open>Between two segments: the scoreboard starts at the first byte in flight.\<close>

definition stable :: "int \<Rightarrow> int set \<Rightarrow> 'a tcpst_scheme \<Rightarrow> bool" where
  "stable A R tp \<longleftrightarrow> (snd_holes tp \<noteq> [] \<longrightarrow>
     near A (rcv_lastsack tp) \<and> seq_pos A (rcv_lastsack tp) \<le> seq_pos A (snd_max tp) \<and>
     board A A (snd_holes tp) (seq_pos A (rcv_lastsack tp)) \<and>
     {A ..< seq_pos A (rcv_lastsack tp)} \<subseteq> missing A (snd_holes tp) \<union> R)"

lemma stable_scored: "stable A R tp \<Longrightarrow> A \<le> a \<Longrightarrow> scored A a R tp"
  by (auto simp: stable_def scored_def option_board_def subset_iff)

text \<open>What the peer reports in a segment.  The blocks lie within a window of the first byte in flight, and the
  option is no longer than the options of a header can be.\<close>

definition seg_blks :: "((nat \<Rightarrow> 8 word) \<times> int) option \<Rightarrow> sackblk list" where
  "seg_blks opt = (case opt of None \<Rightarrow> [] | Some (cp, optlen) \<Rightarrow> option_blks cp 2 (nat (optlen div 8)))"

definition reported :: "int \<Rightarrow> ((nat \<Rightarrow> 8 word) \<times> int) option \<Rightarrow> int set" where
  "reported A opt = \<Union> (blk_range A ` set (seg_blks opt))"

definition seg_ok :: "int \<Rightarrow> tcphdr \<Rightarrow> ((nat \<Rightarrow> 8 word) \<times> int) option \<Rightarrow> bool" where
  "seg_ok A th opt \<longleftrightarrow> near A (th_ack th) \<and> th_flags th AND TH_ACK \<noteq> 0 \<and> (\<forall>b\<in>set (seg_blks opt). near A (left b)) \<and>
     (case opt of None \<Rightarrow> True | Some (cp, optlen) \<Rightarrow> optlen \<le> 40 - 2)"

definition in_flight :: "int \<Rightarrow> 'a tcpst_scheme \<Rightarrow> bool" where
  "in_flight A tp \<longleftrightarrow> snd_una tp = of_int A \<and> near A (snd_max tp) \<and> A \<le> seq_pos A (snd_max tp)"

lemma tcp_sack_option_ok:
  assumes "in_flight A tp" "stable A R tp" "seg_ok A th (Some (cp, optlen))"
  shows "\<exists>tp'. tcp_sack_option th cp optlen tp = Some tp' \<and> board_only tp tp' \<and>
    scored A (max A (seq_pos A (th_ack th))) (R \<union> reported A (Some (cp, optlen))) tp'"
proof -
  let ?a = "max A (seq_pos A (th_ack th))"
  have una: "snd_una tp = of_int A" and mx: "near A (snd_max tp)" "A \<le> seq_pos A (snd_max tp)" using assms(1) by (auto simp: in_flight_def)
  have ack: "near A (th_ack th)" and ol: "nat (optlen div 8) \<le> 4" and lf: "\<forall>b\<in>set (option_blks cp 2 (nat (optlen div 8))). near A (left b)"
    using assms(3) by (auto simp: seg_ok_def seg_blks_def)
  have sc: "scored A ?a R tp" using stable_scored [OF assms(2)] by simp
  show ?thesis
  proof (cases "tcp_sack_option th cp optlen tp = Some tp")
    case True
    then show ?thesis using scored_mono [OF sc] by (intro exI [of _ tp]) auto
  next
    case False
    define acked where "acked = (if SEQ_GT (th_ack th) (snd_una tp) then th_ack th else snd_una tp)"
    from False have w: "\<not> SEQ_LT (th_ack th) (snd_una tp)" "\<not> SEQ_GT (th_ack th) (snd_max tp)"
      and opt: "tcp_sack_option th cp optlen tp = (case read_blks cp acked (snd_max tp) 2 (nat (optlen div 8)) [] of None \<Rightarrow> None
        | Some blks \<Rightarrow> update_board (th_ack th) blks 0 tp)"
      by (auto simp: tcp_sack_option_def acked_def Let_def split: if_splits)
    note cmp = seq_compare [OF ack seq_pos_self(2)] seq_compare [OF ack mx(1)]
    have a: "seq_pos A (th_ack th) = ?a" "?a \<le> seq_pos A (snd_max tp)" using w mx(2) by (auto simp: una cmp)
    have "acked = of_int ?a" using a(1) of_int_seq_pos [of A "th_ack th"] by (auto simp: acked_def una cmp)
    then have "acked = th_ack th" using a(1) of_int_seq_pos [of A "th_ack th"] by simp
    note a = a this
    obtain blks where r: "read_blks cp acked (snd_max tp) 2 (nat (optlen div 8)) [] = Some blks"
      "set blks = {b \<in> set (option_blks cp 2 (nat (optlen div 8))). accepted acked (snd_max tp) b}"
      using read_blks_spec [of "[]" "nat (optlen div 8)" cp acked "snd_max tp" 2] ol by auto
    have "blk_ok A ?a b \<and> seq_pos A (right b) \<le> seq_pos A (snd_max tp)" if b: "b \<in> set blks" for b
      using accepted_near [of A acked "snd_max tp" b] that r(2) lf a ack mx seq_compare(4) [of A "left b" "right b"]
      by (auto simp: blk_ok_def accepted_def)
    then obtain tp' where
      u: "update_board (th_ack th) blks 0 tp = Some tp'" "board_only tp tp'" "scored A ?a (R \<union> \<Union> (blk_range A ` set blks)) tp'"
      using update_board_ok [OF _ sc ack a(1), of blks 0] by auto
    have "\<Union> (blk_range A ` set blks) \<subseteq> reported A (Some (cp, optlen))" using r(2) by (auto simp: reported_def seg_blks_def)
    then have "scored A ?a (R \<union> reported A (Some (cp, optlen))) tp'"
      by (rule scored_mono [OF u(3) Un_mono [OF order_refl]])
    then show ?thesis using opt r(1) u by auto
  qed
qed

section \<open>Segments\<close>

text \<open>The cumulative acknowledgement: what remains starts at it, and nothing behind it gets lost.\<close>

lemma del_holes_ok:
  assumes "near A ack" "board A lo (snd_holes tp) hi"
  shows "holes_only tp (del_holes ack tp) \<and>
    (snd_holes (del_holes ack tp) \<noteq> [] \<longrightarrow> board A (seq_pos A ack) (snd_holes (del_holes ack tp)) hi) \<and>
    missing A (snd_holes tp) \<inter> {seq_pos A ack ..} \<subseteq> missing A (snd_holes (del_holes ack tp))"
  using assms(2)
proof (induction "length (snd_holes tp)" arbitrary: tp lo)
  case 0
  then show ?case by (simp add: del_holes.simps)
next
  case (Suc n)
  then obtain h hs where hs: "snd_holes tp = h # hs" by (cases "snd_holes tp") auto
  have ok: "near A (start h)" "near A (hend h)" "near A (rxmit h)" "hole_ok A h" "board A (seq_pos A (hend h)) hs hi"
    using Suc.prems hs by (auto simp: hole_ok_def)
  note cmp = seq_compare [OF ok(2) assms(1)] seq_compare [OF ok(1) assms(1)] seq_compare [OF ok(3) assms(1)]
  show ?case
  proof (cases "SEQ_LEQ (hend h) ack")
    case True
    let ?t = "snd (sack_removehole 0 tp)"
    have t: "snd_holes ?t = hs" "holes_only tp ?t"
      using hs by (auto simp: sack_removehole_def intro!: holes_onlyI [where hs = hs and k = "-1" and p = "sackhole_pool tp + 1"])
    have "del_holes ack tp = del_holes ack ?t" using True hs by (subst del_holes.simps) simp
    then show ?thesis using Suc.hyps(1) [of ?t] Suc.hyps(2) t ok True holes_only_trans [OF t(2)] hs by (auto simp: cmp)
  next
    case False
    show ?thesis
    proof (cases "SEQ_LT (start h) ack")
      case True
      let ?h = "h\<lparr> start := ack, rxmit := (if SEQ_LT (rxmit h) ack then ack else rxmit h) \<rparr>"
      have d: "del_holes ack tp = tp\<lparr> snd_holes := ?h # hs \<rparr>"
        using True False hs by (subst del_holes.simps) (simp add: upd_hole_def)
      have "holes_only tp (tp\<lparr> snd_holes := ?h # hs \<rparr>)"
        using hs by (intro holes_onlyI [where hs = "?h # hs" and k = 0 and p = "sackhole_pool tp"]) simp_all
      then show ?thesis using True False hs ok assms(1) unfolding d by (auto simp: cmp hole_ok_def)
    next
      case no: False
      then have "del_holes ack tp = tp" using False hs by (subst del_holes.simps) simp
      then show ?thesis using no False hs ok by (auto simp: cmp)
    qed
  qed
qed

lemma del_sackholes_scored:
  assumes "in_flight A tp" "scored A (max A (seq_pos A (th_ack th))) R tp" "near A (th_ack th)"
  shows "holes_only tp (tcp_del_sackholes th tp) \<and> (snd_holes (tcp_del_sackholes th tp) \<noteq> [] \<longrightarrow>
     near A (rcv_lastsack tp) \<and> seq_pos A (rcv_lastsack tp) \<le> seq_pos A (snd_max tp) \<and>
     board A (max A (seq_pos A (th_ack th))) (snd_holes (tcp_del_sackholes th tp)) (seq_pos A (rcv_lastsack tp)) \<and>
     {max A (seq_pos A (th_ack th)) ..< seq_pos A (rcv_lastsack tp)} \<subseteq> missing A (snd_holes (tcp_del_sackholes th tp)) \<union> R)"
proof -
  let ?a = "max A (seq_pos A (th_ack th))"
  define la where "la = (if SEQ_GT (th_ack th) (snd_una tp) then th_ack th else snd_una tp)"
  have una: "snd_una tp = of_int A" using assms(1) by (simp add: in_flight_def)
  have la: "near A la" "seq_pos A la = ?a"
    using assms(3) seq_compare [OF assms(3) seq_pos_self(2)] by (auto simp: la_def una)
  have d: "tcp_del_sackholes th tp = del_holes la tp" by (simp add: tcp_del_sackholes_def la_def)
  show ?thesis
  proof (cases "snd_holes tp")
    case Nil
    then show ?thesis by (simp add: d del_holes.simps)
  next
    case (Cons h hs)
    then have s: "near A (rcv_lastsack tp)" "seq_pos A (rcv_lastsack tp) \<le> seq_pos A (snd_max tp)"
      "option_board A ?a (snd_holes tp) (seq_pos A (rcv_lastsack tp))" "{?a ..< seq_pos A (rcv_lastsack tp)} \<subseteq> missing A (snd_holes tp) \<union> R"
      using assms(2) by (auto simp: scored_def)
    have cut: ?thesis if "holes_only tp tq" "board A lo (snd_holes tq) (seq_pos A (rcv_lastsack tp))" "del_holes la tp = del_holes la tq"
      "missing A (snd_holes tp) = missing A (snd_holes tq)" for tq lo
      using del_holes_ok [OF la(1) that(2)] la(2) s holes_only_trans [OF that(1)] that(3,4) unfolding d by (auto simp: subset_iff)
    from s(3) show ?thesis unfolding option_board_def
    proof
      assume "\<exists>h hs'. snd_holes tp = h # hs' \<and> degenerate A ?a h \<and> board A ?a hs' (seq_pos A (rcv_lastsack tp))"
      then have dg: "degenerate A ?a h" "board A ?a hs (seq_pos A (rcv_lastsack tp))" using Cons by auto
      let ?t = "snd (sack_removehole 0 tp)"
      have "SEQ_LEQ (hend h) la" using dg(1) la seq_compare(2) [of A "hend h" la] by (auto simp: degenerate_def)
      then have "del_holes la tp = del_holes la ?t" using Cons by (subst del_holes.simps) simp
      moreover have "holes_only tp ?t" "snd_holes ?t = hs"
        using Cons by (auto simp: sack_removehole_def intro!: holes_onlyI [where hs = hs and k = "-1" and p = "sackhole_pool tp + 1"])
      ultimately show ?thesis using cut [of ?t] dg Cons by (auto simp: degenerate_def)
    qed (use cut [of tp A] in auto)
  qed
qed

text \<open>What holds between segments; without SACK there are no holes.\<close>

definition sack_inv :: "int \<Rightarrow> int set \<Rightarrow> 'a tcpst_scheme \<Rightarrow> bool" where
  "sack_inv A R tp \<longleftrightarrow> in_flight A tp \<and> stable A R tp \<and> snd_numholes tp = int (length (snd_holes tp)) \<and>
     0 \<le> tcp_sack_tp_maxholes tp \<and> snd_numholes tp \<le> tcp_sack_tp_maxholes tp \<and> (snd_holes tp \<noteq> [] \<longrightarrow> TCP_SACK_ENABLED tp)"

lemma near_shift: "near A x \<Longrightarrow> A \<le> B \<Longrightarrow> B \<le> seq_pos A x \<Longrightarrow> near B x \<and> seq_pos B x = seq_pos A x"
  using seq_pos_shift [of A x B] by (auto simp: near_iff)

lemma board_shift: "board A lo hs hi \<Longrightarrow> A \<le> B \<Longrightarrow> B \<le> lo \<Longrightarrow> board B lo hs hi \<and> missing B hs = missing A hs"
proof (induction hs arbitrary: lo)
  case (Cons h hs)
  then have "hole_ok A h" "lo \<le> seq_pos A (start h)" "B \<le> seq_pos A (hend h)" by (auto dest: hole_ok_order)
  then have "hole_ok B h \<and> seq_pos B (start h) = seq_pos A (start h) \<and> seq_pos B (hend h) = seq_pos A (hend h)"
    using Cons.prems near_shift [of A "start h" B] near_shift [of A "hend h" B] near_shift [of A "rxmit h" B] by (auto simp: hole_ok_def)
  then show ?case using Cons \<open>B \<le> seq_pos A (hend h)\<close> by auto
qed simp

text \<open>The position of the first byte in flight after a segment.\<close>

definition acked_to :: "int \<Rightarrow> tcphdr \<Rightarrow> 'a tcpst_scheme \<Rightarrow> int" where
  "acked_to A th tp = (if SEQ_GT (th_ack th) (snd_una tp) \<and> \<not> SEQ_GT (th_ack th) (snd_max tp) then seq_pos A (th_ack th) else A)"

lemma sack_segment_eq:
  assumes "(case opt of None \<Rightarrow> Some tp | Some (cp, optlen) \<Rightarrow> tcp_sack_option th cp optlen tp) = Some tq" "th_flags th AND TH_ACK \<noteq> 0"
    "tr = (if TCP_SACK_ENABLED tq then tcp_del_sackholes th tq else tq)"
  shows "\<exists>tp'. sack_segment th opt tp = Some tp' \<and>
    snd_una tp' = (if SEQ_GT (th_ack th) (snd_una tr) \<and> \<not> SEQ_GT (th_ack th) (snd_max tr) then th_ack th else snd_una tr) \<and>
    snd_max tp' = snd_max tr \<and> snd_holes tp' = snd_holes tr \<and> snd_numholes tp' = snd_numholes tr \<and> rcv_lastsack tp' = rcv_lastsack tr \<and>
    tcp_sack_tp_maxholes tp' = tcp_sack_tp_maxholes tr \<and> t_flags tp' = t_flags tr"
proof -
  have "\<not> SEQ_LEQ x y \<longleftrightarrow> SEQ_GT x y" for x y by (auto simp: SEQ_LEQ_def SEQ_GT_def)
  then show ?thesis using assms unfolding sack_segment_def by (simp add: Let_def)
qed

lemma acked_stable:
  assumes "in_flight A tr" and ack: "near A (th_ack th)"
    and sc: "snd_holes tr \<noteq> [] \<longrightarrow> near A (rcv_lastsack tr) \<and> seq_pos A (rcv_lastsack tr) \<le> seq_pos A (snd_max tr) \<and>
      board A (max A (seq_pos A (th_ack th))) (snd_holes tr) (seq_pos A (rcv_lastsack tr)) \<and>
      {max A (seq_pos A (th_ack th)) ..< seq_pos A (rcv_lastsack tr)} \<subseteq> missing A (snd_holes tr) \<union> R"
    and t: "snd_una t = (if SEQ_GT (th_ack th) (snd_una tr) \<and> \<not> SEQ_GT (th_ack th) (snd_max tr) then th_ack th else snd_una tr)"
      "snd_max t = snd_max tr" "snd_holes t = snd_holes tr" "rcv_lastsack t = rcv_lastsack tr"
  shows "in_flight (acked_to A th tr) t \<and> stable (acked_to A th tr) R t"
proof -
  let ?p = "seq_pos A (th_ack th)"
  have una: "snd_una tr = of_int A" and mx: "near A (snd_max tr)" "A \<le> seq_pos A (snd_max tr)" using assms(1) by (auto simp: in_flight_def)
  note cmp = seq_compare(3) [OF ack seq_pos_self(2)] seq_compare(3) [OF ack mx(1)]
  show ?thesis
  proof (cases "A < ?p \<and> ?p \<le> seq_pos A (snd_max tr)")
    case True
    then have B: "acked_to A th tr = ?p" "snd_una t = th_ack th" "max A ?p = ?p" using t(1) by (auto simp: acked_to_def una cmp)
    have m: "near ?p (snd_max tr)" "seq_pos ?p (snd_max tr) = seq_pos A (snd_max tr)" using near_shift [OF mx(1), of ?p] True by auto
    have "in_flight ?p t" using B(2) m True t(2) by (simp add: in_flight_def of_int_seq_pos)
    moreover have "stable ?p R t"
    proof (cases "snd_holes tr = []")
      case False
      note s = sc [rule_format, OF False, unfolded B(3)]
      have le: "?p \<le> seq_pos A (rcv_lastsack tr)" using s board_le by blast
      then show ?thesis using s m board_shift [of A ?p "snd_holes tr" "seq_pos A (rcv_lastsack tr)" ?p] near_shift [of A "rcv_lastsack tr" ?p] True t
        by (auto simp: stable_def)
    qed (simp add: stable_def t)
    ultimately show ?thesis unfolding B(1) by blast
  next
    case False
    then have B: "acked_to A th tr = A" "snd_una t = of_int A" using t(1) by (auto simp: acked_to_def una cmp)
    have "max A ?p = A" if "snd_holes tr \<noteq> []"
    proof -
      have "max A ?p \<le> seq_pos A (rcv_lastsack tr)" using sc that board_le by blast
      then show ?thesis using False sc that by auto
    qed
    then show ?thesis unfolding B(1) using B(2) sc mx t by (auto simp: in_flight_def stable_def)
  qed
qed

lemma option_then_del:
  assumes "sack_inv A R tp" "seg_ok A th opt"
  shows "\<exists>tq tr. (case opt of None \<Rightarrow> Some tp | Some (cp, optlen) \<Rightarrow> tcp_sack_option th cp optlen tp) = Some tq \<and>
    tr = (if TCP_SACK_ENABLED tq then tcp_del_sackholes th tq else tq) \<and> board_only tp tr \<and>
    (snd_holes tr \<noteq> [] \<longrightarrow> TCP_SACK_ENABLED tp \<and> near A (rcv_lastsack tr) \<and> seq_pos A (rcv_lastsack tr) \<le> seq_pos A (snd_max tr) \<and>
      board A (max A (seq_pos A (th_ack th))) (snd_holes tr) (seq_pos A (rcv_lastsack tr)) \<and>
      {max A (seq_pos A (th_ack th)) ..< seq_pos A (rcv_lastsack tr)} \<subseteq> missing A (snd_holes tr) \<union> (R \<union> reported A opt))"
proof -
  let ?a = "max A (seq_pos A (th_ack th))" and ?R = "R \<union> reported A opt"
  have i: "in_flight A tp" "stable A R tp" and ack: "near A (th_ack th)"
    using assms by (auto simp: sack_inv_def seg_ok_def)
  obtain tq where q: "(case opt of None \<Rightarrow> Some tp | Some (cp, optlen) \<Rightarrow> tcp_sack_option th cp optlen tp) = Some tq"
    "board_only tp tq" "scored A ?a ?R tq"
    using tcp_sack_option_ok [OF i] assms(2) scored_mono [OF stable_scored [OF i(2), of ?a], of ?R] by (cases opt) fastforce+
  define tr where "tr = (if TCP_SACK_ENABLED tq then tcp_del_sackholes th tq else tq)"
  note o = board_only_rest [OF q(2)]
  have "in_flight A tq" using i(1) o by (simp add: in_flight_def)
  note del = del_sackholes_scored [OF this q(3) ack]
  have en: "TCP_SACK_ENABLED tq \<longleftrightarrow> TCP_SACK_ENABLED tp" using o(3) by (simp add: TCP_SACK_ENABLED_def)
  have off: "tq = tp \<and> snd_holes tp = []" if "\<not> TCP_SACK_ENABLED tp"
    using that q(1) assms(1) by (cases opt) (auto simp: tcp_sack_option_def sack_inv_def)
  have "holes_only tq tr" using del by (simp add: tr_def)
  then have "board_only tp tr" by (rule board_only_trans [OF q(2) board_only_holes])
  then show ?thesis using q(1) tr_def del en off holes_only_rest [OF \<open>holes_only tq tr\<close>] by (intro exI conjI) auto
qed

lemma sack_segment_ok:
  assumes "sack_inv A R tp" "seg_ok A th opt"
  shows "\<exists>tp'. sack_segment th opt tp = Some tp' \<and> sack_inv (acked_to A th tp) (R \<union> reported A opt) tp'"
proof -
  let ?R = "R \<union> reported A opt" and ?B = "acked_to A th tp"
  obtain tq tr where q: "(case opt of None \<Rightarrow> Some tp | Some (cp, optlen) \<Rightarrow> tcp_sack_option th cp optlen tp) = Some tq"
    "tr = (if TCP_SACK_ENABLED tq then tcp_del_sackholes th tq else tq)" "board_only tp tr"
    and r: "snd_holes tr \<noteq> [] \<longrightarrow> TCP_SACK_ENABLED tp \<and> near A (rcv_lastsack tr) \<and> seq_pos A (rcv_lastsack tr) \<le> seq_pos A (snd_max tr) \<and>
      board A (max A (seq_pos A (th_ack th))) (snd_holes tr) (seq_pos A (rcv_lastsack tr)) \<and>
      {max A (seq_pos A (th_ack th)) ..< seq_pos A (rcv_lastsack tr)} \<subseteq> missing A (snd_holes tr) \<union> ?R"
    using option_then_del [OF assms] by blast
  have ack: "near A (th_ack th)" "th_flags th AND TH_ACK \<noteq> 0" using assms(2) by (auto simp: seg_ok_def)
  obtain tp' where t: "sack_segment th opt tp = Some tp'"
    "snd_una tp' = (if SEQ_GT (th_ack th) (snd_una tr) \<and> \<not> SEQ_GT (th_ack th) (snd_max tr) then th_ack th else snd_una tr)"
    "snd_max tp' = snd_max tr" "snd_holes tp' = snd_holes tr" "snd_numholes tp' = snd_numholes tr" "rcv_lastsack tp' = rcv_lastsack tr"
    "tcp_sack_tp_maxholes tp' = tcp_sack_tp_maxholes tr" "t_flags tp' = t_flags tr"
    using sack_segment_eq [OF q(1) ack(2) q(2)] by blast
  note o = board_only_rest [OF q(3)]
  have c: "snd_numholes tp' = int (length (snd_holes tp'))" "snd_numholes tp' \<le> tcp_sack_tp_maxholes tp'" "0 \<le> tcp_sack_tp_maxholes tp'"
    using assms(1) o(4,6,7) t(4,5,7) by (auto simp: sack_inv_def)
  have "in_flight A tr" using assms(1) o(1,2) by (simp add: in_flight_def sack_inv_def)
  from acked_stable [OF this ack(1) _ t(2,3,4,6), of ?R] have "in_flight ?B tp' \<and> stable ?B ?R tp'"
    using r o(1,2) by (simp add: acked_to_def)
  moreover have "snd_holes tp' \<noteq> [] \<longrightarrow> TCP_SACK_ENABLED tp'" using r t(4,8) o(3) by (simp add: TCP_SACK_ENABLED_def)
  ultimately show ?thesis using t(1) c by (auto simp: sack_inv_def)
qed

lemma free_holes_spec: "snd_holes (free_holes tp) = [] \<and> holes_only tp (free_holes tp)"
proof (induction "length (snd_holes tp)" arbitrary: tp)
  case 0
  then show ?case by (simp add: free_holes.simps)
next
  case (Suc n)
  then obtain h hs where hs: "snd_holes tp = h # hs" by (cases "snd_holes tp") auto
  let ?t = "snd (sack_removehole 0 tp)"
  have t: "snd_holes ?t = hs" "holes_only tp ?t"
    using hs by (auto simp: sack_removehole_def intro!: holes_onlyI [where hs = hs and k = "-1" and p = "sackhole_pool tp + 1"])
  have "free_holes tp = free_holes ?t" using hs by (subst free_holes.simps) simp
  then show ?case using Suc.hyps(1) [of ?t] Suc.hyps(2) hs t holes_only_trans [OF t(2)] by auto
qed

lemma sack_timeout_ok: "sack_inv A R tp \<Longrightarrow> \<exists>tp'. sack_timeout tp = Some tp' \<and> sack_inv A R tp'"
  using free_holes_spec [of tp] holes_only_rest [of tp "free_holes tp"]
  by (auto simp: sack_timeout_def tcp_free_sackholes_def Let_def sack_inv_def in_flight_def stable_def holes_only_def)

section \<open>Runs\<close>

text \<open>What happens to the scoreboard of a connection: segments, new data sent, the timeout, a part of a hole sent again (the end of
  \<^verbatim>\<open>tcp_output\<close>), the next byte to send moved.  \<^term>\<open>A\<close> is the position of the first byte in flight, \<^term>\<open>R\<close> holds the
  positions that blocks of the peer have reported.\<close>

inductive sack_run :: "int \<Rightarrow> int set \<Rightarrow> 'a tcpst_scheme \<Rightarrow> bool" where
  begins: "snd_holes tp = [] \<Longrightarrow> snd_numholes tp = 0 \<Longrightarrow> 0 \<le> tcp_sack_tp_maxholes tp \<Longrightarrow> snd_una tp = of_int A \<Longrightarrow>
    snd_max tp = snd_una tp \<Longrightarrow> sack_run A {} tp"
| segment: "sack_run A R tp \<Longrightarrow> seg_ok A th opt \<Longrightarrow> sack_segment th opt tp = Some tp' \<Longrightarrow>
    sack_run (acked_to A th tp) (R \<union> reported A opt) tp'"
| sent: "sack_run A R tp \<Longrightarrow> near A m \<Longrightarrow> seq_pos A (snd_max tp) \<le> seq_pos A m \<Longrightarrow> sack_run A R (tp\<lparr> snd_max := m, snd_nxt := n \<rparr>)"
| timeout: "sack_run A R tp \<Longrightarrow> sack_timeout tp = Some tp' \<Longrightarrow> sack_run A R tp'"
| resent: "sack_run A R tp \<Longrightarrow> i < length (snd_holes tp) \<Longrightarrow> near A r \<Longrightarrow> seq_pos A (rxmit (snd_holes tp ! i)) \<le> seq_pos A r \<Longrightarrow>
    seq_pos A r \<le> seq_pos A (hend (snd_holes tp ! i)) \<Longrightarrow> sack_run A R (upd_hole i (\<lambda>h. h\<lparr> rxmit := r \<rparr>) tp)"
| adjusted: "sack_run A R tp \<Longrightarrow> sack_run A R (tcp_sack_adjust tp)"

inductive_cases sack_runE: "sack_run A R tp"

lemma board_rxmit:
  assumes "board A lo (us @ h # vs) hi" "near A r" "seq_pos A (rxmit h) \<le> seq_pos A r" "seq_pos A r \<le> seq_pos A (hend h)"
  shows "board A lo (us @ h\<lparr> rxmit := r \<rparr> # vs) hi"
  using assms by (auto simp: board_append hole_ok_def)

lemma sack_run_inv: "sack_run A R tp \<Longrightarrow> sack_inv A R tp"
proof (induction rule: sack_run.induct)
  case (segment A R tp th opt tp')
  then show ?case using sack_segment_ok [of A R tp th opt] by auto
next
  case (timeout A R tp tp')
  then show ?case using sack_timeout_ok [of A R tp] by auto
next
  case (resent A R tp i r)
  define us h vs where "us = take i (snd_holes tp)" and "h = snd_holes tp ! i" and "vs = drop (Suc i) (snd_holes tp)"
  have sp: "snd_holes tp = us @ h # vs" and l: "length us = i" using resent by (simp_all add: us_def h_def vs_def id_take_nth_drop)
  have "missing A (us @ h\<lparr> rxmit := r \<rparr> # vs) = missing A (us @ h # vs)" by simp
  then show ?case using resent board_rxmit [of A A us h vs _ r] upd_hole_eq [OF sp, of "\<lambda>h. h\<lparr> rxmit := r \<rparr>"]
    unfolding h_def [symmetric] l by (auto simp: sack_inv_def in_flight_def stable_def sp TCP_SACK_ENABLED_def)
next
  case (sent A R tp m n)
  then show ?case by (auto simp: sack_inv_def in_flight_def stable_def TCP_SACK_ENABLED_def)
qed (auto simp: sack_inv_def in_flight_def stable_def TCP_SACK_ENABLED_def tcp_sack_adjust_def split: list.splits)

lemma adjust_holes_ok:
  assumes "board A lo (cur # hs) (seq_pos A lastsack)" "near A nxt" "near A lastsack" "seq_pos A nxt < seq_pos A lastsack"
  shows "near A (adjust_holes nxt lastsack cur hs) \<and> seq_pos A nxt \<le> seq_pos A (adjust_holes nxt lastsack cur hs) \<and>
    seq_pos A (adjust_holes nxt lastsack cur hs) \<le> seq_pos A lastsack \<and>
    {seq_pos A nxt ..< seq_pos A (adjust_holes nxt lastsack cur hs)} \<inter> missing A (cur # hs) = {}"
  using assms(1)
proof (induction hs arbitrary: cur lo)
  case Nil
  then show ?case using assms(2-4) by (auto simp: hole_ok_def seq_compare)
next
  case (Cons n hs)
  have c: "near A (hend cur)" "near A (start n)" "seq_pos A (hend cur) \<le> seq_pos A (start n)" "board A (seq_pos A (start n)) (n # hs) (seq_pos A lastsack)"
    using Cons.prems by (auto simp: hole_ok_def)
  note cmp = seq_compare [OF assms(2) c(1)] seq_compare [OF assms(2) c(2)]
  consider "SEQ_LT nxt (hend cur)" | "\<not> SEQ_LT nxt (hend cur)" "SEQ_GEQ nxt (start n)" | "\<not> SEQ_LT nxt (hend cur)" "\<not> SEQ_GEQ nxt (start n)" by blast
  then show ?case
  proof cases
    case 1
    then show ?thesis using assms(2,4) by simp
  next
    case 2
    then show ?thesis using Cons.IH [OF c(4)] by (auto simp: cmp)
  next
    case 3
    then show ?thesis using c board_missing [OF c(4)] board_le [OF c(4)] by (auto simp: cmp)
  qed
qed


text \<open>C11. Only data that the peer reported is skipped.  When the next byte to send is moved forward over data in
  flight, every byte it passes has been reported in a SACK block of the peer before, and no byte of a hole is passed.\<close>

theorem skipped_bytes_were_reported:
  assumes "sack_run A R tp" "near A (snd_nxt tp)" "A \<le> seq_pos A (snd_nxt tp)"
  shows "seq_pos A (snd_nxt tp) \<le> seq_pos A (snd_nxt (tcp_sack_adjust tp)) \<and>
    {seq_pos A (snd_nxt tp) ..< seq_pos A (snd_nxt (tcp_sack_adjust tp))} \<subseteq> R - missing A (snd_holes tp)"
proof (cases "snd_holes tp = [] \<or> SEQ_GEQ (snd_nxt tp) (rcv_lastsack tp)")
  case True
  then have "tcp_sack_adjust tp = tp" by (auto simp: tcp_sack_adjust_def split: list.splits)
  then show ?thesis by simp
next
  case False
  then obtain cur hs where hs: "snd_holes tp = cur # hs" by (cases "snd_holes tp") auto
  have s: "near A (rcv_lastsack tp)" "board A A (cur # hs) (seq_pos A (rcv_lastsack tp))"
    "{A ..< seq_pos A (rcv_lastsack tp)} \<subseteq> missing A (cur # hs) \<union> R"
    using sack_run_inv [OF assms(1)] hs by (auto simp: sack_inv_def stable_def)
  have lt: "seq_pos A (snd_nxt tp) < seq_pos A (rcv_lastsack tp)" using False seq_compare(4) [OF assms(2) s(1)] by auto
  let ?n = "adjust_holes (snd_nxt tp) (rcv_lastsack tp) cur hs"
  note a = adjust_holes_ok [OF s(2) assms(2) s(1) lt]
  have "snd_nxt (tcp_sack_adjust tp) = ?n" using False hs by (simp add: tcp_sack_adjust_def)
  moreover have "{seq_pos A (snd_nxt tp) ..< seq_pos A ?n} \<subseteq> R - missing A (cur # hs)"
  proof
    fix x assume x: "x \<in> {seq_pos A (snd_nxt tp) ..< seq_pos A ?n}"
    then have "x \<in> {A ..< seq_pos A (rcv_lastsack tp)}" using a assms(3) by auto
    then have "x \<in> missing A (cur # hs) \<union> R" using s(3) by (rule rev_subsetD)
    moreover have "x \<notin> missing A (cur # hs)" using a x by blast
    ultimately show "x \<in> R - missing A (cur # hs)" by blast
  qed
  ultimately show ?thesis using a hs by simp
qed

text \<open>A block that covers two holes takes off the first one only; the peer has to report it again for the second.\<close>

lemma block_over_two_holes:
  assumes "snd_holes tp = h # k # hs" "near A (left b)" "near A (right b)" "hole_ok A h" "hole_ok A k"
    "seq_pos A (left b) \<le> seq_pos A (start h)" "seq_pos A (hend h) \<le> seq_pos A (start k)" "seq_pos A (hend k) \<le> seq_pos A (right b)"
  shows "\<exists>tp'. walk_holes b 0 tp = Some (False, 0, tp') \<and> snd_holes tp' = k # hs"
  using assms by (subst walk_holes.simps) (auto simp: hole_ok_def seq_compare [of A] sack_removehole_def)

section \<open>A concrete run\<close>

text \<open>Sequence numbers wrap after 1000 bytes; 3000 bytes are in flight, and the peer reports the second thousand.\<close>

definition sack_begin :: tcpst where
  "sack_begin = \<lparr> t_flags = TF_WILL_SACK, t_segsz = 1000, t_dupacks = 0, t_partialacks = -1, t_rtttime = 0, rexmt_armed = False,
     t_segqlen = 0, snd_una = -1000, snd_nxt = -1000, snd_max = -1000, snd_recover = -1000, snd_high = -1000, snd_wnd = 65535,
     snd_cwnd = 4000, snd_ssthresh = 65535, t_bytes_acked = 0, snd_scale = 0, rcv_sack_flags = 0,
     rcv_dsack_block = \<lparr> left = 0, right = 0 \<rparr>, snd_holes = [], snd_numholes = 0, rcv_lastsack = 0, sack_newdata = 0, snd_fack = -1000,
     tcp_sack_tp_maxholes = 32, tcp_sack_globalmaxholes = 1024, tcp_sack_globalholes = 0, sackhole_pool = 16384 \<rparr>"

definition sack_bytes :: "nat \<Rightarrow> 8 word" where
  "sack_bytes i = (if i < 10 then [5, 10, 0, 0, 0, 0, 0, 0, 3, 232] ! i else 0)"

definition sack_hdr :: tcphdr where "sack_hdr = \<lparr> th_ack = -1000, th_flags = TH_ACK \<rparr>"

definition sack_known :: tcpst where
  "sack_known = sack_begin\<lparr> snd_max := 2000, snd_nxt := 500, snd_holes := [\<lparr> start = -1000, hend = 0, rxmit = -1000 \<rparr>], snd_numholes := 1,
     tcp_sack_globalholes := 1, sackhole_pool := 16383, rcv_lastsack := 1000, snd_fack := 1000 \<rparr>"

lemma sack_bytes_blks: "seg_blks (Some (sack_bytes, 10)) = [\<lparr> left = 0, right = 1000 \<rparr>]"
  by (simp add: seg_blks_def option_blks_def ntohl_at_def sack_bytes_def)

lemma sack_seq: "seq_pos 4294966296 0 = 4294967296" "seq_pos 4294966296 1000 = 4294968296" "seq_pos 4294966296 2000 = 4294969296"
  "seq_pos 4294966296 500 = 4294967796" "seq_pos 4294966296 (- 1000) = 4294966296"
  by (rule seq_pos_unique; simp)+

lemma sack_known_run: "sack_run 4294966296 {4294967296 ..< 4294968296} sack_known"
proof -
  have "sack_run 4294966296 {} sack_begin" by (rule sack_run.begins) (simp_all add: sack_begin_def)
  then have r: "sack_run 4294966296 {} (sack_begin\<lparr> snd_max := 2000, snd_nxt := 500 \<rparr>)"
    by (rule sack_run.sent) (simp_all add: near_iff sack_seq sack_begin_def)
  have "sack_segment sack_hdr (Some (sack_bytes, 10)) (sack_begin\<lparr> snd_max := 2000, snd_nxt := 500 \<rparr>) = Some sack_known"
    by code_simp
  from sack_run.segment [OF r _ this] show ?thesis
    by (simp add: seg_ok_def sack_bytes_blks near_iff sack_seq sack_hdr_def TH_ACK_def reported_def blk_range_def acked_to_def sack_begin_def SEQ_GT_def)
qed


theorem skipped_bytes_were_reported_witness:
  "snd_nxt (tcp_sack_adjust sack_known) = 1000 \<and>
   {seq_pos 4294966296 500 ..< seq_pos 4294966296 (snd_nxt (tcp_sack_adjust sack_known))} \<subseteq> {4294967296 ..< 4294968296}"
proof -
  have "snd_nxt (tcp_sack_adjust sack_known) = 1000" by code_simp
  then show ?thesis using skipped_bytes_were_reported [OF sack_known_run] by (auto simp: sack_known_def sack_seq near_iff)
qed

text \<open>A segment whose header does not carry an acknowledgement still cuts the scoreboard at the number in its acknowledgement field.\<close>

lemma segment_without_ack_drops_hole:
  "map_option snd_holes (sack_segment \<lparr> th_ack = 0, th_flags = 0 \<rparr> None sack_known) = Some [] \<and>
   map_option snd_una (sack_segment \<lparr> th_ack = 0, th_flags = 0 \<rparr> None sack_known) = Some (-1000)"
  by code_simp

end
