(* ===== verification/Tcp_Congctl.thy ===== *)
theory Tcp_Congctl
  imports Tcp_Seq
begin

unbundle bit_operations_syntax

text \<open>
  Congestion control (\<^verbatim>\<open>netinet/tcp_congctl.c\<close>): the Reno and NewReno algorithms on the windows of a
  control block, at the widths of the C types, and the table of algorithms with its reference
  counts.  The properties: the threshold after a loss, the limits of the window when new data is
  acknowledged, its linear growth in congestion avoidance, the window a small partial acknowledgement leaves, and the
  reference counts.  \<^verbatim>\<open>tcp_output\<close> is a parameter; a division by zero stops the program.
\<close>

section \<open>Reno\<close>

definition tcprexmtthresh :: int where "tcprexmtthresh = 3"
definition TCP_MAXWIN :: u32 where "TCP_MAXWIN = 65535"

text \<open>\<^verbatim>\<open>min\<close> of \<^verbatim>\<open>libkern.h\<close> takes and returns \<^verbatim>\<open>u_int\<close>.\<close>

definition umin32 :: "u32 \<Rightarrow> u32 \<Rightarrow> u32" where
  "umin32 a b = (if a < b then a else b)"

text \<open>Half the window in segments, at least 2.\<close>

definition loss_window :: "'a tcpcb_scheme \<Rightarrow> u32" where
  "loss_window tp =
     (let win = umin32 (ucast (snd_wnd tp)) (ucast (snd_cwnd tp)) div 2 div ucast (t_segsz tp) in if win < 2 then 2 else win)"

definition tcp_reno_congestion_exp :: "'a tcpcb_scheme \<Rightarrow> 'a tcpcb_scheme option" where
  "tcp_reno_congestion_exp tp =
     (if t_segsz tp = 0 then None
      else let win = loss_window tp;
               tp = tp\<lparr> snd_ssthresh := ucast (win * ucast (t_segsz tp)), snd_recover := snd_max tp \<rparr>;
               tp = tp\<lparr> snd_cwnd := snd_ssthresh tp \<rparr>
           in Some (if TCP_ECN_ALLOWED tp then tp\<lparr> t_flags := t_flags tp OR TF_ECN_SND_CWR \<rparr> else tp))"

definition tcp_reno_fast_retransmit ::
  "('a tcpcb_scheme \<Rightarrow> 'a tcpcb_scheme) \<Rightarrow> tcphdr \<Rightarrow> 'a tcpcb_scheme \<Rightarrow> (int \<times> 'a tcpcb_scheme) option" where
  "tcp_reno_fast_retransmit tcp_output th tp =
     (let onxt = snd_nxt tp
      in case tcp_reno_congestion_exp tp of
           None \<Rightarrow> None
         | Some tp \<Rightarrow>
             let tp = tp\<lparr> t_partialacks := 0, rexmt_armed := False, t_rtttime := 0 \<rparr>
             in if TCP_SACK_ENABLED tp
                then Some (0, tcp_output (tp\<lparr> t_dupacks := of_int tcprexmtthresh, sack_newdata := snd_nxt tp,
                       snd_cwnd := ucast (t_segsz tp) \<rparr>))
                else let tp = tcp_output (tp\<lparr> snd_nxt := th_ack th, snd_cwnd := ucast (t_segsz tp) \<rparr>);
                         tp = tp\<lparr> snd_cwnd := snd_ssthresh tp + of_int (uint (t_segsz tp) * sint (t_dupacks tp)) \<rparr>
                     in Some (0, if SEQ_GT onxt (snd_nxt tp) then tp\<lparr> snd_nxt := onxt \<rparr> else tp))"

definition tcp_reno_slow_retransmit :: "'a tcpcb_scheme \<Rightarrow> 'a tcpcb_scheme option" where
  "tcp_reno_slow_retransmit tp =
     (if t_segsz tp = 0 then None
      else Some (tp\<lparr> snd_cwnd := ucast (t_segsz tp), snd_ssthresh := ucast (loss_window tp * ucast (t_segsz tp)),
             t_partialacks := -1, t_dupacks := 0, t_bytes_acked := 0 \<rparr>))"

definition tcp_reno_fast_retransmit_newack :: "tcphdr \<Rightarrow> 'a tcpcb_scheme \<Rightarrow> 'a tcpcb_scheme" where
  "tcp_reno_fast_retransmit_newack th tp =
     (if sint (t_partialacks tp) < 0 then tp\<lparr> t_dupacks := 0 \<rparr>
      else let tp = (if snd_cwnd tp > snd_ssthresh tp then tp\<lparr> snd_cwnd := snd_ssthresh tp \<rparr> else tp)
           in tp\<lparr> t_partialacks := -1, t_dupacks := 0, t_bytes_acked := 0 \<rparr>)"

text \<open>Appropriate byte counting: the increment of the window and the bytes counted towards the next one.\<close>

definition abc_step :: "bool \<Rightarrow> tcphdr \<Rightarrow> 'a tcpcb_scheme \<Rightarrow> u32 \<times> u64" where
  "abc_step tcp_abc_aggressive th tp =
     (let cw = ucast (snd_cwnd tp) :: u32; incr = ucast (t_segsz tp) :: u32; acked = sint (th_ack th - snd_una tp)
      in if ucast cw \<ge> snd_ssthresh tp
         then let bytes = t_bytes_acked tp + of_int acked
              in if bytes \<ge> ucast cw then (incr, bytes - ucast cw) else (0, bytes)
         else let abc_lim = (if \<not> tcp_abc_aggressive \<or> snd_nxt tp \<noteq> snd_max tp then incr else incr * 2)
              in (umin32 (of_int acked) abc_lim, t_bytes_acked tp))"

definition tcp_reno_newack :: "bool \<Rightarrow> bool \<Rightarrow> tcphdr \<Rightarrow> 'a tcpcb_scheme \<Rightarrow> 'a tcpcb_scheme option" where
  "tcp_reno_newack tcp_do_abc tcp_abc_aggressive th tp =
     (let cw = ucast (snd_cwnd tp) :: u32; incr = ucast (t_segsz tp) :: u32;
          open_by = (\<lambda>incr tp. tp\<lparr> snd_cwnd := ucast (umin32 (cw + incr) (push_bit (unat (snd_scale tp)) TCP_MAXWIN)) \<rparr>)
      in if tcp_do_abc
         then let (incr, bytes) = abc_step tcp_abc_aggressive th tp in Some (open_by incr (tp\<lparr> t_bytes_acked := bytes \<rparr>))
         else if ucast cw \<ge> snd_ssthresh tp
         then if cw = 0 then None else Some (open_by (incr * incr div cw) tp)
         else Some (open_by incr tp))"

section \<open>NewReno\<close>

definition tcp_newreno_fast_retransmit ::
  "('a tcpcb_scheme \<Rightarrow> 'a tcpcb_scheme) \<Rightarrow> tcphdr \<Rightarrow> 'a tcpcb_scheme \<Rightarrow> (int \<times> 'a tcpcb_scheme) option" where
  "tcp_newreno_fast_retransmit tcp_output th tp =
     (if SEQ_LT (th_ack th) (snd_high tp) then Some (1, tp\<lparr> t_dupacks := 0 \<rparr>) else tcp_reno_fast_retransmit tcp_output th tp)"

definition tcp_newreno_fast_retransmit_newack ::
  "('a tcpcb_scheme \<Rightarrow> 'a tcpcb_scheme) \<Rightarrow> tcphdr \<Rightarrow> 'a tcpcb_scheme \<Rightarrow> 'a tcpcb_scheme" where
  "tcp_newreno_fast_retransmit_newack tcp_output th tp =
     (if sint (t_partialacks tp) < 0 then tp\<lparr> t_dupacks := 0 \<rparr>
      else if SEQ_LT (th_ack th) (snd_recover tp)
      then let onxt = snd_nxt tp; ocwnd = snd_cwnd tp;
               tp = tp\<lparr> t_partialacks := t_partialacks tp + 1 \<rparr>;
               tp = (if t_partialacks tp = 1 then tp\<lparr> rexmt_armed := False \<rparr> else tp);
               tp = tp\<lparr> t_rtttime := 0, snd_nxt := th_ack th, snd_cwnd := ucast (ucast (t_segsz tp) + (th_ack th - snd_una tp) :: u32) \<rparr>;
               tp = tcp_output tp;
               tp = tp\<lparr> snd_cwnd := ocwnd \<rparr>;
               tp = (if SEQ_GT onxt (snd_nxt tp) then tp\<lparr> snd_nxt := onxt \<rparr> else tp)
           in tp\<lparr> snd_cwnd := snd_cwnd tp - ucast (th_ack th - snd_una tp - ucast (t_segsz tp) :: u32) \<rparr>
      else let tp = (if SEQ_SUB (snd_max tp) (th_ack th) < snd_ssthresh tp
                     then tp\<lparr> snd_cwnd := SEQ_SUB (snd_max tp) (th_ack th) + ucast (t_segsz tp) \<rparr>
                     else tp\<lparr> snd_cwnd := snd_ssthresh tp \<rparr>)
           in tp\<lparr> t_partialacks := -1, t_dupacks := 0, t_bytes_acked := 0 \<rparr>)"

definition tcp_newreno_newack :: "bool \<Rightarrow> bool \<Rightarrow> tcphdr \<Rightarrow> 'a tcpcb_scheme \<Rightarrow> 'a tcpcb_scheme option" where
  "tcp_newreno_newack tcp_do_abc tcp_abc_aggressive th tp =
     (if sint (t_partialacks tp) < 0 then tcp_reno_newack tcp_do_abc tcp_abc_aggressive th tp else Some tp)"

section \<open>The table of algorithms\<close>

text \<open>An entry of the list has an address; algorithms and connections are named by theirs.\<close>

record tcp_congctlent =
  ent_addr :: addr
  congctl_ctl :: addr
  congctl_refcnt :: u32
  congctl_name :: string

record congctls =
  tcp_congctlhd :: "tcp_congctlent list"
  tcp_congctl_global :: "addr option"
  tcp_congctl_global_name :: string
  tcp_congctl_avail :: string
  t_congctl :: "addr \<Rightarrow> addr option"

definition EEXIST :: int where "EEXIST = 17"
definition EBUSY :: int where "EBUSY = 16"

definition tcp_congctl_fillnames :: "congctls \<Rightarrow> congctls" where
  "tcp_congctl_fillnames g =
     g\<lparr> tcp_congctl_avail := concat (map (\<lambda>(i, e). take 119 (congctl_name e) @ (if Suc i < length (tcp_congctlhd g) then '' '' else []))
       (enumerate 0 (tcp_congctlhd g))) \<rparr>"

text \<open>The search notes the entry of the present algorithm of a connection and the first entry with the name, and ends when it has both.\<close>

fun select_scan ::
  "addr option \<Rightarrow> string \<Rightarrow> tcp_congctlent list \<Rightarrow> bool \<times> tcp_congctlent option \<Rightarrow> tcp_congctlent option \<Rightarrow>
   (tcp_congctlent option \<times> tcp_congctlent) option" where
  "select_scan cur name [] old new = None"
| "select_scan cur name (e # es) old new =
     (let old = (if \<not> fst old \<and> Some (congctl_ctl e) = cur then (True, Some e) else old);
          new = (if new = None \<and> name = congctl_name e then Some e else new)
      in case new of
           Some n \<Rightarrow> if fst old then Some (snd old, n) else select_scan cur name es old new
         | None \<Rightarrow> select_scan cur name es old new)"

definition upd_ent :: "tcp_congctlent \<Rightarrow> (u32 \<Rightarrow> u32) \<Rightarrow> congctls \<Rightarrow> congctls" where
  "upd_ent x f g =
     g\<lparr> tcp_congctlhd := map (\<lambda>e. if ent_addr e = ent_addr x then e\<lparr> congctl_refcnt := f (congctl_refcnt e) \<rparr> else e) (tcp_congctlhd g) \<rparr>"

definition tcp_congctl_select :: "addr option \<Rightarrow> string \<Rightarrow> congctls \<Rightarrow> int \<times> congctls" where
  "tcp_congctl_select tp name g =
     (let cur = (case tp of None \<Rightarrow> None | Some t \<Rightarrow> t_congctl g t)
      in case select_scan cur name (tcp_congctlhd g) (cur = None, None) None of
           None \<Rightarrow> (EINVAL, g)
         | Some (old, new) \<Rightarrow>
             (0, case tp of
                   Some t \<Rightarrow>
                     let g = (case old of None \<Rightarrow> g | Some e \<Rightarrow> upd_ent e (\<lambda>n. n - 1) g);
                         g = g\<lparr> t_congctl := (t_congctl g)(t := Some (congctl_ctl new)) \<rparr>
                     in upd_ent new (\<lambda>n. n + 1) g
                 | None \<Rightarrow> g\<lparr> tcp_congctl_global := Some (ent_addr new), tcp_congctl_global_name := take 11 (congctl_name new) \<rparr>))"

text \<open>The new entry is memory as the allocator returns it, which it does not clear: the reference count is what stands there.\<close>

definition tcp_congctl_register :: "tcp_congctlent \<Rightarrow> string \<Rightarrow> addr \<Rightarrow> congctls \<Rightarrow> int \<times> congctls" where
  "tcp_congctl_register ntcc name tcc g =
     (if name \<in> set (map congctl_name (tcp_congctlhd g)) then (EEXIST, g)
      else let first = (tcp_congctlhd g = []);
               e = ntcc\<lparr> congctl_name := take 11 name, congctl_ctl := tcc \<rparr>;
               g = tcp_congctl_fillnames (g\<lparr> tcp_congctlhd := tcp_congctlhd g @ [e] \<rparr>)
           in (0, if first then snd (tcp_congctl_select None name g) else g))"

text \<open>The last entry with the name counts.\<close>

definition tcp_congctl_unregister :: "string \<Rightarrow> congctls \<Rightarrow> int \<times> congctls" where
  "tcp_congctl_unregister name g =
     (case find (\<lambda>e. name = congctl_name e) (rev (tcp_congctlhd g)) of
        None \<Rightarrow> (ENOENT, g)
      | Some r \<Rightarrow>
          if length (tcp_congctlhd g) \<le> 1 \<or> tcp_congctl_global g = Some (ent_addr r) \<or> congctl_refcnt r \<noteq> 0 then (EBUSY, g)
          else (0, tcp_congctl_fillnames (g\<lparr> tcp_congctlhd := filter (\<lambda>e. ent_addr e \<noteq> ent_addr r) (tcp_congctlhd g) \<rparr>)))"

definition tcp_congctl_release :: "addr \<Rightarrow> congctls \<Rightarrow> congctls option" where
  "tcp_congctl_release tp g =
     (case t_congctl g tp of
        None \<Rightarrow> None
      | Some c \<Rightarrow>
          Some (case find (\<lambda>e. congctl_ctl e = c) (tcp_congctlhd g) of
                  None \<Rightarrow> g
                | Some e \<Rightarrow> upd_ent e (\<lambda>n. n - 1) g))"

definition tcp_congctl_bystruct :: "addr \<Rightarrow> congctls \<Rightarrow> string option" where
  "tcp_congctl_bystruct tcc g = map_option congctl_name (find (\<lambda>e. congctl_ctl e = tcc) (tcp_congctlhd g))"

definition tcp_congctl_init :: "tcp_congctlent \<Rightarrow> tcp_congctlent \<Rightarrow> addr \<Rightarrow> addr \<Rightarrow> congctls \<Rightarrow> congctls option" where
  "tcp_congctl_init ent1 ent2 tcp_reno_ctl tcp_newreno_ctl g =
     (let (r, g) = tcp_congctl_register ent1 ''reno'' tcp_reno_ctl g
      in if r \<noteq> 0 then None
         else let (r, g) = tcp_congctl_register ent2 ''newreno'' tcp_newreno_ctl g
              in if r \<noteq> 0 then None
                 else let (r, g) = tcp_congctl_select None ''newreno'' g in if r \<noteq> 0 then None else Some g)"

section \<open>The windows as numbers\<close>

definition max_window :: "'a tcpcb_scheme \<Rightarrow> nat" where
  "max_window tp = 65535 * 2 ^ unat (snd_scale tp)"

definition segsz :: "'a tcpcb_scheme \<Rightarrow> nat" where "segsz tp = unat (t_segsz tp)"

lemma segsz_word: "segsz tp < 65536" "unat (ucast (t_segsz tp) :: u32) = segsz tp" "unat (ucast (t_segsz tp) :: u64) = segsz tp"
proof -
  show s: "segsz tp < 65536" unfolding segsz_def by (rule order_less_le_trans [OF unsigned_less]) simp
  show "unat (ucast (t_segsz tp) :: u32) = segsz tp" "unat (ucast (t_segsz tp) :: u64) = segsz tp"
    using s by (simp_all add: segsz_def unsigned_ucast_eq take_bit_eq_mod)
qed

lemma ucast_down: "unat (x :: u64) < 2 ^ 32 \<Longrightarrow> unat (ucast x :: u32) = unat x"
  by (simp add: unsigned_ucast_eq take_bit_eq_mod)

lemma unat_ucast_up: "unat (ucast (x :: u32) :: u64) = unat x"
proof -
  have "unat x < 2 ^ 32" by (rule order_less_le_trans [OF unsigned_less]) simp
  then show ?thesis by (simp add: unsigned_ucast_eq take_bit_eq_mod)
qed

lemma ucast_up_down: "unat (x :: u64) < 2 ^ 32 \<Longrightarrow> ucast (ucast x :: u32) = x"
  by (rule word_unat_eq_iff [THEN iffD2]) (simp add: unat_ucast_up ucast_down)

lemma unat_umin32: "unat (umin32 x y) = min (unat x) (unat y)"
  by (auto simp: umin32_def word_less_nat_alt)

lemma max_window_word:
  assumes "unat (snd_scale tp) \<le> 14"
  shows "unat (push_bit (unat (snd_scale tp)) TCP_MAXWIN) = max_window tp" "max_window tp < 2 ^ 30"
proof -
  have "(2::nat) ^ unat (snd_scale tp) \<le> 2 ^ 14" using assms by (rule power_increasing) simp
  then show b: "max_window tp < 2 ^ 30" by (simp add: max_window_def)
  have "unat (push_bit (unat (snd_scale tp)) TCP_MAXWIN) = max_window tp mod 2 ^ 32"
    by (simp only: unsigned_push_bit_eq) (simp add: push_bit_eq_mult take_bit_eq_mod max_window_def TCP_MAXWIN_def mult.commute)
  then show "unat (push_bit (unat (snd_scale tp)) TCP_MAXWIN) = max_window tp" using b by simp
qed

section \<open>After a loss\<close>

definition flight_window :: "'a tcpcb_scheme \<Rightarrow> nat" where
  "flight_window tp = min (unat (snd_wnd tp) mod 2 ^ 32) (unat (snd_cwnd tp) mod 2 ^ 32)"

lemma loss_window_nat: "unat (loss_window tp) = max 2 (flight_window tp div 2 div segsz tp)"
proof -
  have w: "unat (umin32 (ucast (snd_wnd tp)) (ucast (snd_cwnd tp))) = flight_window tp"
    by (simp add: unat_umin32 flight_window_def unsigned_ucast_eq take_bit_eq_mod)
  have "unat (umin32 (ucast (snd_wnd tp)) (ucast (snd_cwnd tp)) div 2 div ucast (t_segsz tp)) = flight_window tp div 2 div segsz tp"
    by (simp add: unat_div w segsz_word)
  then show ?thesis by (auto simp: loss_window_def Let_def word_less_nat_alt)
qed

lemma whole_segments_le: "2 * (w div 2 div z * z) \<le> w" for w :: nat
proof -
  have "2 * (w div 2 div z * z) \<le> 2 * (w div 2)" by (rule mult_le_mono2) (rule div_times_less_eq_dividend)
  also have "\<dots> \<le> w" by simp
  finally show ?thesis .
qed

lemma loss_threshold:
  assumes "0 < segsz tp"
  shows "unat (ucast (loss_window tp * ucast (t_segsz tp)) :: u64) = max 2 (flight_window tp div 2 div segsz tp) * segsz tp"
proof -
  define q where "q = flight_window tp div 2 div segsz tp"
  have "q * segsz tp \<le> flight_window tp" using whole_segments_le [of "flight_window tp" "segsz tp"] unfolding q_def by linarith
  moreover have "flight_window tp < 2 ^ 32" by (simp add: flight_window_def min_less_iff_disj)
  ultimately have "max 2 q * segsz tp < 2 ^ 32" using segsz_word(1) [of tp] by (auto simp: max_def)
  then show ?thesis by (simp add: unat_ucast_up unat_word_ariths loss_window_nat segsz_word q_def)
qed

text \<open>C23. A loss halves the window.  On a congestion signal and on a timeout the threshold becomes half the window in flight, in whole
  segments and at least two of them, without overflow; the window becomes the threshold, or one segment after a timeout.  A segment size of 0
  stops the program.\<close>

theorem loss_halves_window:
  "(t_segsz tp = 0 \<longrightarrow> tcp_reno_congestion_exp tp = None \<and> tcp_reno_slow_retransmit tp = None) \<and>
   (t_segsz tp \<noteq> 0 \<longrightarrow> (\<exists>ec sl. tcp_reno_congestion_exp tp = Some ec \<and> tcp_reno_slow_retransmit tp = Some sl \<and>
      unat (snd_ssthresh ec) = max 2 (flight_window tp div 2 div segsz tp) * segsz tp \<and> snd_ssthresh sl = snd_ssthresh ec \<and>
      snd_cwnd ec = snd_ssthresh ec \<and> unat (snd_cwnd sl) = segsz tp \<and>
      (4 * segsz tp \<le> flight_window tp \<longrightarrow> 2 * unat (snd_cwnd ec) \<le> flight_window tp)))"
proof (cases "t_segsz tp = 0")
  case False
  then have "unat (t_segsz tp) \<noteq> 0" by (simp add: unat_eq_0)
  then have z: "0 < segsz tp" by (simp add: segsz_def)
  let ?s = "max 2 (flight_window tp div 2 div segsz tp) * segsz tp"
  obtain ec where ec: "tcp_reno_congestion_exp tp = Some ec" "snd_ssthresh ec = ucast (loss_window tp * ucast (t_segsz tp))" "snd_cwnd ec = snd_ssthresh ec"
    using False by (simp add: tcp_reno_congestion_exp_def Let_def)
  obtain sl where sl: "tcp_reno_slow_retransmit tp = Some sl" "snd_ssthresh sl = ucast (loss_window tp * ucast (t_segsz tp))" "unat (snd_cwnd sl) = segsz tp"
    using False by (simp add: tcp_reno_slow_retransmit_def segsz_word)
  have half: "2 * ?s \<le> flight_window tp" if "4 * segsz tp \<le> flight_window tp"
  proof -
    have "2 \<le> flight_window tp div 2 div segsz tp" using that z by (simp add: less_eq_div_iff_mult_less_eq mult.commute)
    then show ?thesis using whole_segments_le [of "flight_window tp" "segsz tp"] by (simp add: max_def)
  qed
  show ?thesis using False ec sl half loss_threshold [OF z]
    by (intro conjI impI) (simp, simp, rule exI [of _ ec], rule exI [of _ sl], simp)
qed (simp add: tcp_reno_congestion_exp_def tcp_reno_slow_retransmit_def)

section \<open>New data acknowledged\<close>

lemma open_window:
  assumes "unat (snd_scale tp) \<le> 14" "unat (snd_cwnd tp) \<le> max_window tp" "unat incr < 2 ^ 20"
  shows "unat (ucast (umin32 (ucast (snd_cwnd tp) + incr) (push_bit (unat (snd_scale tp)) TCP_MAXWIN)) :: u64) =
    min (unat (snd_cwnd tp) + unat incr) (max_window tp)"
  using assms max_window_word [OF assms(1)] by (simp add: unat_ucast_up unat_umin32 unat_word_ariths ucast_down)

lemma newack_avoidance:
  assumes "unat (snd_scale tp) \<le> 14" "unat (snd_cwnd tp) \<le> max_window tp" "snd_ssthresh tp \<le> snd_cwnd tp"
    "unat a < 2 ^ 31" "unat (t_bytes_acked tp) + unat a < 2 ^ 64" "th_ack th = snd_una tp + a"
  shows "\<exists>tp'. tcp_reno_newack True aggr th tp = Some tp' \<and>
    (let b = unat (t_bytes_acked tp) + unat a; c = unat (snd_cwnd tp)
     in unat (snd_cwnd tp') = (if c \<le> b then min (c + segsz tp) (max_window tp) else c) \<and>
        unat (t_bytes_acked tp') = (if c \<le> b then b - c else b)) \<and>
    tp' = tp\<lparr> snd_cwnd := snd_cwnd tp', t_bytes_acked := t_bytes_acked tp' \<rparr>"
proof -
  note m = max_window_word [OF assms(1)]
  have c: "unat (snd_cwnd tp) < 2 ^ 32" using assms(2) m(2) by simp
  have "sint (th_ack th - snd_una tp) = int (unat a)" using sint_small32 [OF assms(4)] assms(6) by simp
  then have bytes: "unat (t_bytes_acked tp + of_int (sint (th_ack th - snd_una tp))) = unat (t_bytes_acked tp) + unat a"
    using assms(4,5) by (simp add: unat_word_ariths unat_ucast_up)
  have s: "unat (ucast (t_segsz tp) :: u32) < 2 ^ 20"  unfolding segsz_word(2)
    by (rule order_less_le_trans [OF segsz_word(1)]) simp
  show ?thesis using assms(3) bytes c open_window [OF assms(1,2) s] open_window [OF assms(1,2), of 0] assms(2)
    by (auto simp: tcp_reno_newack_def abc_step_def Let_def ucast_up_down word_le_nat_alt unat_sub segsz_word)
qed

text \<open>A sequence of acknowledgements, each of some new bytes, with byte counting on; \<^verbatim>\<open>tcp_input\<close> moves the first byte in flight after each.\<close>

fun ack_run :: "bool \<Rightarrow> u32 list \<Rightarrow> 'a tcpcb_scheme \<Rightarrow> 'a tcpcb_scheme option" where
  "ack_run aggr [] tp = Some tp"
| "ack_run aggr (a # as) tp =
     (case tcp_reno_newack True aggr \<lparr> th_ack = snd_una tp + a, th_flags = TH_ACK \<rparr> tp of
        None \<Rightarrow> None
      | Some tp \<Rightarrow> ack_run aggr as (tp\<lparr> snd_una := snd_una tp + a \<rparr>))"

lemma ack_run_counts:
  assumes "unat (snd_scale tp) \<le> 14" "c \<le> unat (snd_cwnd tp)" "unat (snd_cwnd tp) \<le> max_window tp" "snd_ssthresh tp \<le> snd_cwnd tp"
    "\<forall>a\<in>set as. unat a < 2 ^ 31" "unat (t_bytes_acked tp) + sum_list (map unat as) < 2 ^ 64"
  shows "\<exists>k tp'. ack_run aggr as tp = Some tp' \<and> unat (snd_cwnd tp) \<le> unat (snd_cwnd tp') \<and>
    unat (snd_cwnd tp') \<le> unat (snd_cwnd tp) + k * segsz tp \<and> unat (snd_cwnd tp') \<le> max_window tp \<and>
    k * c + unat (t_bytes_acked tp') \<le> unat (t_bytes_acked tp) + sum_list (map unat as)"
  using assms
proof (induction as arbitrary: tp)
  case Nil
  then show ?case by (intro exI [of _ 0] exI [of _ tp]) simp
next
  case (Cons a as)
  let ?b = "unat (t_bytes_acked tp) + unat a"
  have a: "unat a < 2 ^ 31" "?b < 2 ^ 64" using Cons.prems(5,6) by auto
  obtain tq where q: "tcp_reno_newack True aggr \<lparr> th_ack = snd_una tp + a, th_flags = TH_ACK \<rparr> tp = Some tq"
    "unat (snd_cwnd tq) = (if unat (snd_cwnd tp) \<le> ?b then min (unat (snd_cwnd tp) + segsz tp) (max_window tp) else unat (snd_cwnd tp))"
    "unat (t_bytes_acked tq) = (if unat (snd_cwnd tp) \<le> ?b then ?b - unat (snd_cwnd tp) else ?b)"
    and tq: "tq = tp\<lparr> snd_cwnd := snd_cwnd tq, t_bytes_acked := t_bytes_acked tq \<rparr>"
    using newack_avoidance [OF Cons.prems(1,3,4) a, of "\<lparr> th_ack = snd_una tp + a, th_flags = TH_ACK \<rparr>" aggr] by (auto simp: Let_def)
  define tr where "tr = tq\<lparr> snd_una := snd_una tq + a \<rparr>"
  have eq: "snd_scale tr = snd_scale tp" "snd_ssthresh tr = snd_ssthresh tp" "segsz tr = segsz tp" "max_window tr = max_window tp"
    "snd_cwnd tr = snd_cwnd tq" "t_bytes_acked tr = t_bytes_acked tq"
    unfolding tr_def segsz_def max_window_def by ((subst tq, simp) | simp)+
  have "unat (snd_cwnd tp) \<le> unat (snd_cwnd tq)" using q(2) Cons.prems(3) by auto
  then have "\<exists>k tp'. ack_run aggr as tr = Some tp' \<and> unat (snd_cwnd tr) \<le> unat (snd_cwnd tp') \<and>
      unat (snd_cwnd tp') \<le> unat (snd_cwnd tr) + k * segsz tr \<and> unat (snd_cwnd tp') \<le> max_window tr \<and>
      k * c + unat (t_bytes_acked tp') \<le> unat (t_bytes_acked tr) + sum_list (map unat as)"
    using Cons.prems q(2,3) by (intro Cons.IH) (auto simp: eq word_le_nat_alt)
  then obtain k tp' where k: "ack_run aggr as tr = Some tp'" "unat (snd_cwnd tr) \<le> unat (snd_cwnd tp')"
    "unat (snd_cwnd tp') \<le> unat (snd_cwnd tr) + k * segsz tr" "unat (snd_cwnd tp') \<le> max_window tr"
    "k * c + unat (t_bytes_acked tp') \<le> unat (t_bytes_acked tr) + sum_list (map unat as)" by blast
  then show ?case using q(1-3) Cons.prems(2,3) by (intro exI [of _ "if unat (snd_cwnd tp) \<le> ?b then Suc k else k"] exI [of _ tp'])
      (auto simp: eq tr_def [symmetric])
qed

text \<open>C13. The window grows linearly in congestion avoidance.  While the window is at or above the threshold, any sequence of acknowledgements
  makes it grow by at most one segment for each window of bytes acknowledged, it never shrinks, and it never gets above the largest
  window that the scale factor of the connection allows.\<close>

theorem congestion_avoidance_linear:
  assumes "unat (snd_scale tp) \<le> 14" "unat (snd_cwnd tp) \<le> max_window tp" "snd_ssthresh tp \<le> snd_cwnd tp"
    "\<forall>a\<in>set as. unat a < 2 ^ 31" "unat (t_bytes_acked tp) + sum_list (map unat as) < 2 ^ 64"
  shows "\<exists>tp'. ack_run aggr as tp = Some tp' \<and> snd_cwnd tp \<le> snd_cwnd tp' \<and> unat (snd_cwnd tp') \<le> max_window tp \<and>
    (unat (snd_cwnd tp') - unat (snd_cwnd tp)) * unat (snd_cwnd tp) \<le> segsz tp * (unat (t_bytes_acked tp) + sum_list (map unat as))"
proof -
  let ?c = "unat (snd_cwnd tp)" and ?n = "unat (t_bytes_acked tp) + sum_list (map unat as)"
  obtain k tp' where k: "ack_run aggr as tp = Some tp'" "?c \<le> unat (snd_cwnd tp')" "unat (snd_cwnd tp') \<le> ?c + k * segsz tp"
    "unat (snd_cwnd tp') \<le> max_window tp" "k * ?c + unat (t_bytes_acked tp') \<le> ?n"
    using ack_run_counts [OF assms(1) order_refl assms(2-5), of aggr] by blast
  have "(unat (snd_cwnd tp') - ?c) * ?c \<le> k * segsz tp * ?c" using k(3) by (intro mult_le_mono1) simp
  also have "\<dots> = segsz tp * (k * ?c)" by simp
  also have "\<dots> \<le> segsz tp * ?n" using k(5) by (intro mult_le_mono2) simp
  finally show ?thesis using k by (auto simp: word_le_nat_alt)
qed

section \<open>Partial acknowledgements\<close>

text \<open>C29. A small partial acknowledgement blows the window up.  In fast recovery, a partial acknowledgement of less than a segment
  subtracts the wrapped 32-bit difference from the 64-bit window, which is then beyond every real window; only code that truncates
  the window to 32 bits sees the intended value.\<close>

theorem partial_ack_inflates_window:
  assumes out: "\<And>t. snd_una (tcp_output t) = snd_una t \<and> t_segsz (tcp_output t) = t_segsz t"
    and "0 \<le> sint (t_partialacks tp)" "SEQ_LT (th_ack th) (snd_recover tp)" "unat (th_ack th - snd_una tp) < segsz tp" "unat (snd_cwnd tp) < 2 ^ 31"
  shows "let tp' = tcp_newreno_fast_retransmit_newack tcp_output th tp;
             intended = unat (snd_cwnd tp) + segsz tp - unat (th_ack th - snd_una tp)
         in unat (snd_cwnd tp') = 2 ^ 64 - 2 ^ 32 + intended \<and> unat (ucast (snd_cwnd tp') :: u32) = intended"
proof -
  let ?a = "unat (th_ack th - snd_una tp)" and ?z = "segsz tp" and ?c = "unat (snd_cwnd tp)"
  let ?d = "th_ack th - snd_una tp - ucast (t_segsz tp)"
  have z: "?z < 65536" by (rule segsz_word)
  have "unat ?d = 2 ^ 32 - (?z - ?a)"
    using assms(4) z unat_sub_if' [of "th_ack th - snd_una tp" "ucast (t_segsz tp)"] by (simp add: segsz_word)
  then have d: "unat (ucast ?d :: u64) = 2 ^ 32 - (?z - ?a)" by (simp only: unat_ucast_up)
  have "unat (snd_cwnd tp - ucast ?d) = 2 ^ 64 + ?c - (2 ^ 32 - (?z - ?a))"
    using d assms(4,5) z by (subst unat_sub_if') auto
  then have w: "unat (snd_cwnd tp - ucast ?d) = 2 ^ 64 - 2 ^ 32 + (?c + ?z - ?a)" using assms(4) z by simp
  have "snd_cwnd (tcp_newreno_fast_retransmit_newack tcp_output th tp) = snd_cwnd tp - ucast ?d"
    using assms(2,3) by (auto simp: tcp_newreno_fast_retransmit_newack_def Let_def out)
  moreover have "unat (ucast (snd_cwnd tp - ucast ?d) :: u32) = ?c + ?z - ?a"
  proof -
    have "unat (ucast (snd_cwnd tp - ucast ?d) :: u32) = unat (snd_cwnd tp - ucast ?d) mod 2 ^ 32" by (simp add: unsigned_ucast_eq take_bit_eq_mod)
    moreover have "(2 ^ 64 - 2 ^ 32 + i) mod 2 ^ 32 = i" if "i < 2 ^ 32" for i :: nat
      using that mod_mult_self3 [of "2 ^ 32 - 1" "2 ^ 32 :: nat" i] by simp
    moreover have "?c + ?z - ?a < 2 ^ 32" using assms(5) z by simp
    ultimately show ?thesis unfolding w by metis
  qed
  ultimately show ?thesis using w by (simp add: Let_def)
qed

section \<open>Concrete states\<close>

definition small_tcpcb :: tcpcb where
  "small_tcpcb = \<lparr> t_flags = 0, t_segsz = 1460, t_dupacks = 3, t_partialacks = 0, t_rtttime = 0, rexmt_armed = True,
     t_segqlen = 0, snd_una = 10000, snd_nxt = 20000, snd_max = 20000, snd_recover = 20000, snd_high = 10000, snd_wnd = 65535,
     snd_cwnd = 7300, snd_ssthresh = 2920, t_bytes_acked = 0, snd_scale = 0, rcv_sack_flags = 0,
     rcv_dsack_block = \<lparr> left = 0, right = 0 \<rparr>, snd_holes = [], snd_numholes = 0, rcv_lastsack = 0, sack_newdata = 0, snd_fack = 10000 \<rparr>"

theorem loss_halves_window_witness:
  "\<exists>ec. tcp_reno_congestion_exp small_tcpcb = Some ec \<and> unat (snd_cwnd ec) = 2920"
  using loss_halves_window [of small_tcpcb] by (auto simp: small_tcpcb_def flight_window_def segsz_def)

theorem congestion_avoidance_linear_witness:
  "\<exists>tp'. ack_run True [1460, 1460, 1460, 1460, 1460] small_tcpcb = Some tp' \<and> snd_cwnd small_tcpcb \<le> snd_cwnd tp' \<and>
     unat (snd_cwnd tp') \<le> 65535 \<and> (unat (snd_cwnd tp') - 7300) * 7300 \<le> 1460 * 7300"
  using congestion_avoidance_linear [of small_tcpcb "[1460, 1460, 1460, 1460, 1460]" True]
  by (simp add: small_tcpcb_def max_window_def segsz_def)

theorem partial_ack_inflates_window_witness:
  "unat (snd_cwnd (tcp_newreno_fast_retransmit_newack id \<lparr> th_ack = 11000, th_flags = TH_ACK \<rparr> small_tcpcb)) = 2 ^ 64 - 2 ^ 32 + 7760"
  using partial_ack_inflates_window [of id small_tcpcb "\<lparr> th_ack = 11000, th_flags = TH_ACK \<rparr>"]
  by (simp add: small_tcpcb_def segsz_def SEQ_LT_def Let_def)

text \<open>The initialisation registers both algorithms and selects NewReno.\<close>

lemma congctl_init_selects_newreno:
  "map_option (\<lambda>g. (tcp_congctl_global g, tcp_congctl_global_name g, tcp_congctl_avail g))
     (tcp_congctl_init \<lparr> ent_addr = 1, congctl_ctl = 0, congctl_refcnt = 7, congctl_name = [] \<rparr>
        \<lparr> ent_addr = 2, congctl_ctl = 0, congctl_refcnt = 9, congctl_name = [] \<rparr> 10 20 \<lparr> tcp_congctlhd = [], tcp_congctl_global = None, tcp_congctl_global_name = [], tcp_congctl_avail = [],
        t_congctl = Map.empty \<rparr>) = Some (Some 2, ''newreno'', ''reno newreno'')"
  by code_simp

end
