(* ===== verification/Mbuf_Chains.thy ===== *)
theory Mbuf_Chains
  imports Mbuf
begin

text \<open>
  Chains of mbufs that are joined and trimmed, as the reassembly of IP datagrams and of TCP segments does it: what
  \<^verbatim>\<open>m_cat\<close> and \<^verbatim>\<open>m_adj\<close> do to the bytes of their chains, and that they leave everything else alone.
\<close>

lemma cbytes_same: "(\<And>a. a \<in> set cs \<Longrightarrow> mbufs t a = mbufs s a) \<Longrightarrow> dmem t = dmem s \<Longrightarrow> cbytes t cs = cbytes s cs"
  by (induction cs) (auto simp: mbytes_def)

section \<open>Concatenation\<close>

lemma mbuf_inv_fields:
  assumes "mbuf_inv M U used e s" "mb_cache t = mb_cache s" "rmb t = rmb s" "rpool t = rpool s"
    "\<And>a. m_paddr (mbufs t a) = m_paddr (mbufs s a)"
  shows "mbuf_inv M U used e t"
  by (rule mbuf_inv_same [OF assms(1,2,5)]) (use assms in \<open>auto simp: mbuf_inv_def intro: rmb_inv_cong\<close>)

text \<open>The loop of \<^verbatim>\<open>m_cat\<close> links the second chain behind the mbuf \<^term>\<open>l\<close>; leading mbufs without data are freed.\<close>

lemma cat_loop_spec:
  assumes "mchain s n bs" "l \<notin> set bs" "set bs \<subseteq> used" "mbuf_inv M U used e s" "m_next (mbufs s l) = None"
  shows "\<exists>t pre post. cat_loop l n s = Some t \<and> bs = pre @ post \<and> (\<forall>a\<in>set pre. m_len (mbufs s a) = 0) \<and>
    mbufs t l = (mbufs s l)\<lparr> m_next := (if post = [] then None else Some (hd post)) \<rparr> \<and>
    (\<forall>a. a \<noteq> l \<and> a \<notin> set pre \<longrightarrow> mbufs t a = mbufs s a) \<and> dmem t = dmem s \<and> mbuf_inv M U (used - set pre) e t"
  using assms
proof (induction bs arbitrary: n s used)
  case Nil
  then show ?case by (intro exI [of _ s] exI [of _ "[]"]) (simp add: cat_loop.simps)
next
  case (Cons b bs)
  have n: "n = Some b" "0 \<le> m_len (mbufs s b)" "mchain s (m_next (mbufs s b)) bs" and d: "distinct (b # bs)" "l \<noteq> b"
    using Cons.prems mchain_distinct [OF Cons.prems(1)] by (auto simp: mchain_Cons)
  show ?case
  proof (cases "M_READONLY l s \<or> m_len (mbufs s b) > M_TRAILINGSPACE (mbufs s l)")
    case True
    let ?t = "upd_m l (\<lambda>x. x\<lparr> m_next := Some b \<rparr>) s"
    have "mbuf_inv M U used e ?t" by (rule mbuf_inv_fields [OF Cons.prems(4)]) simp_all
    then show ?thesis using True n(1)
      by (rule_tac exI [of _ ?t], rule_tac exI [of _ "[]"], rule_tac exI [of _ "b # bs"]) (simp add: cat_loop.simps [of l "Some b" s])
  next
    case False
    then have z: "m_len (mbufs s b) = 0" using n(2) by (simp add: M_TRAILINGSPACE_def)
    let ?u = "memcpy (nat (int (mtod (mbufs s l)) + m_len (mbufs s l))) (mtod (mbufs s b)) (m_len (mbufs s b)) s"
    define v where "v = upd_m l (\<lambda>x. x\<lparr> m_len := m_len x + m_len (mbufs ?u b) \<rparr>) ?u"
    have v: "mbufs v = mbufs s" "dmem v = dmem s" using z by (auto simp: v_def memcpy_def)
    have inv: "mbuf_inv M U used e v" by (rule mbuf_inv_fields [OF Cons.prems(4)]) (simp_all add: v_def memcpy_def)
    let ?w = "snd (MFREE b v)"
    have w: "fst (MFREE b v) = m_next (mbufs s b)" "\<And>a. a \<noteq> b \<Longrightarrow> mbufs ?w a = mbufs s a" "dmem ?w = dmem s" "mbuf_inv M U (used - {b}) e ?w"
      using MFREE_heap(1,3) [of b v] MFREE_heap(2) [of _ b v] MFREE_inv [OF inv] Cons.prems(3) v by auto
    have "mchain ?w (m_next (mbufs s b)) bs" by (rule mchain_cong [OF n(3)]) (use d w(2) in \<open>metis distinct.simps(2)\<close>)
    moreover have "l \<notin> set bs" "set bs \<subseteq> used - {b}" "m_next (mbufs ?w l) = None" using Cons.prems(2,3,5) d w(2) [of l] by auto
    ultimately obtain t pre post where t: "cat_loop l (m_next (mbufs s b)) ?w = Some t" "bs = pre @ post"
      "\<forall>a\<in>set pre. m_len (mbufs ?w a) = 0" "mbufs t l = (mbufs ?w l)\<lparr> m_next := (if post = [] then None else Some (hd post)) \<rparr>"
      "\<forall>a. a \<noteq> l \<and> a \<notin> set pre \<longrightarrow> mbufs t a = mbufs ?w a" "dmem t = dmem ?w" "mbuf_inv M U (used - {b} - set pre) e t"
      using Cons.IH [of ?w "m_next (mbufs s b)" "used - {b}"] w(4) by blast
    have "cat_loop l n s = cat_loop l (m_next (mbufs s b)) ?w"
      using False n(1) w(1) by (subst cat_loop.simps) (simp add: Let_def v_def [symmetric] m_free_def split_beta)
    moreover have "used - {b} - set pre = used - set (b # pre)" by auto
    moreover have "\<forall>a\<in>set pre. m_len (mbufs s a) = 0"
    proof
      fix a assume a: "a \<in> set pre"
      then have "a \<noteq> b" using d(1) t(2) by auto
      from w(2) [OF this] show "m_len (mbufs s a) = 0" using t(3) a by (metis (no_types))
    qed
    ultimately show ?thesis using t(1,2,4-) w(2,3) d z
      by (rule_tac exI [of _ t], rule_tac exI [of _ "b # pre"], rule_tac exI [of _ post]) auto
  qed
qed

lemma zero_bytes: "\<forall>a\<in>set pre. m_len (mbufs s a) = 0 \<Longrightarrow> cbytes s pre = []"
  by (induction pre) (auto simp: mbytes_def)

lemma m_cat_spec:
  assumes "mchain s (Some m) (m # as)" "mchain s n bs" "set (m # as) \<inter> set bs = {}" "set bs \<subseteq> used" "mbuf_inv M U used e s"
  shows "\<exists>t post. m_cat m n s = Some t \<and> mchain t (Some m) (m # as @ post) \<and> set post \<subseteq> set bs \<and>
    cbytes t (m # as @ post) = cbytes s (m # as) @ cbytes s bs \<and>
    (\<forall>a. a \<notin> set (m # as) \<and> a \<notin> set bs \<longrightarrow> mbufs t a = mbufs s a) \<and>
    (\<forall>a\<in>set (m # as @ post). \<exists>x. mbufs t a = (mbufs s a)\<lparr> m_next := x \<rparr>) \<and>
    dmem t = dmem s \<and> mbuf_inv M U (used - (set bs - set post)) e t"
proof -
  define l where "l = last (m # as)"
  have lm: "m_last (mbufs s) m = Some l" using m_last_spec [of "mbufs s" m as] assms(1) by (simp add: mchain_def l_def)
  have dist: "distinct (m # as)" "distinct bs" using mchain_distinct assms(1,2) by blast+
  have lk: "linked (m_nexts s) (Some m) (m # as)" using assms(1) by (simp add: mchain_def)
  have ln: "m_next (mbufs s l) = None" using linked_append [of "m # as" "m_nexts s" "Some m" "[]"] lk dist by (simp add: l_def)
  have "l \<in> set (m # as)" unfolding l_def by (rule last_in_set) simp
  then have lb: "l \<in> set (m # as)" "l \<notin> set bs" using assms(3) by auto
  obtain t pre post where t: "cat_loop l n s = Some t" "bs = pre @ post" "\<forall>a\<in>set pre. m_len (mbufs s a) = 0"
    "mbufs t l = (mbufs s l)\<lparr> m_next := (if post = [] then None else Some (hd post)) \<rparr>"
    "\<forall>a. a \<noteq> l \<and> a \<notin> set pre \<longrightarrow> mbufs t a = mbufs s a" "dmem t = dmem s" "mbuf_inv M U (used - set pre) e t"
    using cat_loop_spec [OF assms(2) lb(2) assms(4,5) ln] by blast
  have out: "a \<notin> set pre \<Longrightarrow> mbufs t a = (mbufs s a)\<lparr> m_next := m_next (mbufs t a) \<rparr>" for a using t(4,5) by (cases "a = l") auto
  have "linked (m_nexts t) (if post = [] then None else Some (hd post)) post"
  proof -
    have "\<exists>q. linked (m_nexts s) q post \<and> (post \<noteq> [] \<longrightarrow> q = Some (hd post))"
      using assms(2) t(2) by (intro linked_suffix [of "m_nexts s" n pre]) (simp add: mchain_def)
    then show ?thesis using t(2,5) lb(2) dist(2) by (cases post) (auto intro!: linked_cong [of "m_nexts s"])
  qed
  moreover have "linked ((m_nexts t)(l := None)) (Some m) (m # as)"
  proof (rule linked_cong [OF lk])
    fix x assume "x \<in> set (m # as)"
    then have "x \<notin> set pre" using assms(3) t(2) by auto
    then show "((m_nexts t)(l := None)) x = m_nexts s x" using t(5) ln by (cases "x = l") auto
  qed
  ultimately have "linked (m_nexts t) (Some m) (m # as @ post)"
    using linked_append [of "m # as" "m_nexts t" "Some m" post] dist t(4) by (simp add: l_def)
  moreover have len: "m_len (mbufs t a) = m_len (mbufs s a) \<and> mbytes t a = mbytes s a" if "a \<in> set (m # as @ post)" for a
  proof -
    have "a \<notin> set pre" using that assms(3) t(2) dist(2) by auto
    then show ?thesis using out [of a] t(6) by (metis mbytes_def mbuf.select_convs(3,4) mbuf.surjective mbuf.update_convs(1))
  qed
  ultimately have ch: "mchain t (Some m) (m # as @ post)" using assms(1,2) t(2) by (auto simp: mchain_def)
  have "cbytes t (m # as @ post) = cbytes s (m # as @ post)" unfolding cbytes_def using len by (metis map_cong)
  then have "cbytes t (m # as @ post) = cbytes s (m # as) @ cbytes s bs" using t(2,3) zero_bytes [of pre s] by simp
  moreover have "set bs - set post = set pre" using t(2) dist(2) by auto
  moreover have "\<forall>a. a \<notin> set (m # as) \<and> a \<notin> set bs \<longrightarrow> mbufs t a = mbufs s a" using t(2,5) lb(1) by auto
  moreover have "\<forall>a\<in>set (m # as @ post). \<exists>x. mbufs t a = (mbufs s a)\<lparr> m_next := x \<rparr>"
  proof
    fix a assume "a \<in> set (m # as @ post)"
    then have "a \<notin> set pre" using assms(3) t(2) dist(2) by auto
    from out [OF this] show "\<exists>x. mbufs t a = (mbufs s a)\<lparr> m_next := x \<rparr>" by blast
  qed
  moreover have "m_cat m n s = Some t" using t(1) lm by (simp add: m_cat_def)
  ultimately show ?thesis using ch t(2,6,7) by (rule_tac exI [of _ t], rule_tac exI [of _ post]) simp
qed

text \<open>Concatenation may start at any mbuf of the chain.\<close>

lemma m_last_inside:
  assumes "linked (m_nexts s) (Some m) as" "l \<in> set as"
  shows "m_last (mbufs s) l = Some (last as)"
proof -
  obtain us vs where as: "as = us @ l # vs" using split_list [OF assms(2)] by blast
  have "linked (m_nexts s) (Some l) (l # vs)" using linked_suffix [of "m_nexts s" "Some m" us "l # vs"] assms(1) as by auto
  from m_last_spec [OF this] show ?thesis by (simp add: as)
qed

lemma m_cat_inside:
  assumes "mchain s (Some m) (m # as)" "l \<in> set (m # as)"
  shows "m_cat l n s = m_cat m n s"
  using m_last_inside [of s m "m # as"] assms by (simp add: m_cat_def mchain_def)

lemma more_m_cat: "m_cat l n s = Some t \<Longrightarrow> mstate.more t = mstate.more s"
proof -
  have "cat_loop m n s = Some t \<Longrightarrow> mstate.more t = mstate.more s" for m
    by (erule cat_loop.raw_induct [where P = "\<lambda>m n s t. mstate.more t = mstate.more s", rotated])
      (auto simp: Let_def case_prod_beta m_free_def memcpy_def split: option.splits if_splits)
  then show "m_cat l n s = Some t \<Longrightarrow> mstate.more t = mstate.more s" by (auto simp: m_cat_def split: bind_splits)
qed

end
