(* ===== verification/Ip_Reass.thy ===== *)
theory Ip_Reass
  imports Mbuf_Chains
begin

unbundle bit_operations_syntax

text \<open>
  Reassembly of IP datagrams (\<^verbatim>\<open>netinet/ip_reass.c\<close>): queues of fragments in a hash table,
  the placing of a fragment among those that overlap it, the completed datagram, and the ageing of the queues.  The
  properties: a datagram that was cut into fragments comes out whole, whatever the order in which the fragments arrive, and
  not before the last of them; and the counters of fragments and datagrams stay right.

  The header of a fragment is a record at an address of its own; its 16-bit fields hold the values that the code gets
  with \<^verbatim>\<open>ntohs\<close>.  The bytes of the packet are those of the mbufs.  The pool of queue entries and the
  memory for queues are the numbers of entries that are left.
\<close>

section \<open>Data\<close>

record ip =
  ip_hl :: nat
  ip_tos :: "8 word"
  ip_len :: u16
  ip_id :: u16
  ip_off :: u16
  ip_p :: "8 word"
  ip_src :: u32
  ip_dst :: u32

record ipfr_qent =
  ipqe_ip :: addr
  ipqe_m :: addr
  ipqe_mff :: bool

record ipfr_queue =
  ipq_fragq :: "ipfr_qent list"
  ipq_ttl :: nat
  ipq_p :: "8 word"
  ipq_id :: u16
  ipq_src :: u32
  ipq_dst :: u32
  ipq_nfrags :: u16
  ipq_tos :: "8 word"

record reass =
  iphdr :: "addr \<Rightarrow> ip"
  ip_frags :: "nat \<Rightarrow> ipfr_queue list"
  ip_nfragpackets :: int
  ip_nfrags :: int
  ip_maxfragpackets :: int
  ip_maxfrags :: int
  ip_nmbclusters :: int
  dropscanidx :: nat
  ipfren_cache :: nat
  ftable_room :: nat

definition IPREASS_HASH_SIZE :: nat where "IPREASS_HASH_SIZE = 64"
definition IPFRAGTTL :: nat where "IPFRAGTTL = 60"
definition IP_MAXPACKET :: int where "IP_MAXPACKET = 65535"
definition IP_MINFRAGSIZE :: int where "IP_MINFRAGSIZE = 69"
definition IP_MF :: u16 where "IP_MF = 0x2000"
definition IP_OFFMASK :: u16 where "IP_OFFMASK = 0x1fff"

definition IPREASS_HASH :: "u32 \<Rightarrow> u16 \<Rightarrow> nat" where
  "IPREASS_HASH x y = unat ((((x AND 0xf) OR push_bit 4 (drop_bit 8 x AND 0xf)) XOR ucast y) AND 63)"

definition ENOMEM :: int where "ENOMEM = 12"

text \<open>Offset and length of a fragment in the queue.\<close>

definition qoff :: "reass \<Rightarrow> ipfr_qent \<Rightarrow> int" where "qoff r q = uint (ip_off (iphdr r (ipqe_ip q)))"
definition qlen :: "reass \<Rightarrow> ipfr_qent \<Rightarrow> int" where "qlen r q = uint (ip_len (iphdr r (ipqe_ip q)))"

definition upd_ip :: "addr \<Rightarrow> (ip \<Rightarrow> ip) \<Rightarrow> reass \<Rightarrow> reass" where
  "upd_ip a f r = r\<lparr> iphdr := (iphdr r)(a := f (iphdr r a)) \<rparr>"

definition upd_queue :: "nat \<Rightarrow> nat \<Rightarrow> (ipfr_queue \<Rightarrow> ipfr_queue) \<Rightarrow> reass \<Rightarrow> reass" where
  "upd_queue bkt k f r = r\<lparr> ip_frags := (ip_frags r)(bkt := (ip_frags r bkt)[k := f (ip_frags r bkt ! k)]) \<rparr>"

definition remove_queue :: "nat \<Rightarrow> nat \<Rightarrow> reass \<Rightarrow> reass" where
  "remove_queue bkt k r = r\<lparr> ip_frags := (ip_frags r)(bkt := take k (ip_frags r bkt) @ drop (Suc k) (ip_frags r bkt)) \<rparr>"

section \<open>Initialisation\<close>

definition ip_nmbclusters_changed :: "int \<Rightarrow> reass \<Rightarrow> reass" where
  "ip_nmbclusters_changed nmbclusters r = r\<lparr> ip_maxfrags := nmbclusters div 4, ip_nmbclusters := nmbclusters \<rparr>"

text \<open>The second argument of \<^verbatim>\<open>pool_cache_init\<close> is the number of entries in this port.\<close>

definition ip_reass_init :: "nat \<Rightarrow> int \<Rightarrow> reass \<Rightarrow> reass" where
  "ip_reass_init coherency_unit nmbclusters r =
     ip_nmbclusters_changed nmbclusters
       (r\<lparr> ipfren_cache := coherency_unit,
           ip_frags := (\<lambda>i. if i < IPREASS_HASH_SIZE then [] else ip_frags r i), ip_maxfragpackets := 200, ip_maxfrags := 0 \<rparr>)"

section \<open>Dropping\<close>

text \<open>The fragments of a queue are freed one by one.\<close>

fun free_frags :: "ipfr_qent list \<Rightarrow> reass \<Rightarrow> 'a mstate_scheme \<Rightarrow> (reass \<times> 'a mstate_scheme) option" where
  "free_frags [] r s = Some (r, s)"
| "free_frags (q # qs) r s =
     do { s \<leftarrow> m_freem (Some (ipqe_m q)) s; free_frags qs (r\<lparr> ipfren_cache := ipfren_cache r + 1 \<rparr>) s }"

definition ip_freef :: "nat \<Rightarrow> nat \<Rightarrow> reass \<Rightarrow> 'a mstate_scheme \<Rightarrow> (reass \<times> 'a mstate_scheme) option" where
  "ip_freef bkt k r s =
     do {
       let fp = ip_frags r bkt ! k;
       let r = remove_queue bkt k r;
       let r = r\<lparr> ip_nfrags := ip_nfrags r - uint (ipq_nfrags fp), ip_nfragpackets := ip_nfragpackets r - 1 \<rparr>;
       (r, s) \<leftarrow> free_frags (ipq_fragq fp) r s;
       Some (r\<lparr> ftable_room := ftable_room r + 1 \<rparr>, s)
     }"

text \<open>The label \<^verbatim>\<open>dropfrag\<close>.\<close>

definition dropfrag ::
  "ipfr_qent \<Rightarrow> (nat \<times> nat) option \<Rightarrow> reass \<Rightarrow> 'a mstate_scheme \<Rightarrow> (addr option \<times> reass \<times> 'a mstate_scheme) option" where
  "dropfrag ipqe fp r s =
     do {
       let r = (case fp of None \<Rightarrow> r | Some (bkt, k) \<Rightarrow> upd_queue bkt k (\<lambda>q. q\<lparr> ipq_nfrags := ipq_nfrags q - 1 \<rparr>) r);
       let r = r\<lparr> ip_nfrags := ip_nfrags r - 1, ipfren_cache := ipfren_cache r + 1 \<rparr>;
       s \<leftarrow> m_freem (Some (ipqe_m ipqe)) s;
       Some (None, r, s)
     }"

section \<open>Completing a datagram\<close>

text \<open>Whether the fragments follow each other without a gap, and where they end.\<close>

fun reass_next :: "reass \<Rightarrow> ipfr_qent list \<Rightarrow> int \<Rightarrow> int option" where
  "reass_next r [] next = Some next"
| "reass_next r (q # qs) next = (if qoff r q \<noteq> next then None else reass_next r qs (next + qlen r q))"

fun cat_frags :: "addr \<Rightarrow> ipfr_qent list \<Rightarrow> reass \<Rightarrow> 'a mstate_scheme \<Rightarrow> (reass \<times> 'a mstate_scheme) option" where
  "cat_frags m [] r s = Some (r, s)"
| "cat_frags m (q # qs) r s =
     do { s \<leftarrow> m_cat m (Some (ipqe_m q)) s; cat_frags m qs (r\<lparr> ipfren_cache := ipfren_cache r + 1 \<rparr>) s }"

partial_function (option) chain_len :: "(addr \<Rightarrow> mbuf) \<Rightarrow> addr option \<Rightarrow> int \<Rightarrow> int option" where
  "chain_len h t plen = (case t of None \<Rightarrow> Some plen | Some a \<Rightarrow> chain_len h (m_next (h a)) (plen + m_len (h a)))"

text \<open>The length in the packet header is that of the whole chain.\<close>

definition fix_pkthdr :: "addr \<Rightarrow> 'a mstate_scheme \<Rightarrow> 'a mstate_scheme option" where
  "fix_pkthdr m s =
     (if has_flag M_PKTHDR (mbufs s m)
      then do {
        plen \<leftarrow> chain_len (mbufs s) (Some m) 0;
        Some (upd_m m (\<lambda>b. b\<lparr> m_pkthdr := (m_pkthdr b)\<lparr> ph_len := plen, csum_flags := 0 \<rparr> \<rparr>) s)
      }
      else Some s)"

definition complete_datagram ::
  "ipfr_queue \<Rightarrow> int \<Rightarrow> reass \<Rightarrow> 'a mstate_scheme \<Rightarrow> (addr option \<times> reass \<times> 'a mstate_scheme) option" where
  "complete_datagram fp next r s =
     (let q = hd (ipq_fragq fp); ip = ipqe_ip q; m = ipqe_m q; hl = 4 * ip_hl (iphdr r ip)
      in do {
        let t = m_next (mbufs s m);
        let s = upd_m m (\<lambda>b. b\<lparr> m_next := None \<rparr>) s;
        s \<leftarrow> m_cat m t s;
        (r, s) \<leftarrow> cat_frags m (tl (ipq_fragq fp)) (r\<lparr> ipfren_cache := ipfren_cache r + 1 \<rparr>) s;
        let r = upd_ip ip (\<lambda>h. h\<lparr> ip_len := of_int (int hl + next), ip_src := ipq_src fp, ip_dst := ipq_dst fp \<rparr>) r;
        let r = r\<lparr> ftable_room := ftable_room r + 1 \<rparr>;
        let s = upd_m m (\<lambda>b. b\<lparr> m_len := m_len b + int hl, m_data := m_data b - hl \<rparr>) s;
        s \<leftarrow> fix_pkthdr m s;
        Some (Some m, r, s)
      })"

definition check_complete ::
  "nat \<Rightarrow> nat \<Rightarrow> reass \<Rightarrow> 'a mstate_scheme \<Rightarrow> (addr option \<times> reass \<times> 'a mstate_scheme) option" where
  "check_complete bkt k r s =
     (let fp = ip_frags r bkt ! k
      in case reass_next r (ipq_fragq fp) 0 of
           None \<Rightarrow> Some (None, r, s)
         | Some next \<Rightarrow>
             if ipqe_mff (last (ipq_fragq fp)) then Some (None, r, s)
             else if next + 4 * int (ip_hl (iphdr r (ipqe_ip (hd (ipq_fragq fp))))) > IP_MAXPACKET
             then do { (r, s) \<leftarrow> ip_freef bkt k r s; Some (None, r, s) }
             else let r = remove_queue bkt k r;
                      r = r\<lparr> ip_nfrags := ip_nfrags r - uint (ipq_nfrags fp), ip_nfragpackets := ip_nfragpackets r - 1 \<rparr>
                  in complete_datagram fp next r s)"

section \<open>A fragment\<close>

text \<open>Later fragments that overlap the new one are trimmed or removed.\<close>

fun trim_later ::
  "addr \<Rightarrow> nat \<Rightarrow> nat \<Rightarrow> ipfr_qent list \<Rightarrow> reass \<Rightarrow> 'a mstate_scheme \<Rightarrow> (ipfr_qent list \<times> reass \<times> 'a mstate_scheme) option" where
  "trim_later ip bkt k [] r s = Some ([], r, s)"
| "trim_later ip bkt k (q # qs) r s =
     (let stop = uint (ip_off (iphdr r ip)) + uint (ip_len (iphdr r ip)); i = stop - qoff r q
      in if stop \<le> qoff r q then Some (q # qs, r, s)
         else if i < qlen r q
         then do {
           let r = upd_ip (ipqe_ip q) (\<lambda>h. h\<lparr> ip_len := ip_len h - of_int i, ip_off := ip_off h + of_int i \<rparr>) r;
           s \<leftarrow> m_adj (Some (ipqe_m q)) i s;
           Some (q # qs, r, s)
         }
         else do {
           s \<leftarrow> m_freem (Some (ipqe_m q)) s;
           let r = r\<lparr> ipfren_cache := ipfren_cache r + 1 \<rparr>;
           let r = upd_queue bkt k (\<lambda>f. f\<lparr> ipq_nfrags := ipq_nfrags f - 1 \<rparr>) r;
           let r = r\<lparr> ip_nfrags := ip_nfrags r - 1 \<rparr>;
           trim_later ip bkt k qs r s
         })"

text \<open>A fragment for the queue at position \<^term>\<open>k\<close> of its bucket.  The data that the preceding fragment has already is taken off the new one.\<close>

definition place_fragment ::
  "ipfr_qent \<Rightarrow> nat \<Rightarrow> nat \<Rightarrow> reass \<Rightarrow> 'a mstate_scheme \<Rightarrow> (addr option \<times> reass \<times> 'a mstate_scheme) option" where
  "place_fragment ipqe bkt k r s =
     (let ip = ipqe_ip ipqe;
          fragq = ipq_fragq (ip_frags r bkt ! k);
          before = takeWhile (\<lambda>q. qoff r q \<le> qoff r ipqe) fragq;
          after = dropWhile (\<lambda>q. qoff r q \<le> qoff r ipqe) fragq;
          i = (if before = [] then 0 else qoff r (last before) + qlen r (last before) - qoff r ipqe)
      in if i > 0 \<and> i \<ge> qlen r ipqe then dropfrag ipqe (Some (bkt, k)) r s
         else do {
           (r, s) \<leftarrow> (if i > 0
             then do {
               s \<leftarrow> m_adj (Some (ipqe_m ipqe)) i s;
               Some (upd_ip ip (\<lambda>h. h\<lparr> ip_off := ip_off h + of_int i, ip_len := ip_len h - of_int i \<rparr>) r, s)
             }
             else Some (r, s));
           (after, r, s) \<leftarrow> trim_later ip bkt k after r s;
           check_complete bkt k (upd_queue bkt k (\<lambda>f. f\<lparr> ipq_fragq := before @ ipqe # after \<rparr>) r) s
         })"

definition ip_reass ::
  "ipfr_qent \<Rightarrow> nat option \<Rightarrow> nat \<Rightarrow> reass \<Rightarrow> 'a mstate_scheme \<Rightarrow> (addr option \<times> reass \<times> 'a mstate_scheme) option" where
  "ip_reass ipqe fp bkt r s =
     (let ip = iphdr r (ipqe_ip ipqe);
          hlen = 4 * ip_hl ip;
          s = upd_m (ipqe_m ipqe) (\<lambda>b. b\<lparr> m_data := m_data b + hlen, m_len := m_len b - int hlen \<rparr>) s;
          r = r\<lparr> ip_nfrags := ip_nfrags r + 1 \<rparr>
      in case fp of
           None \<Rightarrow>
             if 0 \<le> ip_maxfragpackets r \<and> ip_nfragpackets r \<ge> ip_maxfragpackets r then dropfrag ipqe None r s
             else if ftable_room r = 0 then dropfrag ipqe None r s
             else let q = \<lparr> ipq_fragq = [ipqe], ipq_ttl = IPFRAGTTL, ipq_p = ip_p ip, ipq_id = ip_id ip, ipq_src = ip_src ip,
                            ipq_dst = ip_dst ip, ipq_nfrags = 1, ipq_tos = ip_tos ip \<rparr>;
                      r = r\<lparr> ftable_room := ftable_room r - 1, ip_nfragpackets := ip_nfragpackets r + 1,
                             ip_frags := (ip_frags r)(bkt := q # ip_frags r bkt) \<rparr>
                  in check_complete bkt 0 r s
         | Some k \<Rightarrow> place_fragment ipqe bkt k (upd_queue bkt k (\<lambda>f. f\<lparr> ipq_nfrags := ipq_nfrags f + 1 \<rparr>) r) s)"

text \<open>The queue of the datagram that a fragment belongs to.\<close>

definition same_datagram :: "ip \<Rightarrow> ipfr_queue \<Rightarrow> bool" where
  "same_datagram ip fp \<longleftrightarrow> ip_id ip = ipq_id fp \<and> ip_src ip = ipq_src fp \<and> ip_dst ip = ipq_dst fp \<and> ip_p ip = ipq_p fp"

fun find_queue :: "ip \<Rightarrow> ipfr_queue list \<Rightarrow> nat \<Rightarrow> nat option" where
  "find_queue ip [] k = None"
| "find_queue ip (fp # fps) k = (if same_datagram ip fp then Some k else find_queue ip fps (Suc k))"

text \<open>The error code and the packet, which is the one passed in when an error is returned.\<close>

definition ip_reass_packet ::
  "addr \<Rightarrow> addr \<Rightarrow> reass \<Rightarrow> 'a mstate_scheme \<Rightarrow> (int \<times> addr option \<times> reass \<times> 'a mstate_scheme) option" where
  "ip_reass_packet m ip r s =
     (let h = iphdr r ip; hlen = 4 * ip_hl h; len = uint (ip_len h);
          off = 8 * uint (ip_off h AND IP_OFFMASK);
          flen = u_int (len - int hlen);
          mff = (ip_off h AND IP_MF \<noteq> 0)
      in if (if off > 0 then off + int hlen else len) < IP_MINFRAGSIZE - 1 then Some (EINVAL, Some m, r, s)
         else if mff \<and> (flen = 0 \<or> flen mod 8 \<noteq> 0) then Some (EINVAL, Some m, r, s)
         else let r = upd_ip ip (\<lambda>h. h\<lparr> ip_len := of_int flen, ip_off := of_int off \<rparr>) r;
                  bkt = IPREASS_HASH (ip_src h) (ip_id h);
                  fp = find_queue (iphdr r ip) (ip_frags r bkt) 0
              in if (case fp of None \<Rightarrow> False | Some k \<Rightarrow> ipq_tos (ip_frags r bkt ! k) \<noteq> ip_tos h) then Some (EINVAL, Some m, r, s)
                 else if ipfren_cache r = 0 then Some (ENOMEM, Some m, r, s)
                 else do {
                   (m, r, s) \<leftarrow> ip_reass \<lparr> ipqe_ip = ip, ipqe_m = m, ipqe_mff = mff \<rparr> fp bkt
                     (r\<lparr> ipfren_cache := ipfren_cache r - 1 \<rparr>) s;
                   Some (0, m, r, s)
                 })"

section \<open>Ageing\<close>

text \<open>One bucket: the queues whose time is over are freed, the others are counted by the time that is left.\<close>

fun age_bucket ::
  "nat \<Rightarrow> nat \<Rightarrow> ipfr_queue list \<Rightarrow> ipfr_queue list \<Rightarrow> u32 \<times> (nat \<Rightarrow> u32) \<Rightarrow> reass \<Rightarrow> 'a mstate_scheme \<Rightarrow>
   ((u32 \<times> (nat \<Rightarrow> u32)) \<times> reass \<times> 'a mstate_scheme) option" where
  "age_bucket ticks i kept [] c r s = Some (c, r\<lparr> ip_frags := (ip_frags r)(i := kept) \<rparr>, s)"
| "age_bucket ticks i kept (fp # fps) c r s =
     (let fp = fp\<lparr> ipq_ttl := (if ipq_ttl fp \<le> ticks then 0 else ipq_ttl fp - ticks) \<rparr>
      in if ipq_ttl fp = 0
         then do {
           let r = r\<lparr> ip_nfrags := ip_nfrags r - uint (ipq_nfrags fp), ip_nfragpackets := ip_nfragpackets r - 1 \<rparr>;
           (r, s) \<leftarrow> free_frags (ipq_fragq fp) r s;
           age_bucket ticks i kept fps c (r\<lparr> ftable_room := ftable_room r + 1 \<rparr>) s
         }
         else age_bucket ticks i (kept @ [fp]) fps
                (fst c + ucast (ipq_nfrags fp), (snd c)(ipq_ttl fp := snd c (ipq_ttl fp) + ucast (ipq_nfrags fp))) r s)"

fun age_buckets ::
  "nat \<Rightarrow> nat list \<Rightarrow> u32 \<times> (nat \<Rightarrow> u32) \<Rightarrow> reass \<Rightarrow> 'a mstate_scheme \<Rightarrow> ((u32 \<times> (nat \<Rightarrow> u32)) \<times> reass \<times> 'a mstate_scheme) option" where
  "age_buckets ticks [] c r s = Some (c, r, s)"
| "age_buckets ticks (i # js) c r s =
     do { (c, r, s) \<leftarrow> age_bucket ticks i [] (ip_frags r i) c r s; age_buckets ticks js c r s }"

text \<open>The median from the histogram; the index \<^term>\<open>-1 :: int\<close> is returned as an unsigned number.\<close>

fun find_median :: "(nat \<Rightarrow> u32) \<Rightarrow> u32 \<Rightarrow> nat \<Rightarrow> u32 \<Rightarrow> nat" where
  "find_median histo keepfraction n median =
     (case n of
        0 \<Rightarrow> 2 ^ 32 - 1
      | Suc i \<Rightarrow> let median = median + histo i in if median \<ge> keepfraction then i else find_median histo keepfraction i median)"

definition ip_reass_ttl_decr :: "nat \<Rightarrow> reass \<Rightarrow> 'a mstate_scheme \<Rightarrow> (nat \<times> reass \<times> 'a mstate_scheme) option" where
  "ip_reass_ttl_decr ticks r s =
     do {
       ((nfrags, histo), r, s) \<leftarrow> age_buckets ticks [0 ..< IPREASS_HASH_SIZE] (0, \<lambda>_. 0) r s;
       if of_int (ip_nfrags r) \<noteq> nfrags then None
       else do {
         let dropfraction = of_int (if 0 \<le> ip_nfrags r then ip_nfrags r div 2 else - (- ip_nfrags r div 2));
         let keepfraction = of_int (ip_nfrags r) - dropfraction;
         Some (find_median histo keepfraction (Suc IPFRAGTTL) 0, r, s)
       }
     }"

definition ip_reass_drophalf :: "reass \<Rightarrow> 'a mstate_scheme \<Rightarrow> (reass \<times> 'a mstate_scheme) option" where
  "ip_reass_drophalf r s =
     do {
       (median_ticks, r, s) \<leftarrow> ip_reass_ttl_decr 0 r s;
       (_, r, s) \<leftarrow> ip_reass_ttl_decr median_ticks r s;
       Some (r, s)
     }"

definition ip_reass_drain :: "reass \<Rightarrow> 'a mstate_scheme \<Rightarrow> (reass \<times> 'a mstate_scheme) option" where
  "ip_reass_drain r s = ip_reass_drophalf r s"

text \<open>All queues of a bucket; each step frees the first one.\<close>

fun drain_bucket :: "nat \<Rightarrow> ipfr_queue list \<Rightarrow> reass \<Rightarrow> 'a mstate_scheme \<Rightarrow> (reass \<times> 'a mstate_scheme) option" where
  "drain_bucket i [] r s = Some (r, s)"
| "drain_bucket i (_ # fps) r s = do { (r, s) \<leftarrow> ip_freef i 0 r s; drain_bucket i fps r s }"

text \<open>The scan goes round the table at most once: it ends when it is back at its start.\<close>

fun drain_scan :: "nat \<Rightarrow> nat \<Rightarrow> reass \<Rightarrow> 'a mstate_scheme \<Rightarrow> (nat \<times> reass \<times> 'a mstate_scheme) option" where
  "drain_scan 0 i r s = Some (i, r, s)"
| "drain_scan (Suc n) i r s =
     (if ip_nfragpackets r > ip_maxfragpackets r
      then do {
        (r, s) \<leftarrow> drain_bucket i (ip_frags r i) r s;
        drain_scan n (if Suc i \<ge> IPREASS_HASH_SIZE then 0 else Suc i) r s
      }
      else Some (i, r, s))"

definition ip_reass_slowtimo :: "int \<Rightarrow> reass \<Rightarrow> 'a mstate_scheme \<Rightarrow> (reass \<times> 'a mstate_scheme) option" where
  "ip_reass_slowtimo nmbclusters r s =
     do {
       (median_ttl, r, s) \<leftarrow> ip_reass_ttl_decr 1 r s;
       let r = (if ip_nmbclusters r \<noteq> nmbclusters then ip_nmbclusters_changed nmbclusters r else r);
       (r, s) \<leftarrow> (if ip_nfrags r > ip_maxfrags r
         then do { (_, r, s) \<leftarrow> ip_reass_ttl_decr median_ttl r s; Some (r, s) }
         else Some (r, s));
       if ip_maxfragpackets r < 0 then Some (r, s)
       else do {
         (i, r, s) \<leftarrow> drain_scan IPREASS_HASH_SIZE (dropscanidx r) r s;
         Some (r\<lparr> dropscanidx := i \<rparr>, s)
       }
     }"

section \<open>Joining the fragments\<close>

text \<open>Fragments with the mbufs of their chains.\<close>

type_synonym frag = "ipfr_qent \<times> addr list"

definition mbufs_of :: "frag list \<Rightarrow> addr list" where "mbufs_of fs = concat (map snd fs)"

definition frag_chains :: "'a mstate_scheme \<Rightarrow> frag list \<Rightarrow> bool" where
  "frag_chains s fs \<longleftrightarrow> (\<forall>(q, cs)\<in>set fs. mchain s (Some (ipqe_m q)) cs)"

lemma frag_chains_cong:
  assumes "frag_chains s fs" "\<And>a. a \<in> set (mbufs_of fs) \<Longrightarrow> mbufs t a = mbufs s a"
  shows "frag_chains t fs"
  unfolding frag_chains_def
proof clarify
  fix q cs assume q: "(q, cs) \<in> set fs"
  then have c: "mchain s (Some (ipqe_m q)) cs"
    using assms(1) by (auto simp: frag_chains_def)
  have "set cs \<subseteq> set (mbufs_of fs)"
    using q by (auto simp: mbufs_of_def)
  then have "\<And>a. a \<in> set cs \<Longrightarrow> mbufs t a = mbufs s a"
    using assms(2) by blast
  with c show "mchain t (Some (ipqe_m q)) cs"
    by (rule mchain_cong)
qed

lemma cat_frags_spec:
  assumes "mchain s (Some m) (m # as)" "frag_chains s fs" "distinct (m # as @ mbufs_of fs)" "set (mbufs_of fs) \<subseteq> used" "mbuf_inv M U used e s"
  shows "\<exists>t post x. cat_frags m (map fst fs) r s = Some (r\<lparr> ipfren_cache := ipfren_cache r + length fs \<rparr>, t) \<and>
    mchain t (Some m) (m # as @ post) \<and> set post \<subseteq> set (mbufs_of fs) \<and> cbytes t (m # as @ post) = cbytes s (m # as @ mbufs_of fs) \<and>
    mbufs t m = (mbufs s m)\<lparr> m_next := x \<rparr> \<and> dmem t = dmem s \<and> mbuf_inv M U (used - (set (mbufs_of fs) - set post)) e t"
  using assms
proof (induction fs arbitrary: s as used r)
  case Nil
  then show ?case by (rule_tac exI [of _ s], rule_tac exI [of _ "[]"], rule_tac exI [of _ "m_next (mbufs s m)"]) (simp add: mbufs_of_def)
next
  case (Cons f fs)
  obtain q cs where f: "f = (q, cs)" by (cases f)
  have c: "mchain s (Some (ipqe_m q)) cs" "frag_chains s fs" "mbufs_of (f # fs) = cs @ mbufs_of fs"
    using Cons.prems(2) by (auto simp: frag_chains_def mbufs_of_def f)
  have d: "set (m # as) \<inter> set cs = {}" "set (m # as @ cs) \<inter> set (mbufs_of fs) = {}" using Cons.prems(3) by (auto simp: c(3))
  obtain t post where t: "m_cat m (Some (ipqe_m q)) s = Some t" "mchain t (Some m) (m # as @ post)" "set post \<subseteq> set cs"
    "cbytes t (m # as @ post) = cbytes s (m # as) @ cbytes s cs" "\<forall>a. a \<notin> set (m # as) \<and> a \<notin> set cs \<longrightarrow> mbufs t a = mbufs s a"
    "\<exists>x. mbufs t m = (mbufs s m)\<lparr> m_next := x \<rparr>" "dmem t = dmem s" "mbuf_inv M U (used - (set cs - set post)) e t"
    using m_cat_spec [OF Cons.prems(1) c(1) d(1) _ Cons.prems(5)] Cons.prems(4) by (auto simp: c(3))
  have same: "a \<in> set (mbufs_of fs) \<Longrightarrow> mbufs t a = mbufs s a" for a using t(5) d(2) by auto
  have "frag_chains t fs" by (rule frag_chains_cong [OF c(2) same])
  moreover have "distinct (m # (as @ post) @ mbufs_of fs)" using mchain_distinct [OF t(2)] Cons.prems(3) t(3) d(2) by (auto simp: c(3))
  moreover have "set (mbufs_of fs) \<subseteq> used - (set cs - set post)" using Cons.prems(3,4) by (auto simp: c(3))
  ultimately obtain u post' x where u: "cat_frags m (map fst fs) (r\<lparr> ipfren_cache := ipfren_cache r + 1 \<rparr>) t =
      Some (r\<lparr> ipfren_cache := ipfren_cache r + 1 + length fs \<rparr>, u)"
    "mchain u (Some m) (m # as @ post @ post')" "set post' \<subseteq> set (mbufs_of fs)"
    "cbytes u (m # as @ post @ post') = cbytes t (m # as @ post) @ cbytes t (mbufs_of fs)" "mbufs u m = (mbufs t m)\<lparr> m_next := x \<rparr>"
    "dmem u = dmem t" "mbuf_inv M U (used - (set cs - set post) - (set (mbufs_of fs) - set post')) e u"
    using Cons.IH [of t "as @ post" "used - (set cs - set post)" "r\<lparr> ipfren_cache := ipfren_cache r + 1 \<rparr>"] t(2,8) by auto
  have "used - (set cs - set post) - (set (mbufs_of fs) - set post') = used - (set (mbufs_of (f # fs)) - set (post @ post'))"
    using t(3) u(3) Cons.prems(3) by (auto simp: c(3))
  moreover have "cbytes u (m # as @ post @ post') = cbytes s (m # as @ mbufs_of (f # fs))"
    using u(4) t(4) cbytes_same [OF same t(7), of "mbufs_of fs"] by (simp add: c(3))
  moreover have "mbufs u m = (mbufs s m)\<lparr> m_next := x \<rparr>" using u(5) t(6) by auto
  moreover have "cat_frags m (map fst (f # fs)) r s = Some (r\<lparr> ipfren_cache := ipfren_cache r + length (f # fs) \<rparr>, u)"
    using t(1) u(1) by (simp add: f)
  moreover have "set (post @ post') \<subseteq> set (mbufs_of (f # fs))" using t(3) u(3) by (auto simp: c(3))
  ultimately show ?case using u(2,6,7) t(7) by (rule_tac exI [of _ u], rule_tac exI [of _ "post @ post'"], rule_tac exI [of _ x]) simp
qed

lemma chain_len_spec: "mchain s p as \<Longrightarrow> chain_len (mbufs s) p n = Some (n + clen s as)"
proof (induction as arbitrary: p n)
  case Nil
  then show ?case by (simp add: chain_len.simps)
next
  case (Cons a as)
  then show ?case by (subst chain_len.simps) (auto simp: mchain_Cons algebra_simps)
qed

text \<open>The completed datagram: the header of the first fragment and then the data of all of them.\<close>

lemma fix_pkthdr_spec:
  assumes "mchain s (Some m) (m # as)"
  shows "\<exists>t. fix_pkthdr m s = Some t \<and> mchain t (Some m) (m # as) \<and> cbytes t (m # as) = cbytes s (m # as) \<and>
    (has_flag M_PKTHDR (mbufs s m) \<longrightarrow> ph_len (m_pkthdr (mbufs t m)) = clen s (m # as)) \<and>
    (\<forall>a. \<exists>x. mbufs t a = (mbufs s a)\<lparr> m_pkthdr := x \<rparr>) \<and> dmem t = dmem s \<and> mb_cache t = mb_cache s \<and> rmb t = rmb s \<and> rpool t = rpool s"
proof (cases "has_flag M_PKTHDR (mbufs s m)")
  case True
  let ?t = "upd_m m (\<lambda>b. b\<lparr> m_pkthdr := (m_pkthdr b)\<lparr> ph_len := clen s (m # as), csum_flags := 0 \<rparr> \<rparr>) s"
  have f: "m_next (mbufs ?t a) = m_next (mbufs s a)" "m_len (mbufs ?t a) = m_len (mbufs s a)" "m_data (mbufs ?t a) = m_data (mbufs s a)" for a
    by (auto simp: upd_m_def)
  then have "mchain ?t (Some m) (m # as)" using assms by (simp add: mchain_def)
  moreover have "cbytes ?t (m # as) = cbytes s (m # as)"
    unfolding cbytes_def by (intro arg_cong [of _ _ concat] map_cong) (simp_all add: mbytes_def f)
  moreover have "\<exists>x. mbufs ?t a = (mbufs s a)\<lparr> m_pkthdr := x \<rparr>" for a
    by (cases "a = m") (auto simp: intro: exI [of _ "m_pkthdr (mbufs s a)"])
  ultimately show ?thesis using True chain_len_spec [OF assms, of 0]
    by (intro exI [of _ ?t]) (simp add: fix_pkthdr_def)
next
  case False
  moreover have "\<exists>x. mbufs s a = (mbufs s a)\<lparr> m_pkthdr := x \<rparr>" for a
    by (intro exI [of _ "m_pkthdr (mbufs s a)"]) simp
  ultimately show ?thesis using assms by (intro exI [of _ s]) (simp add: fix_pkthdr_def)
qed

lemma join_fragments:
  assumes "mchain s (Some m) (m # as)" "frag_chains s fs" "distinct (m # as @ mbufs_of fs)"
    "set (m # as @ mbufs_of fs) \<subseteq> used" "mbuf_inv M U used e s"
  shows "\<exists>u t post x. m_cat m (m_next (mbufs s m)) (upd_m m (\<lambda>b. b\<lparr> m_next := None \<rparr>) s) = Some u \<and>
    cat_frags m (map fst fs) r u = Some (r\<lparr> ipfren_cache := ipfren_cache r + length fs \<rparr>, t) \<and>
    mchain t (Some m) (m # post) \<and> set post \<subseteq> set (as @ mbufs_of fs) \<and> cbytes t (m # post) = cbytes s (m # as @ mbufs_of fs) \<and>
    mbufs t m = (mbufs s m)\<lparr> m_next := x \<rparr> \<and> dmem t = dmem s \<and> mbuf_inv M U (used - (set (as @ mbufs_of fs) - set post)) e t"
proof -
  define v where "v = upd_m m (\<lambda>b. b\<lparr> m_next := None \<rparr>) s"
  have v: "mbufs v m = (mbufs s m)\<lparr> m_next := None \<rparr>" "\<And>a. a \<noteq> m \<Longrightarrow> mbufs v a = mbufs s a" "dmem v = dmem s" by (simp_all add: v_def)
  have inv: "mbuf_inv M U used e v" by (rule mbuf_inv_fields [OF assms(5)]) (simp_all add: v_def upd_m_def)
  have "mchain v (Some m) [m]" using assms(1) v(1) by (simp add: mchain_Cons)
  moreover have sa: "a \<in> set as \<Longrightarrow> mbufs v a = mbufs s a" for a
    by (rule v(2)) (use assms(3) in auto)
  moreover have "mchain v (m_next (mbufs s m)) as"
    by (rule mchain_cong [OF _ sa]) (use assms(1) in \<open>simp add: mchain_Cons\<close>)
  moreover have "set [m] \<inter> set as = {}" "set as \<subseteq> used" using assms(3,4) by auto
  ultimately obtain u post where u: "m_cat m (m_next (mbufs s m)) v = Some u" "mchain u (Some m) (m # post)" "set post \<subseteq> set as"
    "cbytes u (m # post) = cbytes v [m] @ cbytes v as" "\<forall>a. a \<notin> set [m] \<and> a \<notin> set as \<longrightarrow> mbufs u a = mbufs v a"
    "\<exists>x. mbufs u m = (mbufs v m)\<lparr> m_next := x \<rparr>" "dmem u = dmem v" "mbuf_inv M U (used - (set as - set post)) e u"
    using m_cat_spec [of v m "[]" "m_next (mbufs s m)" as used M U e] inv by auto
  have same: "mbufs u a = mbufs s a" if "a \<in> set (mbufs_of fs)" for a
  proof -
    have "a \<noteq> m" "a \<notin> set as" using assms(3) that by auto
    then show ?thesis using u(5) v(2) by simp
  qed
  have "cbytes v as = cbytes s as" by (rule cbytes_same [OF sa v(3)])
  moreover have "mbytes v m = mbytes s m" using v by (simp add: mbytes_def)
  ultimately have cb: "cbytes u (m # post) = cbytes s (m # as)" using u(4) by simp
  have "frag_chains u fs" by (rule frag_chains_cong [OF assms(2) same])
  moreover have "distinct (m # post @ mbufs_of fs)" using mchain_distinct [OF u(2)] assms(3) u(3) by auto
  moreover have "set (mbufs_of fs) \<subseteq> used - (set as - set post)" using assms(3,4) by auto
  ultimately obtain t post' x where t: "cat_frags m (map fst fs) r u = Some (r\<lparr> ipfren_cache := ipfren_cache r + length fs \<rparr>, t)"
    "mchain t (Some m) (m # post @ post')" "set post' \<subseteq> set (mbufs_of fs)" "cbytes t (m # post @ post') = cbytes u (m # post @ mbufs_of fs)"
    "mbufs t m = (mbufs u m)\<lparr> m_next := x \<rparr>" "dmem t = dmem u"
    "mbuf_inv M U (used - (set as - set post) - (set (mbufs_of fs) - set post')) e t"
    using cat_frags_spec [OF u(2) _ _ _ u(8), of fs r] by blast
  have "used - (set as - set post) - (set (mbufs_of fs) - set post') = used - (set (as @ mbufs_of fs) - set (post @ post'))"
    using u(3) t(3) assms(3) by auto
  moreover have "cbytes t (m # post @ post') = cbytes s (m # as @ mbufs_of fs)"
    using t(4) cb cbytes_same [OF same, of "mbufs_of fs"] u(7) v(3) by simp
  moreover have "mbufs t m = (mbufs s m)\<lparr> m_next := x \<rparr>" using t(5) u(6) v(1) by auto
  moreover have "set (post @ post') \<subseteq> set (as @ mbufs_of fs)" using t(3) u(3) by auto
  ultimately show ?thesis using u(1,7) t(1,2,6,7) v(3) unfolding v_def
    by (rule_tac exI [of _ u], rule_tac exI [of _ t], rule_tac exI [of _ "post @ post'"], rule_tac exI [of _ x]) simp
qed

lemma show_header:
  assumes "mchain s (Some m) (m # as)" "hl \<le> m_data (mbufs s m)" "m_len (mbufs s m) + int hl < 2 ^ 31" "mbuf_inv M U used e s"
  shows "\<exists>t. fix_pkthdr m (upd_m m (\<lambda>b. b\<lparr> m_len := m_len b + int hl, m_data := m_data b - hl \<rparr>) s) = Some t \<and>
    mchain t (Some m) (m # as) \<and> cbytes t (m # as) = mem_read (dmem s) (m_data (mbufs s m) - hl) hl @ cbytes s (m # as) \<and>
    (has_flag M_PKTHDR (mbufs s m) \<longrightarrow> ph_len (m_pkthdr (mbufs t m)) = int (length (cbytes t (m # as)))) \<and> mbuf_inv M U used e t"
proof -
  define v where "v = upd_m m (\<lambda>b. b\<lparr> m_len := m_len b + int hl, m_data := m_data b - hl \<rparr>) s"
  have v: "mbufs v m = (mbufs s m)\<lparr> m_len := m_len (mbufs s m) + int hl, m_data := m_data (mbufs s m) - hl \<rparr>"
    "\<And>a. a \<noteq> m \<Longrightarrow> mbufs v a = mbufs s a" "dmem v = dmem s" by (simp_all add: v_def)
  have d: "distinct (m # as)" and l: "0 \<le> m_len (mbufs s m)" and n: "mchain s (m_next (mbufs s m)) as"
    using mchain_distinct [OF assms(1)] assms(1) by (simp_all add: mchain_Cons)
  have same: "a \<in> set as \<Longrightarrow> mbufs v a = mbufs s a" for a by (rule v(2)) (use d in auto)
  have "mchain v (m_next (mbufs s m)) as" by (rule mchain_cong [OF n same])
  then have ch: "mchain v (Some m) (m # as)" using l assms(3) v(1) by (simp add: mchain_Cons)
  have "mbytes v m = mem_read (dmem s) (m_data (mbufs s m) - hl) hl @ mbytes s m"
    using v(1,3) l assms(2) mem_read_append [of "dmem s" "m_data (mbufs s m) - hl" hl "nat (m_len (mbufs s m))"]
    by (simp add: mbytes_def nat_add_distrib add.commute)
  then have cb: "cbytes v (m # as) = mem_read (dmem s) (m_data (mbufs s m) - hl) hl @ cbytes s (m # as)"
    using cbytes_same [OF same v(3)] by simp
  have inv: "mbuf_inv M U used e v" by (rule mbuf_inv_fields [OF assms(4)]) (simp_all add: v_def upd_m_def)
  obtain t where t: "fix_pkthdr m v = Some t" "mchain t (Some m) (m # as)" "cbytes t (m # as) = cbytes v (m # as)"
    "has_flag M_PKTHDR (mbufs v m) \<longrightarrow> ph_len (m_pkthdr (mbufs t m)) = clen v (m # as)"
    "\<forall>a. \<exists>x. mbufs t a = (mbufs v a)\<lparr> m_pkthdr := x \<rparr>" "dmem t = dmem v" "mb_cache t = mb_cache v" "rmb t = rmb v" "rpool t = rpool v"
    using fix_pkthdr_spec [OF ch] by blast
  have "m_paddr (mbufs t a) = m_paddr (mbufs v a)" for a
  proof -
    obtain x where "mbufs t a = (mbufs v a)\<lparr> m_pkthdr := x \<rparr>" using t(5) by blast
    then show ?thesis by simp
  qed
  then have "mbuf_inv M U used e t" by (rule mbuf_inv_fields [OF inv t(7-9)])
  moreover have "has_flag M_PKTHDR (mbufs v m) = has_flag M_PKTHDR (mbufs s m)" using v(1) by (simp add: has_flag_def)
  ultimately show ?thesis using t(1-4) cb clen_bytes [OF ch] unfolding v_def [symmetric] by (intro exI [of _ t]) simp
qed

lemma complete_datagram_spec:
  assumes "ipq_fragq fp = map fst ((q, m # as) # fs)" "frag_chains s ((q, m # as) # fs)" "distinct (m # as @ mbufs_of fs)"
    "set (m # as @ mbufs_of fs) \<subseteq> used" "mbuf_inv M U used e s"
    "hl = 4 * ip_hl (iphdr r (ipqe_ip q))" "hl \<le> m_data (mbufs s m)" "m_len (mbufs s m) + int hl < 2 ^ 31"
  shows "\<exists>t post. complete_datagram fp next r s = Some (Some m, upd_ip (ipqe_ip q)
      (\<lambda>h. h\<lparr> ip_len := of_int (int hl + next), ip_src := ipq_src fp, ip_dst := ipq_dst fp \<rparr>)
      (r\<lparr> ipfren_cache := ipfren_cache r + Suc (length fs), ftable_room := ftable_room r + 1 \<rparr>), t) \<and>
    mchain t (Some m) (m # post) \<and> set post \<subseteq> set (as @ mbufs_of fs) \<and>
    cbytes t (m # post) = mem_read (dmem s) (m_data (mbufs s m) - hl) hl @ cbytes s (m # as @ mbufs_of fs) \<and>
    (has_flag M_PKTHDR (mbufs s m) \<longrightarrow> ph_len (m_pkthdr (mbufs t m)) = int (length (cbytes t (m # post)))) \<and>
    mbuf_inv M U (used - (set (as @ mbufs_of fs) - set post)) e t"
proof -
  have q: "ipqe_m q = m" and ch: "mchain s (Some m) (m # as)" and fc: "frag_chains s fs"
    using assms(2) by (auto simp: frag_chains_def mchain_Cons)
  let ?r = "r\<lparr> ipfren_cache := ipfren_cache r + 1 \<rparr>"
  obtain u v post x where v: "m_cat m (m_next (mbufs s m)) (upd_m m (\<lambda>b. b\<lparr> m_next := None \<rparr>) s) = Some u"
    "cat_frags m (map fst fs) ?r u = Some (?r\<lparr> ipfren_cache := ipfren_cache ?r + length fs \<rparr>, v)"
    "mchain v (Some m) (m # post)" "set post \<subseteq> set (as @ mbufs_of fs)" "cbytes v (m # post) = cbytes s (m # as @ mbufs_of fs)"
    "mbufs v m = (mbufs s m)\<lparr> m_next := x \<rparr>" "dmem v = dmem s" "mbuf_inv M U (used - (set (as @ mbufs_of fs) - set post)) e v"
    using join_fragments [OF ch fc assms(3-5), of ?r] by blast
  have "hl \<le> m_data (mbufs v m)" "m_len (mbufs v m) + int hl < 2 ^ 31" "has_flag M_PKTHDR (mbufs v m) = has_flag M_PKTHDR (mbufs s m)"
    using assms(7,8) v(6) by (simp_all add: has_flag_def)
  then obtain t where t: "fix_pkthdr m (upd_m m (\<lambda>b. b\<lparr> m_len := m_len b + int hl, m_data := m_data b - hl \<rparr>) v) = Some t"
    "mchain t (Some m) (m # post)" "cbytes t (m # post) = mem_read (dmem s) (m_data (mbufs s m) - hl) hl @ cbytes s (m # as @ mbufs_of fs)"
    "has_flag M_PKTHDR (mbufs s m) \<longrightarrow> ph_len (m_pkthdr (mbufs t m)) = int (length (cbytes t (m # post)))"
    "mbuf_inv M U (used - (set (as @ mbufs_of fs) - set post)) e t"
    using show_header [OF v(3) _ _ v(8), of hl] unfolding v(5,7) by (auto simp: v(6) simp del: cbytes_Cons)
  show ?thesis
    using t v(1,2,4) by (rule_tac exI [of _ t], rule_tac exI [of _ post]) (simp add: complete_datagram_def Let_def assms(1) q assms(6) upd_ip_def)
qed

section \<open>A datagram in pieces\<close>

text \<open>A fragment as it arrives: the address of its header and its mbufs, the first of which holds the header.\<close>

record piece =
  pc_ip :: addr
  pc_m :: addr
  pc_rest :: "addr list"

definition pc_mbufs :: "piece \<Rightarrow> addr list" where "pc_mbufs p = pc_m p # pc_rest p"

text \<open>Offset, length of the data, the flag for more fragments, and the header as it is kept in the queue.\<close>

definition foff :: "ip \<Rightarrow> int" where "foff h = 8 * uint (ip_off h AND IP_OFFMASK)"
definition flen :: "ip \<Rightarrow> int" where "flen h = uint (ip_len h) - 4 * int (ip_hl h)"
definition fmff :: "ip \<Rightarrow> bool" where "fmff h \<longleftrightarrow> ip_off h AND IP_MF \<noteq> 0"
definition norm_ip :: "ip \<Rightarrow> ip" where "norm_ip h = h\<lparr> ip_len := of_int (flen h), ip_off := of_int (foff h) \<rparr>"

text \<open>Consecutive pieces of data that is not empty; all but the last are multiples of eight bytes and announce another one.\<close>

fun cut_from :: "(addr \<Rightarrow> ip) \<Rightarrow> int \<Rightarrow> piece list \<Rightarrow> bool" where
  "cut_from h off [] \<longleftrightarrow> True"
| "cut_from h off (p # ps) \<longleftrightarrow>
     foff (h (pc_ip p)) = off \<and> flen (h (pc_ip p)) > 0 \<and> (fmff (h (pc_ip p)) \<longleftrightarrow> ps \<noteq> []) \<and>
     (ps \<noteq> [] \<longrightarrow> flen (h (pc_ip p)) mod 8 = 0) \<and> cut_from h (off + flen (h (pc_ip p))) ps"

definition payload_len :: "(addr \<Rightarrow> ip) \<Rightarrow> piece list \<Rightarrow> int" where "payload_len h ps = (\<Sum>p\<leftarrow>ps. flen (h (pc_ip p)))"

text \<open>The headers of the fragments of one datagram.\<close>

definition same_key :: "ip \<Rightarrow> ip \<Rightarrow> bool" where
  "same_key i j \<longleftrightarrow> ip_id i = ip_id j \<and> ip_src i = ip_src j \<and> ip_dst i = ip_dst j \<and> ip_p i = ip_p j \<and> ip_tos i = ip_tos j"

definition datagram_cut :: "(addr \<Rightarrow> ip) \<Rightarrow> piece list \<Rightarrow> bool" where
  "datagram_cut h ps \<longleftrightarrow> ps \<noteq> [] \<and> distinct (map pc_ip ps) \<and> cut_from h 0 ps \<and>
     (\<forall>p\<in>set ps. same_key (h (pc_ip p)) (h (pc_ip (hd ps))) \<and>
        IP_MINFRAGSIZE - 1 \<le> (if foff (h (pc_ip p)) > 0 then foff (h (pc_ip p)) + 4 * int (ip_hl (h (pc_ip p))) else uint (ip_len (h (pc_ip p))))) \<and>
     payload_len h ps + 4 * int (ip_hl (h (pc_ip (hd ps)))) \<le> IP_MAXPACKET"

lemma uint16_of_int: "0 \<le> x \<Longrightarrow> x < 65536 \<Longrightarrow> uint (of_int x :: u16) = x"
  by (simp add: uint_word_of_int)

lemma foff_bounds: "0 \<le> foff h" "foff h < 65536"
proof -
  have "uint (ip_off h AND IP_OFFMASK) \<le> 0x1fff"
    by (simp add: IP_OFFMASK_def uint_and AND_upper2')
  then show "0 \<le> foff h" "foff h < 65536" by (simp_all add: foff_def)
qed

lemma flen_less: "flen h < 65536"
  using uint_lt2p [of "ip_len h"] by (simp add: flen_def)

lemma norm_ip_fields [simp]:
  "uint (ip_off (norm_ip h)) = foff h" "0 \<le> flen h \<Longrightarrow> uint (ip_len (norm_ip h)) = flen h" "ip_hl (norm_ip h) = ip_hl h"
  "ip_id (norm_ip h) = ip_id h" "ip_src (norm_ip h) = ip_src h" "ip_dst (norm_ip h) = ip_dst h" "ip_p (norm_ip h) = ip_p h"
  "ip_tos (norm_ip h) = ip_tos h"
  using foff_bounds [of h] flen_less [of h] by (simp_all add: norm_ip_def uint16_of_int)

lemma cut_from_pos: "cut_from h off ps \<Longrightarrow> p \<in> set ps \<Longrightarrow> 0 < flen (h (pc_ip p)) \<and> off \<le> foff (h (pc_ip p))"
  by (induction ps arbitrary: off) fastforce+

lemma cut_from_split:
  assumes "cut_from h off (xs @ p # ys)"
  shows "\<forall>x\<in>set xs. foff (h (pc_ip x)) + flen (h (pc_ip x)) \<le> foff (h (pc_ip p))"
    "\<forall>y\<in>set ys. foff (h (pc_ip p)) + flen (h (pc_ip p)) \<le> foff (h (pc_ip y))"
  using assms
proof (induction xs arbitrary: off)
  case Nil
  { case 1 show ?case by simp }
  { case 2 then show ?case using cut_from_pos by fastforce }
next
  case (Cons x xs)
  { case 1 then show ?case using Cons.IH(1) cut_from_pos [of h "off + flen (h (pc_ip x))" "xs @ p # ys" p] by auto }
  { case 2 then show ?case using Cons.IH(2) by auto }
qed

lemma cut_from_last: "cut_from h off (ps @ [p]) \<Longrightarrow> \<not> fmff (h (pc_ip p))"
  by (induction ps arbitrary: off) auto

text \<open>The fragments in the queue are a part \<^term>\<open>A\<close> of the pieces.  They follow each other from the start without a
  gap only when they are the first ones of the datagram, and end with the last one only when they are all.\<close>

definition qent :: "(addr \<Rightarrow> ip) \<Rightarrow> piece \<Rightarrow> ipfr_qent" where
  "qent h p = \<lparr> ipqe_ip = pc_ip p, ipqe_m = pc_m p, ipqe_mff = fmff (h (pc_ip p)) \<rparr>"

lemma qent_fields [simp]: "ipqe_ip (qent h p) = pc_ip p" "ipqe_m (qent h p) = pc_m p" "ipqe_mff (qent h p) = fmff (h (pc_ip p))"
  by (simp_all add: qent_def)

lemma reass_next_all:
  assumes "cut_from h off ps" "\<forall>p\<in>set ps. iphdr R (pc_ip p) = norm_ip (h (pc_ip p))"
  shows "reass_next R (map (qent h) ps) off = Some (off + payload_len h ps)"
  using assms
  by (induction ps arbitrary: off) (auto simp: qoff_def qlen_def payload_len_def)

lemma reass_next_prefix:
  assumes "cut_from h off ps" "\<forall>p\<in>A. iphdr R (pc_ip p) = norm_ip (h (pc_ip p))"
    "reass_next R (map (qent h) (filter (\<lambda>p. p \<in> A) ps)) off = Some n"
  shows "\<exists>k. filter (\<lambda>p. p \<in> A) ps = take k ps"
  using assms
proof (induction ps arbitrary: off)
  case (Cons p ps)
  show ?case
  proof (cases "p \<in> A")
    case True
    then have "reass_next R (map (qent h) (filter (\<lambda>p. p \<in> A) ps)) (off + flen (h (pc_ip p))) = Some n"
      using Cons.prems by (auto simp: qoff_def qlen_def split: if_splits)
    then obtain k where "filter (\<lambda>p. p \<in> A) ps = take k ps" using Cons.IH Cons.prems by auto
    then show ?thesis using True by (intro exI [of _ "Suc k"]) simp
  next
    case False
    have "filter (\<lambda>p. p \<in> A) ps = []"
    proof (rule ccontr)
      assume "filter (\<lambda>p. p \<in> A) ps \<noteq> []"
      then obtain q qs where q: "filter (\<lambda>p. p \<in> A) ps = q # qs" by (cases "filter (\<lambda>p. p \<in> A) ps") auto
      then have "q \<in> set (filter (\<lambda>p. p \<in> A) ps)" by simp
      then have "q \<in> set ps" "q \<in> A" by auto
      moreover have "off < foff (h (pc_ip q))" using Cons.prems(1) cut_from_pos [of h _ ps q] \<open>q \<in> set ps\<close> by fastforce
      ultimately show False using Cons.prems(2,3) False q by (simp add: qoff_def)
    qed
    then show ?thesis using False by (intro exI [of _ 0]) simp
  qed
qed simp

lemma cut_from_more:
  assumes "cut_from h off ps" "k < length ps" "0 < k"
  shows "fmff (h (pc_ip (last (take k ps))))"
  using assms
proof (induction ps arbitrary: off k)
  case (Cons p ps)
  then show ?case by (cases k; cases "k - 1") (auto simp: last_ConsR take_Cons' split: if_splits)
qed simp

text \<open>The state while the pieces \<^term>\<open>A\<close> are waiting.\<close>

definition bucket :: "(addr \<Rightarrow> ip) \<Rightarrow> piece list \<Rightarrow> nat" where
  "bucket h ps = IPREASS_HASH (ip_src (h (pc_ip (hd ps)))) (ip_id (h (pc_ip (hd ps))))"

definition pending_queue :: "(addr \<Rightarrow> ip) \<Rightarrow> piece list \<Rightarrow> piece set \<Rightarrow> ipfr_queue" where
  "pending_queue h ps A =
     (let i = h (pc_ip (hd ps))
      in \<lparr> ipq_fragq = map (qent h) (filter (\<lambda>p. p \<in> A) ps), ipq_ttl = IPFRAGTTL, ipq_p = ip_p i, ipq_id = ip_id i,
           ipq_src = ip_src i, ipq_dst = ip_dst i, ipq_nfrags = of_nat (card A), ipq_tos = ip_tos i \<rparr>)"

definition pending :: "reass \<Rightarrow> piece list \<Rightarrow> piece set \<Rightarrow> reass" where
  "pending r ps A =
     (let h = iphdr r
      in r\<lparr> iphdr := (\<lambda>a. if a \<in> pc_ip ` A then norm_ip (h a) else h a),
            ip_frags := (ip_frags r)(bucket h ps := pending_queue h ps A # ip_frags r (bucket h ps)),
            ip_nfragpackets := ip_nfragpackets r + 1, ip_nfrags := ip_nfrags r + int (card A),
            ipfren_cache := ipfren_cache r - card A, ftable_room := ftable_room r - 1 \<rparr>)"

definition strip :: "(addr \<Rightarrow> ip) \<Rightarrow> piece \<Rightarrow> 'a mstate_scheme \<Rightarrow> 'a mstate_scheme" where
  "strip h p s = upd_m (pc_m p)
     (\<lambda>b. b\<lparr> m_data := m_data b + 4 * ip_hl (h (pc_ip p)), m_len := m_len b - 4 * int (ip_hl (h (pc_ip p))) \<rparr>) s"

text \<open>There is room for the datagram and no queue that it would be mixed up with.\<close>

definition can_take :: "reass \<Rightarrow> piece list \<Rightarrow> bool" where
  "can_take r ps \<longleftrightarrow> (ip_maxfragpackets r < 0 \<or> ip_nfragpackets r < ip_maxfragpackets r) \<and> 0 < ftable_room r \<and>
     length ps \<le> ipfren_cache r \<and> (\<forall>fp\<in>set (ip_frags r (bucket (iphdr r) ps)). \<not> same_datagram (iphdr r (pc_ip (hd ps))) fp)"

text \<open>The test for a complete datagram holds for all pieces and for no smaller set of them.\<close>

lemma check_complete_waiting:
  assumes "datagram_cut (iphdr r) ps" "A \<subseteq> set ps" "A \<noteq> {}" "A \<noteq> set ps"
  shows "check_complete (bucket (iphdr r) ps) 0 (pending r ps A) s = Some (None, pending r ps A, s)"
proof -
  let ?h = "iphdr r" and ?R = "pending r ps A" and ?F = "filter (\<lambda>p. p \<in> A) ps"
  have F: "ipq_fragq (ip_frags ?R (bucket ?h ps) ! 0) = map (qent ?h) ?F" by (simp add: pending_def pending_queue_def Let_def)
  have cut: "cut_from ?h 0 ps" using assms(1) by (simp add: datagram_cut_def)
  have "fmff (?h (pc_ip (last ?F)))" if nx: "reass_next ?R (map (qent ?h) ?F) 0 = Some n" for n
  proof -
    obtain k where k: "?F = take k ps" using reass_next_prefix [OF cut _ nx] by (auto simp: pending_def Let_def)
    have ne: "?F \<noteq> []" using assms(2,3) by (auto simp: filter_empty_conv)
    have "k < length ps"
    proof (rule ccontr)
      assume "\<not> k < length ps"
      then have "?F = ps" using k by simp
      then have "set ps \<subseteq> A" by (auto simp: filter_id_conv)
      then show False using assms(2,4) by auto
    qed
    then show ?thesis using cut_from_more [OF cut] k ne by (cases k) auto
  qed
  moreover have "?F \<noteq> []" using assms(2,3) by (auto simp: filter_empty_conv)
  ultimately show ?thesis unfolding check_complete_def Let_def F by (auto simp: last_map split: option.split)
qed

lemma packet_accept:
  fixes R :: reass and s :: "'a mstate_scheme"
  assumes "h = iphdr R ip" "0 < flen h" "fmff h \<longrightarrow> flen h mod 8 = 0" "0 < ipfren_cache R"
    "IP_MINFRAGSIZE - 1 \<le> (if foff h > 0 then foff h + 4 * int (ip_hl h) else uint (ip_len h))"
    "find_queue h (ip_frags R (IPREASS_HASH (ip_src h) (ip_id h))) 0 = fp"
    "\<forall>k. fp = Some k \<longrightarrow> ipq_tos (ip_frags R (IPREASS_HASH (ip_src h) (ip_id h)) ! k) = ip_tos h"
  shows "ip_reass_packet m ip R s = map_option (Pair 0) (ip_reass \<lparr> ipqe_ip = ip, ipqe_m = m, ipqe_mff = fmff h \<rparr> fp
    (IPREASS_HASH (ip_src h) (ip_id h)) ((upd_ip ip norm_ip R)\<lparr> ipfren_cache := ipfren_cache R - 1 \<rparr>) s)"
proof -
  have u: "u_int (uint (ip_len h) - int (4 * ip_hl h)) = flen h"
    using assms(2) flen_less [of h] by (simp add: flen_def u_int_def)
  have fq: "find_queue (norm_ip h) qs k = find_queue h qs k" for qs k
    by (induction qs arbitrary: k) (simp_all add: same_datagram_def)
  have up: "upd_ip ip (\<lambda>k. k\<lparr> ip_len := of_int (flen h), ip_off := of_int (foff h) \<rparr>) R = upd_ip ip norm_ip R"
    by (simp add: upd_ip_def norm_ip_def assms(1))
  have hd: "iphdr (upd_ip ip norm_ip R) ip = norm_ip h" "ip_frags (upd_ip ip norm_ip R) = ip_frags R"
    "ipfren_cache (upd_ip ip norm_ip R) = ipfren_cache R"
    by (simp_all add: upd_ip_def assms(1))
  have "\<not> (if foff h > 0 then foff h + int (4 * ip_hl h) else uint (ip_len h)) < IP_MINFRAGSIZE - 1" using assms(5) by auto
  moreover have "\<not> (fmff h \<and> (flen h = 0 \<or> flen h mod 8 \<noteq> 0))" using assms(2,3) by auto
  moreover have "\<not> (case fp of None \<Rightarrow> False | Some k \<Rightarrow> ipq_tos (ip_frags R (IPREASS_HASH (ip_src h) (ip_id h)) ! k) \<noteq> ip_tos h)"
    using assms(7) by (auto split: option.split)
  ultimately show ?thesis using assms(4)
    unfolding ip_reass_packet_def Let_def assms(1) [symmetric] foff_def [symmetric] fmff_def [symmetric] u up hd fq assms(6)
    by (simp add: map_option_case split_beta split: option.split)
qed

lemma find_queue_none: "\<forall>fp\<in>set qs. \<not> same_datagram i fp \<Longrightarrow> find_queue i qs k = None"
  by (induction qs arbitrary: k) auto

lemma datagram_cut_piece:
  assumes "datagram_cut h ps" "p \<in> set ps"
  shows "0 < flen (h (pc_ip p))" "fmff (h (pc_ip p)) \<longrightarrow> flen (h (pc_ip p)) mod 8 = 0" "same_key (h (pc_ip p)) (h (pc_ip (hd ps)))"
    "IP_MINFRAGSIZE - 1 \<le> (if foff (h (pc_ip p)) > 0 then foff (h (pc_ip p)) + 4 * int (ip_hl (h (pc_ip p))) else uint (ip_len (h (pc_ip p))))"
    "IPREASS_HASH (ip_src (h (pc_ip p))) (ip_id (h (pc_ip p))) = bucket h ps"
proof -
  have c: "cut_from h 0 ps" using assms(1) by (simp add: datagram_cut_def)
  then show "0 < flen (h (pc_ip p))" using cut_from_pos [OF c assms(2)] by simp
  have "cut_from h off ps \<Longrightarrow> p \<in> set ps \<Longrightarrow> fmff (h (pc_ip p)) \<longrightarrow> flen (h (pc_ip p)) mod 8 = 0" for off
    by (induction ps arbitrary: off) auto
  then show "fmff (h (pc_ip p)) \<longrightarrow> flen (h (pc_ip p)) mod 8 = 0" using c assms(2) by blast
  show k: "same_key (h (pc_ip p)) (h (pc_ip (hd ps)))"
    and "IP_MINFRAGSIZE - 1 \<le> (if foff (h (pc_ip p)) > 0 then foff (h (pc_ip p)) + 4 * int (ip_hl (h (pc_ip p))) else uint (ip_len (h (pc_ip p))))"
    using assms by (auto simp: datagram_cut_def)
  show "IPREASS_HASH (ip_src (h (pc_ip p))) (ip_id (h (pc_ip p))) = bucket h ps" using k by (simp add: bucket_def same_key_def)
qed

lemma filter_single: "distinct xs \<Longrightarrow> x \<in> set xs \<Longrightarrow> filter (\<lambda>y. y = x) xs = [x]"
  by (induction xs) (auto simp: filter_empty_conv)

lemma arrival_first:
  assumes "datagram_cut (iphdr r) ps" "can_take r ps" "p \<in> set ps"
  shows "ip_reass_packet (pc_m p) (pc_ip p) r s =
    map_option (Pair 0) (check_complete (bucket (iphdr r) ps) 0 (pending r ps {p}) (strip (iphdr r) p s))"
proof -
  let ?h = "iphdr r" and ?b = "bucket (iphdr r) ps"
  note pc = datagram_cut_piece [OF assms(1,3)]
  have key: "same_datagram (?h (pc_ip p)) fp = same_datagram (?h (pc_ip (hd ps))) fp" for fp
    using pc(3) by (simp add: same_datagram_def same_key_def)
  have "find_queue (?h (pc_ip p)) (ip_frags r ?b) 0 = None"
    by (rule find_queue_none) (use assms(2) in \<open>simp add: can_take_def key\<close>)
  moreover have "0 < ipfren_cache r" using assms(2) length_pos_if_in_set [OF assms(3)] unfolding can_take_def by linarith
  ultimately have "ip_reass_packet (pc_m p) (pc_ip p) r s = map_option (Pair 0) (ip_reass (qent ?h p) None ?b
    ((upd_ip (pc_ip p) norm_ip r)\<lparr> ipfren_cache := ipfren_cache r - 1 \<rparr>) s)"
    using packet_accept [OF refl pc(1,2) _ pc(4), of None "pc_m p" s] by (simp add: pc(5) qent_def)
  moreover have "filter (\<lambda>q. q = p) ps = [p]"
    using assms(1) by (intro filter_single assms(3)) (simp add: datagram_cut_def distinct_map)
  moreover have "\<not> (0 \<le> ip_maxfragpackets r \<and> ip_nfragpackets r \<ge> ip_maxfragpackets r)" "ftable_room r \<noteq> 0"
    using assms(2) by (auto simp: can_take_def)
  ultimately show ?thesis using pc(3)
    by (simp add: ip_reass_def Let_def strip_def upd_ip_def same_key_def)
      (intro arg_cong [of _ _ "map_option (Pair 0)"] arg_cong2 [of _ _ _ _ "check_complete ?b 0"] reass.equality,
        simp_all add: pending_def pending_queue_def Let_def fun_eq_iff)
qed

text \<open>A piece among others that it does not overlap goes between those before and those behind it.\<close>

lemma place_between:
  assumes "ipq_fragq (ip_frags R b ! 0) = F @ G" "\<forall>q\<in>set F. qoff R q + qlen R q \<le> qoff R x" "\<forall>q\<in>set G. qoff R x + qlen R x \<le> qoff R q"
    "0 < qlen R x" "\<forall>q\<in>set (F @ G). 0 < qlen R q"
  shows "place_fragment x b 0 R s = check_complete b 0 (upd_queue b 0 (\<lambda>f. f\<lparr> ipq_fragq := F @ x # G \<rparr>) R) s"
proof -
  have lt: "qoff R q \<le> qoff R x" if "q \<in> set F" for q using bspec [OF assms(2) that] bspec [OF assms(5), of q] that by simp
  have gt: "\<not> qoff R q \<le> qoff R x" if "q \<in> set G" for q using bspec [OF assms(3) that] assms(4) by simp
  have tw: "takeWhile (\<lambda>q. qoff R q \<le> qoff R x) (F @ G) = F"
    using lt gt by (cases G) (auto simp: takeWhile_append)
  then have dw: "dropWhile (\<lambda>q. qoff R q \<le> qoff R x) (F @ G) = G"
    by (metis append_eq_conv_conj takeWhile_dropWhile_id same_append_eq)
  have i: "(if F = [] then 0 else qoff R (last F) + qlen R (last F) - qoff R x) \<le> 0"
    using assms(2) last_in_set [of F] by auto
  have tl: "trim_later (ipqe_ip x) b 0 G R s = Some (G, R, s)"
    using assms(3) by (cases G) (auto simp: qoff_def qlen_def)
  show ?thesis using i tl unfolding place_fragment_def Let_def assms(1) tw dw by simp
qed

text \<open>What \<^const>\<open>ip_reass_packet\<close> and \<^const>\<open>ip_reass\<close> do to the tables for one more piece.\<close>

definition counted :: "nat \<Rightarrow> piece \<Rightarrow> reass \<Rightarrow> reass" where
  "counted b p r = upd_queue b 0 (\<lambda>f. f\<lparr> ipq_nfrags := ipq_nfrags f + 1 \<rparr>)
     ((upd_ip (pc_ip p) norm_ip r)\<lparr> ipfren_cache := ipfren_cache r - 1, ip_nfrags := ip_nfrags r + 1 \<rparr>)"

lemma pending_insert:
  assumes "distinct (xs @ p # ys)" "finite A" "p \<notin> A" "pc_ip p \<notin> pc_ip ` A"
  shows "upd_queue (bucket (iphdr r) (xs @ p # ys)) 0 (\<lambda>f. f\<lparr> ipq_fragq := map (qent (iphdr r)) (filter (\<lambda>q. q \<in> A) xs @ p # filter (\<lambda>q. q \<in> A) ys) \<rparr>)
    (counted (bucket (iphdr r) (xs @ p # ys)) p (pending r (xs @ p # ys) A)) = pending r (xs @ p # ys) (insert p A)"
proof -
  let ?h = "iphdr r" and ?ps = "xs @ p # ys"
  have "filter (\<lambda>q. q = p \<or> q \<in> A) xs = filter (\<lambda>q. q \<in> A) xs" "filter (\<lambda>q. q = p \<or> q \<in> A) ys = filter (\<lambda>q. q \<in> A) ys"
    using assms(1) by (auto intro!: filter_cong)
  then have "pending_queue ?h ?ps (insert p A) = (pending_queue ?h ?ps A)\<lparr> ipq_nfrags := of_nat (card A) + 1,
      ipq_fragq := map (qent ?h) (filter (\<lambda>q. q \<in> A) xs @ p # filter (\<lambda>q. q \<in> A) ys) \<rparr>"
    using assms(2,3) by (simp add: pending_queue_def Let_def add.commute)
  moreover have "ipq_nfrags (pending_queue ?h ?ps A) = of_nat (card A)" by (simp add: pending_queue_def Let_def)
  ultimately show ?thesis using assms(2-4)
    by (intro reass.equality) (auto simp: counted_def upd_queue_def upd_ip_def pending_def Let_def fun_eq_iff)
qed

lemma place_pending:
  assumes "cut_from (iphdr r) 0 (xs @ p # ys)" "A \<subseteq> set (xs @ p # ys)" "finite A" "p \<notin> A" "pc_ip p \<notin> pc_ip ` A" "distinct (xs @ p # ys)"
    "b = bucket (iphdr r) (xs @ p # ys)"
  shows "place_fragment (qent (iphdr r) p) b 0 (counted b p (pending r (xs @ p # ys) A)) s =
    check_complete b 0 (pending r (xs @ p # ys) (insert p A)) s"
proof -
  let ?h = "iphdr r"
  define R where "R = counted b p (pending r (xs @ p # ys) A)"
  let ?F = "map (qent ?h) (filter (\<lambda>q. q \<in> A) xs)" and ?G = "map (qent ?h) (filter (\<lambda>q. q \<in> A) ys)"
  have q: "ipq_fragq (ip_frags R b ! 0) = ?F @ ?G"
    using assms(4) by (simp add: R_def counted_def upd_queue_def upd_ip_def pending_def pending_queue_def Let_def assms(7))
  have hd: "iphdr R (pc_ip x) = norm_ip (?h (pc_ip x))" if "x \<in> insert p A" for x
    using that assms(5) by (auto simp: R_def counted_def upd_queue_def upd_ip_def pending_def Let_def)
  have off: "qoff R (qent ?h x) = foff (?h (pc_ip x)) \<and> qlen R (qent ?h x) = flen (?h (pc_ip x)) \<and> 0 < flen (?h (pc_ip x))"
    if "x \<in> insert p A" for x
    using hd [OF that] that cut_from_pos [OF assms(1), of x] assms(2) by (auto simp: qoff_def qlen_def)
  have "place_fragment (qent ?h p) b 0 R s = check_complete b 0 (upd_queue b 0 (\<lambda>f. f\<lparr> ipq_fragq := ?F @ qent ?h p # ?G \<rparr>) R) s"
    by (rule place_between [OF q]) (use off cut_from_split [OF assms(1)] in auto)
  then show ?thesis using pending_insert [OF assms(6,3-5), of r] by (simp add: R_def assms(7))
qed

lemma arrival_next:
  assumes "datagram_cut (iphdr r) ps" "can_take r ps" "A \<subseteq> set ps" "A \<noteq> {}" "p \<in> set ps" "p \<notin> A"
  shows "ip_reass_packet (pc_m p) (pc_ip p) (pending r ps A) s =
    map_option (Pair 0) (check_complete (bucket (iphdr r) ps) 0 (pending r ps (insert p A)) (strip (iphdr r) p s))"
proof -
  let ?h = "iphdr r" and ?b = "bucket (iphdr r) ps" and ?R = "pending r ps A"
  note pc = datagram_cut_piece [OF assms(1,5)]
  have d: "distinct ps" "inj_on pc_ip (set ps)" and cut: "cut_from ?h 0 ps" using assms(1) by (auto simp: datagram_cut_def distinct_map)
  have pA: "pc_ip p \<notin> pc_ip ` A" using d(2) assms(3,5,6) by (auto dest: inj_onD)
  have fA: "finite A" and cA: "card (insert p A) \<le> length ps"
    using assms(3,5) finite_subset card_mono [of "set ps" "insert p A"] card_length [of ps] by (auto intro: le_trans)
  then have room: "card A < ipfren_cache r" using assms(2,6) by (simp add: can_take_def)
  have hp: "iphdr ?R (pc_ip p) = ?h (pc_ip p)" using pA by (simp add: pending_def Let_def)
  have fq: "find_queue (?h (pc_ip p)) (ip_frags ?R ?b) 0 = Some 0" "ipq_tos (ip_frags ?R ?b ! 0) = ip_tos (?h (pc_ip p))"
    using pc(3) by (simp_all add: pending_def pending_queue_def Let_def same_datagram_def same_key_def)
  have pk: "ip_reass_packet (pc_m p) (pc_ip p) ?R s = map_option (Pair 0) (ip_reass (qent ?h p) (Some 0) ?b
    ((upd_ip (pc_ip p) norm_ip ?R)\<lparr> ipfren_cache := ipfren_cache ?R - 1 \<rparr>) s)"
    using packet_accept [of "?h (pc_ip p)" ?R "pc_ip p" "Some 0" "pc_m p" s] hp pc fq room
    by (simp add: qent_def) (simp add: pending_def Let_def)
  obtain xs ys where ps: "ps = xs @ p # ys" using assms(5) by (auto dest: split_list)
  have "ip_reass (qent ?h p) (Some 0) ?b ((upd_ip (pc_ip p) norm_ip ?R)\<lparr> ipfren_cache := ipfren_cache ?R - 1 \<rparr>) s =
    place_fragment (qent ?h p) ?b 0 (counted ?b p ?R) (strip ?h p s)"
    by (simp add: ip_reass_def counted_def strip_def hp upd_ip_def)
  then show ?thesis using pk place_pending [of r xs p ys A ?b "strip ?h p s"] cut assms(3,6) fA pA d(1) ps by simp
qed

text \<open>All pieces: the datagram is passed on and the tables are as they were before.\<close>

definition stripped :: "(addr \<Rightarrow> ip) \<Rightarrow> piece set \<Rightarrow> 'a mstate_scheme \<Rightarrow> 'a mstate_scheme \<Rightarrow> bool" where
  "stripped h A s t \<longleftrightarrow> (\<forall>p\<in>A. mbufs t (pc_m p) = mbufs (strip h p s) (pc_m p)) \<and> (\<forall>a. a \<notin> pc_m ` A \<longrightarrow> mbufs t a = mbufs s a) \<and>
     dmem t = dmem s \<and> mb_cache t = mb_cache s \<and> rmb t = rmb s \<and> rpool t = rpool s"

lemma stripped_empty: "stripped h {} s s"
  by (simp add: stripped_def)

lemma stripped_insert:
  assumes "stripped h A s t" "pc_m p \<notin> pc_m ` A"
  shows "stripped h (insert p A) s (strip h p t)"
proof -
  have "pc_m q \<noteq> pc_m p" if "q \<in> A" for q using assms(2) that by (metis imageI)
  moreover have "mbufs t (pc_m p) = mbufs s (pc_m p)" using assms by (simp add: stripped_def)
  ultimately show ?thesis using assms(1) unfolding stripped_def strip_def by auto
qed

text \<open>The mbufs of the pieces: chains of their own, with the length that the header says and the header in the first mbuf.\<close>

definition in_mbufs :: "(addr \<Rightarrow> ip) \<Rightarrow> addr set \<Rightarrow> piece list \<Rightarrow> 'a mstate_scheme \<Rightarrow> bool" where
  "in_mbufs h used ps s \<longleftrightarrow> distinct (concat (map pc_mbufs ps)) \<and> set (concat (map pc_mbufs ps)) \<subseteq> used \<and>
     (\<forall>p\<in>set ps. mchain s (Some (pc_m p)) (pc_mbufs p) \<and> clen s (pc_mbufs p) = uint (ip_len (h (pc_ip p))) \<and>
        4 * int (ip_hl (h (pc_ip p))) \<le> m_len (mbufs s (pc_m p)))"

definition payload :: "(addr \<Rightarrow> ip) \<Rightarrow> 'a mstate_scheme \<Rightarrow> piece \<Rightarrow> 8 word list" where
  "payload h s p = drop (4 * ip_hl (h (pc_ip p))) (cbytes s (pc_mbufs p))"

lemma stripped_piece:
  assumes "stripped h (set ps) s t" "in_mbufs h used ps s" "p \<in> set ps"
  shows "mchain t (Some (pc_m p)) (pc_mbufs p)" "cbytes t (pc_mbufs p) = payload h s p"
    "m_data (mbufs t (pc_m p)) = m_data (mbufs s (pc_m p)) + 4 * ip_hl (h (pc_ip p))"
    "m_len (mbufs t (pc_m p)) = m_len (mbufs s (pc_m p)) - 4 * int (ip_hl (h (pc_ip p)))"
    "has_flag g (mbufs t (pc_m p)) = has_flag g (mbufs s (pc_m p))"
proof -
  let ?m = "pc_m p" and ?hl = "ip_hl (h (pc_ip p))"
  have m: "mbufs t ?m = (mbufs s ?m)\<lparr> m_data := m_data (mbufs s ?m) + 4 * ?hl, m_len := m_len (mbufs s ?m) - 4 * int ?hl \<rparr>"
    using assms(1,3) by (simp add: stripped_def strip_def)
  then show "m_data (mbufs t ?m) = m_data (mbufs s ?m) + 4 * ?hl" "m_len (mbufs t ?m) = m_len (mbufs s ?m) - 4 * int ?hl"
    "has_flag g (mbufs t ?m) = has_flag g (mbufs s ?m)" by (simp_all add: has_flag_def)
  have d: "distinct (concat (map pc_mbufs ps))" and ch: "mchain s (Some ?m) (pc_mbufs p)" and l: "4 * int ?hl \<le> m_len (mbufs s ?m)"
    using assms(2,3) by (auto simp: in_mbufs_def)
  have same: "mbufs t a = mbufs s a" if "a \<in> set (pc_rest p)" for a
  proof -
    have "a \<noteq> pc_m q" if q: "q \<in> set ps" for q
    proof (cases "pc_mbufs q = pc_mbufs p")
      case True
      then show ?thesis using mchain_distinct [OF ch] \<open>a \<in> _\<close> by (auto simp: pc_mbufs_def)
    next
      case False
      then have "set (pc_mbufs q) \<inter> set (pc_mbufs p) = {}" using d q assms(3) by (auto simp: distinct_concat_iff)
      then show ?thesis using \<open>a \<in> _\<close> by (auto simp: pc_mbufs_def)
    qed
    then show ?thesis using assms(1) by (auto simp: stripped_def)
  qed
  have "mchain t (m_next (mbufs s ?m)) (pc_rest p)" by (rule mchain_cong [OF _ same]) (use ch in \<open>auto simp: pc_mbufs_def mchain_Cons\<close>)
  then show "mchain t (Some ?m) (pc_mbufs p)" using ch l m by (simp add: pc_mbufs_def mchain_Cons)
  have "mbytes t ?m = drop (4 * ?hl) (mbytes s ?m)" using m l assms(1) by (simp add: mbytes_def stripped_def nat_diff_distrib nat_mult_distrib)
  then show "cbytes t (pc_mbufs p) = payload h s p"
    using cbytes_same [OF same, of "pc_rest p"] l assms(1) by (simp add: payload_def pc_mbufs_def stripped_def nat_le_iff)
qed

lemma payload_length:
  assumes "in_mbufs h used ps s" "p \<in> set ps"
  shows "int (length (payload h s p)) = flen (h (pc_ip p))" "4 * ip_hl (h (pc_ip p)) \<le> length (cbytes s (pc_mbufs p))"
proof -
  have ch: "mchain s (Some (pc_m p)) (pc_m p # pc_rest p)" and l: "clen s (pc_mbufs p) = uint (ip_len (h (pc_ip p)))"
    "4 * int (ip_hl (h (pc_ip p))) \<le> m_len (mbufs s (pc_m p))"
    using assms by (auto simp: in_mbufs_def pc_mbufs_def)
  have "0 \<le> clen s (pc_rest p)" using ch clen_nonneg by (auto simp: mchain_Cons)
  then have c: "int (length (cbytes s (pc_mbufs p))) = uint (ip_len (h (pc_ip p)))" "4 * int (ip_hl (h (pc_ip p))) \<le> uint (ip_len (h (pc_ip p)))"
    using clen_bytes [OF ch] l unfolding pc_mbufs_def by simp_all
  then show "4 * ip_hl (h (pc_ip p)) \<le> length (cbytes s (pc_mbufs p))" by linarith
  then show "int (length (payload h s p)) = flen (h (pc_ip p))" using c by (simp add: payload_def flen_def of_nat_diff)
qed

lemma payloads_length: "in_mbufs h used ps s \<Longrightarrow> int (length (concat (map (payload h s) ps))) = payload_len h ps"
  using payload_length(1) [of h used ps s]
  by (simp add: length_concat payload_len_def comp_def flip: sum_list_of_nat cong: map_cong)

text \<open>The datagram \<^term>\<open>as\<close> that is passed on: the header of the first piece with the length of the whole, then all the data; apart from headers the tables are unchanged.\<close>

definition datagram_bytes :: "(addr \<Rightarrow> ip) \<Rightarrow> 'a mstate_scheme \<Rightarrow> piece list \<Rightarrow> 8 word list" where
  "datagram_bytes h s ps = take (4 * ip_hl (h (pc_ip (hd ps)))) (cbytes s (pc_mbufs (hd ps))) @ concat (map (payload h s) ps)"

definition delivered :: "reass \<Rightarrow> 'a mstate_scheme \<Rightarrow> piece list \<Rightarrow> addr list \<Rightarrow> reass \<Rightarrow> 'a mstate_scheme \<Rightarrow> bool" where
  "delivered r s ps as r' t \<longleftrightarrow>
     (let p = hd ps; bs = datagram_bytes (iphdr r) s ps
      in mchain t (Some (pc_m p)) as \<and> cbytes t as = bs \<and>
         (has_flag M_PKTHDR (mbufs s (pc_m p)) \<longrightarrow> ph_len (m_pkthdr (mbufs t (pc_m p))) = int (length bs)) \<and>
         iphdr r' (pc_ip p) = (iphdr r (pc_ip p))\<lparr> ip_len := of_nat (length bs), ip_off := 0 \<rparr> \<and> r' = r\<lparr> iphdr := iphdr r' \<rparr>)"

lemma pieces_counted: "cut_from h off ps \<Longrightarrow> int (length ps) \<le> payload_len h ps"
  by (induction ps arbitrary: off) (auto simp: payload_len_def, fastforce)

lemma check_complete_pending:
  assumes "datagram_cut (iphdr r) ps"
  shows "check_complete (bucket (iphdr r) ps) 0 (pending r ps (set ps)) t =
    complete_datagram (pending_queue (iphdr r) ps (set ps)) (payload_len (iphdr r) ps)
      (r\<lparr> iphdr := iphdr (pending r ps (set ps)), ipfren_cache := ipfren_cache r - length ps, ftable_room := ftable_room r - 1 \<rparr>) t"
proof -
  let ?h = "iphdr r" and ?b = "bucket (iphdr r) ps" and ?R = "pending r ps (set ps)" and ?q = "pending_queue (iphdr r) ps (set ps)"
  have cut: "cut_from ?h 0 ps" "distinct ps" "ps \<noteq> []" "payload_len ?h ps + 4 * int (ip_hl (?h (pc_ip (hd ps)))) \<le> IP_MAXPACKET"
    using assms by (auto simp: datagram_cut_def distinct_map)
  have n: "uint (ipq_nfrags ?q) = int (length ps)"
    using pieces_counted [OF cut(1)] cut(2,4) uint16_of_int [of "int (length ps)"]
    by (simp add: pending_queue_def Let_def distinct_card IP_MAXPACKET_def)
  have q: "ip_frags ?R ?b ! 0 = ?q" "ipq_fragq ?q = map (qent ?h) ps" by (simp_all add: pending_def pending_queue_def Let_def)
  have nx: "reass_next ?R (map (qent ?h) ps) 0 = Some (payload_len ?h ps)"
    using reass_next_all [OF cut(1), of ?R] by (simp add: pending_def Let_def)
  have last: "\<not> fmff (?h (pc_ip (last ps)))"
    using cut(1,3) by (induction ps rule: rev_induct) (auto simp: cut_from_last)
  have hl: "ip_hl (iphdr ?R (pc_ip (hd ps))) = ip_hl (?h (pc_ip (hd ps)))" by (simp add: pending_def Let_def)
  have "(remove_queue ?b 0 ?R)\<lparr> ip_nfrags := ip_nfrags (remove_queue ?b 0 ?R) - int (length ps),
      ip_nfragpackets := ip_nfragpackets (remove_queue ?b 0 ?R) - 1 \<rparr> =
    r\<lparr> iphdr := iphdr ?R, ipfren_cache := ipfren_cache r - length ps, ftable_room := ftable_room r - 1 \<rparr>"
    by (rule reass.equality) (simp_all add: remove_queue_def pending_def Let_def distinct_card [OF cut(2)])
  then show ?thesis
    unfolding check_complete_def Let_def q nx using cut(3,4) last hl by (simp add: last_map hd_map n)
qed

lemma cbytes_concat: "cbytes s (concat xss) = concat (map (cbytes s) xss)"
  by (induction xss) simp_all

lemma stripped_bytes:
  assumes "stripped h (set ps) s t" "in_mbufs h used ps s" "ps = p # qs" "hl = 4 * ip_hl (h (pc_ip p))"
  shows "mem_read (dmem t) (m_data (mbufs t (pc_m p)) - hl) hl @ cbytes t (concat (map pc_mbufs ps)) = datagram_bytes h s ps"
proof -
  note st = stripped_piece [OF assms(1,2)]
  have "map (cbytes t) (map pc_mbufs ps) = map (payload h s) ps" using st(2) by simp
  then have data: "cbytes t (concat (map pc_mbufs ps)) = concat (map (payload h s) ps)" by (simp only: cbytes_concat)
  have "hl \<le> nat (m_len (mbufs s (pc_m p)))" using assms(2-4) by (auto simp: in_mbufs_def)
  then have "mem_read (dmem t) (m_data (mbufs t (pc_m p)) - hl) hl = take hl (cbytes s (pc_mbufs p))"
    using st(3) [of p] assms(1,3,4) by (simp add: pc_mbufs_def mbytes_def stripped_def min_def)
  then show ?thesis unfolding data datagram_bytes_def using assms(3,4) by simp
qed

lemma stripped_inv:
  assumes "stripped h A s t" "mbuf_inv M U used e s"
  shows "mbuf_inv M U used e t"
proof (rule mbuf_inv_fields [OF assms(2)])
  show "m_paddr (mbufs t a) = m_paddr (mbufs s a)" for a
    using assms(1) by (cases "a \<in> pc_m ` A") (auto simp: stripped_def strip_def)
qed (use assms(1) in \<open>auto simp: stripped_def\<close>)

lemma complete_pieces:
  assumes "in_mbufs h used ps s" "stripped h (set ps) s t" "mbuf_inv M U used e s" "ps = p # qs" "hl = 4 * ip_hl (h (pc_ip p))"
    "ip_hl (iphdr R (pc_ip p)) = ip_hl (h (pc_ip p))" "ipq_fragq fp = map (qent h) ps"
  shows "\<exists>u as. complete_datagram fp n R t = Some (Some (pc_m p), upd_ip (pc_ip p)
      (\<lambda>i. i\<lparr> ip_len := of_int (int hl + n), ip_src := ipq_src fp, ip_dst := ipq_dst fp \<rparr>)
      (R\<lparr> ipfren_cache := ipfren_cache R + length ps, ftable_room := ftable_room R + 1 \<rparr>), u) \<and>
    mchain u (Some (pc_m p)) as \<and> cbytes u as = datagram_bytes h s ps \<and>
    (has_flag M_PKTHDR (mbufs s (pc_m p)) \<longrightarrow> ph_len (m_pkthdr (mbufs u (pc_m p))) = int (length (cbytes u as))) \<and>
    mbuf_inv M U (used - (set (concat (map pc_mbufs ps)) - set as)) e u"
proof -
  let ?m = "pc_m p"
  define fs where "fs = map (\<lambda>q. (qent h q, pc_mbufs q)) qs"
  note st = stripped_piece [OF assms(2,1)]
  have mb: "concat (map pc_mbufs ps) = ?m # pc_rest p @ mbufs_of fs" by (simp add: assms(4) mbufs_of_def comp_def fs_def) (simp add: pc_mbufs_def)
  have im: "distinct (?m # pc_rest p @ mbufs_of fs)" "set (?m # pc_rest p @ mbufs_of fs) \<subseteq> used" using assms(1) unfolding in_mbufs_def mb by blast+
  have "ipq_fragq fp = map fst ((qent h p, ?m # pc_rest p) # fs)" by (simp add: assms(4,7) comp_def fs_def)
  moreover have "frag_chains t ((qent h p, ?m # pc_rest p) # fs)" using st(1) by (auto simp: frag_chains_def assms(4) pc_mbufs_def fs_def)
  moreover have "hl = 4 * ip_hl (iphdr R (ipqe_ip (qent h p)))" using assms(5,6) by simp
  moreover have "hl \<le> m_data (mbufs t ?m)" "m_len (mbufs t ?m) + int hl < 2 ^ 31"
    using st(3,4) [of p] assms(1) by (auto simp: assms(4,5) in_mbufs_def pc_mbufs_def mchain_Cons)
  ultimately obtain u post where u: "complete_datagram fp n R t = Some (Some ?m, upd_ip (pc_ip p)
      (\<lambda>i. i\<lparr> ip_len := of_int (int hl + n), ip_src := ipq_src fp, ip_dst := ipq_dst fp \<rparr>)
      (R\<lparr> ipfren_cache := ipfren_cache R + Suc (length fs), ftable_room := ftable_room R + 1 \<rparr>), u)"
    "mchain u (Some ?m) (?m # post)"
    "cbytes u (?m # post) = mem_read (dmem t) (m_data (mbufs t ?m) - hl) hl @ cbytes t (?m # pc_rest p @ mbufs_of fs)"
    "has_flag M_PKTHDR (mbufs t ?m) \<longrightarrow> ph_len (m_pkthdr (mbufs u ?m)) = int (length (cbytes u (?m # post)))"
    "mbuf_inv M U (used - (set (pc_rest p @ mbufs_of fs) - set post)) e u"
    using complete_datagram_spec [of fp "qent h p" ?m "pc_rest p" fs t used M U e hl R n] im stripped_inv [OF assms(2,3)] unfolding qent_fields by blast
  have "cbytes u (?m # post) = datagram_bytes h s ps"
    using u(3) stripped_bytes [OF assms(2,1,4,5)] unfolding mb by simp
  moreover have "set (concat (map pc_mbufs ps)) - set (?m # post) = set (pc_rest p @ mbufs_of fs) - set post" unfolding mb using im(1) by auto
  moreover have "Suc (length fs) = length ps" by (simp add: fs_def assms(4))
  ultimately show ?thesis using u(1,2,4,5) st(5) [of p]
    by (rule_tac exI [of _ u], rule_tac exI [of _ "?m # post"]) (simp add: assms(4) del: cbytes_Cons)
qed

lemma check_complete_all:
  assumes "datagram_cut (iphdr r) ps" "can_take r ps" "in_mbufs (iphdr r) used ps s" "stripped (iphdr r) (set ps) s t" "mbuf_inv M U used e s"
  shows "\<exists>r' u as. check_complete (bucket (iphdr r) ps) 0 (pending r ps (set ps)) t = Some (Some (pc_m (hd ps)), r', u) \<and>
    delivered r s ps as r' u \<and> mbuf_inv M U (used - (set (concat (map pc_mbufs ps)) - set as)) e u"
proof -
  let ?h = "iphdr r" and ?fp = "pending_queue (iphdr r) ps (set ps)"
  obtain p qs where ps: "ps = p # qs" using assms(1) by (cases ps) (auto simp: datagram_cut_def)
  let ?hl = "4 * ip_hl (?h (pc_ip p))"
  define R where "R = r\<lparr> iphdr := iphdr (pending r ps (set ps)), ipfren_cache := ipfren_cache r - length ps, ftable_room := ftable_room r - 1 \<rparr>"
  have fq: "ip_hl (iphdr R (pc_ip p)) = ip_hl (?h (pc_ip p))" "ipq_fragq ?fp = map (qent ?h) ps"
    by (simp_all add: R_def pending_def pending_queue_def Let_def ps)
  define r' where "r' = upd_ip (pc_ip p)
      (\<lambda>i. i\<lparr> ip_len := of_int (int ?hl + payload_len ?h ps), ip_src := ipq_src ?fp, ip_dst := ipq_dst ?fp \<rparr>)
      (R\<lparr> ipfren_cache := ipfren_cache R + length ps, ftable_room := ftable_room R + 1 \<rparr>)"
  obtain u as where u: "complete_datagram ?fp (payload_len ?h ps) R t = Some (Some (pc_m p), r', u)"
    "mchain u (Some (pc_m p)) as" "cbytes u as = datagram_bytes ?h s ps"
    "has_flag M_PKTHDR (mbufs s (pc_m p)) \<longrightarrow> ph_len (m_pkthdr (mbufs u (pc_m p))) = int (length (cbytes u as))"
    "mbuf_inv M U (used - (set (concat (map pc_mbufs ps)) - set as)) e u"
    using complete_pieces [OF assms(3-5) ps refl fq, of "payload_len ?h ps"] unfolding r'_def by blast
  have "int (length (datagram_bytes ?h s ps)) = int ?hl + payload_len ?h ps"
    using payloads_length [OF assms(3)] payload_length(2) [OF assms(3), of p] by (simp add: datagram_bytes_def ps min_def)
  then have len: "of_int (int ?hl + payload_len ?h ps) = (of_nat (length (datagram_bytes ?h s ps)) :: u16)" by (metis of_int_of_nat_eq)
  have "foff (?h (pc_ip p)) = 0" using assms(1) by (simp add: datagram_cut_def ps)
  then have "iphdr r' (pc_ip p) = (?h (pc_ip p))\<lparr> ip_len := of_nat (length (datagram_bytes ?h s ps)), ip_off := 0 \<rparr>"
    unfolding r'_def len by (simp add: upd_ip_def R_def pending_def pending_queue_def Let_def ps norm_ip_def)
  moreover have "r' = r\<lparr> iphdr := iphdr r' \<rparr>"
    by (rule reass.equality) (use assms(2) in \<open>simp_all add: r'_def upd_ip_def R_def can_take_def\<close>)
  ultimately have "delivered r s ps as r' u" using u(2-4) unfolding delivered_def Let_def by (simp add: ps)
  moreover have "check_complete (bucket ?h ps) 0 (pending r ps (set ps)) t = Some (Some (pc_m (hd ps)), r', u)"
    using check_complete_pending [OF assms(1), of t] u(1) unfolding R_def by (simp add: ps)
  ultimately show ?thesis using u(5) by blast
qed

section \<open>Arrivals in any order\<close>

fun reass_run :: "piece list \<Rightarrow> reass \<Rightarrow> 'a mstate_scheme \<Rightarrow> ((int \<times> addr option) list \<times> reass \<times> 'a mstate_scheme) option" where
  "reass_run [] r s = Some ([], r, s)"
| "reass_run (p # ps) r s =
     do {
       (err, m, r, s) \<leftarrow> ip_reass_packet (pc_m p) (pc_ip p) r s;
       (res, r, s) \<leftarrow> reass_run ps r s;
       Some ((err, m) # res, r, s)
     }"

lemma in_mbufs_inj:
  assumes "in_mbufs h used ps s" "distinct ps" "p \<in> set ps" "A \<subseteq> set ps" "p \<notin> A"
  shows "pc_m p \<notin> pc_m ` A"
proof
  assume "pc_m p \<in> pc_m ` A"
  then obtain q where q: "q \<in> A" "pc_m p = pc_m q" by auto
  obtain xs ys where ps: "ps = xs @ p # ys" using assms(3) by (auto dest: split_list)
  have "q \<in> set xs \<union> set ys" using q(1) assms(4,5) ps by auto
  moreover have "pc_m p \<in> set (pc_mbufs p)" "pc_m q \<in> set (pc_mbufs q)" by (simp_all add: pc_mbufs_def)
  ultimately show False using assms(1) q(2) unfolding in_mbufs_def ps by auto
qed

lemma replicate_less: "0 < n \<Longrightarrow> replicate n x = x # replicate (n - 1) x"
  by (cases n) simp_all

lemma run_pending:
  assumes "datagram_cut (iphdr r) ps" "can_take r ps" "in_mbufs (iphdr r) used ps s" "mbuf_inv M U used e s"
    "qs \<noteq> []" "distinct qs" "A \<noteq> {}" "A \<union> set qs = set ps" "A \<inter> set qs = {}" "stripped (iphdr r) A s t"
  shows "\<exists>r' u as. reass_run qs (pending r ps A) t = Some (replicate (length qs - 1) (0, None) @ [(0, Some (pc_m (hd ps)))], r', u) \<and>
    delivered r s ps as r' u \<and> mbuf_inv M U (used - (set (concat (map pc_mbufs ps)) - set as)) e u"
  using assms
proof (induction qs arbitrary: A t)
  case (Cons q qs)
  have A: "A \<subseteq> set ps" "q \<in> set ps" "q \<notin> A" and d: "distinct ps" using Cons.prems by (auto simp: datagram_cut_def distinct_map)
  have st: "stripped (iphdr r) (insert q A) s (strip (iphdr r) q t)"
    by (rule stripped_insert [OF Cons.prems(10) in_mbufs_inj [OF Cons.prems(3) d A(2,1,3)]])
  note step = arrival_next [OF Cons.prems(1,2) A(1) Cons.prems(7) A(2,3), of t]
  show ?case
  proof (cases "qs = []")
    case True
    then have all: "insert q A = set ps" using Cons.prems(8) by auto
    from check_complete_all [OF Cons.prems(1-3) st [unfolded all] Cons.prems(4)] step True show ?thesis
      unfolding all by fastforce
  next
    case False
    then have part: "insert q A \<subseteq> set ps" "insert q A \<noteq> set ps" using Cons.prems(6,8,9) A by (cases qs; auto)+
    have "ip_reass_packet (pc_m q) (pc_ip q) (pending r ps A) t = Some (0, None, pending r ps (insert q A), strip (iphdr r) q t)"
      using step check_complete_waiting [OF Cons.prems(1) part(1) _ part(2)] by simp
    moreover obtain r' u as where "reass_run qs (pending r ps (insert q A)) (strip (iphdr r) q t) =
        Some (replicate (length qs - 1) (0, None) @ [(0, Some (pc_m (hd ps)))], r', u)"
      "delivered r s ps as r' u" "mbuf_inv M U (used - (set (concat (map pc_mbufs ps)) - set as)) e u"
      using Cons.IH [of "insert q A" "strip (iphdr r) q t"] Cons.prems(1-4,6,8,9) st False by auto
    moreover have "replicate (length (q # qs) - 1) (0 :: int, None :: addr option) = (0, None) # replicate (length qs - 1) (0, None)"
      using False replicate_less [of "length qs"] by simp
    ultimately show ?thesis by auto
  qed
qed simp

text \<open>C18.  A datagram that was cut into fragments comes out whole: whatever the order in which \<^const>\<open>ip_reass_packet\<close> gets the
  fragments, it keeps them until the last one is there, and then passes on one chain with the header of the first fragment and all
  the data in order, the length in the header and in the packet header being that of the chain.  The queue, the counters and the
  pools are then what they were before the first fragment, and of the mbufs of the fragments those that are not part of the chain
  have been freed.\<close>

theorem reassembled_in_any_order:
  assumes "datagram_cut (iphdr r) ps" "can_take r ps" "in_mbufs (iphdr r) used ps s" "mbuf_inv M U used e s"
    "distinct arrivals" "set arrivals = set ps"
  shows "\<exists>r' t as. reass_run arrivals r s = Some (replicate (length ps - 1) (0, None) @ [(0, Some (pc_m (hd ps)))], r', t) \<and>
    delivered r s ps as r' t \<and> mbuf_inv M U (used - (set (concat (map pc_mbufs ps)) - set as)) e t"
proof -
  have d: "distinct ps" "ps \<noteq> []" using assms(1) by (auto simp: datagram_cut_def distinct_map)
  then have len: "length arrivals = length ps" using assms(5,6) by (metis distinct_card)
  obtain q qs where a: "arrivals = q # qs" using d(2) assms(6) by (cases arrivals) auto
  have q: "q \<in> set ps" using assms(6) a by auto
  note step = arrival_first [OF assms(1,2) q, of s]
  have st: "stripped (iphdr r) {q} s (strip (iphdr r) q s)" using stripped_insert [OF stripped_empty] by simp
  show ?thesis
  proof (cases "qs = []")
    case True
    then have all: "{q} = set ps" using assms(6) a by auto
    from check_complete_all [OF assms(1-3) st [unfolded all] assms(4)] step True len a show ?thesis unfolding all by fastforce
  next
    case False
    then have part: "{q} \<subseteq> set ps" "{q} \<noteq> set ps" using assms(5,6) a by (cases qs; auto)+
    have "ip_reass_packet (pc_m q) (pc_ip q) r s = Some (0, None, pending r ps {q}, strip (iphdr r) q s)"
      using step check_complete_waiting [OF assms(1) part(1) _ part(2)] by simp
    moreover obtain r' u as where "reass_run qs (pending r ps {q}) (strip (iphdr r) q s) =
        Some (replicate (length qs - 1) (0, None) @ [(0, Some (pc_m (hd ps)))], r', u)"
      "delivered r s ps as r' u" "mbuf_inv M U (used - (set (concat (map pc_mbufs ps)) - set as)) e u"
      using run_pending [OF assms(1-4) False, of "{q}" "strip (iphdr r) q s"] assms(5,6) a st by auto
    moreover have "replicate (length ps - 1) (0 :: int, None :: addr option) = (0, None) # replicate (length qs - 1) (0, None)"
      using len False replicate_less [of "length qs"] by (simp add: a flip: len)
    ultimately show ?thesis by (auto simp: a)
  qed
qed

text \<open>An example: a datagram of 52 bytes in two fragments, of which the second one arrives first.\<close>

definition frag_pool :: "nat rte_mempool" where "frag_pool = small_pool\<lparr> mp_local_cache := replicate 128 [] \<rparr>"

definition two_packets :: mstate where
  "two_packets = (upd_m 7 (\<lambda>b. b\<lparr> m_data := 300, m_len := 68, m_flags := M_PKTHDR \<rparr>)
     (upd_m 8 (\<lambda>b. b\<lparr> m_data := 500, m_len := 24, m_flags := M_PKTHDR \<rparr>) idle_mstate))\<lparr> mb_cache := frag_pool \<rparr>"

definition two_headers :: reass where
  "two_headers =
     \<lparr> iphdr = (\<lambda>a. \<lparr> ip_hl = 5, ip_tos = 0, ip_len = (if a = 300 then 68 else 24), ip_id = 1, ip_off = (if a = 300 then 0x2000 else 6),
         ip_p = 17, ip_src = 0x0a000001, ip_dst = 0x0a000002 \<rparr>),
       ip_frags = (\<lambda>_. []), ip_nfragpackets = 0, ip_nfrags = 0, ip_maxfragpackets = 200, ip_maxfrags = 0, ip_nmbclusters = 0,
       dropscanidx = 0, ipfren_cache = 64, ftable_room = 10 \<rparr>"

definition two_pieces :: "piece list" where
  "two_pieces = [\<lparr> pc_ip = 300, pc_m = 7, pc_rest = [] \<rparr>, \<lparr> pc_ip = 500, pc_m = 8, pc_rest = [] \<rparr>]"

lemma frag_pool_facts: "pool_inv frag_pool" "pool_objs frag_pool = {#5#}" "pool_cap frag_pool = 3"
  using small_pool_facts by (auto simp: frag_pool_def pool_inv_def pool_objs_def small_pool_def)

lemma two_packets_inv: "mbuf_inv {5, 7, 8} {1000, 4000} {7, 8} (\<lambda>_. 0) two_packets"
proof -
  have "rmb_inv {1000, 4000} (\<lambda>_. 0) two_packets"
    by (rule rmb_inv_cong [OF two_bufs_facts(1)]) (simp_all add: idle_mstate_def two_packets_def upd_m_def)
  moreover have p: "m_paddr (mbufs two_packets 7) = None" "m_paddr (mbufs two_packets 8) = None"
    by (simp_all add: two_packets_def idle_mstate_def upd_m_def blank_mbuf_def)
  moreover have "{5, 7, 8} - {7, 8} = {5 :: addr}" by auto
  moreover have "holders {7, 8} two_packets q = {}" for q using p by (auto simp: holders_def)
  moreover have "mb_cache two_packets = frag_pool" by (simp add: two_packets_def)
  ultimately show ?thesis by (simp add: mbuf_inv_def frag_pool_facts)
qed

lemma two_headers_values:
  "foff (iphdr two_headers 300) = 0" "foff (iphdr two_headers 500) = 48" "flen (iphdr two_headers 300) = 48" "flen (iphdr two_headers 500) = 4"
  "fmff (iphdr two_headers 300)" "\<not> fmff (iphdr two_headers 500)" "ip_hl (iphdr two_headers a) = 5"
  by (simp_all add: foff_def flen_def fmff_def two_headers_def IP_OFFMASK_def IP_MF_def)

lemma two_pieces_cut: "datagram_cut (iphdr two_headers) two_pieces"
  by (simp add: datagram_cut_def two_pieces_def two_headers_values payload_len_def same_key_def IP_MINFRAGSIZE_def IP_MAXPACKET_def)
    (simp add: two_headers_def)

theorem reassembled_in_any_order_witness:
  "\<exists>r' t as. reass_run (rev two_pieces) two_headers two_packets = Some ([(0, None), (0, Some 7)], r', t) \<and>
    delivered two_headers two_packets two_pieces as r' t \<and> length (cbytes t as) = 72"
proof -
  note two_pieces_cut
  moreover have "can_take two_headers two_pieces" by (simp add: can_take_def two_headers_def two_pieces_def)
  moreover have "in_mbufs (iphdr two_headers) {7, 8} two_pieces two_packets"
    by (simp add: in_mbufs_def two_pieces_def pc_mbufs_def two_headers_values)
      (simp add: two_headers_def two_packets_def idle_mstate_def blank_mbuf_def upd_m_def mchain_Cons)
  moreover have "distinct (rev two_pieces)" "set (rev two_pieces) = set two_pieces" by (auto simp: two_pieces_def)
  ultimately obtain r' t as where t: "reass_run (rev two_pieces) two_headers two_packets =
      Some (replicate (length two_pieces - 1) (0, None) @ [(0, Some (pc_m (hd two_pieces)))], r', t)"
    "delivered two_headers two_packets two_pieces as r' t"
    using reassembled_in_any_order [of two_headers two_pieces "{7, 8}" two_packets "{5, 7, 8}" "{1000, 4000}" "\<lambda>_. 0" "rev two_pieces"]
      two_packets_inv by blast
  have "cbytes t as = datagram_bytes (iphdr two_headers) two_packets two_pieces" using t(2) by (simp add: delivered_def Let_def)
  then have "length (cbytes t as) = 72"
    by (simp add: datagram_bytes_def payload_def two_pieces_def pc_mbufs_def two_headers_values)
      (simp add: two_packets_def idle_mstate_def upd_m_def)
  then show ?thesis using t by (auto simp: two_pieces_def)
qed

section \<open>The counters\<close>

text \<open>The counters of fragments and of datagrams agree with the queues.\<close>

definition cnt :: "ipfr_queue list \<Rightarrow> int" where "cnt qs = (\<Sum>q\<leftarrow>qs. int (length (ipq_fragq q)))"

definition counts_ok :: "ipfr_queue list \<Rightarrow> bool" where
  "counts_ok qs \<longleftrightarrow> (\<forall>q\<in>set qs. uint (ipq_nfrags q) = int (length (ipq_fragq q)))"

definition reass_inv :: "reass \<Rightarrow> bool" where
  "reass_inv r \<longleftrightarrow> (\<forall>i<IPREASS_HASH_SIZE. counts_ok (ip_frags r i)) \<and>
     ip_nfrags r = (\<Sum>i<IPREASS_HASH_SIZE. cnt (ip_frags r i)) \<and>
     ip_nfragpackets r = (\<Sum>i<IPREASS_HASH_SIZE. int (length (ip_frags r i))) \<and> dropscanidx r < IPREASS_HASH_SIZE"

lemma cnt_simps [simp]: "cnt [] = 0" "cnt (q # qs) = int (length (ipq_fragq q)) + cnt qs" "cnt (qs @ ps) = cnt qs + cnt ps"
  by (simp_all add: cnt_def)

lemma counts_ok_simps [simp]:
  "counts_ok []" "counts_ok (q # qs) \<longleftrightarrow> uint (ipq_nfrags q) = int (length (ipq_fragq q)) \<and> counts_ok qs"
  "counts_ok (qs @ ps) \<longleftrightarrow> counts_ok qs \<and> counts_ok ps"
  by (auto simp: counts_ok_def)

lemma sum_bucket:
  fixes f :: "ipfr_queue list \<Rightarrow> int" and b n :: nat
  assumes "b < n"
  shows "(\<Sum>i<n. f ((g(b := qs)) i)) = (\<Sum>i<n. f (g i)) - f (g b) + f qs"
proof -
  have "(\<Sum>i\<in>{..<n} - {b}. f ((g(b := qs)) i)) = (\<Sum>i\<in>{..<n} - {b}. f (g i))" by (rule sum.cong) auto
  then show ?thesis using assms sum.remove [OF finite_lessThan, of b n "\<lambda>i. f ((g(b := qs)) i)"] sum.remove [OF finite_lessThan, of b n "\<lambda>i. f (g i)"] by simp
qed

text \<open>One bucket changes, and the counters by as much.\<close>

lemma reass_inv_bucket:
  assumes "reass_inv r" "b < IPREASS_HASH_SIZE" "ip_frags r' = (ip_frags r)(b := qs)" "counts_ok qs"
    "ip_nfrags r' = ip_nfrags r - cnt (ip_frags r b) + cnt qs"
    "ip_nfragpackets r' = ip_nfragpackets r - int (length (ip_frags r b)) + int (length qs)" "dropscanidx r' = dropscanidx r"
  shows "reass_inv r'"
proof -
  have "(\<Sum>i<IPREASS_HASH_SIZE. cnt (ip_frags r' i)) = ip_nfrags r'"
    using assms(1,5) sum_bucket [OF assms(2), of cnt "ip_frags r" qs] unfolding assms(3) by (simp add: reass_inv_def)
  moreover have "(\<Sum>i<IPREASS_HASH_SIZE. int (length (ip_frags r' i))) = ip_nfragpackets r'"
    using assms(1,6) sum_bucket [OF assms(2), of "\<lambda>qs. int (length qs)" "ip_frags r" qs] unfolding assms(3) by (simp add: reass_inv_def)
  ultimately show ?thesis using assms(1,3,4,7) by (simp add: reass_inv_def)
qed

lemma IPREASS_HASH_less: "IPREASS_HASH x y < IPREASS_HASH_SIZE"
proof -
  have "uint (w AND 63) \<le> 63" for w :: u32 by (simp add: uint_and AND_upper2')
  moreover have "uint x \<le> 63 \<Longrightarrow> unat x < 64" for x :: u32 unfolding uint_nat by linarith
  ultimately have "unat (w AND 63) < 64" for w :: u32 by blast
  then show ?thesis by (simp add: IPREASS_HASH_def IPREASS_HASH_SIZE_def)
qed

text \<open>Tables and counters that are the same in both states.\<close>

definition tabs :: "reass \<Rightarrow> (nat \<Rightarrow> ipfr_queue list) \<times> int \<times> int \<times> nat" where
  "tabs r = (ip_frags r, ip_nfrags r, ip_nfragpackets r, dropscanidx r)"

lemma tabs_other [simp]: "tabs (r\<lparr> ipfren_cache := n \<rparr>) = tabs r" "tabs (r\<lparr> ftable_room := k \<rparr>) = tabs r" "tabs (upd_ip a f r) = tabs r"
  by (simp_all add: tabs_def upd_ip_def)

lemma free_frags_tabs: "free_frags qs r s = Some (r', s') \<Longrightarrow> tabs r' = tabs r"
  by (induction qs arbitrary: r s) (fastforce simp: bind_eq_Some_conv)+

lemma cat_frags_tabs: "cat_frags m qs r s = Some (r', s') \<Longrightarrow> tabs r' = tabs r"
  by (induction qs arbitrary: r s) (fastforce simp: bind_eq_Some_conv)+

lemma complete_datagram_tabs: "complete_datagram fp n r s = Some (m, r', s') \<Longrightarrow> tabs r' = tabs r"
  by (auto simp: complete_datagram_def Let_def bind_eq_Some_conv dest!: cat_frags_tabs)

lemma remove_nth:
  assumes "k < length qs"
  shows "cnt (take k qs @ drop (Suc k) qs) = cnt qs - int (length (ipq_fragq (qs ! k)))"
    "length (take k qs @ drop (Suc k) qs) = length qs - 1" "counts_ok qs \<Longrightarrow> counts_ok (take k qs @ drop (Suc k) qs)"
proof -
  have qs: "qs = take k qs @ qs ! k # drop (Suc k) qs" by (rule id_take_nth_drop [OF assms])
  show "cnt (take k qs @ drop (Suc k) qs) = cnt qs - int (length (ipq_fragq (qs ! k)))" by (subst (3) qs) simp
  show "length (take k qs @ drop (Suc k) qs) = length qs - 1" using assms by simp
  assume "counts_ok qs"
  then have "counts_ok (take k qs @ qs ! k # drop (Suc k) qs)" using qs by simp
  then show "counts_ok (take k qs @ drop (Suc k) qs)" by simp
qed

text \<open>A queue that is taken out together with its count.\<close>

lemma removed_inv:
  assumes "reass_inv r" "b < IPREASS_HASH_SIZE" "k < length (ip_frags r b)"
    "tabs r' = tabs ((remove_queue b k r)\<lparr> ip_nfrags := ip_nfrags r - uint (ipq_nfrags (ip_frags r b ! k)), ip_nfragpackets := ip_nfragpackets r - 1 \<rparr>)"
  shows "reass_inv r'"
proof (rule reass_inv_bucket [OF assms(1,2)])
  let ?qs = "ip_frags r b"
  have ok: "counts_ok ?qs" using assms(1,2) by (simp add: reass_inv_def)
  then have "uint (ipq_nfrags (?qs ! k)) = int (length (ipq_fragq (?qs ! k)))" using nth_mem [OF assms(3)] by (auto simp: counts_ok_def)
  then show "ip_nfrags r' = ip_nfrags r - cnt ?qs + cnt (take k ?qs @ drop (Suc k) ?qs)"
    using assms(4) remove_nth(1) [OF assms(3)] by (simp add: tabs_def)
  show "ip_frags r' = (ip_frags r)(b := take k ?qs @ drop (Suc k) ?qs)" using assms(4) by (simp add: tabs_def remove_queue_def)
  show "counts_ok (take k ?qs @ drop (Suc k) ?qs)" by (rule remove_nth(3) [OF assms(3) ok])
  show "ip_nfragpackets r' = ip_nfragpackets r - int (length ?qs) + int (length (take k ?qs @ drop (Suc k) ?qs))"
    using assms(3,4) unfolding remove_nth(2) [OF assms(3)] by (simp add: tabs_def)
  show "dropscanidx r' = dropscanidx r" using assms(4) by (simp add: tabs_def remove_queue_def)
qed

lemma ip_freef_inv:
  assumes "reass_inv r" "b < IPREASS_HASH_SIZE" "k < length (ip_frags r b)" "ip_freef b k r s = Some (r', s')"
  shows "reass_inv r' \<and> ip_frags r' = (ip_frags r)(b := take k (ip_frags r b) @ drop (Suc k) (ip_frags r b))"
proof -
  have t: "tabs r' = tabs ((remove_queue b k r)\<lparr> ip_nfrags := ip_nfrags r - uint (ipq_nfrags (ip_frags r b ! k)), ip_nfragpackets := ip_nfragpackets r - 1 \<rparr>)"
    using assms(4) by (auto simp: ip_freef_def Let_def bind_eq_Some_conv remove_queue_def tabs_def dest!: free_frags_tabs)
  show ?thesis using removed_inv [OF assms(1-3) t] t by (simp add: tabs_def remove_queue_def)
qed

lemma check_complete_inv:
  assumes "reass_inv r" "b < IPREASS_HASH_SIZE" "k < length (ip_frags r b)" "check_complete b k r s = Some (m, r', s')"
  shows "reass_inv r'"
proof -
  have "r' = r \<or> (\<exists>s'. ip_freef b k r s = Some (r', s')) \<or> (\<exists>n m s'. complete_datagram (ip_frags r b ! k) n
      ((remove_queue b k r)\<lparr> ip_nfrags := ip_nfrags (remove_queue b k r) - uint (ipq_nfrags (ip_frags r b ! k)),
         ip_nfragpackets := ip_nfragpackets (remove_queue b k r) - 1 \<rparr>) s = Some (m, r', s'))"
    using assms(4) by (auto simp: check_complete_def Let_def bind_eq_Some_conv split: option.splits if_splits)
  then consider "r' = r" | s' where "ip_freef b k r s = Some (r', s')"
    | "tabs r' = tabs ((remove_queue b k r)\<lparr> ip_nfrags := ip_nfrags r - uint (ipq_nfrags (ip_frags r b ! k)), ip_nfragpackets := ip_nfragpackets r - 1 \<rparr>)"
    by (auto dest!: complete_datagram_tabs simp: remove_queue_def)
  then show ?thesis using assms(1) ip_freef_inv [OF assms(1-3)] removed_inv [OF assms(1-3)] by cases auto
qed

text \<open>A queue whose fragments and count are replaced.\<close>

lemma replaced_inv:
  assumes "reass_inv r" "b < IPREASS_HASH_SIZE" "k < length (ip_frags r b)" "q = ip_frags r b ! k"
    "ip_frags r' = (ip_frags r)(b := (ip_frags r b)[k := q'])" "uint (ipq_nfrags q') = int (length (ipq_fragq q'))"
    "ip_nfrags r' = ip_nfrags r - int (length (ipq_fragq q)) + int (length (ipq_fragq q'))" "ip_nfragpackets r' = ip_nfragpackets r"
    "dropscanidx r' = dropscanidx r"
  shows "reass_inv r'"
proof (rule reass_inv_bucket [OF assms(1,2,5)])
  let ?qs = "ip_frags r b"
  have qs: "?qs = take k ?qs @ q # drop (Suc k) ?qs" unfolding assms(4) by (rule id_take_nth_drop [OF assms(3)])
  have upd: "?qs[k := q'] = take k ?qs @ q' # drop (Suc k) ?qs" by (rule upd_conv_take_nth_drop [OF assms(3)])
  have "counts_ok (take k ?qs @ q # drop (Suc k) ?qs)" using assms(1,2) qs by (simp add: reass_inv_def)
  then show "counts_ok (?qs[k := q'])" using assms(6) unfolding upd by simp
  have "cnt ?qs = cnt (take k ?qs) + int (length (ipq_fragq q)) + cnt (drop (Suc k) ?qs)" by (subst qs) simp
  then show "ip_nfrags r' = ip_nfrags r - cnt ?qs + cnt (?qs[k := q'])" using assms(7) unfolding upd by simp
  show "ip_nfragpackets r' = ip_nfragpackets r - int (length ?qs) + int (length (?qs[k := q']))" using assms(8) by simp
  show "dropscanidx r' = dropscanidx r" by (rule assms(9))
qed

lemma trim_later_counts:
  assumes "trim_later ip b k qs r s = Some (qs', r', s')" "k < length (ip_frags r b)"
  shows "length qs' \<le> length qs \<and>
    ip_frags r' = (ip_frags r)(b := (ip_frags r b)[k := (ip_frags r b ! k)\<lparr> ipq_nfrags := ipq_nfrags (ip_frags r b ! k) - of_nat (length qs - length qs') \<rparr>]) \<and>
    ip_nfrags r' = ip_nfrags r - int (length qs - length qs') \<and> ip_nfragpackets r' = ip_nfragpackets r \<and> dropscanidx r' = dropscanidx r"
  using assms
proof (induction qs arbitrary: r s)
  case (Cons q qs)
  let ?i = "uint (ip_off (iphdr r ip)) + uint (ip_len (iphdr r ip)) - qoff r q" and ?q = "ip_frags r b ! k"
  let ?r = "(upd_queue b k (\<lambda>f. f\<lparr> ipq_nfrags := ipq_nfrags f - 1 \<rparr>) (r\<lparr> ipfren_cache := ipfren_cache r + 1 \<rparr>))"
  consider "qs' = q # qs" "tabs r' = tabs r" | t where "trim_later ip b k qs (?r\<lparr> ip_nfrags := ip_nfrags ?r - 1 \<rparr>) t = Some (qs', r', s')"
    using Cons.prems(1) by (auto simp: Let_def bind_eq_Some_conv split: if_splits)
  then show ?case
  proof cases
    case 1
    then show ?thesis by (simp add: tabs_def)
  next
    case 2
    note IH = Cons.IH [OF 2]
    have k: "k < length (ip_frags (?r\<lparr> ip_nfrags := ip_nfrags ?r - 1 \<rparr>) b)" using Cons.prems(2) by (simp add: upd_queue_def)
    have w: "ipq_nfrags ?q - 1 - of_nat n = ipq_nfrags ?q - of_nat (Suc n)" for n by simp
    from IH [OF k] show ?thesis using Cons.prems(2)
      by (auto simp: upd_queue_def Suc_diff_le w simp del: of_nat_Suc)
  qed
qed simp

lemma reass_inv_tabs: "tabs r' = tabs r \<Longrightarrow> reass_inv r \<Longrightarrow> reass_inv r'"
  by (simp add: tabs_def reass_inv_def)

lemma dropfrag_tabs:
  assumes "dropfrag x fp r s = Some (m, r', s')"
  shows "tabs r' = tabs (let r = (case fp of None \<Rightarrow> r | Some (b, k) \<Rightarrow> upd_queue b k (\<lambda>q. q\<lparr> ipq_nfrags := ipq_nfrags q - 1 \<rparr>) r)
    in r\<lparr> ip_nfrags := ip_nfrags r - 1 \<rparr>)"
  using assms by (auto simp: dropfrag_def Let_def bind_eq_Some_conv tabs_def)

lemma nfrags_moved:
  assumes "uint (w :: u16) = int n" "n < 65535" "d \<le> n"
  shows "uint (w + 1 - of_nat d) = int (n + 1 - d)"
proof -
  have "w = of_nat n" using assms(1) by (metis of_int_of_nat_eq word_of_int_uint)
  then have "w + 1 - of_nat d = of_int (int (n + 1 - d))" using assms(3) by (simp add: of_nat_diff)
  then show ?thesis using assms(2) uint16_of_int [of "int (n + 1 - d)"] by simp
qed

lemma place_fragment_cases:
  assumes "place_fragment x b k R s = Some (m, r', s')" "fq = ipq_fragq (ip_frags R b ! k)"
  shows "dropfrag x (Some (b, k)) R s = Some (m, r', s') \<or>
    (\<exists>R1 s1 after R2 s2. tabs R1 = tabs R \<and>
      trim_later (ipqe_ip x) b k (dropWhile (\<lambda>q. qoff R q \<le> qoff R x) fq) R1 s1 = Some (after, R2, s2) \<and>
      check_complete b k (upd_queue b k (\<lambda>f. f\<lparr> ipq_fragq := takeWhile (\<lambda>q. qoff R q \<le> qoff R x) fq @ x # after \<rparr>) R2) s2 = Some (m, r', s'))"
  using assms(1) unfolding place_fragment_def Let_def assms(2) [symmetric]
  by (auto simp: bind_eq_Some_conv split: if_splits) (blast intro: tabs_other(3))+

lemma place_fragment_inv:
  assumes "reass_inv r" "b < IPREASS_HASH_SIZE" "k < length (ip_frags r b)" "length (ipq_fragq (ip_frags r b ! k)) < 65535"
    "tabs R = tabs (upd_queue b k (\<lambda>f. f\<lparr> ipq_nfrags := ipq_nfrags f + 1 \<rparr>) (r\<lparr> ip_nfrags := ip_nfrags r + 1 \<rparr>))"
    "place_fragment x b k R s = Some (m, r', s')"
  shows "reass_inv r'"
proof -
  define q where "q = ip_frags r b ! k"
  have ok: "uint (ipq_nfrags q) = int (length (ipq_fragq q))" using assms(1-3) nth_mem [OF assms(3)] by (auto simp: reass_inv_def counts_ok_def q_def)
  have R: "ip_frags R = (ip_frags r)(b := (ip_frags r b)[k := q\<lparr> ipq_nfrags := ipq_nfrags q + 1 \<rparr>])" "ip_nfrags R = ip_nfrags r + 1"
    "ip_nfragpackets R = ip_nfragpackets r" "dropscanidx R = dropscanidx r" using assms(5) by (auto simp: tabs_def upd_queue_def q_def)
  let ?before = "takeWhile (\<lambda>q. qoff R q \<le> qoff R x) (ipq_fragq q)" and ?after = "dropWhile (\<lambda>q. qoff R q \<le> qoff R x) (ipq_fragq q)"
  have fq: "ipq_fragq (ip_frags R b ! k) = ipq_fragq q" using R(1) assms(3) by simp
  consider "dropfrag x (Some (b, k)) R s = Some (m, r', s')"
    | R1 s1 after R2 s2 where "tabs R1 = tabs R" "trim_later (ipqe_ip x) b k ?after R1 s1 = Some (after, R2, s2)"
      "check_complete b k (upd_queue b k (\<lambda>f. f\<lparr> ipq_fragq := ?before @ x # after \<rparr>) R2) s2 = Some (m, r', s')"
    using place_fragment_cases [OF assms(6) fq [symmetric]] by blast
  then show ?thesis
  proof cases
    case 1
    have "tabs r' = tabs r" using dropfrag_tabs [OF 1] R assms(3) by (simp add: tabs_def upd_queue_def q_def)
    then show ?thesis using assms(1) by (rule reass_inv_tabs)
  next
    case 2
    define d where "d = length ?after - length after"
    have R1: "ip_frags R1 = ip_frags R" "ip_nfrags R1 = ip_nfrags R" "ip_nfragpackets R1 = ip_nfragpackets R" "dropscanidx R1 = dropscanidx R" using 2(1) by (auto simp: tabs_def)
    have len: "length ?before + length ?after = length (ipq_fragq q)" by (metis length_append takeWhile_dropWhile_id)
    define Q where "Q = q\<lparr> ipq_nfrags := ipq_nfrags q + 1 - of_nat d, ipq_fragq := ?before @ x # after \<rparr>"
    let ?R = "upd_queue b k (\<lambda>f. f\<lparr> ipq_fragq := ?before @ x # after \<rparr>) R2"
    have tr: "length after \<le> length ?after" "ip_frags R2 = (ip_frags r)(b := (ip_frags r b)[k := q\<lparr> ipq_nfrags := ipq_nfrags q + 1 - of_nat d \<rparr>])"
      "ip_nfrags R2 = ip_nfrags r + 1 - int d" "ip_nfragpackets R2 = ip_nfragpackets r" "dropscanidx R2 = dropscanidx r"
      using trim_later_counts [OF 2(2)] R R1 assms(3) by (simp_all add: d_def)
    have n: "length (ipq_fragq Q) = length (ipq_fragq q) + 1 - d" "d \<le> length (ipq_fragq q)" using len tr(1) by (simp_all add: Q_def d_def)
    have "reass_inv ?R"
    proof (rule replaced_inv [OF assms(1-3) refl])
      show "ip_frags ?R = (ip_frags r)(b := (ip_frags r b)[k := Q])" using tr(2) assms(3) by (simp add: upd_queue_def Q_def)
      show "uint (ipq_nfrags Q) = int (length (ipq_fragq Q))"
        unfolding n(1) using nfrags_moved [OF ok _ n(2)] assms(4) by (simp add: Q_def q_def)
      show "ip_nfrags ?R = ip_nfrags r - int (length (ipq_fragq (ip_frags r b ! k))) + int (length (ipq_fragq Q))"
        "ip_nfragpackets ?R = ip_nfragpackets r" "dropscanidx ?R = dropscanidx r" using tr(3-5) n by (simp_all add: upd_queue_def q_def of_nat_diff)
    qed
    then show ?thesis by (rule check_complete_inv [OF _ assms(2) _ 2(3)]) (use tr(2) assms(3) in \<open>simp add: upd_queue_def\<close>)
  qed
qed

lemma ip_reass_inv:
  assumes "reass_inv r" "b < IPREASS_HASH_SIZE" "\<forall>k. fp = Some k \<longrightarrow> k < length (ip_frags r b) \<and> length (ipq_fragq (ip_frags r b ! k)) < 65535"
    "ip_reass x fp b r s = Some (m, r', s')"
  shows "reass_inv r'"
proof (cases fp)
  case None
  let ?r = "r\<lparr> ip_nfrags := ip_nfrags r + 1 \<rparr>"
  consider t where "dropfrag x None ?r t = Some (m, r', s')"
    | Q R t where "ip_frags R = (ip_frags r)(b := Q # ip_frags r b)" "ip_nfrags R = ip_nfrags r + 1" "ip_nfragpackets R = ip_nfragpackets r + 1" "dropscanidx R = dropscanidx r"
      "ipq_nfrags Q = 1" "ipq_fragq Q = [x]" "check_complete b 0 R t = Some (m, r', s')"
    using assms(4) None by (fastforce simp: ip_reass_def Let_def split: if_splits)
  then show ?thesis
  proof cases
    case 1
    then have "tabs r' = tabs r" using dropfrag_tabs by (fastforce simp: tabs_def)
    then show ?thesis using assms(1) by (rule reass_inv_tabs)
  next
    case 2
    have "counts_ok (Q # ip_frags r b)" using assms(1,2) 2(5,6) by (simp add: reass_inv_def)
    then have "reass_inv R" by (rule reass_inv_bucket [OF assms(1,2) 2(1)]) (use 2(2-4,6) in simp_all)
    then show ?thesis by (rule check_complete_inv [OF _ assms(2) _ 2(7)]) (use 2(1) in simp)
  qed
next
  case (Some k)
  then have "\<exists>t. place_fragment x b k (upd_queue b k (\<lambda>f. f\<lparr> ipq_nfrags := ipq_nfrags f + 1 \<rparr>) (r\<lparr> ip_nfrags := ip_nfrags r + 1 \<rparr>)) t = Some (m, r', s')"
    using assms(4) by (auto simp: ip_reass_def Let_def)
  then show ?thesis using assms(3) Some place_fragment_inv [OF assms(1,2) _ _ refl] by blast
qed

lemma find_queue_bound: "find_queue ip qs k = Some j \<Longrightarrow> k \<le> j \<and> j < k + length qs"
  by (induction qs arbitrary: k) (fastforce split: if_splits)+

lemma ip_reass_packet_inv:
  assumes "reass_inv r" "\<forall>i<IPREASS_HASH_SIZE. \<forall>q\<in>set (ip_frags r i). length (ipq_fragq q) < 65535"
    "ip_reass_packet m ip r s = Some (err, m', r', s')"
  shows "reass_inv r'"
proof -
  define b where "b = IPREASS_HASH (ip_src (iphdr r ip)) (ip_id (iphdr r ip))"
  have b: "b < IPREASS_HASH_SIZE" unfolding b_def by (rule IPREASS_HASH_less)
  have fr: "ip_frags (upd_ip ip f r) = ip_frags r" for f by (simp add: upd_ip_def)
  have tb: "tabs ((upd_ip ip f r)\<lparr> ipfren_cache := n \<rparr>) = tabs r" for f n by simp
  have "tabs r' = tabs r \<or> (\<exists>x R t h. ip_reass x (find_queue h (ip_frags r b) 0) b R t = Some (m', r', s') \<and> tabs R = tabs r)"
    using assms(3) unfolding ip_reass_packet_def Let_def b_def [symmetric] fr
    by (auto simp: bind_eq_Some_conv split: if_splits) (blast intro: tb)+
  then show ?thesis
  proof
    assume "tabs r' = tabs r"
    then show ?thesis using assms(1) by (rule reass_inv_tabs)
  next
    assume "\<exists>x R t h. ip_reass x (find_queue h (ip_frags r b) 0) b R t = Some (m', r', s') \<and> tabs R = tabs r"
    then obtain x R t h where R: "ip_reass x (find_queue h (ip_frags r b) 0) b R t = Some (m', r', s')" "tabs R = tabs r" by blast
    show ?thesis
    proof (rule ip_reass_inv [OF reass_inv_tabs [OF R(2) assms(1)] b _ R(1)])
      have "ip_frags R = ip_frags r" using R(2) by (simp add: tabs_def)
      then show "\<forall>k. find_queue h (ip_frags r b) 0 = Some k \<longrightarrow> k < length (ip_frags R b) \<and> length (ipq_fragq (ip_frags R b ! k)) < 65535"
        using assms(2) b find_queue_bound [of h "ip_frags r b" 0] by (auto intro: nth_mem)
    qed
  qed
qed

text \<open>Ageing: the sum that is counted on the way is the number of fragments that are left.\<close>

lemma age_bucket_counts:
  assumes "age_bucket ticks i kept fps c r s = Some (c', r', s')" "counts_ok kept" "counts_ok fps"
  shows "\<exists>qs. ip_frags r' = (ip_frags r)(i := qs) \<and> counts_ok qs \<and> ip_nfrags r' = ip_nfrags r - cnt (kept @ fps) + cnt qs \<and>
    ip_nfragpackets r' = ip_nfragpackets r - int (length (kept @ fps)) + int (length qs) \<and> dropscanidx r' = dropscanidx r \<and>
    fst c' = fst c + of_int (cnt qs - cnt kept)"
  using assms
proof (induction fps arbitrary: kept c r s)
  case Nil
  then show ?case by (intro exI [of _ kept]) auto
next
  case (Cons fp fps)
  let ?fp = "fp\<lparr> ipq_ttl := (if ipq_ttl fp \<le> ticks then 0 else ipq_ttl fp - ticks) \<rparr>"
  have ok: "uint (ipq_nfrags fp) = int (length (ipq_fragq fp))" "counts_ok fps" using Cons.prems(3) by auto
  show ?case
  proof (cases "ipq_ttl ?fp = 0")
    case True
    let ?r = "r\<lparr> ip_nfrags := ip_nfrags r - uint (ipq_nfrags fp), ip_nfragpackets := ip_nfragpackets r - 1 \<rparr>"
    obtain r1 s1 where f: "free_frags (ipq_fragq fp) ?r s = Some (r1, s1)"
      and a: "age_bucket ticks i kept fps c (r1\<lparr> ftable_room := ftable_room r1 + 1 \<rparr>) s1 = Some (c', r', s')"
      using Cons.prems(1) True by (auto simp: Let_def bind_eq_Some_conv split: if_splits)
    have "tabs r1 = tabs ?r" by (rule free_frags_tabs [OF f])
    then show ?thesis using Cons.IH [OF a Cons.prems(2) ok(2)] ok(1) by (auto simp: tabs_def)
  next
    case False
    then have "\<exists>d. age_bucket ticks i (kept @ [?fp]) fps (fst c + ucast (ipq_nfrags fp), d) r s = Some (c', r', s')"
      using Cons.prems(1) by (auto simp: Let_def split: if_splits)
    then obtain d where a: "age_bucket ticks i (kept @ [?fp]) fps (fst c + ucast (ipq_nfrags fp), d) r s = Some (c', r', s')" by blast
    have "(ucast (ipq_nfrags fp) :: u32) = of_int (int (length (ipq_fragq fp)))" unfolding ok(1) [symmetric] by (rule ucast_eq)
    then show ?thesis using Cons.IH [OF a] Cons.prems(2) ok by (auto simp: algebra_simps)
  qed
qed

lemma age_bucket_inv:
  assumes "age_bucket ticks i [] (ip_frags r i) c r s = Some (c', r', s')" "reass_inv r" "i < IPREASS_HASH_SIZE"
  shows "reass_inv r' \<and> (\<forall>j. j \<noteq> i \<longrightarrow> ip_frags r' j = ip_frags r j) \<and> fst c' = fst c + of_int (cnt (ip_frags r' i))"
proof -
  have "counts_ok (ip_frags r i)" using assms(2,3) by (simp add: reass_inv_def)
  then obtain qs where q: "ip_frags r' = (ip_frags r)(i := qs)" "counts_ok qs" "ip_nfrags r' = ip_nfrags r - cnt (ip_frags r i) + cnt qs"
    "ip_nfragpackets r' = ip_nfragpackets r - int (length (ip_frags r i)) + int (length qs)" "dropscanidx r' = dropscanidx r" "fst c' = fst c + of_int (cnt qs)"
    using age_bucket_counts [OF assms(1)] by auto
  then show ?thesis using reass_inv_bucket [OF assms(2,3) q(1-5)] by simp
qed

lemma age_buckets_inv:
  assumes "age_buckets ticks js c r s = Some (c', r', s')" "reass_inv r" "\<forall>j\<in>set js. j < IPREASS_HASH_SIZE" "distinct js"
  shows "reass_inv r' \<and> (\<forall>j. j \<notin> set js \<longrightarrow> ip_frags r' j = ip_frags r j) \<and> fst c' = fst c + of_int (\<Sum>j\<in>set js. cnt (ip_frags r' j))"
  using assms
proof (induction js arbitrary: c r s)
  case (Cons i js)
  obtain c1 r1 s1 where a: "age_bucket ticks i [] (ip_frags r i) c r s = Some (c1, r1, s1)" "age_buckets ticks js c1 r1 s1 = Some (c', r', s')"
    using Cons.prems(1) by (auto simp: bind_eq_Some_conv)
  have one: "reass_inv r1" "\<forall>j. j \<noteq> i \<longrightarrow> ip_frags r1 j = ip_frags r j" "fst c1 = fst c + of_int (cnt (ip_frags r1 i))"
    using age_bucket_inv [OF a(1) Cons.prems(2)] Cons.prems(3) by auto
  have IH: "reass_inv r'" "\<forall>j. j \<notin> set js \<longrightarrow> ip_frags r' j = ip_frags r1 j" "fst c' = fst c1 + of_int (\<Sum>j\<in>set js. cnt (ip_frags r' j))"
    using Cons.IH [OF a(2) one(1)] Cons.prems(3,4) by auto
  have "ip_frags r' i = ip_frags r1 i" using IH(2) Cons.prems(4) by simp
  then show ?case using one(2,3) IH Cons.prems(4) by simp
qed simp

lemma ip_reass_ttl_decr_inv:
  assumes "reass_inv r"
  shows "ip_reass_ttl_decr ticks r s = Some (n, r', s') \<Longrightarrow> reass_inv r'"
    and "age_buckets ticks [0 ..< IPREASS_HASH_SIZE] (0, \<lambda>_. 0) r s = Some ((k, h), r1, s1) \<Longrightarrow> \<exists>n. ip_reass_ttl_decr ticks r s = Some (n, r1, s1)"
proof -
  have all: "age_buckets ticks [0 ..< IPREASS_HASH_SIZE] (0, \<lambda>_. 0) r s = Some ((k, h), r', s') \<Longrightarrow> reass_inv r' \<and> k = of_int (ip_nfrags r')" for k h r' s'
    using age_buckets_inv [of ticks "[0 ..< IPREASS_HASH_SIZE]" "(0, \<lambda>_. 0)" r s "(k, h)" r' s'] assms
    by (auto simp: reass_inv_def atLeast0LessThan)
  show "ip_reass_ttl_decr ticks r s = Some (n, r', s') \<Longrightarrow> reass_inv r'"
    using all by (auto simp: ip_reass_ttl_decr_def bind_eq_Some_conv Let_def split: if_splits)
  show "age_buckets ticks [0 ..< IPREASS_HASH_SIZE] (0, \<lambda>_. 0) r s = Some ((k, h), r1, s1) \<Longrightarrow> \<exists>n. ip_reass_ttl_decr ticks r s = Some (n, r1, s1)"
    using all by (auto simp: ip_reass_ttl_decr_def Let_def)
qed

lemma drain_bucket_inv:
  assumes "drain_bucket i qs r s = Some (r', s')" "reass_inv r" "i < IPREASS_HASH_SIZE" "qs = ip_frags r i"
  shows "reass_inv r'"
  using assms
proof (induction qs arbitrary: r s)
  case (Cons q qs)
  from Cons.prems(1) obtain r1 s1 where f: "ip_freef i 0 r s = Some (r1, s1)" "drain_bucket i qs r1 s1 = Some (r', s')" by (auto simp: bind_eq_Some_conv)
  have "reass_inv r1 \<and> ip_frags r1 = (ip_frags r)(i := qs)"
    using ip_freef_inv [OF Cons.prems(2,3) _ f(1)] by (simp add: Cons.prems(4) [symmetric])
  then show ?case using Cons.IH [OF f(2)] Cons.prems(3) by simp
qed simp

lemma drain_scan_inv:
  assumes "drain_scan n i r s = Some (j, r', s')" "reass_inv r" "i < IPREASS_HASH_SIZE"
  shows "reass_inv r' \<and> j < IPREASS_HASH_SIZE"
  using assms
proof (induction n arbitrary: i r s)
  case (Suc n)
  show ?case
  proof (cases "ip_nfragpackets r > ip_maxfragpackets r")
    case True
    then obtain r1 s1 where f: "drain_bucket i (ip_frags r i) r s = Some (r1, s1)"
      "drain_scan n (if Suc i \<ge> IPREASS_HASH_SIZE then 0 else Suc i) r1 s1 = Some (j, r', s')"
      using Suc.prems(1) by (auto simp: bind_eq_Some_conv)
    have "(if Suc i \<ge> IPREASS_HASH_SIZE then 0 else Suc i) < IPREASS_HASH_SIZE" by (simp add: IPREASS_HASH_SIZE_def)
    then show ?thesis using Suc.IH [OF f(2) drain_bucket_inv [OF f(1) Suc.prems(2,3) refl]] by simp
  next
    case False
    then show ?thesis using Suc.prems by simp
  qed
qed simp

text \<open>The module at work: packets and ageing in any order.  A fragment comes while no queue is at the limit of its 16-bit count.\<close>

inductive reass_steps :: "reass \<Rightarrow> 'a mstate_scheme \<Rightarrow> reass \<Rightarrow> 'a mstate_scheme \<Rightarrow> bool" where
  start: "reass_steps r s r s"
| packet: "reass_steps r s r1 s1 \<Longrightarrow> \<forall>i<IPREASS_HASH_SIZE. \<forall>q\<in>set (ip_frags r1 i). length (ipq_fragq q) < 65535 \<Longrightarrow>
    ip_reass_packet m ip (upd_ip ip f r1) s1 = Some (err, m', r2, s2) \<Longrightarrow> reass_steps r s r2 s2"
| slowtimo: "reass_steps r s r1 s1 \<Longrightarrow> ip_reass_slowtimo nmb r1 s1 = Some (r2, s2) \<Longrightarrow> reass_steps r s r2 s2"
| drain: "reass_steps r s r1 s1 \<Longrightarrow> ip_reass_drain r1 s1 = Some (r2, s2) \<Longrightarrow> reass_steps r s r2 s2"
| other: "reass_steps r s r1 s1 \<Longrightarrow> reass_steps r s r1 s2"

lemma ip_reass_slowtimo_inv:
  assumes "ip_reass_slowtimo nmb r s = Some (r', s')" "reass_inv r"
  shows "reass_inv r'"
proof -
  obtain n r1 s1 where a: "ip_reass_ttl_decr 1 r s = Some (n, r1, s1)" using assms(1) by (auto simp: ip_reass_slowtimo_def bind_eq_Some_conv)
  define r2 where "r2 = (if ip_nmbclusters r1 \<noteq> nmb then ip_nmbclusters_changed nmb r1 else r1)"
  have "tabs r2 = tabs r1" by (simp add: r2_def ip_nmbclusters_changed_def tabs_def)
  then have r2: "reass_inv r2" by (rule reass_inv_tabs) (rule ip_reass_ttl_decr_inv(1) [OF assms(2) a])
  obtain r3 s3 where b: "(if ip_nfrags r2 > ip_maxfrags r2 then do { (_, r, s) \<leftarrow> ip_reass_ttl_decr n r2 s1; Some (r, s) } else Some (r2, s1)) = Some (r3, s3)"
    and c: "(if ip_maxfragpackets r3 < 0 then Some (r3, s3) else do { (i, r, s) \<leftarrow> drain_scan IPREASS_HASH_SIZE (dropscanidx r3) r3 s3;
      Some (r\<lparr> dropscanidx := i \<rparr>, s) }) = Some (r', s')"
    using assms(1) unfolding ip_reass_slowtimo_def a Let_def bind.bind_lunit prod.case r2_def [symmetric]
    by (auto simp only: bind_eq_Some_conv split: prod.splits)
  have r3: "reass_inv r3" using b r2 ip_reass_ttl_decr_inv(1) [OF r2] by (auto simp: bind_eq_Some_conv split: if_splits)
  then have "dropscanidx r3 < IPREASS_HASH_SIZE" by (simp add: reass_inv_def)
  then show ?thesis using c r3 drain_scan_inv [OF _ r3] by (fastforce simp: bind_eq_Some_conv reass_inv_def split: if_splits)
qed

lemma ip_reass_drain_inv: "ip_reass_drain r s = Some (r', s') \<Longrightarrow> reass_inv r \<Longrightarrow> reass_inv r'"
  by (auto simp: ip_reass_drain_def ip_reass_drophalf_def bind_eq_Some_conv dest: ip_reass_ttl_decr_inv(1))

lemma reass_steps_inv: "reass_steps r s r' s' \<Longrightarrow> reass_inv r \<Longrightarrow> reass_inv r'"
proof (induction rule: reass_steps.induct)
  case (packet r s r1 s1 m ip f err m' r2 s2)
  have "reass_inv (upd_ip ip f r1)" by (rule reass_inv_tabs [OF _ packet.IH [OF packet.prems]]) simp
  then show ?case by (rule ip_reass_packet_inv [OF _ _ packet.hyps(3)]) (use packet.hyps(2) in \<open>simp add: upd_ip_def\<close>)
qed (auto dest: ip_reass_slowtimo_inv ip_reass_drain_inv)

text \<open>C32.  The counters of the module stay right: from the initialisation on, after fragments, timeouts and draining in any order,
  \<^const>\<open>ip_nfrags\<close> is the number of queued fragments, \<^const>\<open>ip_nfragpackets\<close> that of the queues, and the assertion
  in \<^const>\<open>ip_reass_ttl_decr\<close> holds: it returns whenever the queues that are over could be freed.  This needs
  that no queue reaches the limit of its 16-bit counter.\<close>

theorem fragments_counted:
  assumes "ip_nfrags r0 = 0" "ip_nfragpackets r0 = 0" "dropscanidx r0 = 0" "reass_steps (ip_reass_init cu nmb r0) s0 r s"
  shows "ip_nfrags r = (\<Sum>i<IPREASS_HASH_SIZE. \<Sum>q\<leftarrow>ip_frags r i. int (length (ipq_fragq q))) \<and>
    ip_nfragpackets r = (\<Sum>i<IPREASS_HASH_SIZE. int (length (ip_frags r i))) \<and>
    (\<forall>ticks. age_buckets ticks [0 ..< IPREASS_HASH_SIZE] (0, \<lambda>_. 0) r s \<noteq> None \<longrightarrow> ip_reass_ttl_decr ticks r s \<noteq> None)"
proof -
  have "reass_inv (ip_reass_init cu nmb r0)"
    using assms(1-3) by (simp add: reass_inv_def ip_reass_init_def ip_nmbclusters_changed_def IPREASS_HASH_SIZE_def)
  then have inv: "reass_inv r" by (rule reass_steps_inv [OF assms(4)])
  then have "ip_nfrags r = (\<Sum>i<IPREASS_HASH_SIZE. \<Sum>q\<leftarrow>ip_frags r i. int (length (ipq_fragq q)))"
    "ip_nfragpackets r = (\<Sum>i<IPREASS_HASH_SIZE. int (length (ip_frags r i)))"
    by (simp_all add: reass_inv_def cnt_def)
  moreover have "age_buckets ticks [0 ..< IPREASS_HASH_SIZE] (0, \<lambda>_. 0) r s \<noteq> None \<Longrightarrow> ip_reass_ttl_decr ticks r s \<noteq> None" for ticks
    using ip_reass_ttl_decr_inv(2) [OF inv] by fastforce
  ultimately show ?thesis by blast
qed

theorem fragments_counted_witness:
  "\<exists>r s. ip_reass_packet 7 300 (ip_reass_init 64 0 two_headers) two_packets = Some (0, None, r, s) \<and> ip_nfrags r = 1 \<and>
     (\<Sum>i<IPREASS_HASH_SIZE. \<Sum>q\<leftarrow>ip_frags r i. int (length (ipq_fragq q))) = 1"
proof -
  let ?r = "ip_reass_init 64 0 two_headers" and ?p = "\<lparr> pc_ip = 300, pc_m = 7, pc_rest = [] \<rparr>"
  have h: "iphdr ?r = iphdr two_headers" by (simp add: ip_reass_init_def ip_nmbclusters_changed_def)
  have cut: "datagram_cut (iphdr ?r) two_pieces" unfolding h by (rule two_pieces_cut)
  have take: "can_take ?r two_pieces"
    using IPREASS_HASH_less by (simp add: can_take_def bucket_def ip_reass_init_def ip_nmbclusters_changed_def) (simp add: two_headers_def two_pieces_def)
  have "check_complete (bucket (iphdr ?r) two_pieces) 0 (pending ?r two_pieces {?p}) (strip (iphdr ?r) ?p two_packets) =
    Some (None, pending ?r two_pieces {?p}, strip (iphdr ?r) ?p two_packets)"
    by (rule check_complete_waiting [OF cut]) (auto simp: two_pieces_def)
  then have pk: "ip_reass_packet 7 300 ?r two_packets = Some (0, None, pending ?r two_pieces {?p}, strip (iphdr ?r) ?p two_packets)"
    using arrival_first [OF cut take, of ?p two_packets] by (simp add: two_pieces_def)
  have "upd_ip 300 (\<lambda>x. x) ?r = ?r" by (simp add: upd_ip_def)
  then have "reass_steps ?r two_packets (pending ?r two_pieces {?p}) (strip (iphdr ?r) ?p two_packets)"
    using pk reass_steps.packet [OF reass_steps.start, of ?r 7 300 "\<lambda>x. x" two_packets]
    by (simp add: ip_reass_init_def ip_nmbclusters_changed_def)
  moreover have "ip_nfrags (pending ?r two_pieces {?p}) = 1" by (simp add: pending_def Let_def ip_reass_init_def ip_nmbclusters_changed_def two_headers_def)
  moreover have "ip_nfrags two_headers = 0" "ip_nfragpackets two_headers = 0" "dropscanidx two_headers = 0" by (simp_all add: two_headers_def)
  ultimately show ?thesis using pk fragments_counted [of two_headers 64 0 two_packets] by metis
qed

text \<open>Empty fragments at the end of the data are not recognised as duplicates: each of them is queued, so that the 16-bit
  count of the queue can wrap.\<close>

lemma empty_fragments_pile_up:
  assumes "ipq_fragq (ip_frags R b ! 0) = fq" "\<forall>q\<in>set fq. qoff R q \<le> qoff R x" "fq \<noteq> []"
    "qoff R (last fq) + qlen R (last fq) = qoff R x" "qlen R x = 0"
  shows "place_fragment x b 0 R s = check_complete b 0 (upd_queue b 0 (\<lambda>f. f\<lparr> ipq_fragq := fq @ [x] \<rparr>) R) s"
proof -
  have q: "takeWhile (\<lambda>q. qoff R q \<le> qoff R x) fq = fq" "dropWhile (\<lambda>q. qoff R q \<le> qoff R x) fq = []" using assms(2) by auto
  show ?thesis unfolding place_fragment_def Let_def assms(1) q using assms(3-5) by simp
qed

end
