(* ===== verification/Tcp_Reass.thy ===== *)
theory Tcp_Reass
  imports Tcp_Sack Socket Mbuf_Chains
begin

unbundle bit_operations_syntax

text \<open>
  The receiving side of TCP: the part of \<^verbatim>\<open>tcp_input\<close> that cuts a segment to the receive window, the queue of segments
  that are out of order (\<^verbatim>\<open>tcp_reass\<close>), the delivery to the socket, and the blocks that \<^verbatim>\<open>tcp_output\<close> reports to the peer
  (\<^verbatim>\<open>netinet/tcp_input.c\<close>, \<^verbatim>\<open>tcp_output.c\<close>, \<^verbatim>\<open>tcp_subr.c\<close>).  The main property: whatever segments of a byte stream arrive,
  in any order, with overlaps and duplicates, the socket gets the stream in order and without gaps.

  The statistics are left out; a failed assertion ends the program.  The entries of the queue have addresses, because they are
  on a second queue in the order of their arrival; the pool is the list of the free ones.
\<close>

section \<open>Data\<close>

record ipqent =
  ipqe :: addr
  ipqe_m :: addr
  ipre_mlast :: addr
  ipqe_seq :: tcp_seq
  ipqe_len :: u32
  ipqe_flags :: u32

text \<open>The state of the connection, the queues, the pool of entries, and the socket of the connection.\<close>

record tcprcv = tcpst +
  tp_state :: int
  rcv_wnd :: u64
  rcv_nxt :: tcp_seq
  segq :: "ipqent list"
  timeq :: "addr list"
  tcpipqent_pool :: "addr list"
  inp_socket :: "addr option"
  delack_armed :: bool

record tcpseg = tcphdr +
  th_seq :: tcp_seq
  th_urp :: u16

definition TH_FIN :: "8 word" where "TH_FIN = 0x01"
definition TH_SYN :: "8 word" where "TH_SYN = 0x02"
definition TH_RST :: "8 word" where "TH_RST = 0x04"
definition TH_PUSH :: "8 word" where "TH_PUSH = 0x08"
definition TH_URG :: "8 word" where "TH_URG = 0x20"
definition TF_DELACK :: u32 where "TF_DELACK = 0x0002"

definition TCPS_ESTABLISHED :: int where "TCPS_ESTABLISHED = 4"
definition TCPS_CLOSE_WAIT :: int where "TCPS_CLOSE_WAIT = 5"
definition TCPS_CLOSING :: int where "TCPS_CLOSING = 7"
definition TCPS_FIN_WAIT_2 :: int where "TCPS_FIN_WAIT_2 = 9"
definition TCPS_TIME_WAIT :: int where "TCPS_TIME_WAIT = 10"
definition TCPS_SYN_RECEIVED :: int where "TCPS_SYN_RECEIVED = 3"
definition TCPS_HAVEESTABLISHED :: "int \<Rightarrow> bool" where "TCPS_HAVEESTABLISHED s \<longleftrightarrow> s \<ge> TCPS_ESTABLISHED"
definition TCPS_HAVERCVDFIN :: "int \<Rightarrow> bool" where
  "TCPS_HAVERCVDFIN s \<longleftrightarrow> s = TCPS_CLOSE_WAIT \<or> s \<ge> TCPS_CLOSING \<and> s \<noteq> TCPS_FIN_WAIT_2"

section \<open>The queue of segments\<close>

text \<open>The assertion after an entry was taken off both queues.\<close>

definition segq_assert :: "ipqent list \<Rightarrow> 'a tcprcv_scheme \<Rightarrow> bool" where
  "segq_assert rest tp \<longleftrightarrow> t_segqlen tp \<ge> 0 \<and> (t_segqlen tp \<noteq> 0 \<or> rest = [] \<and> timeq tp = [])"

definition tcpipqent_free :: "addr \<Rightarrow> 'a tcprcv_scheme \<Rightarrow> 'a tcprcv_scheme" where
  "tcpipqent_free a tp = tp\<lparr> tcpipqent_pool := a # tcpipqent_pool tp \<rparr>"

definition tcpipqent_alloc :: "'a tcprcv_scheme \<Rightarrow> (addr \<times> 'a tcprcv_scheme) option" where
  "tcpipqent_alloc tp = (case tcpipqent_pool tp of [] \<Rightarrow> None | a # as \<Rightarrow> Some (a, tp\<lparr> tcpipqent_pool := as \<rparr>))"

text \<open>The label \<^verbatim>\<open>free_ipqe\<close>: the entry is kept for the segment that is being placed, or freed if that has one.\<close>

definition free_ipqe :: "ipqent \<Rightarrow> ipqent list \<Rightarrow> addr option \<Rightarrow> 'a tcprcv_scheme \<Rightarrow> (addr option \<times> 'a tcprcv_scheme) option" where
  "free_ipqe q rest tiqe tp =
     (let tp = tp\<lparr> timeq := remove1 (ipqe q) (timeq tp), t_segqlen := t_segqlen tp - 1 \<rparr>
      in if \<not> segq_assert rest tp then None
         else case tiqe of None \<Rightarrow> Some (Some (ipqe q), tp) | Some _ \<Rightarrow> Some (tiqe, tcpipqent_free (ipqe q) tp))"

text \<open>A segment on its way into the queue.\<close>

record rcvseg =
  pkt_seq :: tcp_seq
  pkt_len :: u32
  pkt_flags :: u32
  pkt_m :: addr
  tiqe :: "addr option"

text \<open>The scan of the queue for the place of a segment.  The entries up to \<^verbatim>\<open>p\<close> are in \<^term>\<open>pre\<close>, entries that were passed
  since in \<^term>\<open>mid\<close>.  The result says whether the segment is a duplicate, and gives the entries before and
  behind its place.\<close>

fun seg_scan ::
  "ipqent list \<Rightarrow> ipqent list \<Rightarrow> ipqent list \<Rightarrow> rcvseg \<Rightarrow> 'a tcprcv_scheme \<Rightarrow> 'b mstate_scheme \<Rightarrow>
   (bool \<times> ipqent list \<times> ipqent list \<times> rcvseg \<times> 'a tcprcv_scheme \<times> 'b mstate_scheme) option" where
  "seg_scan pre mid [] g tp s = Some (False, pre, mid, g, tp, s)"
| "seg_scan pre mid (q # qs) g tp s =
     (let qend = ipqe_seq q + ipqe_len q; pend = pkt_seq g + pkt_len g
      in if qend = pkt_seq g
         then do {
           s \<leftarrow> m_cat (ipre_mlast q) (Some (pkt_m g)) s;
           (ti, tp) \<leftarrow> free_ipqe q (pre @ mid @ qs) (tiqe g) tp;
           seg_scan pre mid qs (g\<lparr> pkt_len := pkt_len g + ipqe_len q, pkt_flags := pkt_flags g OR ipqe_flags q,
             pkt_seq := ipqe_seq q, pkt_m := ipqe_m q, tiqe := ti \<rparr>) tp s
         }
         else if SEQ_LT qend (pkt_seq g) then seg_scan (pre @ mid @ [q]) [] qs g tp s
         else if SEQ_GT (ipqe_seq q) pend then Some (False, pre, mid @ q # qs, g, tp, s)
         else if SEQ_LEQ (ipqe_seq q) (pkt_seq g) \<and> SEQ_GEQ qend pend then Some (True, pre, mid @ q # qs, g, tp, s)
         else if SEQ_GEQ (ipqe_seq q) (pkt_seq g) \<and> SEQ_LEQ qend pend
         then do {
           s \<leftarrow> m_freem (Some (ipqe_m q)) s;
           (ti, tp) \<leftarrow> free_ipqe q (pre @ mid @ qs) (tiqe g) tp;
           seg_scan pre mid qs (g\<lparr> tiqe := ti \<rparr>) tp s
         }
         else if SEQ_LT (ipqe_seq q) (pkt_seq g) \<and> SEQ_GT qend (pkt_seq g)
         then do {
           let overlap = qend - pkt_seq g;
           s \<leftarrow> m_adj (Some (pkt_m g)) (sint overlap) s;
           s \<leftarrow> m_cat (ipre_mlast q) (Some (pkt_m g)) s;
           (ti, tp) \<leftarrow> free_ipqe q (pre @ mid @ qs) (tiqe g) tp;
           seg_scan pre mid qs (g\<lparr> pkt_seq := ipqe_seq q, pkt_len := pkt_len g + (ipqe_len q - overlap), pkt_m := ipqe_m q, tiqe := ti \<rparr>) tp s
         }
         else do {
           let overlap = pend - ipqe_seq q;
           (g, s) \<leftarrow> (if SEQ_GT (ipqe_seq q) (pkt_seq g) \<and> SEQ_LT (ipqe_seq q) pend
             then do {
               s \<leftarrow> m_adj (Some (pkt_m g)) (- sint overlap) s;
               Some (g\<lparr> pkt_len := pkt_len g - overlap \<rparr>, s)
             }
             else Some (g, s));
           if ipqe_seq q = pkt_seq g + pkt_len g
           then do {
             s \<leftarrow> m_cat (pkt_m g) (Some (ipqe_m q)) s;
             (ti, tp) \<leftarrow> free_ipqe q (pre @ mid @ qs) (tiqe g) tp;
             Some (False, pre, mid @ qs,
               g\<lparr> pkt_len := pkt_len g + ipqe_len q, pkt_flags := pkt_flags g OR ipqe_flags q, tiqe := ti \<rparr>, tp, s)
           }
           else if SEQ_LEQ (ipqe_seq q) (pkt_seq g) then seg_scan (pre @ mid @ [q]) [] qs g tp s
           else seg_scan pre (mid @ [q]) qs g tp s
         })"

text \<open>Handing the data of an entry to the socket.\<close>

definition deliver :: "(addr \<Rightarrow> int \<Rightarrow> 'b sostate_scheme \<Rightarrow> 'b sostate_scheme) \<Rightarrow> addr \<Rightarrow> addr \<Rightarrow> 'b sostate_scheme \<Rightarrow> 'b sostate_scheme option" where
  "deliver reflect so m s =
     (if so_is SS_CANTRCVMORE so s then m_freem (Some m) s
      else do { (sb, s) \<leftarrow> sbappendstream reflect m (so_rcv (sockets s so), s); Some (upd_so so (\<lambda>k. k\<lparr> so_rcv := sb \<rparr>) s) })"

text \<open>The label \<^verbatim>\<open>present\<close>.\<close>

definition present ::
  "(addr \<Rightarrow> int \<Rightarrow> 'b sostate_scheme \<Rightarrow> 'b sostate_scheme) \<Rightarrow> 'a tcprcv_scheme \<Rightarrow> 'b sostate_scheme \<Rightarrow>
   (u32 \<times> 'a tcprcv_scheme \<times> 'b sostate_scheme) option" where
  "present reflect tp s =
     (if \<not> TCPS_HAVEESTABLISHED (tp_state tp) then Some (0, tp, s)
      else case segq tp of
        [] \<Rightarrow> Some (0, tp, s)
      | q # qs \<Rightarrow>
          if ipqe_seq q \<noteq> rcv_nxt tp then Some (0, tp, s)
          else if tp_state tp = TCPS_SYN_RECEIVED \<and> ipqe_len q \<noteq> 0 then Some (0, tp, s)
          else do {
            let tp = tp\<lparr> rcv_nxt := rcv_nxt tp + ipqe_len q, segq := qs, timeq := remove1 (ipqe q) (timeq tp), t_segqlen := t_segqlen tp - 1 \<rparr>;
            if \<not> segq_assert qs tp then None
            else do {
              so \<leftarrow> inp_socket tp;
              s \<leftarrow> deliver reflect so (ipqe_m q) s;
              s \<leftarrow> sorwakeup so s;
              Some (ipqe_flags q AND ucast TH_FIN, tcpipqent_free (ipqe q) tp, s)
            }
          })"

text \<open>From the label \<^verbatim>\<open>insert_it\<close> on: the segment gets an entry, between \<^term>\<open>pre\<close> and \<^term>\<open>post\<close>.\<close>

definition insert_it ::
  "(addr \<Rightarrow> int \<Rightarrow> 'b sostate_scheme \<Rightarrow> 'b sostate_scheme) \<Rightarrow> ipqent list \<Rightarrow> ipqent list \<Rightarrow> rcvseg \<Rightarrow> 'a tcprcv_scheme \<Rightarrow>
   'b sostate_scheme \<Rightarrow> (u32 \<times> 'a tcprcv_scheme \<times> 'b sostate_scheme) option" where
  "insert_it reflect pre post g tp s =
     (case (case tiqe g of Some a \<Rightarrow> Some (a, tp) | None \<Rightarrow> tcpipqent_alloc tp) of
        None \<Rightarrow> do { s \<leftarrow> m_freem (Some (pkt_m g)) s; Some (0, tp\<lparr> segq := pre @ post \<rparr>, s) }
      | Some (a, tp) \<Rightarrow>
          let e = \<lparr> ipqe = a, ipqe_m = pkt_m g, ipre_mlast = pkt_m g, ipqe_seq = pkt_seq g, ipqe_len = pkt_len g, ipqe_flags = pkt_flags g \<rparr>
          in present reflect (tp\<lparr> segq := pre @ e # post, t_segqlen := t_segqlen tp + 1, timeq := a # timeq tp \<rparr>) s)"

text \<open>A segment that continues the last entry, or that goes right before the first one.\<close>

definition append_tail :: "rcvseg \<Rightarrow> 'a tcprcv_scheme \<Rightarrow> 'b mstate_scheme \<Rightarrow> ('a tcprcv_scheme \<times> 'b mstate_scheme) option" where
  "append_tail g tp s =
     do {
       let p = last (segq tp);
       s \<leftarrow> m_cat (ipre_mlast p) (Some (pkt_m g)) s;
       l \<leftarrow> m_last (mbufs s) (ipre_mlast p);
       let p = p\<lparr> ipqe_len := ipqe_len p + pkt_len g, ipqe_flags := ipqe_flags p OR pkt_flags g, ipre_mlast := l \<rparr>;
       Some (tp\<lparr> segq := butlast (segq tp) @ [p], timeq := ipqe p # remove1 (ipqe p) (timeq tp) \<rparr>, s)
     }"

definition prepend_first :: "rcvseg \<Rightarrow> 'a tcprcv_scheme \<Rightarrow> 'b mstate_scheme \<Rightarrow> ('a tcprcv_scheme \<times> 'b mstate_scheme) option" where
  "prepend_first g tp s =
     do {
       let q = hd (segq tp);
       s \<leftarrow> m_cat (pkt_m g) (Some (ipqe_m q)) s;
       l \<leftarrow> m_last (mbufs s) (pkt_m g);
       let q = q\<lparr> ipqe_seq := pkt_seq g, ipqe_len := ipqe_len q + pkt_len g, ipqe_flags := ipqe_flags q OR pkt_flags g,
                  ipqe_m := pkt_m g, ipre_mlast := l \<rparr>;
       Some (tp\<lparr> segq := q # tl (segq tp), timeq := ipqe q # remove1 (ipqe q) (timeq tp) \<rparr>, s)
     }"

definition tcp_reass ::
  "(addr \<Rightarrow> int \<Rightarrow> 'b sostate_scheme \<Rightarrow> 'b sostate_scheme) \<Rightarrow> tcpseg option \<Rightarrow> addr \<Rightarrow> int \<Rightarrow> 'a tcprcv_scheme \<Rightarrow> 'b sostate_scheme \<Rightarrow>
   (u32 \<times> 'a tcprcv_scheme \<times> 'b sostate_scheme) option" where
  "tcp_reass reflect th m tlen tp s =
     (case th of
        None \<Rightarrow> present reflect tp s
      | Some th \<Rightarrow>
          let g = \<lparr> pkt_seq = th_seq th, pkt_len = of_int tlen, pkt_flags = ucast (th_flags th), pkt_m = m, tiqe = None \<rparr>
          in if segq tp \<noteq> [] \<and> pkt_seq g = ipqe_seq (last (segq tp)) + ipqe_len (last (segq tp))
             then do { (tp, s) \<leftarrow> append_tail g tp s; present reflect tp s }
             else if segq tp \<noteq> [] \<and> SEQ_GT (pkt_seq g) (ipqe_seq (last (segq tp)) + ipqe_len (last (segq tp)))
             then insert_it reflect (segq tp) [] g tp s
             else if segq tp \<noteq> [] \<and> pkt_seq g + pkt_len g = ipqe_seq (hd (segq tp))
             then do { (tp, s) \<leftarrow> prepend_first g tp s; present reflect tp s }
             else do {
               (dup, pre, post, g, tp, s) \<leftarrow> seg_scan [] [] (segq tp) g tp s;
               if dup
               then do {
                 let tp = tcp_new_dsack (pkt_seq g) (pkt_len g) tp;
                 s \<leftarrow> m_freem (Some (pkt_m g)) s;
                 let tp = (case tiqe g of None \<Rightarrow> tp | Some a \<Rightarrow> tcpipqent_free a tp);
                 Some (0, tp\<lparr> segq := pre @ post \<rparr>, s)
               }
               else insert_it reflect pre post g tp s
             })"

text \<open>Freeing the queue when the connection is closed.\<close>

fun free_segs :: "ipqent list \<Rightarrow> 'a tcprcv_scheme \<Rightarrow> 'b mstate_scheme \<Rightarrow> ('a tcprcv_scheme \<times> 'b mstate_scheme) option" where
  "free_segs [] tp s = Some (tp, s)"
| "free_segs (q # qs) tp s =
     do {
       s \<leftarrow> m_freem (Some (ipqe_m q)) s;
       free_segs qs (tcpipqent_free (ipqe q) (tp\<lparr> timeq := remove1 (ipqe q) (timeq tp) \<rparr>)) s
     }"

definition tcp_freeq :: "'a tcprcv_scheme \<Rightarrow> 'b mstate_scheme \<Rightarrow> (bool \<times> 'a tcprcv_scheme \<times> 'b mstate_scheme) option" where
  "tcp_freeq tp s =
     do {
       let rv = (segq tp \<noteq> []);
       (tp, s) \<leftarrow> free_segs (segq tp) tp s;
       let tp = tp\<lparr> segq := [], t_segqlen := 0 \<rparr>;
       if timeq tp \<noteq> [] then None else Some (rv, tp, s)
     }"

section \<open>Cutting a segment to the window\<close>

text \<open>What \<^verbatim>\<open>tcp_input\<close> knows of the segment: the header, the flags that are still to be processed, the length of the data, the
  bytes to drop from the front of the packet, and whether all of it was a duplicate.\<close>

record segin =
  si_th :: tcpseg
  tiflags :: "8 word"
  tlen :: int
  hdroptlen :: int
  dupseg :: bool

text \<open>Where the code goes on.  The connection is closed by the code at the two exits that say so.\<close>

datatype trim_exit = Continue | Drop | DropAfterAck | DropAfterAckRatelim | CloseDropWithReset | CloseFindPcb

definition drop_urp :: "int \<Rightarrow> segin \<Rightarrow> segin" where
  "drop_urp n i =
     (if uint (th_urp (si_th i)) > n then i\<lparr> si_th := (si_th i)\<lparr> th_urp := th_urp (si_th i) - of_int n \<rparr> \<rparr>
      else i\<lparr> tiflags := tiflags i AND NOT TH_URG, si_th := (si_th i)\<lparr> th_urp := 0 \<rparr> \<rparr>)"

text \<open>Data before the window.\<close>

definition drop_front :: "segin \<Rightarrow> 'a tcprcv_scheme \<Rightarrow> trim_exit \<times> segin \<times> 'a tcprcv_scheme" where
  "drop_front i tp =
     (let todrop = sint (rcv_nxt tp - th_seq (si_th i))
      in if todrop \<le> 0 then (Continue, i\<lparr> dupseg := False \<rparr>, tp)
         else let (todrop, i) =
                    (if tiflags i AND TH_SYN \<noteq> 0
                     then (todrop - 1, drop_urp 1 (i\<lparr> dupseg := False, tiflags := tiflags i AND NOT TH_SYN,
                             si_th := (si_th i)\<lparr> th_seq := th_seq (si_th i) + 1 \<rparr> \<rparr>))
                     else (todrop, i\<lparr> dupseg := False \<rparr>));
                  finish = (\<lambda>todrop i tp. (Continue,
                    drop_urp todrop (i\<lparr> hdroptlen := hdroptlen i + todrop, tlen := tlen i - todrop,
                      si_th := (si_th i)\<lparr> th_seq := th_seq (si_th i) + of_int todrop \<rparr> \<rparr>),
                    tcp_new_dsack (th_seq (si_th i)) (of_int todrop) tp))
              in if todrop > tlen i \<or> todrop = tlen i \<and> tiflags i AND TH_FIN = 0
                 then if tiflags i AND TH_RST \<noteq> 0 then (Drop, i, tp)
                      else finish (tlen i) (i\<lparr> tiflags := tiflags i AND NOT (TH_FIN OR TH_RST), dupseg := True \<rparr>)
                             (tp\<lparr> t_flags := t_flags tp OR TF_ACKNOW \<rparr>)
                 else if tiflags i AND TH_RST \<noteq> 0 \<and> th_seq (si_th i) \<noteq> rcv_nxt tp then (DropAfterAckRatelim, i, tp)
                 else finish todrop i tp)"

text \<open>Data behind the window.  The difference is computed with 64 bits and then becomes an \<^verbatim>\<open>int\<close>.\<close>

definition drop_back :: "addr \<Rightarrow> segin \<Rightarrow> 'a tcprcv_scheme \<Rightarrow> 'b mstate_scheme \<Rightarrow> (trim_exit \<times> segin \<times> 'a tcprcv_scheme \<times> 'b mstate_scheme) option" where
  "drop_back m i tp s =
     (let th = si_th i;
          todrop = sint (ucast (ucast (th_seq th + of_int (tlen i)) - (ucast (rcv_nxt tp) + rcv_wnd tp)) :: u32);
          cut = (\<lambda>tp. do {
            s \<leftarrow> m_adj (Some m) (- todrop) s;
            Some (Continue, i\<lparr> tlen := tlen i - todrop, tiflags := tiflags i AND NOT (TH_PUSH OR TH_FIN) \<rparr>, tp, s)
          })
      in if todrop \<le> 0 then Some (Continue, i, tp, s)
         else if todrop \<ge> tlen i
         then if tiflags i AND TH_SYN \<noteq> 0 \<and> tp_state tp = TCPS_TIME_WAIT \<and> SEQ_GT (th_seq th) (rcv_nxt tp) then Some (CloseFindPcb, i, tp, s)
              else if rcv_wnd tp = 0 \<and> th_seq th = rcv_nxt tp then cut (tp\<lparr> t_flags := t_flags tp OR TF_ACKNOW \<rparr>)
              else Some (DropAfterAck, i, tp, s)
         else cut tp)"

definition trim_segment ::
  "addr \<Rightarrow> addr \<Rightarrow> segin \<Rightarrow> 'a tcprcv_scheme \<Rightarrow> 'b sostate_scheme \<Rightarrow> (trim_exit \<times> segin \<times> 'a tcprcv_scheme \<times> 'b sostate_scheme) option" where
  "trim_segment so m i tp s =
     (case drop_front i tp of (exit, i, tp) \<Rightarrow>
        if exit \<noteq> Continue then Some (exit, i, tp, s)
        else if so_is SS_NOFDREF so s \<and> tp_state tp > TCPS_CLOSE_WAIT \<and> tlen i \<noteq> 0 then Some (CloseDropWithReset, i, tp, s)
        else drop_back m i tp s)"

section \<open>The text of a segment\<close>

definition tcp_setup_ack :: "bool \<Rightarrow> tcpseg \<Rightarrow> 'a tcprcv_scheme \<Rightarrow> 'a tcprcv_scheme" where
  "tcp_setup_ack tcp_ack_on_push th tp =
     (if t_flags tp AND TF_DELACK \<noteq> 0 \<or> tcp_ack_on_push \<and> th_flags th AND TH_PUSH \<noteq> 0 then tp\<lparr> t_flags := t_flags tp OR TF_ACKNOW \<rparr>
      else tp\<lparr> t_flags := t_flags tp OR TF_DELACK, delack_armed := True \<rparr>)"

text \<open>The label \<^verbatim>\<open>dodata\<close>, up to the processing of the FIN.\<close>

definition dodata ::
  "(addr \<Rightarrow> int \<Rightarrow> 'b sostate_scheme \<Rightarrow> 'b sostate_scheme) \<Rightarrow> bool \<Rightarrow> addr \<Rightarrow> addr \<Rightarrow> segin \<Rightarrow> 'a tcprcv_scheme \<Rightarrow> 'b sostate_scheme \<Rightarrow>
   (8 word \<times> 'a tcprcv_scheme \<times> 'b sostate_scheme) option" where
  "dodata reflect tcp_ack_on_push so m i tp s =
     (let th = si_th i
      in if (tlen i \<noteq> 0 \<or> tiflags i AND TH_FIN \<noteq> 0) \<and> \<not> TCPS_HAVERCVDFIN (tp_state tp)
         then if th_seq th = rcv_nxt tp \<and> segq tp = [] \<and> tp_state tp = TCPS_ESTABLISHED
              then do {
                let tp = tcp_setup_ack tcp_ack_on_push th tp;
                let tp = tp\<lparr> rcv_nxt := rcv_nxt tp + of_int (tlen i) \<rparr>;
                s \<leftarrow> (if so_is SS_CANTRCVMORE so s then m_freem (Some m) s
                      else do { s \<leftarrow> m_adj (Some m) (hdroptlen i) s; deliver reflect so m s });
                s \<leftarrow> sorwakeup so s;
                Some (th_flags th AND TH_FIN, tp, s)
              }
              else do {
                s \<leftarrow> m_adj (Some m) (hdroptlen i) s;
                (flags, tp, s) \<leftarrow> tcp_reass reflect (Some th) m (tlen i) tp s;
                Some (ucast flags, tp\<lparr> t_flags := t_flags tp OR TF_ACKNOW \<rparr>, s)
              }
         else do { s \<leftarrow> m_freem (Some m) s; Some (tiflags i AND NOT TH_FIN, tp, s) })"

text \<open>The blocks of a SACK option: the duplicate first, then the entries of the queue from the newest on.\<close>

definition entry_of :: "ipqent list \<Rightarrow> addr \<Rightarrow> ipqent option" where "entry_of qs a = List.find (\<lambda>q. ipqe q = a) qs"

fun queue_blks :: "ipqent list \<Rightarrow> addr list \<Rightarrow> nat \<Rightarrow> sackblk list option" where
  "queue_blks qs as 0 = Some []"
| "queue_blks qs [] (Suc n) = None"
| "queue_blks qs (a # as) (Suc n) =
     do {
       q \<leftarrow> entry_of qs a;
       bs \<leftarrow> queue_blks qs as n;
       Some (\<lparr> left = ipqe_seq q, right = ipqe_seq q + ipqe_len q + (if ipqe_flags q AND ucast TH_FIN \<noteq> 0 then 1 else 0) \<rparr> # bs)
     }"

definition sack_blks :: "nat \<Rightarrow> 'a tcprcv_scheme \<Rightarrow> (sackblk list \<times> 'a tcprcv_scheme) option" where
  "sack_blks sack_numblks tp =
     (if rcv_sack_flags tp AND TCPSACK_HAVED \<noteq> 0
      then do {
        bs \<leftarrow> queue_blks (segq tp) (timeq tp) (sack_numblks - 1);
        Some (rcv_dsack_block tp # bs, tp\<lparr> rcv_sack_flags := rcv_sack_flags tp AND NOT TCPSACK_HAVED \<rparr>)
      }
      else do { bs \<leftarrow> queue_blks (segq tp) (timeq tp) sack_numblks; Some (bs, tp) })"

end
