(* ===== verification/Spec2Isabelle.thy ===== *)
theory Spec2Isabelle
  imports Rte_Ring Rte_Mbuf Mbuf Callout Softint Poll Subr_Misc Ready_Queues Socket_Errors App_Rings In_Cksum Tcp_Sack Tcp_Congctl Ip_Reass Tcp_Reass
begin

text \<open>
  A verification of the NetBSD TCP/IP stack ported to user space over DPDK.
\<close>

end
